(* ===== verification/Prelude.thy ===== *)
theory Prelude
  imports "HOL-Library.Word"
begin

text \<open>
  The shared vocabulary of the development: the machine integer types of the code, the
  error values, the cursor every decoder reads from with the combinators that thread it,
  and the codec interface (an encoder, a decoder and the laws their clients rely on).

  A raw pointer \<open>const uint8_t**\<close> of the code is the list of the bytes that can be read
  from it; reading past that list, which is undefined in C++, is the error value
  \<open>Undefined_Behaviour\<close>.
\<close>

unbundle bit_operations_syntax

named_theorems decoding \<open>equations that run decoders on encoded input\<close>
named_theorems accounting \<open>equations for sizes and byte counters\<close>

section \<open>Machine integers\<close>

type_synonym byte = "8 word"
type_synonym u16 = "16 word"
type_synonym u24 = "24 word"
type_synonym u32 = "32 word"
type_synonym u64 = "64 word"
type_synonym i64 = "64 word"

type_synonym bytes = "byte list"

text \<open>The two's complement reading of a 64-bit value orders the timestamps.\<close>

definition i64_less :: "i64 \<Rightarrow> i64 \<Rightarrow> bool" where
  "i64_less a b \<longleftrightarrow> sint a < sint b"

lemma i64_less_irrefl [simp]: "\<not> i64_less a a"
  by (simp add: i64_less_def)

lemma i64_less_trans: "i64_less a b \<Longrightarrow> i64_less b c \<Longrightarrow> i64_less a c"
  by (simp add: i64_less_def)

lemma i64_less_asym: "i64_less a b \<Longrightarrow> \<not> i64_less b a"
  by (simp add: i64_less_def)

lemma i64_less_linear: "i64_less a b \<or> a = b \<or> i64_less b a"
  unfolding i64_less_def by (metis linorder_neqE signed_word_eqI)

lemma unat_of_nat64 [simp]: "n < 2 ^ 64 \<Longrightarrow> unat (of_nat n :: u64) = n"
  by (simp add: unat_of_nat)

lemma unat_ucast_up:
  assumes "LENGTH('a::len) \<le> LENGTH('b::len)"
  shows "unat (ucast (w :: 'a word) :: 'b word) = unat w"
proof -
  have "unat w < 2 ^ LENGTH('b)"
    using assms by (intro less_le_trans [OF unsigned_less]) simp
  then show ?thesis by (simp add: unsigned_ucast_eq unsigned_take_bit_eq take_bit_nat_eq_self)
qed

section \<open>Errors\<close>

datatype err =
    UNPOSSIBLE
  | SERIALIZATION_INPUT_OVERRUN
  | ENCODER_DECODE
  | PROTOCOL_ERROR
  | Undefined_Behaviour

type_synonym 'a res = "err + 'a"

definition res_bind :: "'a res \<Rightarrow> ('a \<Rightarrow> 'b res) \<Rightarrow> 'b res" where
  "res_bind m f = (case m of Inl e \<Rightarrow> Inl e | Inr x \<Rightarrow> f x)"

lemma res_bind_simps [simp]:
  "res_bind (Inl e) f = Inl e"
  "res_bind (Inr x) f = f x"
  by (simp_all add: res_bind_def)

lemma res_bind_Inr_iff [simp]:
  "res_bind m f = Inr y \<longleftrightarrow> (\<exists>x. m = Inr x \<and> f x = Inr y)"
  by (cases m) auto

lemma res_bind_assoc: "res_bind (res_bind m f) g = res_bind m (\<lambda>x. res_bind (f x) g)"
  by (cases m) auto

lemma res_bind_cong [fundef_cong]:
  "m = n \<Longrightarrow> (\<And>x. n = Inr x \<Longrightarrow> f x = g x) \<Longrightarrow> res_bind m f = res_bind n g"
  by (cases n) auto

section \<open>Decoders\<close>

text \<open>
  The decoders of the code take the read pointer and the number of bytes that remain
  (\<open>const uint8_t** bufp, size_t* remainp\<close>). Most of them check and decrease the second
  before they advance the first, but some read through the pointer alone, so both are
  kept: \<open>mem\<close> is the memory readable at \<open>*bufp\<close>, \<open>remain\<close> is \<open>*remainp\<close>.
\<close>

record reader =
  mem :: bytes
  remain :: u64

type_synonym 'a decoder = "reader \<Rightarrow> ('a \<times> reader) res"

definition dret :: "'a \<Rightarrow> 'a decoder" where
  "dret x r = Inr (x, r)"

definition dfail :: "err \<Rightarrow> 'a decoder" where
  "dfail e r = Inl e"

definition dbind :: "'a decoder \<Rightarrow> ('a \<Rightarrow> 'b decoder) \<Rightarrow> 'b decoder" where
  "dbind m f r = (case m r of Inl e \<Rightarrow> Inl e | Inr (x, r') \<Rightarrow> f x r')"

lemma dret_apply [simp]: "dret x r = Inr (x, r)"
  by (simp add: dret_def)

lemma dfail_apply [simp]: "dfail e r = Inl e"
  by (simp add: dfail_def)

lemma dbind_Inr [simp]: "m r = Inr (x, r') \<Longrightarrow> dbind m f r = f x r'"
  by (simp add: dbind_def)

lemma dbind_Inl [simp]: "m r = Inl e \<Longrightarrow> dbind m f r = Inl e"
  by (simp add: dbind_def)

lemma dbind_InrE:
  assumes "dbind m f r = Inr (y, r'')"
  obtains x r' where "m r = Inr (x, r')" and "f x r' = Inr (y, r'')"
  using assms by (auto simp: dbind_def split: sum.splits)

text \<open>Copying \<open>n\<close> bytes through the pointer, with no look at what remains.\<close>

definition read_raw :: "nat \<Rightarrow> bytes decoder" where
  "read_raw n r =
     (if n \<le> length (mem r) then Inr (take n (mem r), r\<lparr>mem := drop n (mem r)\<rparr>)
      else Inl Undefined_Behaviour)"

lemma read_raw_append [simp]:
  "length xs = n \<Longrightarrow> read_raw n \<lparr>mem = xs @ ys, remain = k\<rparr> = Inr (xs, \<lparr>mem = ys, remain = k\<rparr>)"
  by (simp add: read_raw_def)

text \<open>
  Safety on arbitrary input: given a pointer that does have \<open>*remainp\<close> bytes behind it, the
  decoder never reads past them, and what it takes off the count is what it advanced.
\<close>

definition reader_ok :: "reader \<Rightarrow> bool" where
  "reader_ok r \<longleftrightarrow> unat (remain r) \<le> length (mem r)"

definition consumes :: "reader \<Rightarrow> reader \<Rightarrow> bool" where
  "consumes r r' \<longleftrightarrow> (\<exists>k. mem r' = drop k (mem r) \<and> unat (remain r) = k + unat (remain r'))"

definition safe_dec :: "'a decoder \<Rightarrow> bool" where
  "safe_dec dec \<longleftrightarrow> (\<forall>r. reader_ok r \<longrightarrow>
     (case dec r of Inl e \<Rightarrow> e \<noteq> Undefined_Behaviour | Inr (x, r') \<Rightarrow> consumes r r'))"

lemma consumes_refl [simp]: "consumes r r"
  by (auto simp: consumes_def intro!: exI [of _ 0])

lemma consumes_trans: "consumes r r' \<Longrightarrow> consumes r' r'' \<Longrightarrow> consumes r r''"
proof -
  assume "consumes r r'" and "consumes r' r''"
  then obtain j k where "mem r' = drop j (mem r)" "unat (remain r) = j + unat (remain r')"
    "mem r'' = drop k (mem r')" "unat (remain r') = k + unat (remain r'')"
    by (auto simp: consumes_def)
  then have "mem r'' = drop (k + j) (mem r) \<and> unat (remain r) = (k + j) + unat (remain r'')"
    by simp
  then show ?thesis unfolding consumes_def by blast
qed

lemma consumes_ok: "consumes r r' \<Longrightarrow> reader_ok r \<Longrightarrow> reader_ok r'"
  by (auto simp: consumes_def reader_ok_def)

lemma safe_decI:
  assumes "\<And>r e. reader_ok r \<Longrightarrow> dec r = Inl e \<Longrightarrow> e \<noteq> Undefined_Behaviour"
    and "\<And>r x r'. reader_ok r \<Longrightarrow> dec r = Inr (x, r') \<Longrightarrow> consumes r r'"
  shows "safe_dec dec"
  using assms by (fastforce simp: safe_dec_def split: sum.splits)

lemma safe_decD:
  assumes "safe_dec dec" and "reader_ok r"
  shows "dec r \<noteq> Inl Undefined_Behaviour"
    and "dec r = Inr (x, r') \<Longrightarrow> consumes r r'"
  using assms by (auto simp: safe_dec_def split: sum.splits)

lemma safe_dret [intro]: "safe_dec (dret x)"
  by (rule safe_decI) auto

lemma safe_dbind [intro]:
  assumes m: "safe_dec m" and f: "\<And>x. safe_dec (f x)"
  shows "safe_dec (dbind m f)"
proof (rule safe_decI)
  fix r e assume ok: "reader_ok r" and *: "dbind m f r = Inl e"
  show "e \<noteq> Undefined_Behaviour"
  proof (cases "m r")
    case (Inl e')
    then show ?thesis using * safe_decD(1) [OF m ok] by auto
  next
    case (Inr xr)
    then obtain x r' where xr: "m r = Inr (x, r')" by (cases xr) auto
    then have "reader_ok r'" using safe_decD(2) [OF m ok] consumes_ok ok by blast
    then show ?thesis using * xr safe_decD(1) [OF f] by auto
  qed
next
  fix r y r'' assume ok: "reader_ok r" and "dbind m f r = Inr (y, r'')"
  then obtain x r' where 1: "m r = Inr (x, r')" and 2: "f x r' = Inr (y, r'')"
    by (auto elim: dbind_InrE)
  then have 3: "consumes r r'" using safe_decD(2) [OF m ok] by blast
  then have "consumes r' r''" using safe_decD(2) [OF f] 2 consumes_ok ok by blast
  with 3 show "consumes r r''" by (rule consumes_trans)
qed

section \<open>Little-endian images\<close>

text \<open>
  \<open>memcpy\<close> of the first \<open>n\<close> bytes of an integer object, on a little-endian target, and
  the copy back into an object that was zero.
\<close>

fun le_bytes :: "nat \<Rightarrow> 'a::len word \<Rightarrow> bytes" where
  "le_bytes 0 v = []"
| "le_bytes (Suc n) v = ucast v # le_bytes n (drop_bit 8 v)"

fun le_word :: "bytes \<Rightarrow> 'a::len word" where
  "le_word [] = 0"
| "le_word (b # bs) = ucast b OR push_bit 8 (le_word bs)"

lemma length_le_bytes [simp]: "length (le_bytes n v) = n"
  by (induction n arbitrary: v) auto

lemma le_word_le_bytes_take:
  fixes v :: "'a::len word"
  shows "le_word (le_bytes n v) = take_bit (8 * n) v"
proof (induction n arbitrary: v)
  case 0
  then show ?case by simp
next
  case (Suc n)
  show ?case
  proof (rule bit_word_eqI)
    fix i assume "i < LENGTH('a)"
    then show "bit (le_word (le_bytes (Suc n) v) :: 'a word) i = bit (take_bit (8 * Suc n) v) i"
      by (auto simp: Suc bit_or_iff bit_push_bit_iff bit_take_bit_iff bit_drop_bit_eq
          bit_ucast_iff)
  qed
qed

lemma take_bit_fits:
  fixes v :: "'a::len word"
  assumes "unat v < 2 ^ m"
  shows "take_bit m v = v"
proof -
  have "unat (take_bit m v) = unat v"
    using assms by (simp add: unsigned_take_bit_eq take_bit_nat_eq_self)
  then show ?thesis by (rule unsigned_word_eqI)
qed

lemma le_word_le_bytes [simp]:
  fixes v :: "'a::len word"
  assumes "unat v < 2 ^ (8 * n)"
  shows "le_word (le_bytes n v) = v"
  using take_bit_fits [OF assms] by (simp add: le_word_le_bytes_take)

lemma unat_fits [simp]: "LENGTH('a::len) \<le> m \<Longrightarrow> unat (v :: 'a word) < 2 ^ m"
  by (rule less_le_trans [OF unsigned_less]) simp

section \<open>Decoding what was encoded\<close>

text \<open>
  \<open>decodes dec bs v\<close>: on a buffer that starts with \<open>bs\<close> and has room for it, the decoder returns
  \<open>v\<close>, leaves the pointer right behind \<open>bs\<close> and takes its length off the remaining count.
\<close>

definition decodes :: "'a decoder \<Rightarrow> bytes \<Rightarrow> 'a \<Rightarrow> bool" where
  "decodes dec bs v \<longleftrightarrow> (\<forall>n rest. length bs \<le> unat n \<longrightarrow>
     dec \<lparr>mem = bs @ rest, remain = n\<rparr> = Inr (v, \<lparr>mem = rest, remain = n - of_nat (length bs)\<rparr>))"

lemma decodesD:
  "decodes dec bs v \<Longrightarrow> length bs \<le> unat n \<Longrightarrow>
    dec \<lparr>mem = bs @ rest, remain = n\<rparr> = Inr (v, \<lparr>mem = rest, remain = n - of_nat (length bs)\<rparr>)"
  by (simp add: decodes_def)

lemma decodes_dret [intro]: "decodes (dret v) [] v"
  by (simp add: decodes_def)

lemma unat_sub_of_nat: "k \<le> unat (n :: u64) \<Longrightarrow> unat (n - of_nat k) = unat n - k"
proof -
  assume k: "k \<le> unat n"
  then have "k < 2 ^ 64" using unsigned_less [of n, where ?'a = nat] by simp
  then have "unat (of_nat k :: u64) = k" by (rule unat_of_nat64)
  with k show ?thesis by (simp add: unat_sub word_le_nat_alt)
qed

lemma decodes_dbind:
  assumes m: "decodes m bs x" and f: "decodes (f x) cs y"
  shows "decodes (dbind m f) (bs @ cs) y"
  unfolding decodes_def
proof (intro allI impI)
  fix n :: u64 and rest assume n: "length (bs @ cs) \<le> unat n"
  have "m \<lparr>mem = bs @ cs @ rest, remain = n\<rparr>
      = Inr (x, \<lparr>mem = cs @ rest, remain = n - of_nat (length bs)\<rparr>)"
    using n by (intro decodesD [OF m]) simp
  moreover have "f x \<lparr>mem = cs @ rest, remain = n - of_nat (length bs)\<rparr>
      = Inr (y, \<lparr>mem = rest, remain = n - of_nat (length bs) - of_nat (length cs)\<rparr>)"
    using n by (intro decodesD [OF f]) (simp add: unat_sub_of_nat)
  ultimately show "dbind m f \<lparr>mem = (bs @ cs) @ rest, remain = n\<rparr>
      = Inr (y, \<lparr>mem = rest, remain = n - of_nat (length (bs @ cs))\<rparr>)"
    by (simp add: diff_diff_eq)
qed

text \<open>A decoder that is the last one of a chain, with a pure step behind it.\<close>

lemma decodes_dbind_dret: "decodes m bs x \<Longrightarrow> decodes (dbind m (\<lambda>x. dret (g x))) bs (g x)"
  using decodes_dbind [of m bs x "\<lambda>x. dret (g x)" "[]"] by auto

text \<open>A counted sequence: the loop that reads \<open>n\<close> elements one after the other.\<close>

fun decode_n :: "nat \<Rightarrow> 'a decoder \<Rightarrow> 'a list decoder" where
  "decode_n 0 dec = dret []"
| "decode_n (Suc n) dec = dbind dec (\<lambda>x. dbind (decode_n n dec) (\<lambda>xs. dret (x # xs)))"

lemma decodes_decode_n:
  assumes "\<And>x. x \<in> set xs \<Longrightarrow> decodes dec (enc x) (view x)"
  shows "decodes (decode_n (length xs) dec) (concat (map enc xs)) (map view xs)"
  using assms
proof (induction xs)
  case (Cons x xs)
  have "decodes (dbind (decode_n (length xs) dec) (\<lambda>xs. dret (view x # xs)))
      (concat (map enc xs)) (view x # map view xs)"
    using Cons by (intro decodes_dbind_dret [where g = "\<lambda>xs. view x # xs"] Cons.IH) simp
  then show ?case using Cons.prems [of x] decodes_dbind by simp
qed auto

section \<open>The codec interface\<close>

text \<open>
  What a client of an encoder and its decoder relies on: the announced length is the
  length written (buffers are allocated from it), and decoding what was written gives the
  value back, leaves the pointer right behind it and takes the same number of bytes off
  the remaining count. \<open>ok\<close> is the set of values the encoder is meant for, \<open>view\<close> what a
  reader sees of a value (the identity for most codecs).
\<close>

locale codec =
  fixes enc :: "'a \<Rightarrow> bytes"
    and dec :: "'b decoder"
    and len :: "'a \<Rightarrow> nat"
    and ok :: "'a \<Rightarrow> bool"
    and view :: "'a \<Rightarrow> 'b"
  assumes enc_len: "ok x \<Longrightarrow> length (enc x) = len x"
    and dec_enc: "ok x \<Longrightarrow> len x \<le> unat n \<Longrightarrow>
      dec \<lparr>mem = enc x @ rest, remain = n\<rparr> = Inr (view x, \<lparr>mem = rest, remain = n - of_nat (len x)\<rparr>)"
begin

lemma decodes_enc: "ok x \<Longrightarrow> decodes dec (enc x) (view x)"
  by (simp add: decodes_def enc_len dec_enc)

lemma enc_prefix_free:
  assumes "ok x" and "ok y" and "enc x @ rs = enc y @ ss"
    and "len x < 2 ^ 64" and "len y < 2 ^ 64"
  shows "view x = view y \<and> rs = ss"
proof -
  let ?n = "of_nat (max (len x) (len y)) :: u64"
  have n: "unat ?n = max (len x) (len y)"
    using assms(4,5) by (simp add: unat_of_nat64)
  have "dec \<lparr>mem = enc x @ rs, remain = ?n\<rparr>
      = Inr (view x, \<lparr>mem = rs, remain = ?n - of_nat (len x)\<rparr>)"
    using assms(1) n by (intro dec_enc) auto
  moreover have "dec \<lparr>mem = enc y @ ss, remain = ?n\<rparr>
      = Inr (view y, \<lparr>mem = ss, remain = ?n - of_nat (len y)\<rparr>)"
    using assms(2) n by (intro dec_enc) auto
  ultimately show ?thesis using assms(3) by simp
qed

end

text \<open>
  A loop \<open>while(remain) read an element\<close>, as the code runs it over a block of cells: the
  fuel is a bound on the number of elements, \<open>None\<close> stands for running past it.
\<close>

fun read_while :: "nat \<Rightarrow> 'b decoder \<Rightarrow> reader \<Rightarrow> 'b list res option" where
  "read_while 0 dec r = (if remain r = 0 then Some (Inr []) else None)"
| "read_while (Suc fuel) dec r =
     (if remain r = 0 then Some (Inr [])
      else (case dec r of
              Inl e \<Rightarrow> Some (Inl e)
            | Inr (x, r') \<Rightarrow> map_option (\<lambda>y. res_bind y (\<lambda>xs. Inr (x # xs))) (read_while fuel dec r')))"

locale codec_pos = codec +
  assumes len_pos: "ok x \<Longrightarrow> 0 < len x"
begin

lemma read_while_concat:
  assumes "\<forall>x \<in> set xs. ok x"
    and "unat n = sum_list (map len xs)"
    and "length xs \<le> fuel"
  shows "read_while fuel dec \<lparr>mem = concat (map enc xs) @ rest, remain = n\<rparr>
    = Some (Inr (map view xs))"
  using assms
proof (induction xs arbitrary: n fuel)
  case Nil
  then have "n = 0" by (simp add: unat_eq_zero)
  then show ?case by (cases fuel) auto
next
  case (Cons x xs)
  then obtain f where f: "fuel = Suc f" by (cases fuel) auto
  from Cons.prems have x: "ok x" and le: "len x \<le> unat n" by auto
  from x have "0 < len x" by (rule len_pos)
  with le have "n \<noteq> 0" by auto
  have small: "len x < 2 ^ 64"
    using le unsigned_less [of n, where ?'a = nat] by simp
  then have "of_nat (len x) \<le> n"
    using le by (simp add: word_le_nat_alt unat_of_nat64)
  then have "unat (n - of_nat (len x)) = sum_list (map len xs)"
    using Cons.prems(2) small by (simp add: unat_sub unat_of_nat64)
  moreover have "\<forall>x \<in> set xs. ok x" and "length xs \<le> f"
    using Cons.prems f by auto
  ultimately have "read_while f dec \<lparr>mem = concat (map enc xs) @ rest, remain = n - of_nat (len x)\<rparr>
      = Some (Inr (map view xs))"
    by (intro Cons.IH)
  then show ?case
    using f \<open>n \<noteq> 0\<close> dec_enc [OF x le, of "concat (map enc xs) @ rest"] by simp
qed

end

end
