(* ===== verification/Serialization.thy ===== *)
theory Serialization
  imports Prelude
begin

text \<open>
  The primitives of src/src/cc/include/swcdb/core/Serialization.h: fixed width integers,
  the 7-bit varints of 24, 32 and 64 bits, the length-tagged "fixed" varints, doubles and
  byte strings.

  An encoder returns the bytes it stores through \<open>*bufp\<close>; nothing checks the room left in
  the buffer, so the announced \<open>encoded_length_*\<close> has to be exact, which is proved (and for
  \<open>encode_fixed_vi64\<close> refuted at three values). A decoder works on a \<open>reader\<close>. The target
  is little-endian and \<open>long double\<close> is its 16-byte image, as on the supported x86-64.
\<close>

section \<open>Limits\<close>

definition MAX_V1B :: "'a::len word" where "MAX_V1B = 0x7f"
definition MAX_V2B :: "'a::len word" where "MAX_V2B = 0x3fff"
definition MAX_V3B :: "'a::len word" where "MAX_V3B = 0x1fffff"
definition MAX_V4B :: "'a::len word" where "MAX_V4B = 0x0fffffff"
definition MAX_V5B :: "'a::len word" where "MAX_V5B = 0x07ffffffff"
definition MAX_V6B :: "'a::len word" where "MAX_V6B = 0x03ffffffffff"
definition MAX_V7B :: "'a::len word" where "MAX_V7B = 0x01ffffffffffff"
definition MAX_V8B :: "'a::len word" where "MAX_V8B = 0x00ffffffffffffff"
definition MAX_V9B :: "'a::len word" where "MAX_V9B = 0x7fffffffffffffff"

lemmas max_vb_defs = MAX_V1B_def MAX_V2B_def MAX_V3B_def MAX_V4B_def MAX_V5B_def
  MAX_V6B_def MAX_V7B_def MAX_V8B_def MAX_V9B_def

section \<open>Counting down what remains\<close>

definition decode_needed_one :: "unit decoder" where
  "decode_needed_one r =
     (if remain r = 0 then Inl SERIALIZATION_INPUT_OVERRUN
      else Inr ((), r\<lparr>remain := remain r - 1\<rparr>))"

definition decode_needed :: "u64 \<Rightarrow> unit decoder" where
  "decode_needed len r =
     (if remain r < len then Inl SERIALIZATION_INPUT_OVERRUN
      else Inr ((), r\<lparr>remain := remain r - len\<rparr>))"

section \<open>Fixed width values\<close>

definition encode_i8 :: "byte \<Rightarrow> bytes" where
  "encode_i8 val = [val]"

definition decode_i8 :: "byte decoder" where
  "decode_i8 = dbind decode_needed_one (\<lambda>_. dbind (read_raw 1) (\<lambda>bs. dret (hd bs)))"

definition decode_byte :: "byte decoder" where
  "decode_byte = decode_i8"

definition encode_bool :: "bool \<Rightarrow> bytes" where
  "encode_bool bval = encode_i8 (if bval then 1 else 0)"

definition decode_bool :: "bool decoder" where
  "decode_bool = dbind decode_i8 (\<lambda>b. dret (b \<noteq> 0))"

definition encode_i16 :: "u16 \<Rightarrow> bytes" where
  "encode_i16 val = le_bytes 2 val"

definition decode_i16 :: "u16 decoder" where
  "decode_i16 = dbind (decode_needed 2) (\<lambda>_. dbind (read_raw 2) (\<lambda>bs. dret (le_word bs)))"

definition encode_i24 :: "u24 \<Rightarrow> bytes" where
  "encode_i24 val = le_bytes 3 val"

definition decode_i24 :: "u24 decoder" where
  "decode_i24 = dbind (decode_needed 3) (\<lambda>_. dbind (read_raw 3) (\<lambda>bs. dret (le_word bs)))"

definition encode_i32 :: "u32 \<Rightarrow> bytes" where
  "encode_i32 val = le_bytes 4 val"

definition decode_i32 :: "u32 decoder" where
  "decode_i32 = dbind (decode_needed 4) (\<lambda>_. dbind (read_raw 4) (\<lambda>bs. dret (le_word bs)))"

definition encode_i64 :: "u64 \<Rightarrow> bytes" where
  "encode_i64 val = le_bytes 8 val"

definition decode_i64 :: "u64 decoder" where
  "decode_i64 = dbind (decode_needed 8) (\<lambda>_. dbind (read_raw 8) (\<lambda>bs. dret (le_word bs)))"

lemmas fixed_width_defs =
  encode_i8_def decode_i8_def decode_byte_def encode_bool_def decode_bool_def
  encode_i16_def decode_i16_def encode_i24_def decode_i24_def
  encode_i32_def decode_i32_def encode_i64_def decode_i64_def

section \<open>Varints\<close>

text \<open>
  \<open>SWC_ENCODE_VI_0\<close> followed by \<open>k\<close> copies of \<open>SWC_ENCODE_VI_1\<close> and the throw: a value of
  at most 7 bits is stored and ends it, a larger one is stored as its low bits with the
  high bit set and shifted.
\<close>

fun SWC_ENCODE_VI :: "nat \<Rightarrow> 'a::len word \<Rightarrow> bytes res" where
  "SWC_ENCODE_VI 0 v = (if v \<le> MAX_V1B then Inr [ucast v] else Inl UNPOSSIBLE)"
| "SWC_ENCODE_VI (Suc k) v =
     (if v \<le> MAX_V1B then Inr [ucast v]
      else res_bind (SWC_ENCODE_VI k (drop_bit 7 v)) (\<lambda>bs. Inr (ucast (v OR 0x80) # bs)))"

text \<open>\<open>k\<close> copies of \<open>SWC_DECODE_VI_1\<close> with the shift going up by seven, and the throw.\<close>

fun SWC_DECODE_VI :: "nat \<Rightarrow> nat \<Rightarrow> 'a::len word \<Rightarrow> 'a word decoder" where
  "SWC_DECODE_VI 0 shift n r = Inl SERIALIZATION_INPUT_OVERRUN"
| "SWC_DECODE_VI (Suc k) shift n r =
     (case decode_i8 r of
        Inl e \<Rightarrow> Inl e
      | Inr (b, r') \<Rightarrow>
          (let n' = n OR push_bit shift (ucast (b AND 0x7f))
           in if b AND 0x80 = 0 then Inr (n', r') else SWC_DECODE_VI k (shift + 7) n' r'))"

definition encoded_length_vi24 :: "u24 \<Rightarrow> nat" where
  "encoded_length_vi24 val =
     (if val \<le> MAX_V1B then 1 else if val \<le> MAX_V2B then 2
      else if val \<le> MAX_V3B then 3 else 4)"

definition encode_vi24 :: "u24 \<Rightarrow> bytes res" where
  "encode_vi24 val = SWC_ENCODE_VI 3 val"

definition decode_vi24 :: "u24 decoder" where
  "decode_vi24 = SWC_DECODE_VI 4 0 0"

text \<open>The overloads without \<open>remainp\<close> start from a local count and drop it.\<close>

definition decode_vi24_ptr :: "bytes \<Rightarrow> (u24 \<times> bytes) res" where
  "decode_vi24_ptr p =
     res_bind (decode_vi24 \<lparr>mem = p, remain = 4\<rparr>) (\<lambda>(v, r). Inr (v, mem r))"

definition encoded_length_vi32 :: "u32 \<Rightarrow> nat" where
  "encoded_length_vi32 val =
     (if val \<le> MAX_V1B then 1 else if val \<le> MAX_V2B then 2
      else if val \<le> MAX_V3B then 3 else if val \<le> MAX_V4B then 4 else 5)"

definition encode_vi32 :: "u32 \<Rightarrow> bytes res" where
  "encode_vi32 val = SWC_ENCODE_VI 4 val"

definition decode_vi32 :: "u32 decoder" where
  "decode_vi32 = SWC_DECODE_VI 5 0 0"

definition decode_vi32_ptr :: "bytes \<Rightarrow> (u32 \<times> bytes) res" where
  "decode_vi32_ptr p =
     res_bind (decode_vi32 \<lparr>mem = p, remain = 5\<rparr>) (\<lambda>(v, r). Inr (v, mem r))"

definition encoded_length_vi64 :: "u64 \<Rightarrow> nat" where
  "encoded_length_vi64 val =
     (if val \<le> MAX_V1B then 1 else if val \<le> MAX_V2B then 2
      else if val \<le> MAX_V3B then 3 else if val \<le> MAX_V4B then 4
      else if val \<le> MAX_V5B then 5 else if val \<le> MAX_V6B then 6
      else if val \<le> MAX_V7B then 7 else if val \<le> MAX_V8B then 8
      else if val \<le> MAX_V9B then 9 else 10)"

definition encode_vi64 :: "u64 \<Rightarrow> bytes res" where
  "encode_vi64 val = SWC_ENCODE_VI 9 val"

definition decode_vi64 :: "u64 decoder" where
  "decode_vi64 = SWC_DECODE_VI 10 0 0"

definition decode_vi64_ptr :: "bytes \<Rightarrow> (u64 \<times> bytes) res" where
  "decode_vi64_ptr p =
     res_bind (decode_vi64 \<lparr>mem = p, remain = 10\<rparr>) (\<lambda>(v, r). Inr (v, mem r))"

section \<open>Length-tagged integers\<close>

definition encode_fixed_vi :: "nat \<Rightarrow> 'a::len word \<Rightarrow> bytes" where
  "encode_fixed_vi SZ val = of_nat SZ # le_bytes SZ val"

definition decode_fixed_vi :: "nat \<Rightarrow> 'a::len word decoder" where
  "decode_fixed_vi SZ = dbind (read_raw SZ) (\<lambda>bs. dret (le_word bs))"

definition encoded_length_fixed_vi24 :: "u24 \<Rightarrow> nat" where
  "encoded_length_fixed_vi24 val =
     (if val \<le> 0xFB then 1 else if val \<le> 0xFF then 2 else if val \<le> 0xFFFF then 3 else 4)"

definition encode_fixed_vi24 :: "u24 \<Rightarrow> bytes" where
  "encode_fixed_vi24 val =
     (if val \<le> 0xFB then encode_i8 (ucast (val + 4))
      else if val \<le> 0xFF then encode_fixed_vi 1 val
      else if val \<le> 0xFFFF then encode_fixed_vi 2 val
      else encode_fixed_vi 3 val)"

definition decode_fixed_vi24 :: "u24 decoder" where
  "decode_fixed_vi24 = dbind decode_i8 (\<lambda>b.
     if b > 3 then dret (ucast b - 4)
     else dbind (decode_needed (ucast b)) (\<lambda>_.
       if b = 1 then decode_fixed_vi 1
       else if b = 2 then decode_fixed_vi 2
       else decode_fixed_vi 3))"

definition decode_fixed_vi24_ptr :: "bytes \<Rightarrow> (u24 \<times> bytes) res" where
  "decode_fixed_vi24_ptr p =
     res_bind (decode_fixed_vi24 \<lparr>mem = p, remain = 4\<rparr>) (\<lambda>(v, r). Inr (v, mem r))"

definition encoded_length_fixed_vi32 :: "u32 \<Rightarrow> nat" where
  "encoded_length_fixed_vi32 val =
     (if val \<le> 0xFA then 1 else if val \<le> 0xFF then 2 else if val \<le> 0xFFFF then 3
      else if val \<le> 0xFFFFFF then 4 else 5)"

definition encode_fixed_vi32 :: "u32 \<Rightarrow> bytes" where
  "encode_fixed_vi32 val =
     (if val \<le> 0xFA then encode_i8 (ucast (val + 5))
      else if val \<le> 0xFF then encode_fixed_vi 1 val
      else if val \<le> 0xFFFF then encode_fixed_vi 2 val
      else if val \<le> 0xFFFFFF then encode_fixed_vi 3 val
      else encode_fixed_vi 4 val)"

definition decode_fixed_vi32 :: "u32 decoder" where
  "decode_fixed_vi32 = dbind decode_i8 (\<lambda>b.
     if b > 4 then dret (ucast b - 5)
     else dbind (decode_needed (ucast b)) (\<lambda>_.
       if b = 1 then decode_fixed_vi 1
       else if b = 2 then decode_fixed_vi 2
       else if b = 3 then decode_fixed_vi 3
       else decode_fixed_vi 4))"

definition decode_fixed_vi32_ptr :: "bytes \<Rightarrow> (u32 \<times> bytes) res" where
  "decode_fixed_vi32_ptr p =
     res_bind (decode_fixed_vi32 \<lparr>mem = p, remain = 5\<rparr>) (\<lambda>(v, r). Inr (v, mem r))"

definition encoded_length_fixed_vi64 :: "u64 \<Rightarrow> nat" where
  "encoded_length_fixed_vi64 val =
     (if val \<le> 0xF6 then 1 else if val \<le> 0xFF then 2 else if val \<le> 0xFFFF then 3
      else if val \<le> 0xFFFFFF then 4 else if val \<le> 0xFFFFFFFF then 5
      else if val \<le> 0xFFFFFFFFFF then 6 else if val \<le> 0xFFFFFFFFFFFF then 7
      else if val \<le> 0xFFFFFFFFFFFFFF then 8 else 9)"

definition encode_fixed_vi64 :: "u64 \<Rightarrow> bytes" where
  "encode_fixed_vi64 val =
     (if val \<le> 0xF6 then encode_i8 (ucast (val + 9))
      else if val \<le> 0xFF then encode_fixed_vi 1 val
      else if val \<le> 0xFFFF then encode_fixed_vi 2 val
      else if val \<le> 0xFFFFFF then encode_fixed_vi 3 val
      else if val \<le> 0xFFFFFFFF then encode_fixed_vi 4 val
      else if val < 0xFFFFFFFFFF then encode_fixed_vi 5 val
      else if val < 0xFFFFFFFFFFFF then encode_fixed_vi 6 val
      else if val < 0xFFFFFFFFFFFFFF then encode_fixed_vi 7 val
      else encode_fixed_vi 8 val)"

definition decode_fixed_vi64 :: "u64 decoder" where
  "decode_fixed_vi64 = dbind decode_i8 (\<lambda>b.
     if b > 8 then dret (ucast b - 9)
     else dbind (decode_needed (ucast b)) (\<lambda>_.
       if b = 1 then decode_fixed_vi 1
       else if b = 2 then decode_fixed_vi 2
       else if b = 3 then decode_fixed_vi 3
       else if b = 4 then decode_fixed_vi 4
       else if b = 5 then decode_fixed_vi 5
       else if b = 6 then decode_fixed_vi 6
       else if b = 7 then decode_fixed_vi 7
       else decode_fixed_vi 8))"

definition decode_fixed_vi64_ptr :: "bytes \<Rightarrow> (u64 \<times> bytes) res" where
  "decode_fixed_vi64_ptr p =
     res_bind (decode_fixed_vi64 \<lparr>mem = p, remain = 9\<rparr>) (\<lambda>(v, r). Inr (v, mem r))"

section \<open>Doubles and byte strings\<close>

definition encoded_length_double :: nat where
  "encoded_length_double = 16"

definition encode_double :: "128 word \<Rightarrow> bytes" where
  "encode_double val = le_bytes encoded_length_double val"

definition decode_double :: "128 word decoder" where
  "decode_double = dbind (decode_needed (of_nat encoded_length_double))
     (\<lambda>_. dbind (read_raw encoded_length_double) (\<lambda>bs. dret (le_word bs)))"

definition encoded_length_bytes :: "u64 \<Rightarrow> u64" where
  "encoded_length_bytes len = of_nat (encoded_length_vi64 len) + len"

definition encode_bytes :: "bytes \<Rightarrow> bytes res" where
  "encode_bytes data = res_bind (encode_vi64 (of_nat (length data))) (\<lambda>bs. Inr (bs @ data))"

definition decode_bytes :: "bytes decoder" where
  "decode_bytes = dbind decode_vi64 (\<lambda>len.
     dbind (decode_needed len) (\<lambda>_. read_raw (unat len)))"

definition decode_bytes_string :: "bytes decoder" where
  "decode_bytes_string = dbind decode_bytes (\<lambda>s. dret s)"

definition encode_bytes_fixed :: "bytes \<Rightarrow> bytes" where
  "encode_bytes_fixed data = data"

definition decode_bytes_fixed :: "u32 \<Rightarrow> bytes decoder" where
  "decode_bytes_fixed len = dbind (decode_needed (ucast len)) (\<lambda>_. read_raw (unat len))"

section \<open>Running the fixed width decoders\<close>

lemma decode_needed_one_ok [decoding]:
  "remain r \<noteq> 0 \<Longrightarrow> decode_needed_one r = Inr ((), r\<lparr>remain := remain r - 1\<rparr>)"
  by (simp add: decode_needed_one_def)

lemma decode_needed_ok [decoding]:
  "len \<le> remain r \<Longrightarrow> decode_needed len r = Inr ((), r\<lparr>remain := remain r - len\<rparr>)"
  by (simp add: decode_needed_def not_less)

lemma decode_i8_Cons [decoding]:
  "n \<noteq> 0 \<Longrightarrow> decode_i8 \<lparr>mem = b # bs, remain = n\<rparr> = Inr (b, \<lparr>mem = bs, remain = n - 1\<rparr>)"
  using read_raw_append [of "[b]" 1 bs]
  by (simp add: decode_i8_def decode_needed_one_def)

lemma decode_i8_empty [decoding]:
  "remain r = 0 \<Longrightarrow> decode_i8 r = Inl SERIALIZATION_INPUT_OVERRUN"
  by (simp add: decode_i8_def decode_needed_one_def)

lemma le_u64I: "k < 2 ^ 64 \<Longrightarrow> k \<le> unat n \<Longrightarrow> (of_nat k :: u64) \<le> n"
  by (simp add: word_le_nat_alt)

lemma decode_le [decoding]:
  fixes v :: "'a::len word"
  assumes "LENGTH('a) \<le> 8 * k" and "k < 2 ^ 64" and "k \<le> unat n"
  shows "dbind (decode_needed (of_nat k)) (\<lambda>_. dbind (read_raw k) (\<lambda>bs. dret (le_word bs)))
      \<lparr>mem = le_bytes k v @ rest, remain = n\<rparr> = Inr (v, \<lparr>mem = rest, remain = n - of_nat k\<rparr>)"
  using assms by (simp add: decode_needed_def not_less le_u64I)

section \<open>The varint codecs\<close>

lemma unat_drop_bit7: "unat (drop_bit 7 (v :: 'a::len word)) = unat v div 128"
  by (simp only: unat_drop_bit_eq drop_bit_eq_div [where 'a = nat]) simp

lemma not_le_MAX_V1B:
  assumes "8 \<le> LENGTH('a)"
  shows "(v :: 'a::len word) \<le> MAX_V1B \<longleftrightarrow> unat v < 128"
proof -
  have "(2::nat) ^ 8 \<le> 2 ^ LENGTH('a)" using assms by (intro power_increasing) auto
  then have "unat (0x7f :: 'a word) = 127"
    by (simp add: unsigned_of_nat unsigned_numeral take_bit_nat_eq_self)
  then show ?thesis by (auto simp: MAX_V1B_def word_le_nat_alt)
qed

text \<open>Enough shifts for the width: the throw of the encoders is never reached.\<close>

lemma encode_vi_total:
  fixes v :: "'a::len word"
  assumes "8 \<le> LENGTH('a)" and "unat v < 2 ^ (7 * Suc k)"
  shows "\<exists>bs. SWC_ENCODE_VI k v = Inr bs"
  using assms(2)
proof (induction k arbitrary: v)
  case 0
  then show ?case using assms(1) by (auto simp: not_le_MAX_V1B)
next
  case (Suc k)
  have "unat (drop_bit 7 v) < 2 ^ (7 * Suc k)"
    using Suc.prems by (simp add: unat_drop_bit7 div_less_iff_less_mult power_add)
  then show ?case using Suc.IH by fastforce
qed

text \<open>The number of bytes: at most \<open>j\<close> exactly for the values of at most \<open>7 j\<close> bits.\<close>

lemma encode_vi_length:
  fixes v :: "'a::len word"
  assumes "8 \<le> LENGTH('a)"
  shows "SWC_ENCODE_VI k v = Inr bs \<Longrightarrow>
    0 < length bs \<and> (\<forall>j. length bs \<le> Suc j \<longleftrightarrow> unat v < 2 ^ (7 * Suc j))"
proof (induction k arbitrary: v bs)
  case 0
  then have "unat v < 128" and bs: "bs = [ucast v]"
    using assms by (auto simp: not_le_MAX_V1B split: if_splits)
  moreover have "(128::nat) \<le> 2 ^ (7 * Suc j)" for j
    using power_increasing [of 7 "7 * Suc j" "2::nat"] by simp
  ultimately show ?case using order_less_le_trans by fastforce
next
  case (Suc k)
  show ?case
  proof (cases "unat v < 128")
    case True
    with Suc.prems have "bs = [ucast v]" using assms by (auto simp: not_le_MAX_V1B)
    moreover have "(128::nat) \<le> 2 ^ (7 * Suc j)" for j
      using power_increasing [of 7 "7 * Suc j" "2::nat"] by simp
    ultimately show ?thesis using order_less_le_trans True by fastforce
  next
    case False
    with Suc.prems obtain cs where cs: "SWC_ENCODE_VI k (drop_bit 7 v) = Inr cs"
      and bs: "bs = ucast (v OR 0x80) # cs"
      using assms by (auto simp: not_le_MAX_V1B)
    note IH = Suc.IH [OF cs]
    have "length bs \<le> Suc j \<longleftrightarrow> unat v < 2 ^ (7 * Suc j)" for j
    proof (cases j)
      case 0
      then show ?thesis using False IH bs by auto
    next
      case (Suc i)
      have "length bs \<le> Suc j \<longleftrightarrow> length cs \<le> Suc i" using bs Suc by simp
      also have "\<dots> \<longleftrightarrow> unat (drop_bit 7 v) < 2 ^ (7 * Suc i)" using IH by blast
      also have "\<dots> \<longleftrightarrow> unat v < 2 ^ (7 * Suc j)"
        by (simp add: Suc unat_drop_bit7 div_less_iff_less_mult power_add)
      finally show ?thesis .
    qed
    then show ?thesis using bs by simp
  qed
qed

lemma bit_7f: "bit (0x7f :: int) i \<longleftrightarrow> i < 7"
proof -
  have "(0x7f :: int) = mask 7" by (simp add: mask_eq_exp_minus_1)
  then show ?thesis by (simp only: bit_mask_iff) simp
qed

lemma bit_80: "bit (0x80 :: int) i \<longleftrightarrow> i = 7"
proof -
  have "(0x80 :: int) = 2 ^ 7" by simp
  then show ?thesis by (simp only: bit_exp_iff) auto
qed

lemmas byte_bits = bit_7f bit_80 bit_ucast_iff bit_and_iff bit_or_iff bit_push_bit_iff
  bit_drop_bit_eq

lemma push_bit_split7:
  "(n OR push_bit s (v AND 0x7f)) OR push_bit (s + 7) (drop_bit 7 v)
    = n OR push_bit s (v :: 'a::len word)"
proof (rule bit_word_eqI)
  fix i assume i: "i < LENGTH('a)"
  have "s + 7 \<le> i \<Longrightarrow> 7 + (i - (s + 7)) = i - s" by simp
  moreover have "i - s < LENGTH('a)" using i by simp
  ultimately show "bit ((n OR push_bit s (v AND 0x7f)) OR push_bit (s + 7) (drop_bit 7 v)) i
      = bit (n OR push_bit s v) i"
    by (cases "s + 7 \<le> i") (auto simp: byte_bits i)
qed

lemma low7_of_more:
  assumes "8 \<le> LENGTH('a)"
  shows "ucast ((ucast ((v :: 'a::len word) OR 0x80) :: byte) AND 0x7f) = v AND (0x7f :: 'a word)"
    and "(ucast (v OR 0x80) :: byte) AND 0x80 \<noteq> 0"
proof -
  show "ucast ((ucast (v OR 0x80) :: byte) AND 0x7f) = v AND (0x7f :: 'a word)"
    by (rule bit_word_eqI) (auto simp: byte_bits)
  have "bit ((ucast (v OR 0x80) :: byte) AND 0x80) 7"
    using assms by (simp add: byte_bits)
  then show "(ucast (v OR 0x80) :: byte) AND 0x80 \<noteq> 0" by force
qed

lemma low7_of_last:
  assumes "8 \<le> LENGTH('a)" and "unat (v :: 'a::len word) < 128"
  shows "ucast ((ucast v :: byte) AND 0x7f) = v"
    and "(ucast v :: byte) AND 0x80 = 0"
proof -
  have "take_bit 7 v = v" using take_bit_fits [of v 7] assms(2) by simp
  then have hi: "bit v i \<Longrightarrow> i < 7" for i by (metis bit_take_bit_iff)
  then have hi8: "bit v i \<Longrightarrow> i < 8" for i using hi by fastforce
  show "ucast ((ucast v :: byte) AND 0x7f) = v"
    by (rule bit_word_eqI) (auto simp: byte_bits hi hi8)
  show "(ucast v :: byte) AND 0x80 = 0"
    by (rule bit_word_eqI) (auto simp: byte_bits dest: hi)
qed

text \<open>Decoding with at least as many steps as the encoder had gives the value back.\<close>

lemma decode_encode_vi:
  fixes v :: "'a::len word"
  assumes "8 \<le> LENGTH('a)"
  shows "SWC_ENCODE_VI k v = Inr bs \<Longrightarrow> length bs \<le> unat n \<Longrightarrow>
    SWC_DECODE_VI (Suc k) s acc \<lparr>mem = bs @ rest, remain = n\<rparr>
      = Inr (acc OR push_bit s v, \<lparr>mem = rest, remain = n - of_nat (length bs)\<rparr>)"
proof (induction k arbitrary: v bs s acc n)
  case 0
  then have v: "unat v < 128" and bs: "bs = [ucast v]"
    using assms by (auto simp: not_le_MAX_V1B split: if_splits)
  with 0 have "n \<noteq> 0" by auto
  then show ?case
    using bs low7_of_last [OF assms v] by (simp add: decode_i8_Cons)
next
  case (Suc k)
  then have n: "n \<noteq> 0" by (auto split: if_splits)
  show ?case
  proof (cases "unat v < 128")
    case True
    with Suc.prems have "bs = [ucast v]" using assms by (auto simp: not_le_MAX_V1B)
    then show ?thesis
      using n low7_of_last [OF assms True] by (simp add: decode_i8_Cons)
  next
    case False
    with Suc.prems obtain cs where cs: "SWC_ENCODE_VI k (drop_bit 7 v) = Inr cs"
      and bs: "bs = ucast (v OR 0x80) # cs"
      using assms by (auto simp: not_le_MAX_V1B)
    have len: "length cs \<le> unat (n - 1)"
      using Suc.prems(2) n bs by (simp add: unat_minus_one)
    have "SWC_DECODE_VI (Suc (Suc k)) s acc \<lparr>mem = bs @ rest, remain = n\<rparr>
        = SWC_DECODE_VI (Suc k) (s + 7) (acc OR push_bit s (v AND 0x7f))
            \<lparr>mem = cs @ rest, remain = n - 1\<rparr>"
      using n bs low7_of_more [OF assms, of v]
      by (subst SWC_DECODE_VI.simps(2)) (simp add: decode_i8_Cons Let_def del: SWC_DECODE_VI.simps push_bit_and)
    also have "\<dots> = Inr (acc OR push_bit s v, \<lparr>mem = rest, remain = n - 1 - of_nat (length cs)\<rparr>)"
      by (simp only: Suc.IH [OF cs len] push_bit_split7)
    finally show ?thesis using bs by (simp add: diff_diff_eq)
  qed
qed

lemma vi_length_is:
  assumes "8 \<le> LENGTH('a)" and "SWC_ENCODE_VI k (v :: 'a::len word) = Inr bs"
  shows "unat v < 128 \<Longrightarrow> length bs = 1"
    and "0 < j \<Longrightarrow> 2 ^ (7 * j) \<le> unat v \<Longrightarrow> unat v < 2 ^ (7 * Suc j) \<Longrightarrow> length bs = Suc j"
proof -
  have pos: "0 < length bs" and *: "length bs \<le> Suc i \<longleftrightarrow> unat v < 2 ^ (7 * Suc i)" for i
    using encode_vi_length [OF assms] by auto
  show "length bs = 1" if "unat v < 128"
  proof -
    have "length bs \<le> 1" using * [of 0] that by simp
    with pos show ?thesis by linarith
  qed
  show "length bs = Suc j" if "0 < j" "2 ^ (7 * j) \<le> unat v" "unat v < 2 ^ (7 * Suc j)"
  proof -
    obtain i where j: "j = Suc i" using \<open>0 < j\<close> by (cases j) auto
    have "length bs \<le> Suc j" using * [of j] that by blast
    moreover have "\<not> length bs \<le> j" using * [of i] that j by (metis not_le)
    ultimately show ?thesis by simp
  qed
qed

lemma vi_length_ranges:
  assumes "8 \<le> LENGTH('a)" and "SWC_ENCODE_VI k (v :: 'a::len word) = Inr bs"
  shows "unat v \<le> 0x7f \<Longrightarrow> length bs = 1"
    and "0x7f < unat v \<Longrightarrow> unat v \<le> 0x3fff \<Longrightarrow> length bs = 2"
    and "0x3fff < unat v \<Longrightarrow> unat v \<le> 0x1fffff \<Longrightarrow> length bs = 3"
    and "0x1fffff < unat v \<Longrightarrow> unat v \<le> 0x0fffffff \<Longrightarrow> length bs = 4"
    and "0x0fffffff < unat v \<Longrightarrow> unat v \<le> 0x07ffffffff \<Longrightarrow> length bs = 5"
    and "0x07ffffffff < unat v \<Longrightarrow> unat v \<le> 0x03ffffffffff \<Longrightarrow> length bs = 6"
    and "0x03ffffffffff < unat v \<Longrightarrow> unat v \<le> 0x01ffffffffffff \<Longrightarrow> length bs = 7"
    and "0x01ffffffffffff < unat v \<Longrightarrow> unat v \<le> 0x00ffffffffffffff \<Longrightarrow> length bs = 8"
    and "0x00ffffffffffffff < unat v \<Longrightarrow> unat v \<le> 0x7fffffffffffffff \<Longrightarrow> length bs = 9"
    and "0x7fffffffffffffff < unat v \<Longrightarrow> unat v < 2 ^ 70 \<Longrightarrow> length bs = 10"
  using vi_length_is(1) [OF assms] vi_length_is(2) [OF assms, of 1] vi_length_is(2) [OF assms, of 2]
    vi_length_is(2) [OF assms, of 3] vi_length_is(2) [OF assms, of 4] vi_length_is(2) [OF assms, of 5]
    vi_length_is(2) [OF assms, of 6] vi_length_is(2) [OF assms, of 7] vi_length_is(2) [OF assms, of 8]
    vi_length_is(2) [OF assms, of 9]
  by simp_all

text \<open>No width reaches the throw, and the stored length is the announced one.\<close>

lemma encode_vi24_length: "\<exists>bs. encode_vi24 v = Inr bs \<and> length bs = encoded_length_vi24 v"
proof -
  have v: "unat v < 2 ^ 24" using unsigned_less [of v, where ?'a = nat] by simp
  then obtain bs where bs: "SWC_ENCODE_VI 3 v = Inr bs"
    using encode_vi_total [of v 3] by auto
  have "length bs = encoded_length_vi24 v"
    using vi_length_ranges [OF _ bs] v
    by (simp add: encoded_length_vi24_def max_vb_defs word_le_nat_alt)
  with bs show ?thesis by (simp add: encode_vi24_def)
qed

lemma encode_vi32_length: "\<exists>bs. encode_vi32 v = Inr bs \<and> length bs = encoded_length_vi32 v"
proof -
  have v: "unat v < 2 ^ 32" using unsigned_less [of v, where ?'a = nat] by simp
  then obtain bs where bs: "SWC_ENCODE_VI 4 v = Inr bs"
    using encode_vi_total [of v 4] by auto
  have "length bs = encoded_length_vi32 v"
    using vi_length_ranges [OF _ bs] v
    by (simp add: encoded_length_vi32_def max_vb_defs word_le_nat_alt)
  with bs show ?thesis by (simp add: encode_vi32_def)
qed

lemma encode_vi64_length: "\<exists>bs. encode_vi64 v = Inr bs \<and> length bs = encoded_length_vi64 v"
proof -
  have v: "unat v < 2 ^ 64" using unsigned_less [of v, where ?'a = nat] by simp
  then obtain bs where bs: "SWC_ENCODE_VI 9 v = Inr bs"
    using encode_vi_total [of v 9] by auto
  have "length bs = encoded_length_vi64 v"
    using vi_length_ranges [OF _ bs] v
    by (simp add: encoded_length_vi64_def max_vb_defs word_le_nat_alt)
  with bs show ?thesis by (simp add: encode_vi64_def)
qed

text \<open>The bytes the encoders store, which is what their callers get as they never throw.\<close>

definition vi24_out :: "u24 \<Rightarrow> bytes" where
  "vi24_out v = projr (encode_vi24 v)"
definition vi32_out :: "u32 \<Rightarrow> bytes" where
  "vi32_out v = projr (encode_vi32 v)"
definition vi64_out :: "u64 \<Rightarrow> bytes" where
  "vi64_out v = projr (encode_vi64 v)"

lemma encode_vi24_out: "encode_vi24 v = Inr (vi24_out v)"
  using encode_vi24_length [of v] by (auto simp: vi24_out_def)
lemma encode_vi32_out: "encode_vi32 v = Inr (vi32_out v)"
  using encode_vi32_length [of v] by (auto simp: vi32_out_def)
lemma encode_vi64_out: "encode_vi64 v = Inr (vi64_out v)"
  using encode_vi64_length [of v] by (auto simp: vi64_out_def)

lemma length_vi_out [simp]:
  "length (vi24_out v) = encoded_length_vi24 v"
  "length (vi32_out u) = encoded_length_vi32 u"
  "length (vi64_out w) = encoded_length_vi64 w"
  using encode_vi24_length [of v] encode_vi32_length [of u] encode_vi64_length [of w]
  by (auto simp: vi24_out_def vi32_out_def vi64_out_def)

lemma numeral_Suc_steps: "SWC_DECODE_VI 4 = SWC_DECODE_VI (Suc 3)"
  "SWC_DECODE_VI 5 = SWC_DECODE_VI (Suc 4)" "SWC_DECODE_VI 10 = SWC_DECODE_VI (Suc 9)"
  by simp_all

interpretation vi24: codec_pos vi24_out decode_vi24 encoded_length_vi24 "\<lambda>_. True" "\<lambda>v. v"
proof unfold_locales
  fix v :: u24 and n :: u64 and rest
  show "length (vi24_out v) = encoded_length_vi24 v" by simp
  show "0 < encoded_length_vi24 v" by (simp add: encoded_length_vi24_def)
  assume "encoded_length_vi24 v \<le> unat n"
  then show "decode_vi24 \<lparr>mem = vi24_out v @ rest, remain = n\<rparr>
      = Inr (v, \<lparr>mem = rest, remain = n - of_nat (encoded_length_vi24 v)\<rparr>)"
    using decode_encode_vi [of 3 v "vi24_out v" n 0 0 rest] encode_vi24_out [of v]
    by (simp only: decode_vi24_def encode_vi24_def numeral_Suc_steps length_vi_out) simp
qed

interpretation vi32: codec_pos vi32_out decode_vi32 encoded_length_vi32 "\<lambda>_. True" "\<lambda>v. v"
proof unfold_locales
  fix v :: u32 and n :: u64 and rest
  show "length (vi32_out v) = encoded_length_vi32 v" by simp
  show "0 < encoded_length_vi32 v" by (simp add: encoded_length_vi32_def)
  assume "encoded_length_vi32 v \<le> unat n"
  then show "decode_vi32 \<lparr>mem = vi32_out v @ rest, remain = n\<rparr>
      = Inr (v, \<lparr>mem = rest, remain = n - of_nat (encoded_length_vi32 v)\<rparr>)"
    using decode_encode_vi [of 4 v "vi32_out v" n 0 0 rest] encode_vi32_out [of v]
    by (simp only: decode_vi32_def encode_vi32_def numeral_Suc_steps length_vi_out) simp
qed

interpretation vi64: codec_pos vi64_out decode_vi64 encoded_length_vi64 "\<lambda>_. True" "\<lambda>v. v"
proof unfold_locales
  fix v :: u64 and n :: u64 and rest
  show "length (vi64_out v) = encoded_length_vi64 v" by simp
  show "0 < encoded_length_vi64 v" by (simp add: encoded_length_vi64_def)
  assume "encoded_length_vi64 v \<le> unat n"
  then show "decode_vi64 \<lparr>mem = vi64_out v @ rest, remain = n\<rparr>
      = Inr (v, \<lparr>mem = rest, remain = n - of_nat (encoded_length_vi64 v)\<rparr>)"
    using decode_encode_vi [of 9 v "vi64_out v" n 0 0 rest] encode_vi64_out [of v]
    by (simp only: decode_vi64_def encode_vi64_def numeral_Suc_steps length_vi_out) simp
qed
section \<open>The length-tagged codecs\<close>

lemma decode_fixed_vi_le [decoding]:
  "unat (v :: 'a::len word) < 2 ^ (8 * SZ) \<Longrightarrow>
    decode_fixed_vi SZ \<lparr>mem = le_bytes SZ v @ rest, remain = n\<rparr> = Inr (v, \<lparr>mem = rest, remain = n\<rparr>)"
  by (simp add: decode_fixed_vi_def)

lemma needed_after_tag [decoding]:
  assumes "Suc SZ \<le> unat n" and "SZ < 256"
  shows "decode_i8 \<lparr>mem = encode_fixed_vi SZ v @ rest, remain = n\<rparr>
      = Inr (of_nat SZ, \<lparr>mem = le_bytes SZ v @ rest, remain = n - 1\<rparr>)"
    and "decode_needed (ucast (of_nat SZ :: byte)) \<lparr>mem = bs, remain = n - 1\<rparr>
      = Inr ((), \<lparr>mem = bs, remain = n - of_nat (Suc SZ)\<rparr>)"
proof -
  have n: "n \<noteq> 0" using assms by auto
  then show "decode_i8 \<lparr>mem = encode_fixed_vi SZ v @ rest, remain = n\<rparr>
      = Inr (of_nat SZ, \<lparr>mem = le_bytes SZ v @ rest, remain = n - 1\<rparr>)"
    by (simp add: encode_fixed_vi_def decode_i8_Cons)
  have SZ: "(ucast (of_nat SZ :: byte) :: u64) = of_nat SZ"
    using assms(2) by (simp add: unsigned_of_nat take_bit_nat_eq_self)
  have "unat (n - 1) = unat n - 1" using n by (simp add: unat_minus_one)
  then have "(of_nat SZ :: u64) \<le> n - 1"
    using assms by (intro le_u64I) auto
  then show "decode_needed (ucast (of_nat SZ :: byte)) \<lparr>mem = bs, remain = n - 1\<rparr>
      = Inr ((), \<lparr>mem = bs, remain = n - of_nat (Suc SZ)\<rparr>)"
    by (simp add: SZ decode_needed_ok diff_diff_eq)
qed

lemma length_encode_fixed_vi [simp]: "length (encode_fixed_vi SZ v) = Suc SZ"
  by (simp add: encode_fixed_vi_def)

lemma short_tag:
  fixes v :: "'a::len word"
  assumes "16 \<le> LENGTH('a)" and "unat v + k < 256" and "k < 256"
  shows "unat (ucast (v + of_nat k) :: byte) = unat v + k"
    and "ucast (ucast (v + of_nat k) :: byte) - of_nat k = v"
proof -
  have big: "(256::nat) < 2 ^ LENGTH('a)"
    using power_increasing [of 16 "LENGTH('a)" "2::nat"] assms(1) by simp
  then have sum: "unat (v + of_nat k) = unat v + k"
    using assms by (simp add: unat_word_ariths(1) unsigned_of_nat take_bit_nat_eq_self)
  show *: "unat (ucast (v + of_nat k) :: byte) = unat v + k"
    using assms sum by (simp add: unsigned_ucast_eq unsigned_take_bit_eq take_bit_nat_eq_self)
  have "unat (ucast (ucast (v + of_nat k) :: byte) :: 'a word) = unat v + k"
    using * assms(1,2) big by (simp add: unsigned_ucast_eq unsigned_take_bit_eq take_bit_nat_eq_self)
  then have "(ucast (ucast (v + of_nat k) :: byte) :: 'a word) = v + of_nat k"
    unfolding sum [symmetric] by (rule unsigned_word_eqI)
  then show "ucast (ucast (v + of_nat k) :: byte) - of_nat k = v" by simp
qed

lemma decode_fixed_vi24_tagged:
  assumes "0 < SZ" and "SZ \<le> 3" and "unat v < 2 ^ (8 * SZ)" and "Suc SZ \<le> unat n"
  shows "decode_fixed_vi24 \<lparr>mem = encode_fixed_vi SZ v @ rest, remain = n\<rparr>
    = Inr (v, \<lparr>mem = rest, remain = n - of_nat (Suc SZ)\<rparr>)"
proof -
  note step = needed_after_tag(1) [OF assms(4), where v = v] needed_after_tag(2) [OF assms(4)] and val = decode_fixed_vi_le [OF assms(3)]
  consider "SZ = 1" | "SZ = 2" | "SZ = 3"
    using assms(1,2) by linarith
  then show ?thesis
    using step val by cases (simp_all add: decode_fixed_vi24_def)
qed

lemma decode_fixed_vi24_short:
  assumes "v \<le> 0xFB" and "0 < unat n"
  shows "decode_fixed_vi24 \<lparr>mem = encode_i8 (ucast (v + 4)) @ rest, remain = n\<rparr>
    = Inr (v, \<lparr>mem = rest, remain = n - 1\<rparr>)"
proof -
  have "unat v + 4 < 256" using assms(1) by (simp add: word_le_nat_alt)
  note tag = short_tag [of v 4, OF _ this, simplified]
  have "(ucast (v + 4) :: byte) > 3"
    using tag(1) by (simp add: word_less_nat_alt)
  moreover have "n \<noteq> 0" using assms(2) by auto
  ultimately show ?thesis
    using tag(2) by (simp add: decode_fixed_vi24_def encode_i8_def decode_i8_Cons)
qed

lemma fixed_vi24_cases:
  obtains "v \<le> 0xFB" "encode_fixed_vi24 v = encode_i8 (ucast (v + 4))"
  | SZ where "0 < SZ" "SZ \<le> 3" "unat v < 2 ^ (8 * SZ)" "encode_fixed_vi24 v = encode_fixed_vi SZ v"
proof -
  have all: "unat v < 2 ^ 24" using unsigned_less [of v, where ?'a = nat] by simp
  consider (0) "v \<le> 0xFB"
    | (1) "\<not> v \<le> 0xFB" "v \<le> 0xFF"
    | (2) "\<not> v \<le> 0xFF" "v \<le> 0xFFFF"
    | (3) "\<not> v \<le> 0xFFFF"
    by blast
  then show ?thesis
  proof cases
    case 0
    then show ?thesis using that(1) by (simp add: encode_fixed_vi24_def)
  next
    case 1
    then show ?thesis using all by (intro that(2) [of 1]) (simp_all add: encode_fixed_vi24_def word_le_nat_alt word_less_nat_alt)
  next
    case 2
    then show ?thesis using all by (intro that(2) [of 2]) (simp_all add: encode_fixed_vi24_def word_le_nat_alt word_less_nat_alt)
  next
    case 3
    then show ?thesis using all by (intro that(2) [of 3]) (simp_all add: encode_fixed_vi24_def word_le_nat_alt word_less_nat_alt)
  qed
qed

interpretation fixed_vi24: codec_pos encode_fixed_vi24 decode_fixed_vi24
  "\<lambda>v. length (encode_fixed_vi24 v)" "\<lambda>_. True" "\<lambda>v. v"
proof unfold_locales
  fix v :: u24 and n :: u64 and rest
  show "length (encode_fixed_vi24 v) = length (encode_fixed_vi24 v)" by simp
  show "0 < length (encode_fixed_vi24 v)"
    by (cases v rule: fixed_vi24_cases) (auto simp: encode_i8_def)
  assume "length (encode_fixed_vi24 v) \<le> unat n"
  then show "decode_fixed_vi24 \<lparr>mem = encode_fixed_vi24 v @ rest, remain = n\<rparr>
      = Inr (v, \<lparr>mem = rest, remain = n - of_nat (length (encode_fixed_vi24 v))\<rparr>)"
    using decode_fixed_vi24_short [of v n rest] decode_fixed_vi24_tagged [of _ v n rest]
    by (cases v rule: fixed_vi24_cases) (auto simp: encode_i8_def)
qed

lemma decode_fixed_vi32_tagged:
  assumes "0 < SZ" and "SZ \<le> 4" and "unat v < 2 ^ (8 * SZ)" and "Suc SZ \<le> unat n"
  shows "decode_fixed_vi32 \<lparr>mem = encode_fixed_vi SZ v @ rest, remain = n\<rparr>
    = Inr (v, \<lparr>mem = rest, remain = n - of_nat (Suc SZ)\<rparr>)"
proof -
  note step = needed_after_tag(1) [OF assms(4), where v = v] needed_after_tag(2) [OF assms(4)] and val = decode_fixed_vi_le [OF assms(3)]
  consider "SZ = 1" | "SZ = 2" | "SZ = 3" | "SZ = 4"
    using assms(1,2) by linarith
  then show ?thesis
    using step val by cases (simp_all add: decode_fixed_vi32_def)
qed

lemma decode_fixed_vi32_short:
  assumes "v \<le> 0xFA" and "0 < unat n"
  shows "decode_fixed_vi32 \<lparr>mem = encode_i8 (ucast (v + 5)) @ rest, remain = n\<rparr>
    = Inr (v, \<lparr>mem = rest, remain = n - 1\<rparr>)"
proof -
  have "unat v + 5 < 256" using assms(1) by (simp add: word_le_nat_alt)
  note tag = short_tag [of v 5, OF _ this, simplified]
  have "(ucast (v + 5) :: byte) > 4"
    using tag(1) by (simp add: word_less_nat_alt)
  moreover have "n \<noteq> 0" using assms(2) by auto
  ultimately show ?thesis
    using tag(2) by (simp add: decode_fixed_vi32_def encode_i8_def decode_i8_Cons)
qed

lemma fixed_vi32_cases:
  obtains "v \<le> 0xFA" "encode_fixed_vi32 v = encode_i8 (ucast (v + 5))"
  | SZ where "0 < SZ" "SZ \<le> 4" "unat v < 2 ^ (8 * SZ)" "encode_fixed_vi32 v = encode_fixed_vi SZ v"
proof -
  have all: "unat v < 2 ^ 32" using unsigned_less [of v, where ?'a = nat] by simp
  consider (0) "v \<le> 0xFA"
    | (1) "\<not> v \<le> 0xFA" "v \<le> 0xFF"
    | (2) "\<not> v \<le> 0xFF" "v \<le> 0xFFFF"
    | (3) "\<not> v \<le> 0xFFFF" "v \<le> 0xFFFFFF"
    | (4) "\<not> v \<le> 0xFFFFFF"
    by blast
  then show ?thesis
  proof cases
    case 0
    then show ?thesis using that(1) by (simp add: encode_fixed_vi32_def)
  next
    case 1
    then show ?thesis using all by (intro that(2) [of 1]) (simp_all add: encode_fixed_vi32_def word_le_nat_alt word_less_nat_alt)
  next
    case 2
    then show ?thesis using all by (intro that(2) [of 2]) (simp_all add: encode_fixed_vi32_def word_le_nat_alt word_less_nat_alt)
  next
    case 3
    then show ?thesis using all by (intro that(2) [of 3]) (simp_all add: encode_fixed_vi32_def word_le_nat_alt word_less_nat_alt)
  next
    case 4
    then show ?thesis using all by (intro that(2) [of 4]) (simp_all add: encode_fixed_vi32_def word_le_nat_alt word_less_nat_alt)
  qed
qed

interpretation fixed_vi32: codec_pos encode_fixed_vi32 decode_fixed_vi32
  "\<lambda>v. length (encode_fixed_vi32 v)" "\<lambda>_. True" "\<lambda>v. v"
proof unfold_locales
  fix v :: u32 and n :: u64 and rest
  show "length (encode_fixed_vi32 v) = length (encode_fixed_vi32 v)" by simp
  show "0 < length (encode_fixed_vi32 v)"
    by (cases v rule: fixed_vi32_cases) (auto simp: encode_i8_def)
  assume "length (encode_fixed_vi32 v) \<le> unat n"
  then show "decode_fixed_vi32 \<lparr>mem = encode_fixed_vi32 v @ rest, remain = n\<rparr>
      = Inr (v, \<lparr>mem = rest, remain = n - of_nat (length (encode_fixed_vi32 v))\<rparr>)"
    using decode_fixed_vi32_short [of v n rest] decode_fixed_vi32_tagged [of _ v n rest]
    by (cases v rule: fixed_vi32_cases) (auto simp: encode_i8_def)
qed

lemma decode_fixed_vi64_tagged:
  assumes "0 < SZ" and "SZ \<le> 8" and "unat v < 2 ^ (8 * SZ)" and "Suc SZ \<le> unat n"
  shows "decode_fixed_vi64 \<lparr>mem = encode_fixed_vi SZ v @ rest, remain = n\<rparr>
    = Inr (v, \<lparr>mem = rest, remain = n - of_nat (Suc SZ)\<rparr>)"
proof -
  note step = needed_after_tag(1) [OF assms(4), where v = v] needed_after_tag(2) [OF assms(4)] and val = decode_fixed_vi_le [OF assms(3)]
  consider "SZ = 1" | "SZ = 2" | "SZ = 3" | "SZ = 4" | "SZ = 5" | "SZ = 6" | "SZ = 7" | "SZ = 8"
    using assms(1,2) by linarith
  then show ?thesis
    using step val by cases (simp_all add: decode_fixed_vi64_def)
qed

lemma decode_fixed_vi64_short:
  assumes "v \<le> 0xF6" and "0 < unat n"
  shows "decode_fixed_vi64 \<lparr>mem = encode_i8 (ucast (v + 9)) @ rest, remain = n\<rparr>
    = Inr (v, \<lparr>mem = rest, remain = n - 1\<rparr>)"
proof -
  have "unat v + 9 < 256" using assms(1) by (simp add: word_le_nat_alt)
  note tag = short_tag [of v 9, OF _ this, simplified]
  have "(ucast (v + 9) :: byte) > 8"
    using tag(1) by (simp add: word_less_nat_alt)
  moreover have "n \<noteq> 0" using assms(2) by auto
  ultimately show ?thesis
    using tag(2) by (simp add: decode_fixed_vi64_def encode_i8_def decode_i8_Cons)
qed

lemma fixed_vi64_cases:
  obtains "v \<le> 0xF6" "encode_fixed_vi64 v = encode_i8 (ucast (v + 9))"
  | SZ where "0 < SZ" "SZ \<le> 8" "unat v < 2 ^ (8 * SZ)" "encode_fixed_vi64 v = encode_fixed_vi SZ v"
proof -
  have all: "unat v < 2 ^ 64" using unsigned_less [of v, where ?'a = nat] by simp
  consider (0) "v \<le> 0xF6"
    | (1) "\<not> v \<le> 0xF6" "v \<le> 0xFF"
    | (2) "\<not> v \<le> 0xFF" "v \<le> 0xFFFF"
    | (3) "\<not> v \<le> 0xFFFF" "v \<le> 0xFFFFFF"
    | (4) "\<not> v \<le> 0xFFFFFF" "v \<le> 0xFFFFFFFF"
    | (5) "\<not> v \<le> 0xFFFFFFFF" "v < 0xFFFFFFFFFF"
    | (6) "\<not> v < 0xFFFFFFFFFF" "v < 0xFFFFFFFFFFFF"
    | (7) "\<not> v < 0xFFFFFFFFFFFF" "v < 0xFFFFFFFFFFFFFF"
    | (8) "\<not> v < 0xFFFFFFFFFFFFFF"
    by blast
  then show ?thesis
  proof cases
    case 0
    then show ?thesis using that(1) by (simp add: encode_fixed_vi64_def)
  next
    case 1
    then show ?thesis using all by (intro that(2) [of 1]) (simp_all add: encode_fixed_vi64_def word_le_nat_alt word_less_nat_alt)
  next
    case 2
    then show ?thesis using all by (intro that(2) [of 2]) (simp_all add: encode_fixed_vi64_def word_le_nat_alt word_less_nat_alt)
  next
    case 3
    then show ?thesis using all by (intro that(2) [of 3]) (simp_all add: encode_fixed_vi64_def word_le_nat_alt word_less_nat_alt)
  next
    case 4
    then show ?thesis using all by (intro that(2) [of 4]) (simp_all add: encode_fixed_vi64_def word_le_nat_alt word_less_nat_alt)
  next
    case 5
    then show ?thesis using all by (intro that(2) [of 5]) (simp_all add: encode_fixed_vi64_def word_le_nat_alt word_less_nat_alt)
  next
    case 6
    then show ?thesis using all by (intro that(2) [of 6]) (simp_all add: encode_fixed_vi64_def word_le_nat_alt word_less_nat_alt)
  next
    case 7
    then show ?thesis using all by (intro that(2) [of 7]) (simp_all add: encode_fixed_vi64_def word_le_nat_alt word_less_nat_alt)
  next
    case 8
    then show ?thesis using all by (intro that(2) [of 8]) (simp_all add: encode_fixed_vi64_def word_le_nat_alt word_less_nat_alt)
  qed
qed

interpretation fixed_vi64: codec_pos encode_fixed_vi64 decode_fixed_vi64
  "\<lambda>v. length (encode_fixed_vi64 v)" "\<lambda>_. True" "\<lambda>v. v"
proof unfold_locales
  fix v :: u64 and n :: u64 and rest
  show "length (encode_fixed_vi64 v) = length (encode_fixed_vi64 v)" by simp
  show "0 < length (encode_fixed_vi64 v)"
    by (cases v rule: fixed_vi64_cases) (auto simp: encode_i8_def)
  assume "length (encode_fixed_vi64 v) \<le> unat n"
  then show "decode_fixed_vi64 \<lparr>mem = encode_fixed_vi64 v @ rest, remain = n\<rparr>
      = Inr (v, \<lparr>mem = rest, remain = n - of_nat (length (encode_fixed_vi64 v))\<rparr>)"
    using decode_fixed_vi64_short [of v n rest] decode_fixed_vi64_tagged [of _ v n rest]
    by (cases v rule: fixed_vi64_cases) (auto simp: encode_i8_def)
qed

section \<open>Announced lengths of the tagged codecs\<close>

lemma length_encode_fixed_vi24: "length (encode_fixed_vi24 v) = encoded_length_fixed_vi24 v"
  by (simp add: encode_fixed_vi24_def encoded_length_fixed_vi24_def encode_i8_def)

lemma length_encode_fixed_vi32: "length (encode_fixed_vi32 v) = encoded_length_fixed_vi32 v"
  by (simp add: encode_fixed_vi32_def encoded_length_fixed_vi32_def encode_i8_def)

text \<open>
  \<open>encode_fixed_vi64\<close> compares with \<open><\<close> where \<open>encoded_length_fixed_vi64\<close> has \<open><=\<close>: at the
  three largest values of 5, 6 and 7 bytes it stores one byte more than announced.
\<close>

definition fixed_vi64_edges :: "u64 set" where
  "fixed_vi64_edges = {0xFFFFFFFFFF, 0xFFFFFFFFFFFF, 0xFFFFFFFFFFFFFF}"

lemma length_encode_fixed_vi64:
  "length (encode_fixed_vi64 v)
    = encoded_length_fixed_vi64 v + (if v \<in> fixed_vi64_edges then 1 else 0)"
proof -
  have le: "v < k \<longleftrightarrow> v \<le> k \<and> v \<noteq> k" for k by auto
  show ?thesis
    by (simp add: encode_fixed_vi64_def encoded_length_fixed_vi64_def encode_i8_def
        fixed_vi64_edges_def le)
qed

section \<open>Byte strings\<close>

definition bytes_out :: "bytes \<Rightarrow> bytes" where
  "bytes_out data = projr (encode_bytes data)"

lemma encode_bytes_out: "encode_bytes data = Inr (bytes_out data)"
  by (simp add: bytes_out_def encode_bytes_def encode_vi64_out)

lemma bytes_out_eq: "bytes_out data = vi64_out (of_nat (length data)) @ data"
  by (simp add: bytes_out_def encode_bytes_def encode_vi64_out)

interpretation byte_string: codec_pos bytes_out decode_bytes
  "\<lambda>d. encoded_length_vi64 (of_nat (length d)) + length d" "\<lambda>d. length d < 2 ^ 64" "\<lambda>d. d"
proof unfold_locales
  fix d :: bytes and n :: u64 and rest
  show "length (bytes_out d) = encoded_length_vi64 (of_nat (length d)) + length d"
    by (simp add: bytes_out_eq)
  show "0 < encoded_length_vi64 (of_nat (length d)) + length d"
    using vi64.len_pos by simp
  assume d: "length d < 2 ^ 64" and n: "encoded_length_vi64 (of_nat (length d)) + length d \<le> unat n"
  let ?k = "encoded_length_vi64 (of_nat (length d))"
  have k: "?k < 2 ^ 64" using n unsigned_less [of n, where ?'a = nat] by simp
  have "unat (n - of_nat ?k) = unat n - ?k"
    using n k by (simp add: unat_sub le_u64I)
  then have "of_nat (length d) \<le> n - of_nat ?k"
    using d n by (intro le_u64I) auto
  then show "decode_bytes \<lparr>mem = bytes_out d @ rest, remain = n\<rparr>
      = Inr (d, \<lparr>mem = rest, remain = n - of_nat (?k + length d)\<rparr>)"
    using vi64.dec_enc [of "of_nat (length d)" n "d @ rest"] d n
    by (simp add: decode_bytes_def bytes_out_eq decode_needed_ok diff_diff_eq)
qed

section \<open>Safety of the decoders on arbitrary input\<close>

lemma dbind_assoc: "dbind (dbind m f) g = dbind m (\<lambda>x. dbind (f x) g)"
  by (rule ext) (simp add: dbind_def split: sum.splits prod.splits)

lemma safe_needed_read [intro]: "unat len = k \<Longrightarrow> safe_dec (dbind (decode_needed len) (\<lambda>_. read_raw k))"
proof (rule safe_decI)
  fix r e assume "reader_ok r" and "unat len = k"
    and "dbind (decode_needed len) (\<lambda>_. read_raw k) r = Inl e"
  then show "e \<noteq> Undefined_Behaviour"
    by (auto simp: dbind_def decode_needed_def read_raw_def reader_ok_def word_less_nat_alt
        split: if_splits)
next
  fix r x r' assume "reader_ok r" and k: "unat len = k"
    and "dbind (decode_needed len) (\<lambda>_. read_raw k) r = Inr (x, r')"
  then have r': "r' = \<lparr>mem = drop k (mem r), remain = remain r - len\<rparr>" and le: "len \<le> remain r"
    by (auto simp: dbind_def decode_needed_def read_raw_def split: if_splits)
  have "unat (remain r - len) = unat (remain r) - k" using le k by (simp add: unat_sub)
  moreover have "k \<le> unat (remain r)" using le k by (simp add: word_le_nat_alt)
  ultimately show "consumes r r'" using r' by (auto simp: consumes_def intro!: exI [of _ k])
qed

lemma safe_needed_read_then [intro]:
  assumes "unat len = k" and "\<And>bs. safe_dec (g bs)"
  shows "safe_dec (dbind (decode_needed len) (\<lambda>_. dbind (read_raw k) g))"
proof -
  have "safe_dec (dbind (dbind (decode_needed len) (\<lambda>_. read_raw k)) g)"
    using assms by (intro safe_dbind safe_needed_read) auto
  then show ?thesis by (simp add: dbind_assoc)
qed

lemma decode_needed_one_eq: "decode_needed_one = decode_needed 1"
proof
  fix r :: reader
  have "remain r < 1 \<longleftrightarrow> remain r = 0" by (simp add: word_less_nat_alt unat_eq_zero)
  then show "decode_needed_one r = decode_needed 1 r"
    by (simp add: decode_needed_one_def decode_needed_def)
qed

lemma safe_decode_i8 [intro]: "safe_dec decode_i8"
  unfolding decode_i8_def decode_needed_one_eq by (intro safe_needed_read_then safe_dret) simp

lemma SWC_DECODE_VI_Suc:
  "SWC_DECODE_VI (Suc k) s n = dbind decode_i8 (\<lambda>b.
     let n' = n OR push_bit s (ucast (b AND 0x7f))
     in if b AND 0x80 = 0 then dret n' else SWC_DECODE_VI k (s + 7) n')"
  by (rule ext) (simp add: dbind_def Let_def split: sum.splits prod.splits)

lemma safe_SWC_DECODE_VI [intro]: "safe_dec (SWC_DECODE_VI k s n)"
proof (induction k arbitrary: s n)
  case 0
  then show ?case by (intro safe_decI) auto
next
  case (Suc k)
  then show ?case unfolding SWC_DECODE_VI_Suc Let_def
    by (intro safe_dbind safe_decode_i8) (simp add: safe_dret)
qed

lemma safe_fixed_width:
  "safe_dec decode_bool" "safe_dec decode_i16" "safe_dec decode_i24" "safe_dec decode_i32"
  "safe_dec decode_i64"
  unfolding decode_bool_def decode_i16_def decode_i24_def decode_i32_def decode_i64_def
  by (auto intro!: safe_needed_read_then)

lemma safe_varints: "safe_dec decode_vi24" "safe_dec decode_vi32" "safe_dec decode_vi64"
  unfolding decode_vi24_def decode_vi32_def decode_vi64_def by auto

lemma safe_decode_bytes: "safe_dec decode_bytes"
  unfolding decode_bytes_def by (intro safe_dbind safe_varints safe_needed_read) simp

lemma safe_decode_bytes_fixed: "safe_dec (decode_bytes_fixed len)"
  unfolding decode_bytes_fixed_def by (intro safe_needed_read) (simp add: unat_ucast_up)

section \<open>Properties\<close>

text \<open>the varint encoders of all three widths never reach their throw, and they store
  exactly the number of bytes their \<open>encoded_length\<close> announces.\<close>

lemma encode_vi_exact_length:
  "(\<exists>bs. encode_vi24 a = Inr bs \<and> length bs = encoded_length_vi24 a) \<and>
   (\<exists>bs. encode_vi32 b = Inr bs \<and> length bs = encoded_length_vi32 b) \<and>
   (\<exists>bs. encode_vi64 c = Inr bs \<and> length bs = encoded_length_vi64 c)"
  by (intro conjI encode_vi24_length encode_vi32_length encode_vi64_length)

text \<open>decoding what a varint encoder stored gives the value back, leaves the pointer
  right behind it and takes its length off the remaining count, whatever follows it.\<close>

lemma decode_vi_roundtrip:
  assumes "encoded_length_vi24 a \<le> unat n" and "encoded_length_vi32 b \<le> unat n"
    and "encoded_length_vi64 c \<le> unat n"
  shows "res_bind (encode_vi24 a) (\<lambda>bs. decode_vi24 \<lparr>mem = bs @ rest, remain = n\<rparr>)
        = Inr (a, \<lparr>mem = rest, remain = n - of_nat (encoded_length_vi24 a)\<rparr>) \<and>
      res_bind (encode_vi32 b) (\<lambda>bs. decode_vi32 \<lparr>mem = bs @ rest, remain = n\<rparr>)
        = Inr (b, \<lparr>mem = rest, remain = n - of_nat (encoded_length_vi32 b)\<rparr>) \<and>
      res_bind (encode_vi64 c) (\<lambda>bs. decode_vi64 \<lparr>mem = bs @ rest, remain = n\<rparr>)
        = Inr (c, \<lparr>mem = rest, remain = n - of_nat (encoded_length_vi64 c)\<rparr>)"
  using assms
  by (simp add: encode_vi24_out encode_vi32_out encode_vi64_out vi24.dec_enc vi32.dec_enc vi64.dec_enc)

lemma decode_vi_roundtrip_witness:
  "res_bind (encode_vi24 300) (\<lambda>bs. decode_vi24 \<lparr>mem = bs @ [7], remain = 9\<rparr>)
     = Inr (300, \<lparr>mem = [7], remain = 7\<rparr>)"
  using decode_vi_roundtrip [of 300 9 5 5 "[7]"]
  by (simp add: encoded_length_vi24_def encoded_length_vi32_def encoded_length_vi64_def max_vb_defs)

text \<open>the tagged 64-bit codec decodes every value it encoded, the boundary values included.\<close>

lemma decode_fixed_vi64_roundtrip:
  assumes "length (encode_fixed_vi64 v) \<le> unat n"
  shows "decode_fixed_vi64 \<lparr>mem = encode_fixed_vi64 v @ rest, remain = n\<rparr>
    = Inr (v, \<lparr>mem = rest, remain = n - of_nat (length (encode_fixed_vi64 v))\<rparr>)"
  by (rule fixed_vi64.dec_enc [OF TrueI assms])

lemma decode_fixed_vi64_roundtrip_witness:
  "decode_fixed_vi64 \<lparr>mem = encode_fixed_vi64 0xFFFFFFFFFF @ [1], remain = 8\<rparr>
    = Inr (0xFFFFFFFFFF, \<lparr>mem = [1], remain = 1\<rparr>)"
  using decode_fixed_vi64_roundtrip [of "0xFFFFFFFFFF" 8 "[1]"]
  by (simp add: length_encode_fixed_vi64 encoded_length_fixed_vi64_def fixed_vi64_edges_def)

text \<open>the announced length of the tagged 64-bit codec is the stored length except at
  \<open>2^40 - 1\<close>, \<open>2^48 - 1\<close> and \<open>2^56 - 1\<close>, where the encoder stores one byte more than a buffer
  sized by \<open>encoded_length_fixed_vi64\<close> holds.\<close>

lemma encode_fixed_vi64_length:
  "length (encode_fixed_vi64 v) =
     (if v = 0xFFFFFFFFFF \<or> v = 0xFFFFFFFFFFFF \<or> v = 0xFFFFFFFFFFFFFF
      then Suc (encoded_length_fixed_vi64 v) else encoded_length_fixed_vi64 v)"
  by (simp add: length_encode_fixed_vi64 fixed_vi64_edges_def)

text \<open>C33: on arbitrary input, the fixed width, varint and byte string decoders read only
  bytes the remaining count allows, and take off the count what they advanced.\<close>

theorem decoders_are_safe:
  "safe_dec decode_i8 \<and> safe_dec decode_i16 \<and> safe_dec decode_i24 \<and> safe_dec decode_i32 \<and>
   safe_dec decode_i64 \<and> safe_dec decode_vi24 \<and> safe_dec decode_vi32 \<and> safe_dec decode_vi64 \<and>
   safe_dec decode_bytes \<and> safe_dec (decode_bytes_fixed len)"
  using safe_decode_i8 safe_fixed_width safe_varints safe_decode_bytes safe_decode_bytes_fixed
  by blast

text \<open>the tagged decoders do not have that safety: a zero tag asks for no further byte
  and then falls into the branch that copies the full width.\<close>

lemma decode_fixed_vi64_zero_tag:
  "decode_fixed_vi64 \<lparr>mem = 0 # rest, remain = 1\<rparr>
    = (if length rest < 8 then Inl Undefined_Behaviour
       else Inr (le_word (take 8 rest), \<lparr>mem = drop 8 rest, remain = 0\<rparr>))"
  by (simp add: decode_fixed_vi64_def decode_i8_Cons decode_needed_def decode_fixed_vi_def
      read_raw_def dbind_def)

end
