(* ===== verification/Comparators.thy ===== *)
theory Comparators
  imports Prelude "HOL-Library.Sublist" "HOL-Library.Multiset" "HOL-Library.Signed_Division"
begin

text \<open>
  The conditions of src/src/cc/include/swcdb/core/Comparators.h and the memory comparisons
  of Comparators_basic.h. A pointer with its length is the list of its bytes. The code reads
  a comparison as "the second operand is ... than the first": \<open>GT\<close> says that the second one
  is the greater. RE2 is third-party code: \<open>is_matching_*\<close> take the partial match as a
  parameter (the pattern first).

  The theory also states the interface the ordered containers of the code rely on, the
  locale \<open>comp_order\<close>, and provides it for the two byte orders.
\<close>

section \<open>The conditions\<close>

datatype comp =
    NONE | PF | GT | GE | EQ | LE | LT | NE | RE
  | VGT | VGE | VLE | VLT
  | SBS | SPS | POSBS | POSPS | FOSBS | FOSPS
  | FIP | FI | COMP_OR

fun Comp_code :: "comp \<Rightarrow> byte" where
  "Comp_code NONE = 0x00" | "Comp_code PF = 0x01" | "Comp_code GT = 0x02"
| "Comp_code GE = 0x03" | "Comp_code EQ = 0x04" | "Comp_code LE = 0x05"
| "Comp_code LT = 0x06" | "Comp_code NE = 0x07" | "Comp_code RE = 0x08"
| "Comp_code VGT = 0x09" | "Comp_code VGE = 0x0A" | "Comp_code VLE = 0x0B"
| "Comp_code VLT = 0x0C" | "Comp_code SBS = 0x0D" | "Comp_code SPS = 0x0E"
| "Comp_code POSBS = 0x0F" | "Comp_code POSPS = 0x10" | "Comp_code FOSBS = 0x11"
| "Comp_code FOSPS = 0x12" | "Comp_code FIP = 0x13" | "Comp_code FI = 0x14"
| "Comp_code COMP_OR = 0x15"

section \<open>Memory comparison\<close>

text \<open>
  The callers never ask for more bytes than both operands have; the last equation only
  makes the function total.
\<close>

fun mem_cmp :: "bytes \<Rightarrow> bytes \<Rightarrow> nat \<Rightarrow> int" where
  "mem_cmp b1 b2 0 = 0"
| "mem_cmp (x # b1) (y # b2) (Suc cnt) =
     (if x \<noteq> y then (if x < y then -1 else 1) else mem_cmp b1 b2 cnt)"
| "mem_cmp b1 b2 (Suc cnt) = 0"

fun mem_eq :: "bytes \<Rightarrow> bytes \<Rightarrow> nat \<Rightarrow> bool" where
  "mem_eq b1 b2 0 = True"
| "mem_eq (x # b1) (y # b2) (Suc cnt) = (if x \<noteq> y then False else mem_eq b1 b2 cnt)"
| "mem_eq b1 b2 (Suc cnt) = True"

section \<open>Orders on byte strings\<close>

definition condition_lexic :: "bytes \<Rightarrow> bytes \<Rightarrow> comp" where
  "condition_lexic p1 p2 =
     (let diff = mem_cmp p1 p2 (if length p1 < length p2 then length p1 else length p2)
      in if diff = 0
         then (if length p1 = length p2 then EQ
               else if length p1 < length p2 then GT else LT)
         else if diff < 0 then GT else LT)"

definition condition_volume :: "bytes \<Rightarrow> bytes \<Rightarrow> comp" where
  "condition_volume p1 p2 =
     (if length p1 < length p2 then GT
      else if length p1 > length p2 then LT
      else (let diff = mem_cmp p1 p2 (length p1)
            in if diff = 0 then EQ else if diff < 0 then GT else LT))"

definition condition :: "bool \<Rightarrow> bytes \<Rightarrow> bytes \<Rightarrow> comp" where
  "condition vol p1 p2 = (if vol then condition_volume else condition_lexic) p1 p2"

definition pf :: "bytes \<Rightarrow> bytes \<Rightarrow> bool" where
  "pf p1 p2 \<longleftrightarrow> length p1 \<le> length p2 \<and> mem_eq p1 p2 (length p1)"

definition gt_lexic :: "bytes \<Rightarrow> bytes \<Rightarrow> bool" where
  "gt_lexic p1 p2 \<longleftrightarrow>
     (let diff = mem_cmp p1 p2 (if length p1 < length p2 then length p1 else length p2)
      in diff < 0 \<or> (diff = 0 \<and> length p1 < length p2))"

definition gt_volume :: "bytes \<Rightarrow> bytes \<Rightarrow> bool" where
  "gt_volume p1 p2 \<longleftrightarrow>
     length p1 < length p2 \<or> (length p1 = length p2 \<and> mem_cmp p1 p2 (length p2) < 0)"

definition ge_lexic :: "bytes \<Rightarrow> bytes \<Rightarrow> bool" where
  "ge_lexic p1 p2 \<longleftrightarrow>
     (let diff = mem_cmp p1 p2 (if length p1 < length p2 then length p1 else length p2)
      in diff < 0 \<or> (diff = 0 \<and> length p1 \<le> length p2))"

definition ge_volume :: "bytes \<Rightarrow> bytes \<Rightarrow> bool" where
  "ge_volume p1 p2 \<longleftrightarrow>
     length p1 < length p2 \<or> (length p1 = length p2 \<and> mem_cmp p1 p2 (length p2) \<le> 0)"

definition eq :: "bytes \<Rightarrow> bytes \<Rightarrow> bool" where
  "eq p1 p2 \<longleftrightarrow> length p1 = length p2 \<and> mem_eq p1 p2 (length p1)"

definition le_lexic :: "bytes \<Rightarrow> bytes \<Rightarrow> bool" where
  "le_lexic p1 p2 \<longleftrightarrow>
     (let diff = mem_cmp p1 p2 (if length p1 < length p2 then length p1 else length p2)
      in diff > 0 \<or> (diff = 0 \<and> length p1 \<ge> length p2))"

definition le_volume :: "bytes \<Rightarrow> bytes \<Rightarrow> bool" where
  "le_volume p1 p2 \<longleftrightarrow>
     length p1 > length p2 \<or> (length p1 = length p2 \<and> mem_cmp p1 p2 (length p1) \<ge> 0)"

definition lt_lexic :: "bytes \<Rightarrow> bytes \<Rightarrow> bool" where
  "lt_lexic p1 p2 \<longleftrightarrow>
     (let diff = mem_cmp p1 p2 (if length p1 < length p2 then length p1 else length p2)
      in diff > 0 \<or> (diff = 0 \<and> length p1 > length p2))"

definition lt_volume :: "bytes \<Rightarrow> bytes \<Rightarrow> bool" where
  "lt_volume p1 p2 \<longleftrightarrow>
     length p1 > length p2 \<or> (length p1 = length p2 \<and> mem_cmp p1 p2 (length p1) > 0)"

definition ne :: "bytes \<Rightarrow> bytes \<Rightarrow> bool" where
  "ne p1 p2 \<longleftrightarrow> \<not> eq p1 p2"

definition re :: "(bytes \<Rightarrow> bytes \<Rightarrow> bool) \<Rightarrow> bytes \<Rightarrow> bytes \<Rightarrow> bool" where
  "re partial_match p1 p2 \<longleftrightarrow>
     (if length p1 = 0 then length p2 = 0 else length p2 \<noteq> 0 \<and> partial_match p1 p2)"

section \<open>Subsets of the bytes\<close>

text \<open>The inner loop of \<open>sbs\<close>: mark the first position not yet found that has the byte.\<close>

fun sbs_find :: "bytes \<Rightarrow> bool list \<Rightarrow> byte \<Rightarrow> bool list option" where
  "sbs_find (x # p1) (f # found) c =
     (if \<not> f \<and> x = c then Some (True # found) else map_option ((#) f) (sbs_find p1 found c))"
| "sbs_find _ _ c = None"

fun sbs_loop :: "bytes \<Rightarrow> bool list \<Rightarrow> nat \<Rightarrow> bytes \<Rightarrow> bool" where
  "sbs_loop p1 found cnt [] = False"
| "sbs_loop p1 found cnt (c # p2) =
     (case sbs_find p1 found c of
        None \<Rightarrow> sbs_loop p1 found cnt p2
      | Some found' \<Rightarrow> (if cnt - 1 = 0 then True else sbs_loop p1 found' (cnt - 1) p2))"

definition sbs :: "bytes \<Rightarrow> bytes \<Rightarrow> bool" where
  "sbs p1 p2 =
     (if length p1 = 0 then True
      else if length p1 > length p2 then False
      else sbs_loop p1 (replicate (length p1) False) (length p1) p2)"

fun po_sbs_loop :: "bytes \<Rightarrow> bytes \<Rightarrow> bool" where
  "po_sbs_loop [] p2 = True"
| "po_sbs_loop (x # p1) [] = False"
| "po_sbs_loop (x # p1) (y # p2) = (if x = y then po_sbs_loop p1 p2 else po_sbs_loop (x # p1) p2)"

definition po_sbs :: "bytes \<Rightarrow> bytes \<Rightarrow> bool" where
  "po_sbs p1 p2 = (if length p1 > length p2 then False else po_sbs_loop p1 p2)"

fun fo_sbs_loop :: "bool \<Rightarrow> bytes \<Rightarrow> bytes \<Rightarrow> bool" where
  "fo_sbs_loop start [] p2 = True"
| "fo_sbs_loop start (x # p1) [] = False"
| "fo_sbs_loop start (x # p1) (y # p2) =
     (if x = y then fo_sbs_loop True p1 p2
      else if start then False else fo_sbs_loop start (x # p1) p2)"

definition fo_sbs :: "bytes \<Rightarrow> bytes \<Rightarrow> bool" where
  "fo_sbs p1 p2 = (if length p1 > length p2 then False else fo_sbs_loop False p1 p2)"

section \<open>Matching\<close>

fun is_matching_lexic :: "(bytes \<Rightarrow> bytes \<Rightarrow> bool) \<Rightarrow> comp \<Rightarrow> bytes \<Rightarrow> bytes \<Rightarrow> bool" where
  "is_matching_lexic rx PF p1 p2 = pf p1 p2"
| "is_matching_lexic rx GT p1 p2 = gt_lexic p1 p2"
| "is_matching_lexic rx GE p1 p2 = ge_lexic p1 p2"
| "is_matching_lexic rx EQ p1 p2 = eq p1 p2"
| "is_matching_lexic rx LE p1 p2 = le_lexic p1 p2"
| "is_matching_lexic rx LT p1 p2 = lt_lexic p1 p2"
| "is_matching_lexic rx NE p1 p2 = ne p1 p2"
| "is_matching_lexic rx RE p1 p2 = re rx p1 p2"
| "is_matching_lexic rx SBS p1 p2 = sbs p1 p2"
| "is_matching_lexic rx SPS p1 p2 = sbs p2 p1"
| "is_matching_lexic rx POSBS p1 p2 = po_sbs p1 p2"
| "is_matching_lexic rx POSPS p1 p2 = po_sbs p2 p1"
| "is_matching_lexic rx FOSBS p1 p2 = fo_sbs p1 p2"
| "is_matching_lexic rx FOSPS p1 p2 = fo_sbs p2 p1"
| "is_matching_lexic rx _ p1 p2 = True"

fun is_matching_volume :: "(bytes \<Rightarrow> bytes \<Rightarrow> bool) \<Rightarrow> comp \<Rightarrow> bytes \<Rightarrow> bytes \<Rightarrow> bool" where
  "is_matching_volume rx PF p1 p2 = pf p1 p2"
| "is_matching_volume rx GT p1 p2 = gt_volume p1 p2"
| "is_matching_volume rx GE p1 p2 = ge_volume p1 p2"
| "is_matching_volume rx EQ p1 p2 = eq p1 p2"
| "is_matching_volume rx LE p1 p2 = le_volume p1 p2"
| "is_matching_volume rx LT p1 p2 = lt_volume p1 p2"
| "is_matching_volume rx NE p1 p2 = ne p1 p2"
| "is_matching_volume rx RE p1 p2 = re rx p1 p2"
| "is_matching_volume rx SBS p1 p2 = sbs p1 p2"
| "is_matching_volume rx SPS p1 p2 = sbs p2 p1"
| "is_matching_volume rx POSBS p1 p2 = po_sbs p1 p2"
| "is_matching_volume rx POSPS p1 p2 = po_sbs p2 p1"
| "is_matching_volume rx FOSBS p1 p2 = fo_sbs p1 p2"
| "is_matching_volume rx FOSPS p1 p2 = fo_sbs p2 p1"
| "is_matching_volume rx _ p1 p2 = True"

definition is_matching :: "(bytes \<Rightarrow> bytes \<Rightarrow> bool) \<Rightarrow> bool \<Rightarrow> comp \<Rightarrow> bytes \<Rightarrow> bytes \<Rightarrow> bool" where
  "is_matching rx volumetric c p1 p2 =
     (if volumetric then is_matching_volume rx c p1 p2 else is_matching_lexic rx c p1 p2)"

fun is_matching_extended :: "(bytes \<Rightarrow> bytes \<Rightarrow> bool) \<Rightarrow> comp \<Rightarrow> bytes \<Rightarrow> bytes \<Rightarrow> bool" where
  "is_matching_extended rx PF p1 p2 = pf p1 p2"
| "is_matching_extended rx GT p1 p2 = gt_lexic p1 p2"
| "is_matching_extended rx GE p1 p2 = ge_lexic p1 p2"
| "is_matching_extended rx EQ p1 p2 = eq p1 p2"
| "is_matching_extended rx LE p1 p2 = le_lexic p1 p2"
| "is_matching_extended rx LT p1 p2 = lt_lexic p1 p2"
| "is_matching_extended rx NE p1 p2 = ne p1 p2"
| "is_matching_extended rx RE p1 p2 = re rx p1 p2"
| "is_matching_extended rx SBS p1 p2 = sbs p1 p2"
| "is_matching_extended rx SPS p1 p2 = sbs p2 p1"
| "is_matching_extended rx POSBS p1 p2 = po_sbs p1 p2"
| "is_matching_extended rx POSPS p1 p2 = po_sbs p2 p1"
| "is_matching_extended rx FOSBS p1 p2 = fo_sbs p1 p2"
| "is_matching_extended rx FOSPS p1 p2 = fo_sbs p2 p1"
| "is_matching_extended rx VGT p1 p2 = gt_volume p1 p2"
| "is_matching_extended rx VGE p1 p2 = ge_volume p1 p2"
| "is_matching_extended rx VLE p1 p2 = le_volume p1 p2"
| "is_matching_extended rx VLT p1 p2 = lt_volume p1 p2"
| "is_matching_extended rx _ p1 p2 = True"

section \<open>Matching of integers\<close>

text \<open>
  The \<open>const T\<close> templates at \<open>int64_t\<close>, the type they are used at for timestamps, counters
  and serialized integers. The remainder is C's, truncating.
\<close>

definition gt_i64 :: "i64 \<Rightarrow> i64 \<Rightarrow> bool" where
  "gt_i64 p1 p2 \<longleftrightarrow> sint p1 < sint p2"

definition ge_i64 :: "i64 \<Rightarrow> i64 \<Rightarrow> bool" where
  "ge_i64 p1 p2 \<longleftrightarrow> sint p1 \<le> sint p2"

definition eq_i64 :: "i64 \<Rightarrow> i64 \<Rightarrow> bool" where
  "eq_i64 p1 p2 \<longleftrightarrow> p1 = p2"

definition le_i64 :: "i64 \<Rightarrow> i64 \<Rightarrow> bool" where
  "le_i64 p1 p2 \<longleftrightarrow> sint p1 \<ge> sint p2"

definition lt_i64 :: "i64 \<Rightarrow> i64 \<Rightarrow> bool" where
  "lt_i64 p1 p2 \<longleftrightarrow> sint p1 > sint p2"

definition ne_i64 :: "i64 \<Rightarrow> i64 \<Rightarrow> bool" where
  "ne_i64 p1 p2 \<longleftrightarrow> p1 \<noteq> p2"

definition sbs_i64 :: "i64 \<Rightarrow> i64 \<Rightarrow> bool" where
  "sbs_i64 p1 p2 \<longleftrightarrow> p1 = 0 \<or> sint p2 smod sint p1 = 0"

definition fo_sbs_i64 :: "i64 \<Rightarrow> i64 \<Rightarrow> bool" where
  "fo_sbs_i64 p1 p2 \<longleftrightarrow> (p2 OR p1) = p2"

fun is_matching_i64 :: "comp \<Rightarrow> i64 \<Rightarrow> i64 \<Rightarrow> bool" where
  "is_matching_i64 GT p1 p2 = gt_i64 p1 p2"
| "is_matching_i64 GE p1 p2 = ge_i64 p1 p2"
| "is_matching_i64 EQ p1 p2 = eq_i64 p1 p2"
| "is_matching_i64 LE p1 p2 = le_i64 p1 p2"
| "is_matching_i64 LT p1 p2 = lt_i64 p1 p2"
| "is_matching_i64 NE p1 p2 = ne_i64 p1 p2"
| "is_matching_i64 SBS p1 p2 = sbs_i64 p1 p2"
| "is_matching_i64 SPS p1 p2 = sbs_i64 p2 p1"
| "is_matching_i64 FOSBS p1 p2 = fo_sbs_i64 p1 p2"
| "is_matching_i64 FOSPS p1 p2 = fo_sbs_i64 p2 p1"
| "is_matching_i64 _ p1 p2 = True"

section \<open>What the orders are\<close>

lemma mem_eq_take: "n \<le> length a \<Longrightarrow> n \<le> length b \<Longrightarrow> mem_eq a b n \<longleftrightarrow> take n a = take n b"
  by (induction a b n rule: mem_eq.induct) auto

lemma mem_cmp_zero: "n \<le> length a \<Longrightarrow> n \<le> length b \<Longrightarrow> mem_cmp a b n = 0 \<longleftrightarrow> take n a = take n b"
  by (induction a b n rule: mem_cmp.induct) auto

lemma mem_cmp_swap: "mem_cmp b a n = - mem_cmp a b n"
  by (induction a b n rule: mem_cmp.induct) auto

lemma eq_iff [simp]: "eq a b \<longleftrightarrow> a = b"
  by (auto simp: eq_def mem_eq_take)

lemma pf_iff: "pf a b \<longleftrightarrow> prefix a b"
  by (auto simp: pf_def mem_eq_take prefix_def) (metis append_take_drop_id)

text \<open>The dictionary order on byte strings, from the library.\<close>

abbreviation before :: "bytes \<Rightarrow> bytes \<Rightarrow> bool" where
  "before \<equiv> ord_class.lexordp"

lemma gt_lexic_Cons: "gt_lexic (x # a) (y # b) \<longleftrightarrow> x < y \<or> (x = y \<and> gt_lexic a b)"
  unfolding gt_lexic_def Let_def by (cases "length a < length b") auto

lemma gt_lexic_iff: "gt_lexic a b \<longleftrightarrow> before a b"
proof (induction a arbitrary: b)
  case Nil
  then show ?case by (cases b) (simp_all add: gt_lexic_def)
next
  case (Cons x a)
  show ?case
  proof (cases b)
    case Nil
    then show ?thesis by (simp add: gt_lexic_def)
  next
    case (Cons y c)
    then show ?thesis using Cons.IH [of c] by (auto simp: gt_lexic_Cons not_less_iff_gr_or_eq)
  qed
qed

lemma condition_lexic_iff:
  "condition_lexic a b = (if a = b then EQ else if before a b then GT else LT)"
proof -
  have "condition_lexic a b = EQ \<longleftrightarrow> a = b"
    by (auto simp: condition_lexic_def Let_def mem_cmp_zero not_less)
  moreover have "condition_lexic a b = GT \<longleftrightarrow> gt_lexic a b"
    by (auto simp: condition_lexic_def gt_lexic_def Let_def)
  moreover have "condition_lexic a b \<in> {EQ, GT, LT}"
    by (auto simp: condition_lexic_def Let_def)
  ultimately show ?thesis by (auto simp: gt_lexic_iff)
qed

lemma condition_volume_iff:
  "condition_volume a b =
     (if a = b then EQ
      else if length a < length b \<or> (length a = length b \<and> before a b) then GT else LT)"
proof -
  have "length a = length b \<Longrightarrow> gt_lexic a b \<longleftrightarrow> mem_cmp a b (length a) < 0"
    by (simp add: gt_lexic_def)
  then show ?thesis
    by (auto simp: condition_volume_def Let_def mem_cmp_zero gt_lexic_iff)
qed

section \<open>The order interface\<close>

text \<open>
  What the sorted containers need of a three-way comparison: it tells which of the three
  cases holds, equality is an equivalence, and "the second one is greater" is a strict
  order. \<open>dom\<close> is the set of keys it is total on.
\<close>

locale comp_order =
  fixes cmp :: "'k \<Rightarrow> 'k \<Rightarrow> comp"
    and dom :: "'k \<Rightarrow> bool"
    and same :: "'k \<Rightarrow> 'k \<Rightarrow> bool"
  assumes cmp_three: "dom a \<Longrightarrow> dom b \<Longrightarrow> cmp a b = EQ \<or> cmp a b = GT \<or> cmp a b = LT"
    and cmp_same: "dom a \<Longrightarrow> dom b \<Longrightarrow> cmp a b = EQ \<longleftrightarrow> same a b"
    and same_equiv: "equivp same"
    and cmp_swap: "dom a \<Longrightarrow> dom b \<Longrightarrow> cmp a b = GT \<longleftrightarrow> cmp b a = LT"
    and cmp_trans: "dom a \<Longrightarrow> dom b \<Longrightarrow> dom c \<Longrightarrow> cmp a b = GT \<Longrightarrow> cmp b c = GT \<Longrightarrow> cmp a c = GT"
begin

lemma same_refl: "same a a" using same_equiv by (rule equivp_reflp)

lemma same_sym: "same a b \<Longrightarrow> same b a" using same_equiv by (rule equivp_symp)

lemma same_trans: "same a b \<Longrightarrow> same b c \<Longrightarrow> same a c" using same_equiv by (rule equivp_transp)

lemma cmp_refl: "dom a \<Longrightarrow> cmp a a = EQ"
  by (simp add: cmp_same same_refl)

lemma cmp_swapD: "dom a \<Longrightarrow> dom b \<Longrightarrow> cmp a b = LT \<Longrightarrow> cmp b a = GT"
  using cmp_swap [of b a] by simp

lemma cmp_EQ_sym: "dom a \<Longrightarrow> dom b \<Longrightarrow> cmp a b = EQ \<Longrightarrow> cmp b a = EQ"
  by (simp add: cmp_same same_sym)

lemma cmp_same_right:
  assumes "dom a" "dom b" "dom c" and "cmp a b = GT" and "same b c"
  shows "cmp a c = GT"
proof -
  have "cmp a c \<noteq> EQ"
    using assms cmp_same same_sym same_trans by (metis comp.distinct)
  moreover have "cmp a c \<noteq> LT"
  proof
    assume "cmp a c = LT"
    then have "cmp c a = GT" using assms cmp_swapD by blast
    then have "cmp c b = GT" using assms cmp_trans by blast
    then have "\<not> same c b" using assms cmp_same by (metis comp.distinct)
    then show False using assms same_sym by blast
  qed
  ultimately show ?thesis using cmp_three assms by blast
qed

lemma cmp_same_left:
  assumes "dom a" "dom b" "dom c" and "cmp b c = GT" and "same a b"
  shows "cmp a c = GT"
proof -
  have "cmp a c \<noteq> EQ"
    using assms cmp_same same_sym same_trans by (metis comp.distinct)
  moreover have "cmp a c \<noteq> LT"
  proof
    assume "cmp a c = LT"
    then have "cmp c a = GT" using assms cmp_swapD by blast
    then have "cmp b a = GT" using assms cmp_trans by blast
    then have "\<not> same b a" using assms cmp_same by (metis comp.distinct)
    then show False using assms same_sym by blast
  qed
  ultimately show ?thesis using cmp_three assms by blast
qed

text \<open>"Not after" is a total preorder: the sortedness relation of the containers.\<close>

lemma not_LT_iff: "dom a \<Longrightarrow> dom b \<Longrightarrow> cmp a b \<noteq> LT \<longleftrightarrow> cmp a b = GT \<or> same a b"
  using cmp_three cmp_same by (metis comp.distinct)

lemma not_LT_trans:
  assumes "dom a" "dom b" "dom c" and "cmp a b \<noteq> LT" and "cmp b c \<noteq> LT"
  shows "cmp a c \<noteq> LT"
  using assms cmp_trans cmp_same_left cmp_same_right same_trans unfolding not_LT_iff [OF assms(1,2)]
    not_LT_iff [OF assms(2,3)] not_LT_iff [OF assms(1,3)] by blast

end

lemma lexordp_order:
  "before a b \<Longrightarrow> before b c \<Longrightarrow> before a c"
  "before a b \<Longrightarrow> \<not> before b a" "\<not> before a a"
  "before a b \<or> a = b \<or> before b a"
  using lexordp_trans lexordp_antisym lexordp_irreflexive' lexordp_linear by blast+

interpretation lexic: comp_order condition_lexic "\<lambda>_. True" "(=)"
  by unfold_locales
    (auto simp: condition_lexic_iff equivp_def intro: lexordp_order(1) dest: lexordp_order(2)
      split: if_splits; metis lexordp_order)+

interpretation volume: comp_order condition_volume "\<lambda>_. True" "(=)"
  by unfold_locales
    (auto simp: condition_volume_iff equivp_def intro: lexordp_order(1) dest: lexordp_order(2)
      split: if_splits; metis lexordp_order)+

section \<open>Matching agrees with the three-way comparisons\<close>

lemma lexic_sides:
  "gt_lexic a b \<longleftrightarrow> condition_lexic a b = GT"
  "ge_lexic a b \<longleftrightarrow> condition_lexic a b \<noteq> LT"
  "lt_lexic a b \<longleftrightarrow> condition_lexic a b = LT"
  "le_lexic a b \<longleftrightarrow> condition_lexic a b \<noteq> GT"
  by (auto simp: gt_lexic_def ge_lexic_def lt_lexic_def le_lexic_def condition_lexic_def Let_def)

lemma volume_sides:
  "gt_volume a b \<longleftrightarrow> condition_volume a b = GT"
  "ge_volume a b \<longleftrightarrow> condition_volume a b \<noteq> LT"
  "lt_volume a b \<longleftrightarrow> condition_volume a b = LT"
  "le_volume a b \<longleftrightarrow> condition_volume a b \<noteq> GT"
  by (auto simp: gt_volume_def ge_volume_def lt_volume_def le_volume_def condition_volume_def Let_def)

section \<open>What the subset conditions are\<close>

text \<open>The bytes of the pattern that are not found yet.\<close>

fun unfound :: "bytes \<Rightarrow> bool list \<Rightarrow> byte multiset" where
  "unfound (x # p1) (f # found) = (if f then {#} else {#x#}) + unfound p1 found"
| "unfound _ _ = {#}"

lemma unfound_start: "unfound p1 (replicate (length p1) False) = mset p1"
  by (induction p1) auto

lemma sbs_find_None: "sbs_find p1 found c = None \<Longrightarrow> c \<notin># unfound p1 found"
  by (induction p1 found c rule: sbs_find.induct) (auto split: if_splits)

lemma sbs_find_Some:
  "sbs_find p1 found c = Some found' \<Longrightarrow> unfound p1 found = add_mset c (unfound p1 found')"
  by (induction p1 found c arbitrary: found' rule: sbs_find.induct) (auto split: if_splits)

lemma sbs_loop_iff:
  "size (unfound p1 found) = cnt \<Longrightarrow> 0 < cnt \<Longrightarrow>
    sbs_loop p1 found cnt p2 \<longleftrightarrow> unfound p1 found \<subseteq># mset p2"
proof (induction p2 arbitrary: found cnt)
  case Nil
  then show ?case by auto
next
  case (Cons c p2)
  show ?case
  proof (cases "sbs_find p1 found c")
    case None
    then have "c \<notin># unfound p1 found" by (rule sbs_find_None)
    then have "unfound p1 found \<subseteq># mset (c # p2) \<longleftrightarrow> unfound p1 found \<subseteq># mset p2"
      by (metis add_mset_add_single diff_single_trivial mset.simps(2) subset_eq_diff_conv)
    then show ?thesis using None Cons.IH [OF Cons.prems] by simp
  next
    case (Some found')
    then have *: "unfound p1 found = add_mset c (unfound p1 found')" by (rule sbs_find_Some)
    show ?thesis
    proof (cases "cnt - 1 = 0")
      case True
      then have "unfound p1 found' = {#}" using * Cons.prems by auto
      then show ?thesis using True Some * by simp
    next
      case False
      then have "sbs_loop p1 found' (cnt - 1) p2 \<longleftrightarrow> unfound p1 found' \<subseteq># mset p2"
        using * Cons.prems by (intro Cons.IH) auto
      then show ?thesis using False Some * by simp
    qed
  qed
qed

lemma sbs_iff: "sbs p1 p2 \<longleftrightarrow> mset p1 \<subseteq># mset p2"
proof (cases "p1 = []")
  case False
  have "mset p1 \<subseteq># mset p2 \<Longrightarrow> length p1 \<le> length p2"
    by (metis size_mset size_mset_mono)
  moreover have "size (mset p1) = length p1" by simp
  ultimately show ?thesis
    using False sbs_loop_iff [of p1 "replicate (length p1) False" "length p1" p2]
    by (auto simp: sbs_def unfound_start)
qed (simp add: sbs_def)

lemma po_sbs_loop_iff: "po_sbs_loop p1 p2 \<longleftrightarrow> subseq p1 p2"
  by (induction p1 p2 rule: po_sbs_loop.induct) auto

lemma po_sbs_iff: "po_sbs p1 p2 \<longleftrightarrow> subseq p1 p2"
  by (auto simp: po_sbs_def po_sbs_loop_iff dest: list_emb_length)

lemma fo_sbs_loop_started: "fo_sbs_loop True p1 p2 \<longleftrightarrow> prefix p1 p2"
proof (induction p1 arbitrary: p2)
  case Nil
  then show ?case by simp
next
  case (Cons x p1)
  then show ?case by (cases p2) auto
qed

lemma fo_sbs_loop_iff:
  "fo_sbs_loop False p1 p2 \<longleftrightarrow> p1 = [] \<or> prefix p1 (dropWhile (\<lambda>c. c \<noteq> hd p1) p2)"
proof (induction p2)
  case Nil
  then show ?case by (cases p1) auto
next
  case (Cons c p2)
  then show ?case by (cases p1) (auto simp: fo_sbs_loop_started)
qed

lemma fo_sbs_eq: "fo_sbs p1 p2 \<longleftrightarrow> p1 = [] \<or> prefix p1 (dropWhile (\<lambda>c. c \<noteq> hd p1) p2)"
proof -
  have "prefix p1 (dropWhile P p2) \<Longrightarrow> length p1 \<le> length p2" for P
    using prefix_length_le length_dropWhile_le le_trans by blast
  then show ?thesis by (auto simp: fo_sbs_def fo_sbs_loop_iff)
qed

section \<open>Properties\<close>

text \<open>the lexic and the volume condition are the dictionary order and the
  shortest-first order of the byte strings: they answer \<open>EQ\<close> exactly on equal strings and
  otherwise \<open>GT\<close> exactly when the first operand comes before the second.\<close>

lemma conditions_are_orders:
  "condition_lexic p1 p2 = (if p1 = p2 then EQ else if ord_class.lexordp p1 p2 then GT else LT) \<and>
   condition_volume p1 p2 =
     (if p1 = p2 then EQ
      else if length p1 < length p2 \<or> (length p1 = length p2 \<and> ord_class.lexordp p1 p2)
      then GT else LT)"
  by (simp add: condition_lexic_iff condition_volume_iff)

text \<open>for the six order conditions, matching a value decides exactly what the
  three-way comparison of the same key sequence says, so scanning by ranges and seeking by
  comparison never disagree.\<close>

lemma is_matching_agrees:
  "is_matching rx vol GT p1 p2 = (condition vol p1 p2 = GT) \<and>
   is_matching rx vol GE p1 p2 = (condition vol p1 p2 \<noteq> LT) \<and>
   is_matching rx vol EQ p1 p2 = (condition vol p1 p2 = EQ) \<and>
   is_matching rx vol NE p1 p2 = (condition vol p1 p2 \<noteq> EQ) \<and>
   is_matching rx vol LE p1 p2 = (condition vol p1 p2 \<noteq> GT) \<and>
   is_matching rx vol LT p1 p2 = (condition vol p1 p2 = LT)"
  by (cases vol)
    (simp_all add: is_matching_def condition_def lexic_sides volume_sides ne_def
      condition_lexic_iff condition_volume_iff)

text \<open>the unordered subset condition is inclusion of the bytes with their
  multiplicities, the partially ordered one is the subsequence relation.\<close>

lemma subset_conditions:
  "sbs p1 p2 = (mset p1 \<subseteq># mset p2) \<and> po_sbs p1 p2 = subseq p1 p2"
  by (simp add: sbs_iff po_sbs_iff)

text \<open>the fully ordered subset condition only tries the first occurrence of the
  pattern's first byte: it is sound for "occurs as a block", and it misses blocks that start
  later.\<close>

lemma fo_sbs_first_occurrence:
  "(fo_sbs p1 p2 \<longleftrightarrow> p1 = [] \<or> prefix p1 (dropWhile (\<lambda>c. c \<noteq> hd p1) p2)) \<and>
   (fo_sbs p1 p2 \<longrightarrow> sublist p1 p2) \<and>
   \<not> fo_sbs [1, 1, 2] [1, 1, 1, 2] \<and> sublist [1, 1, 2 :: byte] [1, 1, 1, 2]"
proof -
  have "sublist p1 p2" if "prefix p1 (dropWhile P p2)" for P
    using that by (metis sublist_order.order_trans prefix_imp_sublist suffix_dropWhile suffix_imp_sublist)
  moreover have "sublist [1, 1, 2 :: byte] [1, 1, 1, 2]"
    unfolding sublist_def by (rule exI [of _ "[1]"], rule exI [of _ "[]"]) simp
  ultimately show ?thesis by (auto simp: fo_sbs_eq)
qed

lemma fo_sbs_first_occurrence_witness:
  "fo_sbs [1, 2] [3, 1, 2, 4] \<and> sublist [1, 2 :: byte] [3, 1, 2, 4]"
  using fo_sbs_first_occurrence [of "[1, 2]" "[3, 1, 2, 4]"] by (simp add: fo_sbs_eq)

text \<open>on integers \<open>SBS\<close> asks that the spec value divides the data value and \<open>FOSBS\<close>
  that its bits are among those of the data value; on bytes that the spec is contained in
  the data. The comment at the enumeration describes the converse.\<close>

lemma subset_direction:
  "is_matching_i64 SBS 2 6 \<and> \<not> is_matching_i64 SBS 6 2 \<and>
   is_matching_i64 FOSBS 2 6 \<and> \<not> is_matching_i64 FOSBS 6 2 \<and>
   \<not> is_matching_lexic rx SBS [6, 3, 2, 1, 9] [1, 2, 3] \<and>
   is_matching_lexic rx SBS [1, 2, 3] [6, 3, 2, 1, 9]"
  by (simp add: sbs_i64_def fo_sbs_i64_def sbs_iff)

end
