(* ===== verification/Cell_Key.thy ===== *)
theory Cell_Key
  imports Serialization Comparators
begin

text \<open>
  The cell key: src/src/cc/include/swcdb/db/Cells/CellKey.h, CellKey.cc and the vector form
  CellKeyVec.h. A key is a sequence of byte strings, its fractions; \<open>Key\<close> keeps them encoded
  one behind the other in one block (a 24-bit varint length and the bytes of each), with the
  number of fractions and the size of the block. \<open>key_data\<close> is the block (None for the null
  pointer); reading or writing beyond it is \<open>Undefined_Behaviour\<close>.

  \<open>key_of own fs\<close> is the representation of the fractions \<open>fs\<close>; the lemmas state each
  operation on representations as the list operation it stands for.
\<close>

section \<open>The key and its plain operations\<close>

record key =
  key_own :: bool
  key_count :: u24
  key_size :: u32
  key_data :: "bytes option"

definition Key_new :: key where
  "Key_new = \<lparr>key_own = False, key_count = 0, key_size = 0, key_data = None\<rparr>"

definition key_bytes :: "key \<Rightarrow> bytes" where
  "key_bytes k = (case key_data k of None \<Rightarrow> [] | Some d \<Rightarrow> d)"

definition key_move :: "key \<Rightarrow> key \<times> key" where
  "key_move other =
     (\<lparr>key_own = key_own other, key_count = key_count other, key_size = key_size other,
       key_data = key_data other\<rparr>,
      other\<lparr>key_data := None, key_size := 0, key_count := 0\<rparr>)"

definition key_free :: "key \<Rightarrow> key" where
  "key_free k = k\<lparr>key_data := None, key_size := 0, key_count := 0\<rparr>"

definition key_sane :: "key \<Rightarrow> bool" where
  "key_sane k \<longleftrightarrow>
     (key_count k \<noteq> 0 \<and> key_size k \<noteq> 0 \<and> key_data k \<noteq> None) \<or>
     (key_count k = 0 \<and> key_size k = 0 \<and> key_data k = None)"

text \<open>\<open>_data\<close>: a fresh copy of \<open>size\<close> bytes, null when the size is zero.\<close>

definition key_data_copy :: "u32 \<Rightarrow> bytes \<Rightarrow> bytes option" where
  "key_data_copy sz ptr = (if sz \<noteq> 0 then Some (take (unat sz) ptr) else None)"

definition key_copy :: "key \<Rightarrow> key" where
  "key_copy other =
     \<lparr>key_own = True, key_count = key_count other, key_size = key_size other,
      key_data = key_data_copy (key_size other) (key_bytes other)\<rparr>"

definition key_empty :: "key \<Rightarrow> bool" where
  "key_empty k \<longleftrightarrow> key_count k = 0"

definition key_equal :: "key \<Rightarrow> key \<Rightarrow> bool" where
  "key_equal k other \<longleftrightarrow>
     key_count k = key_count other \<and>
     ((key_data k = None \<and> key_data other = None) \<or>
      (key_size k = key_size other \<and>
       mem_eq (key_bytes k) (key_bytes other) (unat (key_size k))))"

section \<open>Building keys\<close>

text \<open>
  The new size is a sum of 32 bits; the block allocated for it is filled with the old fractions and the new ones, which
  is undefined when the sum has wrapped.
\<close>

definition key_room :: "u32 \<Rightarrow> nat \<Rightarrow> u32 res" where
  "key_room sz n = (let sz' = sz + of_nat n in if unat sz' < unat sz + n then Inl Undefined_Behaviour else Inr sz')"

definition key_old :: "key \<Rightarrow> bytes res" where
  "key_old k = (case key_data k of None \<Rightarrow> Inr []
     | Some d \<Rightarrow> if unat (key_size k) \<le> length d then Inr (take (unat (key_size k)) d) else Inl Undefined_Behaviour)"

text \<open>One fraction; the length parameter is 24 bits wide.\<close>

definition key_add :: "key \<Rightarrow> bytes \<Rightarrow> key res" where
  "key_add k fraction =
     (let len = (of_nat (length fraction) :: u24)
      in res_bind (key_old k) (\<lambda>old. res_bind (key_room (key_size k) (encoded_length_vi24 len + unat len)) (\<lambda>sz.
        Inr \<lparr>key_own = True, key_count = key_count k + 1, key_size = sz,
          key_data = Some (old @ vi24_out len @ take (unat len) fraction)\<rparr>)))"

text \<open>The template over a range of strings.\<close>

definition key_add_all :: "key \<Rightarrow> bytes list \<Rightarrow> key res" where
  "key_add_all k fs =
     (if fs = [] then Inr k
      else res_bind (key_old k) (\<lambda>old. res_bind (key_room (key_size k)
          (sum_list (map (\<lambda>f. encoded_length_vi24 (of_nat (length f)) + length f) fs))) (\<lambda>sz.
        Inr \<lparr>key_own = True, key_count = key_count k + of_nat (length fs), key_size = sz,
            key_data = Some (old @ concat (map (\<lambda>f. vi24_out (of_nat (length f)) @ f) fs))\<rparr>)))"

definition key_read :: "key \<Rightarrow> bytes list \<Rightarrow> key res" where
  "key_read k fs = key_add_all (key_free k) fs"

section \<open>Walking over the fractions\<close>

text \<open>\<open>ptr += decode_vi24(&ptr)\<close>.\<close>

definition skip_fraction :: "bytes \<Rightarrow> bytes res" where
  "skip_fraction ptr = res_bind (decode_vi24_ptr ptr) (\<lambda>(len, rest).
     if unat len \<le> length rest then Inr (drop (unat len) rest) else Inl Undefined_Behaviour)"

fun skip_fractions :: "nat \<Rightarrow> bytes \<Rightarrow> bytes res" where
  "skip_fractions 0 ptr = Inr ptr"
| "skip_fractions (Suc n) ptr = res_bind (skip_fraction ptr) (skip_fractions n)"

definition key_copy_after :: "u24 \<Rightarrow> key \<Rightarrow> key res" where
  "key_copy_after after_idx other =
     (if key_data other \<noteq> None \<and> after_idx + 1 < key_count other
      then res_bind (skip_fractions (unat (after_idx + 1)) (key_bytes other)) (\<lambda>ptr.
        let sz = key_size other - of_nat (length (key_bytes other) - length ptr)
        in Inr \<lparr>key_own = True, key_count = key_count other - (after_idx + 1),
                key_size = sz, key_data = key_data_copy sz ptr\<rparr>)
      else Inr \<lparr>key_own = True, key_count = 0, key_size = 0, key_data = None\<rparr>)"

text \<open>
  \<open>insert\<close> walks to the position and adds up \<open>offset += ptr_tmp - data\<close>, where the
  difference is already the distance from the start of the block.
\<close>

fun insert_seek :: "bytes \<Rightarrow> bytes \<Rightarrow> u32 \<Rightarrow> nat \<Rightarrow> (bytes \<times> u32) res" where
  "insert_seek block ptr offset 0 = Inr (ptr, offset)"
| "insert_seek block ptr offset (Suc pos) = res_bind (skip_fraction ptr) (\<lambda>ptr'.
     insert_seek block ptr' (offset + of_nat (length block - length ptr')) pos)"

definition key_insert :: "key \<Rightarrow> u32 \<Rightarrow> bytes \<Rightarrow> key res" where
  "key_insert k idx fraction =
     (if key_data k = None \<or> ucast (key_count k) \<le> idx then key_add k fraction
      else
        let len = (of_nat (length fraction) :: u24);
            prev_size = key_size k;
            block = key_bytes k
        in res_bind (key_room prev_size (encoded_length_vi24 len + unat len)) (\<lambda>sz.
          res_bind (insert_seek block block 0 (unat idx)) (\<lambda>(ptr_tmp, offset).
          if prev_size < offset \<or> length ptr_tmp < unat (prev_size - offset)
          then Inl Undefined_Behaviour
          else Inr \<lparr>key_own = True, key_count = key_count k + 1, key_size = sz,
                key_data = Some (take (unat offset) block @ vi24_out len
                  @ take (unat len) fraction @ take (unat (prev_size - offset)) ptr_tmp)\<rparr>)))"

definition key_remove :: "key \<Rightarrow> u32 \<Rightarrow> bool \<Rightarrow> key res" where
  "key_remove k idx recursive =
     (if key_data k = None \<or> ucast (key_count k) \<le> idx then Inr k
      else
        let block = key_bytes k
        in res_bind (skip_fractions (unat idx) block) (\<lambda>begin.
          res_bind (skip_fraction begin) (\<lambda>ptr.
            let before = length block - length begin;
                (c, block', sz) =
                  (if recursive then (ucast idx, block, of_nat before)
                   else if key_count k - 1 \<noteq> 0
                   then (key_count k - 1, take before block @ ptr,
                         key_size k - of_nat (length begin - length ptr))
                   else (key_count k - 1, block, key_size k))
            in Inr (if c \<noteq> 0
              then \<lparr>key_own = True, key_count = c, key_size = sz, key_data = key_data_copy sz block'\<rparr>
              else \<lparr>key_own = True, key_count = 0, key_size = 0, key_data = None\<rparr>))))"

definition key_get :: "key \<Rightarrow> u32 \<Rightarrow> bytes option res" where
  "key_get k idx =
     (if key_data k \<noteq> None \<and> idx < ucast (key_count k)
      then res_bind (skip_fractions (unat idx) (key_bytes k)) (\<lambda>ptr.
        res_bind (decode_vi24_ptr ptr) (\<lambda>(len, rest).
          if unat len \<le> length rest then Inr (Some (take (unat len) rest))
          else Inl Undefined_Behaviour))
      else Inr None)"

fun split_fractions :: "nat \<Rightarrow> bytes \<Rightarrow> bytes list res" where
  "split_fractions 0 ptr = Inr []"
| "split_fractions (Suc n) ptr = res_bind (decode_vi24_ptr ptr) (\<lambda>(len, rest).
     if unat len \<le> length rest
     then res_bind (split_fractions n (drop (unat len) rest)) (\<lambda>fs. Inr (take (unat len) rest # fs))
     else Inl Undefined_Behaviour)"

definition key_convert_to :: "key \<Rightarrow> bytes list res" where
  "key_convert_to k = split_fractions (unat (key_count k)) (key_bytes k)"

section \<open>Encoding\<close>

definition key_encoded_length :: "key \<Rightarrow> u32" where
  "key_encoded_length k = of_nat (encoded_length_vi24 (key_count k)) + key_size k"

definition key_encode :: "key \<Rightarrow> bytes" where
  "key_encode k =
     vi24_out (key_count k) @ (if key_size k \<noteq> 0 then take (unat (key_size k)) (key_bytes k) else [])"

text \<open>
  Only the number of fractions is read under the remaining count; their lengths are read
  through the pointer and the count is decreased afterwards.
\<close>

definition key_decode :: "bool \<Rightarrow> key decoder" where
  "key_decode owner = dbind decode_vi24 (\<lambda>cnt r.
     if cnt \<noteq> 0
     then res_bind (skip_fractions (unat cnt) (mem r)) (\<lambda>ptr.
       let sz = (of_nat (length (mem r) - length ptr) :: u32)
       in Inr (\<lparr>key_own = owner, key_count = cnt, key_size = sz,
                key_data = (if owner then key_data_copy sz (mem r) else Some (take (unat sz) (mem r)))\<rparr>,
               \<lparr>mem = ptr, remain = remain r - ucast sz\<rparr>))
     else Inr (\<lparr>key_own = owner, key_count = 0, key_size = 0, key_data = None\<rparr>, r))"

section \<open>The vector form\<close>

definition keyvec_add :: "bytes list \<Rightarrow> bytes \<Rightarrow> bytes list" where
  "keyvec_add v fraction = v @ [fraction]"

text \<open>The vector appends when the position is at or behind its end.\<close>

definition keyvec_insert :: "bytes list \<Rightarrow> nat \<Rightarrow> bytes \<Rightarrow> bytes list" where
  "keyvec_insert v idx fraction =
     (if length v \<le> idx then v @ [fraction] else take idx v @ fraction # drop idx v)"

definition keyvec_set :: "bytes list \<Rightarrow> nat \<Rightarrow> bytes \<Rightarrow> bytes list res" where
  "keyvec_set v idx fraction =
     (if idx < length v then Inr (v[idx := fraction]) else Inl Undefined_Behaviour)"

definition keyvec_remove :: "bytes list \<Rightarrow> nat \<Rightarrow> bytes list" where
  "keyvec_remove v idx = (if idx < length v then take idx v @ drop (Suc idx) v else v)"

definition keyvec_encoded_length :: "bytes list \<Rightarrow> u32" where
  "keyvec_encoded_length v = of_nat (encoded_length_vi32 (of_nat (length v))
     + sum_list (map (\<lambda>f. encoded_length_vi32 (of_nat (length f)) + length f) v))"

definition keyvec_encode :: "bytes list \<Rightarrow> bytes" where
  "keyvec_encode v = vi32_out (of_nat (length v))
     @ concat (map (\<lambda>f. vi32_out (of_nat (length f)) @ f) v)"

fun keyvec_decode_fractions :: "nat \<Rightarrow> bytes list decoder" where
  "keyvec_decode_fractions 0 = dret []"
| "keyvec_decode_fractions (Suc n) = dbind decode_vi32 (\<lambda>len r.
     dbind (read_raw (unat len)) (\<lambda>f. dbind (keyvec_decode_fractions n) (\<lambda>fs. dret (f # fs)))
       (r\<lparr>remain := remain r - ucast len\<rparr>))"

definition keyvec_decode :: "bytes list decoder" where
  "keyvec_decode = dbind decode_vi32 (\<lambda>n. keyvec_decode_fractions (unat n))"

section \<open>The representation of a list of fractions\<close>

definition enc_fraction :: "bytes \<Rightarrow> bytes" where
  "enc_fraction f = vi24_out (of_nat (length f)) @ f"

definition enc_fractions :: "bytes list \<Rightarrow> bytes" where
  "enc_fractions fs = concat (map enc_fraction fs)"

definition key_of :: "bool \<Rightarrow> bytes list \<Rightarrow> key" where
  "key_of own fs =
     \<lparr>key_own = own, key_count = of_nat (length fs), key_size = of_nat (length (enc_fractions fs)),
      key_data = (if fs = [] then None else Some (enc_fractions fs))\<rparr>"

text \<open>The sizes the counters of the code have room for, the count's own encoding included.\<close>

definition fits :: "bytes list \<Rightarrow> bool" where
  "fits fs \<longleftrightarrow> length fs < 2 ^ 24 \<and> (\<forall>f \<in> set fs. length f < 2 ^ 24)
     \<and> length (enc_fractions fs) + 4 < 2 ^ 32"

named_theorems fractions \<open>equations that walk over encoded fractions\<close>

lemma enc_fractions_simps [simp]:
  "enc_fractions [] = []"
  "enc_fractions (f # fs) = enc_fraction f @ enc_fractions fs"
  "enc_fractions (fs @ gs) = enc_fractions fs @ enc_fractions gs"
  by (simp_all add: enc_fractions_def)

lemma length_enc_fraction [simp]:
  "length (enc_fraction f) = encoded_length_vi24 (of_nat (length f)) + length f"
  by (simp add: enc_fraction_def)

lemma encoded_length_vi24_range: "1 \<le> encoded_length_vi24 v" "encoded_length_vi24 v \<le> 4"
  by (simp_all add: encoded_length_vi24_def)

lemma length_enc_fractions_ge: "length fs \<le> length (enc_fractions fs)"
proof (induction fs)
  case (Cons f fs)
  then show ?case using encoded_length_vi24_range(1) [of "of_nat (length f)"] by simp
qed simp

lemma enc_fractions_empty_iff [simp]: "enc_fractions fs = [] \<longleftrightarrow> fs = []"
  using length_enc_fractions_ge [of fs] by (metis enc_fractions_simps(1) le_zero_eq length_0_conv list.size(3))

lemma fits_Nil [simp]: "fits []"
  by (simp add: fits_def)

lemma fits_Cons: "fits (f # fs) \<Longrightarrow> fits fs \<and> length f < 2 ^ 24"
  by (simp add: fits_def)

lemma fits_append: "fits (fs @ gs) \<Longrightarrow> fits fs \<and> fits gs"
  by (simp add: fits_def)

lemma fits_take [simp]: "fits fs \<Longrightarrow> fits (take n fs)"
  using fits_append [of "take n fs" "drop n fs"] by simp

lemma fits_drop [simp]: "fits fs \<Longrightarrow> fits (drop n fs)"
  using fits_append [of "take n fs" "drop n fs"] by simp

lemma fits_bounds:
  assumes "fits fs"
  shows "length fs < 2 ^ 24" and "length (enc_fractions fs) < 2 ^ 32"
  using assms by (simp_all add: fits_def)

lemma unat_of_nat24 [simp]: "n < 2 ^ 24 \<Longrightarrow> unat (of_nat n :: u24) = n"
  by (simp add: unat_of_nat)
lemma unat_of_nat32 [simp]: "n < 2 ^ 32 \<Longrightarrow> unat (of_nat n :: u32) = n"
  by (simp add: unat_of_nat)

lemma decode_vi24_ptr_out [fractions]:
  "decode_vi24_ptr (vi24_out v @ rest) = Inr (v, rest)"
proof -
  have "encoded_length_vi24 v \<le> unat (4 :: u64)"
    using encoded_length_vi24_range(2) [of v] by simp
  from vi24.dec_enc [OF _ this] show ?thesis
    by (simp add: decode_vi24_ptr_def)
qed

lemma decode_fraction [fractions]:
  "decode_vi24_ptr (enc_fraction f @ rest) = Inr (of_nat (length f), f @ rest)"
  by (simp add: enc_fraction_def decode_vi24_ptr_out)

lemma skip_enc_fraction [fractions]:
  "length f < 2 ^ 24 \<Longrightarrow> skip_fraction (enc_fraction f @ rest) = Inr rest"
  by (simp add: skip_fraction_def decode_fraction)

lemma skip_enc_fractions [fractions]:
  "fits fs \<Longrightarrow> skip_fractions (length fs) (enc_fractions fs @ rest) = Inr rest"
proof (induction fs)
  case (Cons f fs)
  then have "fits fs" and "length f < 2 ^ 24" using fits_Cons by blast+
  with Cons.IH show ?case by (simp add: skip_enc_fraction)
qed simp

lemma skip_to:
  assumes "fits fs" and "i \<le> length fs"
  shows "skip_fractions i (enc_fractions fs) = Inr (enc_fractions (drop i fs))"
proof -
  have "enc_fractions fs = enc_fractions (take i fs) @ enc_fractions (drop i fs)"
    by (metis append_take_drop_id enc_fractions_simps(3))
  then show ?thesis
    using skip_enc_fractions [of "take i fs" "enc_fractions (drop i fs)"] assms
    by (simp add: min_absorb2)
qed

lemma key_of_simps [simp]:
  "key_own (key_of own fs) = own"
  "key_count (key_of own fs) = of_nat (length fs)"
  "key_size (key_of own fs) = of_nat (length (enc_fractions fs))"
  "key_data (key_of own fs) = None \<longleftrightarrow> fs = []"
  "key_bytes (key_of own fs) = enc_fractions fs"
  by (auto simp: key_of_def key_bytes_def)

lemma of_nat24_eq_0: "n < 2 ^ 24 \<Longrightarrow> (of_nat n :: u24) = 0 \<longleftrightarrow> n = 0"
  by (auto simp: word_of_nat_eq_0_iff dest: dvd_imp_le)

lemma of_nat32_eq_0: "n < 2 ^ 32 \<Longrightarrow> (of_nat n :: u32) = 0 \<longleftrightarrow> n = 0"
  by (auto simp: word_of_nat_eq_0_iff dest: dvd_imp_le)

lemma key_of_sane: "fits fs \<Longrightarrow> key_sane (key_of own fs)"
  using of_nat24_eq_0 [of "length fs"] of_nat32_eq_0 [of "length (enc_fractions fs)"]
  by (cases "fs = []") (simp_all add: key_sane_def key_of_def fits_def)

lemma key_of_inject:
  assumes "enc_fractions fs = enc_fractions gs" and "fits fs" and "fits gs"
  shows "fs = gs"
  using assms
proof (induction fs arbitrary: gs)
  case Nil
  then show ?case using enc_fractions_empty_iff [of gs] by simp
next
  case (Cons f fs)
  then obtain g gs' where gs: "gs = g # gs'"
    by (metis enc_fractions_empty_iff list.exhaust enc_fractions_simps(1) list.discI)
  have f: "length f < 2 ^ 24" "fits fs" and g: "length g < 2 ^ 24" "fits gs'"
    using Cons.prems(2,3) gs fits_Cons by blast+
  have "decode_vi24_ptr (enc_fraction f @ enc_fractions fs)
      = decode_vi24_ptr (enc_fraction g @ enc_fractions gs')"
    using Cons.prems(1) gs by simp
  then have *: "(of_nat (length f) :: u24) = of_nat (length g)"
    and **: "f @ enc_fractions fs = g @ enc_fractions gs'"
    by (simp_all add: decode_fraction)
  from * have "length f = length g" using f(1) g(1) by (metis unat_of_nat24)
  with ** have "f = g" and "enc_fractions fs = enc_fractions gs'" by auto
  then show ?case using Cons.IH f(2) g(2) gs by blast
qed

lemma mem_eq_full: "length a = length b \<Longrightarrow> mem_eq a b (length a) \<longleftrightarrow> a = b"
  by (induction a b rule: list_induct2) auto

lemma key_equal_iff:
  assumes "fits fs" and "fits gs"
  shows "key_equal (key_of o1 fs) (key_of o2 gs) \<longleftrightarrow> fs = gs"
proof
  assume eq: "key_equal (key_of o1 fs) (key_of o2 gs)"
  show "fs = gs"
  proof (cases "fs = [] \<and> gs = []")
    case False
    with eq have "length (enc_fractions fs) = length (enc_fractions gs)"
      and "mem_eq (enc_fractions fs) (enc_fractions gs) (length (enc_fractions fs))"
      using assms [THEN fits_bounds(2)] unfolding key_equal_def key_of_simps
      by (metis unat_of_nat32)+
    then show ?thesis using mem_eq_full key_of_inject assms by blast
  qed simp
next
  assume "fs = gs"
  then show "key_equal (key_of o1 fs) (key_of o2 gs)"
    using assms [THEN fits_bounds(2)] by (simp add: key_equal_def mem_eq_full)
qed

section \<open>Each operation as a list operation\<close>

lemma enc_split: "enc_fractions fs = enc_fractions (take i fs) @ enc_fractions (drop i fs)"
  by (metis append_take_drop_id enc_fractions_simps(3))

lemma ucast_of_nat24: "n < 2 ^ 24 \<Longrightarrow> (ucast (of_nat n :: u24) :: u32) = of_nat n"
  by (simp add: word_unat_eq_iff unat_ucast_up unat_of_nat take_bit_nat_eq_self)

lemma ucast_size64: "n < 2 ^ 32 \<Longrightarrow> (ucast (of_nat n :: u32) :: u64) = of_nat n"
  by (simp add: word_unat_eq_iff unat_ucast_up unat_of_nat take_bit_nat_eq_self)

lemma ucast_count_le:
  assumes "n < 2 ^ 24"
  shows "(ucast (of_nat n :: u24) :: u32) \<le> idx \<longleftrightarrow> n \<le> unat idx"
proof -
  have "n < 2 ^ 32" using assms by simp
  then show ?thesis
    by (simp add: ucast_of_nat24 [OF assms] word_le_nat_alt unat_of_nat take_bit_nat_eq_self)
qed

lemma key_room_ok: "unat sz + n < 2 ^ 32 \<Longrightarrow> key_room sz n = Inr (sz + of_nat n)"
proof -
  assume r: "unat sz + n < 2 ^ 32"
  then have "unat (of_nat n :: u32) = n" by (intro unat_of_nat32) simp
  then have "unat (sz + of_nat n) = unat sz + n" using r by (subst unat_add_lem [THEN iffD1]) simp_all
  then show ?thesis by (simp add: key_room_def)
qed

lemma key_old_of: "fits fs \<Longrightarrow> key_old (key_of own fs) = Inr (enc_fractions fs)"
  using fits_bounds(2) [of fs] by (simp add: key_old_def key_of_def)

lemma fits_sum: "fits (fs @ gs) \<Longrightarrow> fits fs \<and> fits gs \<and> length (enc_fractions fs) + length (enc_fractions gs) < 2 ^ 32"
  using fits_append by (auto simp: fits_def)

lemma key_add_of:
  assumes "fits (fs @ [f])"
  shows "key_add (key_of own fs) f = Inr (key_of True (fs @ [f]))"
proof -
  note f = fits_sum [OF assms]
  then have l: "length f < 2 ^ 24" by (simp add: fits_def)
  have "unat (key_size (key_of own fs)) = length (enc_fractions fs)" using fits_bounds(2) [of fs] f by simp
  then have "key_room (key_size (key_of own fs)) (encoded_length_vi24 (of_nat (length f)) + length f) =
      Inr (key_size (key_of own fs) + of_nat (encoded_length_vi24 (of_nat (length f)) + length f))"
    using f by (intro key_room_ok) simp
  then show ?thesis
    using f l by (simp add: key_add_def Let_def key_old_of) (simp add: key_of_def enc_fraction_def)
qed

lemma enc_fractions_size:
  "sum_list (map (\<lambda>f. encoded_length_vi24 (of_nat (length f)) + length f) fs)
    = length (enc_fractions fs)"
  by (induction fs) auto

lemma key_add_all_of:
  assumes "fits (fs @ gs)"
  shows "key_add_all (key_of own fs) gs = Inr (if gs = [] then key_of own fs else key_of True (fs @ gs))"
proof -
  note f = fits_sum [OF assms]
  have "unat (key_size (key_of own fs)) = length (enc_fractions fs)" using fits_bounds(2) [of fs] f by simp
  then have "key_room (key_size (key_of own fs)) (length (enc_fractions gs)) =
      Inr (key_size (key_of own fs) + of_nat (length (enc_fractions gs)))"
    using f by (intro key_room_ok) simp
  then show ?thesis
    using f by (simp add: key_add_all_def key_old_of enc_fractions_size)
      (simp add: key_of_def enc_fractions_def enc_fraction_def [abs_def])
qed

lemma key_free_of: "key_free k = (key_of (key_own k) [])"
  by (simp add: key_free_def key_of_def)

lemma key_read_of: "fits gs \<Longrightarrow> gs \<noteq> [] \<Longrightarrow> key_read k gs = Inr (key_of True gs)"
  using key_add_all_of [of "[]" gs] by (simp add: key_read_def key_free_of)

text \<open>Where the sum of 32 bits wraps the new block is too small.\<close>

lemma key_room_none: "2 ^ 32 \<le> unat sz + n \<Longrightarrow> key_room sz n = Inl Undefined_Behaviour"
proof -
  assume "2 ^ 32 \<le> unat sz + n"
  moreover have "unat (sz + of_nat n) < 2 ^ 32" by (rule less_le_trans [OF unsigned_less]) simp
  ultimately show ?thesis by (simp add: key_room_def)
qed

lemma key_add_overflows:
  assumes "fits fs" and "length f < 2 ^ 24" and "2 ^ 32 \<le> length (enc_fractions fs) + length (enc_fraction f)"
  shows "key_add (key_of own fs) f = Inl Undefined_Behaviour"
proof -
  have "key_room (of_nat (length (enc_fractions fs))) (encoded_length_vi24 (of_nat (length f)) + length f) = Inl Undefined_Behaviour"
    using assms(3) fits_bounds(2) [OF assms(1)] by (intro key_room_none) simp
  then show ?thesis using assms(2) by (simp add: key_add_def Let_def key_old_of [OF assms(1)])
qed

lemma fits_insert: "fits (fs @ [f]) \<Longrightarrow> fits (take n fs @ f # drop n fs)"
proof -
  have "length (enc_fractions (take n fs)) + length (enc_fractions (drop n fs)) = length (enc_fractions fs)"
    using arg_cong [OF enc_split [of fs n], of length] by simp
  moreover have "set (take n fs) \<union> set (drop n fs) = set fs" by (metis append_take_drop_id set_append)
  moreover assume "fits (fs @ [f])"
  ultimately show ?thesis by (auto simp: fits_def)
qed

lemma key_of_Cons_data:
  "fs \<noteq> [] \<Longrightarrow> fits fs \<Longrightarrow> key_data_copy (of_nat (length (enc_fractions fs))) (enc_fractions fs @ rest)
    = Some (enc_fractions fs)"
  using fits_bounds(2) [of fs] of_nat32_eq_0 [of "length (enc_fractions fs)"]
  by (simp add: key_data_copy_def)

lemma key_copy_of: "fits fs \<Longrightarrow> key_copy (key_of own fs) = key_of True fs"
  using key_of_Cons_data [of fs "[]"]
  by (cases "fs = []") (auto simp: key_copy_def key_of_def key_bytes_def key_data_copy_def)

lemma split_fractions_of: "fits fs \<Longrightarrow> split_fractions (length fs) (enc_fractions fs @ rest) = Inr fs"
proof (induction fs)
  case (Cons f fs)
  then have "fits fs" and "length f < 2 ^ 24" using fits_Cons by blast+
  with Cons.IH show ?case by (simp add: decode_fraction)
qed simp

lemma key_convert_to_of: "fits fs \<Longrightarrow> key_convert_to (key_of own fs) = Inr fs"
  using split_fractions_of [of fs "[]"] fits_bounds(1) [of fs] by (simp add: key_convert_to_def)

lemma decode_head:
  "fits fs \<Longrightarrow> i < length fs \<Longrightarrow> decode_vi24_ptr (enc_fractions (drop i fs))
    = Inr (of_nat (length (fs ! i)), fs ! i @ enc_fractions (drop (Suc i) fs))"
  by (simp add: Cons_nth_drop_Suc [symmetric] decode_fraction)

lemma key_get_of:
  assumes "fits fs"
  shows "key_get (key_of own fs) idx
    = Inr (if unat idx < length fs then Some (fs ! unat idx) else None)"
proof (cases "unat idx < length fs")
  case True
  then have "length (fs ! unat idx) < 2 ^ 24" using assms by (simp add: fits_def)
  then show ?thesis
    using True assms fits_bounds(1) [OF assms] skip_to [OF assms, of "unat idx"]
      decode_head [OF assms True]
    by (auto simp: key_get_def not_le [symmetric] ucast_count_le)
next
  case False
  then show ?thesis using fits_bounds(1) [OF assms]
    by (simp add: key_get_def not_le [symmetric] ucast_count_le)
qed

lemma key_copy_after_of:
  assumes "fits fs" and "unat i + 1 < 2 ^ 24"
  shows "key_copy_after i (key_of own fs) = Inr (key_of True (drop (unat i + 1) fs))"
proof -
  have i: "unat (i + 1) = unat i + 1"
    using assms(2) by (simp add: unat_word_ariths(1))
  have lt: "i + 1 < of_nat (length fs) \<longleftrightarrow> unat i + 1 < length fs"
    using fits_bounds(1) [OF assms(1)] by (simp add: word_less_nat_alt i)
  show ?thesis
  proof (cases "unat i + 1 < length fs")
    case True
    let ?gs = "drop (unat i + 1) fs"
    have gs: "fits ?gs" "?gs \<noteq> []" using assms True by simp_all
    have "(of_nat (length fs) :: u24) - (i + 1) = of_nat (length ?gs)"
    proof (rule iffD2 [OF word_unat_eq_iff])
      have "i + 1 \<le> of_nat (length fs)" using lt True by simp
      then have "unat ((of_nat (length fs) :: u24) - (i + 1)) = length fs - (unat i + 1)"
        using fits_bounds(1) [OF assms(1)] by (simp add: unat_sub i)
      then show "unat ((of_nat (length fs) :: u24) - (i + 1)) = unat (of_nat (length ?gs) :: u24)"
        using fits_bounds(1) [OF gs(1)] by simp
    qed
    moreover have sz: "(of_nat (length (enc_fractions fs)) :: u32)
        - of_nat (length (enc_fractions fs) - length (enc_fractions ?gs))
        = of_nat (length (enc_fractions ?gs))"
      using enc_split [of fs "unat i + 1"] by simp
    moreover have "key_copy_after i (key_of own fs)
      = Inr \<lparr>key_own = True, key_count = of_nat (length fs) - (i + 1),
          key_size = of_nat (length (enc_fractions ?gs)), key_data = Some (enc_fractions ?gs)\<rparr>"
      using True lt skip_to [OF assms(1), of "unat i + 1"] key_of_Cons_data [OF gs(2,1), of "[]"] sz
      by (auto simp: key_copy_after_def i Let_def simp del: skip_fractions.simps)
    ultimately show ?thesis using gs(2) by (simp only: key_of_def) simp
  next
    case False
    then show ?thesis using lt by (simp add: key_copy_after_def key_of_def)
  qed
qed

lemma key_recE:
  "gs \<noteq> [] \<Longrightarrow> \<lparr>key_own = own, key_count = of_nat (length gs),
     key_size = of_nat (length (enc_fractions gs)), key_data = Some (enc_fractions gs)\<rparr> = key_of own gs"
  by (simp add: key_of_def)

lemma key_of_Nil: "\<lparr>key_own = own, key_count = 0, key_size = 0, key_data = None\<rparr> = key_of own []"
  by (simp add: key_of_def)

lemma skip_head:
  "fits fs \<Longrightarrow> i < length fs \<Longrightarrow>
    skip_fraction (enc_fractions (drop i fs)) = Inr (enc_fractions (drop (Suc i) fs))"
  using skip_enc_fraction [of "fs ! i" "enc_fractions (drop (Suc i) fs)"]
  by (simp add: Cons_nth_drop_Suc [symmetric] fits_def)

lemma fits_without: "fits fs \<Longrightarrow> fits (take i fs @ drop (Suc i) fs)"
proof -
  assume fs: "fits fs"
  have "length (enc_fractions (drop (Suc i) fs)) \<le> length (enc_fractions (drop i fs))"
    by (cases "i < length fs") (simp_all add: Cons_nth_drop_Suc [symmetric])
  moreover have "set (take i fs @ drop (Suc i) fs) \<subseteq> set fs"
    by (auto dest: in_set_takeD in_set_dropD)
  moreover have "length (take i fs @ drop (Suc i) fs) \<le> length fs" by simp
  ultimately show ?thesis
    using fs enc_split [of fs i] unfolding fits_def by (simp add: subset_eq)
qed

lemma key_remove_of:
  assumes fs: "fits fs"
  shows "key_remove (key_of own fs) idx recursive =
    Inr (if length fs \<le> unat idx then key_of own fs
         else if recursive then key_of True (take (unat idx) fs)
         else key_of True (take (unat idx) fs @ drop (Suc (unat idx)) fs))"
proof (cases "length fs \<le> unat idx")
  case True
  then show ?thesis using fits_bounds(1) [OF fs] by (simp add: key_remove_def ucast_count_le)
next
  case False
  define i where "i = unat idx"
  have i: "i < length fs" using False by (simp add: i_def)
  define pre where "pre = take i fs"
  define post where "post = drop (Suc i) fs"
  have split: "enc_fractions fs = enc_fractions pre @ enc_fractions (drop i fs)"
    unfolding pre_def by (rule enc_split)
  have tail: "enc_fractions (drop i fs) = enc_fraction (fs ! i) @ enc_fractions post"
    using i by (simp add: Cons_nth_drop_Suc [symmetric] post_def)
  have pre: "fits pre" "length pre = i" using fs i by (simp_all add: pre_def)
  have rest: "fits (pre @ post)" using fits_without [OF fs, of i] by (simp add: pre_def post_def)
  have len: "length fs = Suc (length (pre @ post))" using i by (simp add: pre_def post_def)
  have cnt: "of_nat (length fs) - 1 = (of_nat (length (pre @ post)) :: u24)"
    by (simp only: len) simp
  have cnt0: "of_nat (length fs) - 1 = (0 :: u24) \<longleftrightarrow> pre @ post = []"
    unfolding cnt by (simp only: of_nat24_eq_0 [OF fits_bounds(1) [OF rest]] length_0_conv)
  have idx24: "(ucast idx :: u24) = of_nat i"
    using i fits_bounds(1) [OF fs]
    by (simp add: word_unat_eq_iff unsigned_ucast_eq unsigned_take_bit_eq take_bit_nat_eq_self i_def)
  have idx0: "(ucast idx :: u24) = 0 \<longleftrightarrow> pre = []"
    unfolding idx24 using i fits_bounds(1) [OF fs] of_nat24_eq_0 [of i] pre(2) by auto
  have size: "(of_nat (length (enc_fractions fs)) :: u32)
      - of_nat (length (enc_fractions (drop i fs)) - length (enc_fractions post))
      = of_nat (length (enc_fractions (pre @ post)))"
    unfolding split tail by simp
  have nle: "\<not> (ucast (of_nat (length fs) :: u24) :: u32) \<le> idx"
    using i fits_bounds(1) [OF fs] by (simp add: ucast_count_le i_def)
  note steps = skip_to [OF fs, of i] skip_head [OF fs i, folded post_def] i nle
  show ?thesis
  proof (cases recursive)
    case True
    have dist: "length (enc_fractions fs) - length (enc_fractions (drop i fs)) = length (enc_fractions pre)"
      using split by simp
    have "fs \<noteq> []" using i by auto
    with True steps have "key_remove (key_of own fs) idx recursive =
        (let c = ucast idx; sz = of_nat (length (enc_fractions pre))
         in Inr (if c \<noteq> 0 then \<lparr>key_own = True, key_count = c, key_size = sz,
               key_data = key_data_copy sz (enc_fractions pre @ enc_fractions (drop i fs))\<rparr>
             else \<lparr>key_own = True, key_count = 0, key_size = 0, key_data = None\<rparr>))"
      by (simp add: key_remove_def Let_def i_def [symmetric] dist split [symmetric]
          del: of_nat_diff skip_fractions.simps)
    also have "\<dots> = Inr (key_of True pre)"
      using key_of_Cons_data [OF _ pre(1)] pre(2)
      by (simp only: Let_def idx0) (simp only: idx24 pre(2) [symmetric] key_of_Nil split: if_split, simp add: key_recE)
    finally have "key_remove (key_of own fs) idx recursive = Inr (key_of True pre)" .
    then show ?thesis using True False by (simp add: pre_def i_def)
  next
    case nr: False
    have before: "take (length (enc_fractions fs) - length (enc_fractions (drop i fs))) (enc_fractions fs)
        = enc_fractions pre"
      using split by simp
    have "fs \<noteq> []" using i by auto
    with nr steps have "key_remove (key_of own fs) idx recursive =
        (let c = of_nat (length fs) - 1;
             sz = of_nat (length (enc_fractions fs))
               - of_nat (length (enc_fractions (drop i fs)) - length (enc_fractions post))
         in Inr (if c \<noteq> 0 then \<lparr>key_own = True, key_count = c, key_size = sz,
               key_data = key_data_copy sz (enc_fractions (pre @ post))\<rparr>
             else \<lparr>key_own = True, key_count = 0, key_size = 0, key_data = None\<rparr>))"
      by (auto simp add: key_remove_def Let_def i_def [symmetric] before
          simp del: of_nat_diff skip_fractions.simps)
    also have "\<dots> = Inr (key_of True (pre @ post))"
      using key_of_Cons_data [OF _ rest, of "[]"]
      by (simp only: Let_def size cnt0) (simp only: cnt key_of_Nil append_Nil2 split: if_split, simp add: key_recE del: length_append enc_fractions_simps(3))
    finally have "key_remove (key_of own fs) idx recursive = Inr (key_of True (pre @ post))" .
    then show ?thesis using nr False by (simp add: pre_def post_def i_def)
  qed
qed


section \<open>Insertion\<close>

text \<open>The offset the code arrives at: the sum of the distances of all earlier positions.\<close>

definition seek_offset :: "bytes list \<Rightarrow> nat \<Rightarrow> nat" where
  "seek_offset fs i = sum_list (map (\<lambda>m. length (enc_fractions (take m fs))) [0..<Suc i])"

lemma insert_seek_of:
  assumes "fits fs" and "j + n \<le> length fs"
  shows "insert_seek (enc_fractions fs) (enc_fractions (drop j fs)) (of_nat (seek_offset fs j)) n
    = Inr (enc_fractions (drop (j + n) fs), of_nat (seek_offset fs (j + n)))"
  using assms
proof (induction n arbitrary: j)
  case (Suc n)
  have dist: "length (enc_fractions fs) - length (enc_fractions (drop (Suc j) fs))
      = length (enc_fractions (take (Suc j) fs))"
    using enc_split [of fs "Suc j"] by simp
  have "of_nat (seek_offset fs j) + of_nat (length (enc_fractions (take (Suc j) fs)))
      = (of_nat (seek_offset fs (Suc j)) :: u32)"
    by (simp add: seek_offset_def)
  then show ?case
    using Suc.IH [of "Suc j"] Suc.prems skip_head [OF Suc.prems(1), of j] by (simp add: dist)
qed simp

lemma seek_offset_small:
  "seek_offset fs 0 = 0"
  "seek_offset fs (Suc 0) = length (enc_fractions (take 1 fs))"
  by (simp_all add: seek_offset_def)

lemma key_insert_of:
  assumes fs: "fits fs" and f: "length f < 2 ^ 24" and i: "unat idx < length fs"
    and o: "seek_offset fs (unat idx) < 2 ^ 32" and room: "length (enc_fractions fs) + length (enc_fraction f) < 2 ^ 32"
  shows "key_insert (key_of own fs) idx f =
    (let off = seek_offset fs (unat idx); tail = enc_fractions (drop (unat idx) fs);
         n = length (enc_fractions fs)
     in if n < off \<or> length tail < n - off then Inl Undefined_Behaviour
        else Inr \<lparr>key_own = True, key_count = of_nat (Suc (length fs)),
               key_size = of_nat (length (enc_fractions (f # fs))),
               key_data = Some (take off (enc_fractions fs) @ enc_fraction f
                 @ take (n - off) tail)\<rparr>)"
proof -
  let ?n = "length (enc_fractions fs)" and ?off = "seek_offset fs (unat idx)"
  have nle: "\<not> (ucast (of_nat (length fs) :: u24) :: u32) \<le> idx"
    using i fits_bounds(1) [OF fs] by (simp add: ucast_count_le)
  have "insert_seek (enc_fractions fs) (enc_fractions fs) 0 (unat idx)
      = Inr (enc_fractions (drop (unat idx) fs), of_nat ?off)"
    using insert_seek_of [OF fs, of 0 "unat idx"] i by (simp add: seek_offset_small)
  moreover have lt: "(of_nat ?n :: u32) < of_nat ?off \<longleftrightarrow> ?n < ?off"
    using o fits_bounds(2) [OF fs] by (simp add: word_less_nat_alt)
  moreover have "\<not> ?n < ?off \<Longrightarrow> unat (of_nat ?n - of_nat ?off :: u32) = ?n - ?off"
    using o fits_bounds(2) [OF fs] lt by (simp add: unat_sub word_le_nat_alt)
  moreover have "fs \<noteq> []" using i by auto
  moreover have "key_room (of_nat ?n) (encoded_length_vi24 (of_nat (length f)) + length f) =
      Inr (of_nat ?n + of_nat (encoded_length_vi24 (of_nat (length f)) + length f))"
    using room fits_bounds(2) [OF fs] by (intro key_room_ok) simp
  ultimately show ?thesis
    using nle o f by (simp add: key_insert_def Let_def enc_fraction_def ucast_of_nat24)
qed

lemma key_insert_front:
  assumes room: "fits (fs @ [f])" and i: "unat idx \<le> 1 \<or> length fs \<le> unat idx"
  shows "key_insert (key_of own fs) idx f
    = Inr (key_of True (take (unat idx) fs @ f # drop (unat idx) fs))"
proof (cases "length fs \<le> unat idx")
  case True
  then show ?thesis using fits_bounds(1) [of fs] room fits_sum [OF room]
    by (auto simp: key_insert_def ucast_count_le key_add_of)
next
  case False
  have fs: "fits fs" and f: "length f < 2 ^ 24" and sz: "length (enc_fractions fs) + length (enc_fraction f) < 2 ^ 32"
    using fits_sum [OF room] by (simp_all add: fits_def)
  have lt: "unat idx < length fs" and "unat idx = 0 \<or> unat idx = Suc 0" using i False by auto
  then have off: "seek_offset fs (unat idx) = length (enc_fractions (take (unat idx) fs))"
    by (auto simp: seek_offset_small)
  note sp = enc_split [of fs "unat idx"]
  have o: "seek_offset fs (unat idx) < 2 ^ 32"
    using fits_bounds(2) [OF fits_take [OF fs]] by (simp add: off)
  have len: "length (enc_fractions fs) = seek_offset fs (unat idx)
      + length (enc_fractions (drop (unat idx) fs))"
    by (subst sp) (simp add: off)
  have "take (seek_offset fs (unat idx)) (enc_fractions fs) = enc_fractions (take (unat idx) fs)"
    by (subst sp) (simp add: off)
  moreover have "key_of True (take (unat idx) fs @ f # drop (unat idx) fs)
    = \<lparr>key_own = True, key_count = of_nat (Suc (length fs)),
       key_size = of_nat (length (enc_fractions (f # fs))),
       key_data = Some (enc_fractions (take (unat idx) fs) @ enc_fraction f
         @ enc_fractions (drop (unat idx) fs))\<rparr>"
    using lt len off by (simp add: key_of_def)
  ultimately show ?thesis
    using key_insert_of [OF fs f lt o sz, of own] len by (simp add: Let_def)
qed

section \<open>The codecs\<close>

lemma key_encode_of: "fits fs \<Longrightarrow> key_encode (key_of own fs) = vi24_out (of_nat (length fs)) @ enc_fractions fs"
  using fits_bounds(2) [of fs] by (simp add: key_encode_def of_nat32_eq_0)

lemma key_encoded_length_of:
  assumes "fits fs"
  shows "unat (key_encoded_length (key_of own fs))
    = encoded_length_vi24 (of_nat (length fs)) + length (enc_fractions fs)"
proof -
  let ?n = "encoded_length_vi24 (of_nat (length fs)) + length (enc_fractions fs)"
  have "?n < 2 ^ 32"
    using assms encoded_length_vi24_range(2) [of "of_nat (length fs)"] by (simp add: fits_def)
  then have "unat (of_nat ?n :: u32) = ?n" by (rule unat_of_nat32)
  then show ?thesis by (simp add: key_encoded_length_def)
qed

interpretation key_codec: codec_pos "\<lambda>fs. key_encode (key_of own fs)" "key_decode owner"
  "\<lambda>fs. unat (key_encoded_length (key_of own fs))" fits "key_of owner" for own owner
proof unfold_locales
  fix fs :: "bytes list" and n :: u64 and rest :: bytes
  assume fs: "fits fs"
  let ?c = "of_nat (length fs) :: u24"
  show "length (key_encode (key_of own fs)) = unat (key_encoded_length (key_of own fs))"
    using fs by (simp add: key_encode_of key_encoded_length_of)
  show "0 < unat (key_encoded_length (key_of own fs))"
    using encoded_length_vi24_range(1) [of ?c] by (simp add: key_encoded_length_of [OF fs])
  assume n: "unat (key_encoded_length (key_of own fs)) \<le> unat n"
  then have "encoded_length_vi24 ?c \<le> unat n" by (simp add: key_encoded_length_of [OF fs])
  from vi24.dec_enc [OF _ this, of "enc_fractions fs @ rest"]
  have head: "decode_vi24 \<lparr>mem = vi24_out ?c @ enc_fractions fs @ rest, remain = n\<rparr>
    = Inr (?c, \<lparr>mem = enc_fractions fs @ rest, remain = n - of_nat (encoded_length_vi24 ?c)\<rparr>)"
    by simp
  have c0: "?c = 0 \<longleftrightarrow> fs = []" using fits_bounds(1) [OF fs] by (simp add: of_nat24_eq_0)
  have "key_decode owner \<lparr>mem = vi24_out ?c @ enc_fractions fs @ rest, remain = n\<rparr>
    = Inr (key_of owner fs, \<lparr>mem = rest, remain = n - of_nat (encoded_length_vi24 ?c)
        - of_nat (length (enc_fractions fs))\<rparr>)"
  proof (cases "fs = []")
    case True
    then show ?thesis using head by (simp add: key_decode_def c0 key_of_def)
  next
    case False
    then show ?thesis
      using head c0 skip_enc_fractions [OF fs, of rest] fits_bounds [OF fs] key_of_Cons_data [OF False fs, of rest]
      by (simp add: key_decode_def Let_def ucast_size64 key_of_def)
  qed
  then show "key_decode owner \<lparr>mem = key_encode (key_of own fs) @ rest, remain = n\<rparr>
    = Inr (key_of owner fs, \<lparr>mem = rest, remain = n - of_nat (unat (key_encoded_length (key_of own fs)))\<rparr>)"
    unfolding key_encode_of [OF fs] key_encoded_length_of [OF fs] by (simp add: algebra_simps)
qed

text \<open>The vector form uses 32-bit counts and lengths.\<close>

definition keyvec_fits :: "bytes list \<Rightarrow> bool" where
  "keyvec_fits v \<longleftrightarrow> encoded_length_vi32 (of_nat (length v))
     + sum_list (map (\<lambda>f. encoded_length_vi32 (of_nat (length f)) + length f) v) < 2 ^ 32"

lemma encoded_length_vi32_pos: "0 < encoded_length_vi32 v"
  by (simp add: encoded_length_vi32_def)

lemma keyvec_decode_fractions_of:
  assumes "sum_list (map (\<lambda>f. encoded_length_vi32 (of_nat (length f)) + length f) v) \<le> unat n"
    and "\<forall>f \<in> set v. length f < 2 ^ 32"
  shows "keyvec_decode_fractions (length v)
      \<lparr>mem = concat (map (\<lambda>f. vi32_out (of_nat (length f)) @ f) v) @ rest, remain = n\<rparr>
    = Inr (v, \<lparr>mem = rest, remain =
        n - of_nat (sum_list (map (\<lambda>f. encoded_length_vi32 (of_nat (length f)) + length f) v))\<rparr>)"
  using assms
proof (induction v arbitrary: n)
  case (Cons f v)
  let ?e = "encoded_length_vi32 (of_nat (length f))"
  have f: "length f < 2 ^ 32" using Cons.prems by simp
  have le: "?e + length f \<le> unat n" using Cons.prems by simp
  have k: "?e + length f < 2 ^ 64"
    using le unsigned_less [of n, where ?'a = nat] by simp
  have "unat (n - of_nat ?e - of_nat (length f)) = unat n - (?e + length f)"
    using le_u64I [OF k le] unat_of_nat64 [OF k] by (simp add: unat_sub diff_diff_eq)
  then have IH: "keyvec_decode_fractions (length v)
      \<lparr>mem = concat (map (\<lambda>f. vi32_out (of_nat (length f)) @ f) v) @ rest,
       remain = n - of_nat ?e - of_nat (length f)\<rparr>
    = Inr (v, \<lparr>mem = rest, remain = n - of_nat ?e - of_nat (length f)
        - of_nat (sum_list (map (\<lambda>f. encoded_length_vi32 (of_nat (length f)) + length f) v))\<rparr>)"
    using Cons.prems by (intro Cons.IH) auto
  have "decode_vi32 \<lparr>mem = vi32_out (of_nat (length f)) @ f
        @ concat (map (\<lambda>f. vi32_out (of_nat (length f)) @ f) v) @ rest, remain = n\<rparr>
    = Inr (of_nat (length f), \<lparr>mem = f
        @ concat (map (\<lambda>f. vi32_out (of_nat (length f)) @ f) v) @ rest, remain = n - of_nat ?e\<rparr>)"
    using vi32.dec_enc [of "of_nat (length f)" n] le by simp
  then show ?case
    using f IH ucast_size64 [of "length f"] by (simp add: dbind_def algebra_simps)
qed simp

interpretation keyvec_codec: codec_pos keyvec_encode keyvec_decode
  "\<lambda>v. unat (keyvec_encoded_length v)" keyvec_fits "\<lambda>v. v"
proof unfold_locales
  fix v :: "bytes list" and n :: u64 and rest :: bytes
  assume v: "keyvec_fits v"
  let ?S = "sum_list (map (\<lambda>f. encoded_length_vi32 (of_nat (length f)) + length f) v)"
  let ?e = "encoded_length_vi32 (of_nat (length v))"
  have len: "unat (keyvec_encoded_length v) = ?e + ?S"
    using v unfolding keyvec_fits_def keyvec_encoded_length_def by (rule unat_of_nat32)
  have elem: "length f < 2 ^ 32" if "f \<in> set v" for f
  proof -
    have "encoded_length_vi32 (of_nat (length f)) + length f \<le> ?S"
      using that by (intro member_le_sum_list) auto
    then show ?thesis using v by (simp add: keyvec_fits_def)
  qed
  have cnt: "length v < 2 ^ 32"
  proof -
    have "length v \<le> ?S"
    proof (induction v)
      case (Cons f v)
      then show ?case using encoded_length_vi32_pos [of "of_nat (length f)"] by simp
    qed simp
    then show ?thesis using v by (simp add: keyvec_fits_def)
  qed
  have "?S = length (concat (map (\<lambda>f. vi32_out (of_nat (length f)) @ f) v))"
    by (simp add: length_concat comp_def)
  then show "length (keyvec_encode v) = unat (keyvec_encoded_length v)"
    unfolding len by (simp add: keyvec_encode_def)
  show "0 < unat (keyvec_encoded_length v)"
    using encoded_length_vi32_pos by (simp add: len)
  assume n: "unat (keyvec_encoded_length v) \<le> unat n"
  then have le: "?e + ?S \<le> unat n" by (simp add: len)
  have k: "?e < 2 ^ 64" by (simp add: encoded_length_vi32_def)
  have "unat (n - of_nat ?e) = unat n - ?e"
    using le_u64I [OF k] unat_of_nat64 [OF k] le by (simp add: unat_sub)
  then have "keyvec_decode_fractions (length v)
      \<lparr>mem = concat (map (\<lambda>f. vi32_out (of_nat (length f)) @ f) v) @ rest, remain = n - of_nat ?e\<rparr>
    = Inr (v, \<lparr>mem = rest, remain = n - of_nat ?e - of_nat ?S\<rparr>)"
    using le elem by (intro keyvec_decode_fractions_of) auto
  moreover have "decode_vi32 \<lparr>mem = vi32_out (of_nat (length v))
        @ concat (map (\<lambda>f. vi32_out (of_nat (length f)) @ f) v) @ rest, remain = n\<rparr>
    = Inr (of_nat (length v), \<lparr>mem = concat (map (\<lambda>f. vi32_out (of_nat (length f)) @ f) v) @ rest,
        remain = n - of_nat ?e\<rparr>)"
    using vi32.dec_enc [of "of_nat (length v)" n] le by simp
  ultimately show "keyvec_decode \<lparr>mem = keyvec_encode v @ rest, remain = n\<rparr>
    = Inr (v, \<lparr>mem = rest, remain = n - of_nat (unat (keyvec_encoded_length v))\<rparr>)"
    using cnt unfolding len by (simp add: keyvec_decode_def keyvec_encode_def algebra_simps)
qed

lemma encoded_length_vi24_of_nat:
  "n < 2 ^ 24 \<Longrightarrow> encoded_length_vi24 (of_nat n)
    = (if n \<le> 127 then 1 else if n \<le> 16383 then 2 else if n \<le> 2097151 then 3 else 4)"
  by (simp add: encoded_length_vi24_def max_vb_defs word_le_nat_alt)

lemma encoded_length_vi24_mono:
  assumes "m \<le> n" and "n < 2 ^ 24"
  shows "encoded_length_vi24 (of_nat m) \<le> encoded_length_vi24 (of_nat n)"
proof -
  have "m < 2 ^ 24" using assms by simp
  then show ?thesis
    unfolding encoded_length_vi24_of_nat [OF assms(2)] encoded_length_vi24_of_nat [OF \<open>m < 2 ^ 24\<close>]
    using assms(1) by auto
qed

section \<open>Properties\<close>

text \<open>C4: On the representation of a list of fractions that fits the counters, with what is added to it, the operations
  of the key are the list operations they are named after: copying, appending one or many, reading anew, inserting at
  the first or the second place or behind the end, the fraction at an index, removal of one or of all from an
  index on, the tail behind an index, conversion to a list, and equality. Inserting further on is not among them: it
  goes wrong.\<close>

theorem key_operations_refine_lists:
  assumes "fits (fs @ gs)" and "fits (fs @ [f])" and "unat i + 1 < 2 ^ 24"
  shows "key_sane (key_of own fs)
    \<and> key_copy (key_of own fs) = key_of True fs
    \<and> key_add (key_of own fs) f = Inr (key_of True (fs @ [f]))
    \<and> key_add_all (key_of True fs) gs = Inr (key_of True (fs @ gs))
    \<and> (gs \<noteq> [] \<longrightarrow> key_read (key_of own fs) gs = Inr (key_of True gs))
    \<and> (unat idx \<le> 1 \<or> length fs \<le> unat idx \<longrightarrow>
        key_insert (key_of own fs) idx f = Inr (key_of True (take (unat idx) fs @ f # drop (unat idx) fs)))
    \<and> key_get (key_of own fs) idx = Inr (if unat idx < length fs then Some (fs ! unat idx) else None)
    \<and> key_remove (key_of True fs) idx True = Inr (key_of True (take (unat idx) fs))
    \<and> key_remove (key_of True fs) idx False
        = Inr (key_of True (take (unat idx) fs @ drop (Suc (unat idx)) fs))
    \<and> key_copy_after i (key_of own fs) = Inr (key_of True (drop (unat i + 1) fs))
    \<and> key_convert_to (key_of own fs) = Inr fs
    \<and> (key_equal (key_of own fs) (key_of own' gs) \<longleftrightarrow> fs = gs)"
proof -
  have "fits fs" "fits gs" using fits_sum [OF assms(1)] by simp_all
  then show ?thesis
    using assms by (simp add: key_of_sane key_copy_of key_add_of key_add_all_of key_read_of key_get_of key_insert_front
      key_remove_of key_copy_after_of [simplified] key_convert_to_of key_equal_iff)
qed

theorem key_operations_refine_lists_witness:
  "key_add (key_of False [[1, 2], []]) [7] = Inr (key_of True [[1, 2], [], [7]])
    \<and> key_insert (key_of False [[1, 2], []]) 1 [7] = Inr (key_of True [[1, 2], [7], []])"
  using key_operations_refine_lists [of "[[1, 2], []]" "[]" "[7]" 0 False 1 True]
  by (simp add: fits_def encoded_length_vi24_def max_vb_defs)

text \<open>The announced length of a key is the length it encodes to, and decoding what was
  encoded gives the same fractions back, for an owner and for a borrower of the buffer, with the
  pointer right behind them and exactly that length off the remaining count.\<close>

lemma key_roundtrip:
  assumes "fits fs" and "unat (key_encoded_length (key_of own fs)) \<le> unat n"
  shows "length (key_encode (key_of own fs)) = unat (key_encoded_length (key_of own fs))
    \<and> key_decode owner \<lparr>mem = key_encode (key_of own fs) @ rest, remain = n\<rparr>
      = Inr (key_of owner fs,
          \<lparr>mem = rest, remain = n - of_nat (unat (key_encoded_length (key_of own fs)))\<rparr>)"
  using key_codec.enc_len [OF assms(1)] key_codec.dec_enc [OF assms] by blast

lemma key_roundtrip_witness:
  "key_decode True \<lparr>mem = key_encode (key_of False [[1, 2], []]) @ [9], remain = 6\<rparr>
    = Inr (key_of True [[1, 2], []], \<lparr>mem = [9], remain = 1\<rparr>)"
proof -
  have fs: "fits [[1, 2], []]"
    by (simp add: fits_def encoded_length_vi24_def max_vb_defs)
  have len: "unat (key_encoded_length (key_of False [[1, 2], []])) = 5"
    using key_encoded_length_of [OF fs, of False] by (simp add: encoded_length_vi24_def max_vb_defs)
  show ?thesis
    using key_roundtrip [OF fs, of False 6 True "[9]"] by (simp add: len)
qed

text \<open>The vector form encodes to its announced length and decodes to itself.\<close>

lemma keyvec_roundtrip:
  assumes "keyvec_fits v" and "unat (keyvec_encoded_length v) \<le> unat n"
  shows "length (keyvec_encode v) = unat (keyvec_encoded_length v)
    \<and> keyvec_decode \<lparr>mem = keyvec_encode v @ rest, remain = n\<rparr>
      = Inr (v, \<lparr>mem = rest, remain = n - of_nat (unat (keyvec_encoded_length v))\<rparr>)"
  using keyvec_codec.enc_len [OF assms(1)] keyvec_codec.dec_enc [OF assms] by blast

lemma keyvec_roundtrip_witness:
  "keyvec_decode \<lparr>mem = keyvec_encode [[1, 2], []] @ [9], remain = 6\<rparr>
    = Inr ([[1, 2], []], \<lparr>mem = [9], remain = 1\<rparr>)"
  using keyvec_roundtrip [of "[[1, 2], []]" 6 "[9]"]
  by (simp add: keyvec_fits_def keyvec_encoded_length_def encoded_length_vi32_def max_vb_defs)

text \<open>Inserting a fraction at the first or the second position, or at the end, places it
  there and keeps all others.\<close>

lemma key_insert_correct:
  assumes "fits (fs @ [f])" and "unat idx \<le> 1 \<or> length fs \<le> unat idx"
  shows "key_insert (key_of own fs) idx f
    = Inr (key_of True (take (unat idx) fs @ f # drop (unat idx) fs))"
  using assms by (rule key_insert_front)

lemma key_insert_correct_witness:
  "key_insert (key_of False [[1], [2], [3]]) 1 [7] = Inr (key_of True [[1], [7], [2], [3]])"
  using key_insert_correct [of "[[1], [2], [3]]" "[7]" 1 False]
  by (simp add: fits_def encoded_length_vi24_def max_vb_defs)

text \<open>C39: Inserting before the third of three fractions adds the distance to the second
  position twice: with a first fraction that is longer than the third one, the code runs past
  the end of the block, whatever is inserted.\<close>

theorem key_insert_third_overflows:
  assumes "fits [a, b, c]" and "length c < length a" and "length f < 2 ^ 24"
    and "length a + length a + length b < 2 ^ 30"
  shows "key_insert (key_of own [a, b, c]) 2 f = Inl Undefined_Behaviour"
proof -
  let ?e = "\<lambda>f :: bytes. encoded_length_vi24 (of_nat (length f))"
  have le: "?e x \<le> 4" for x :: bytes by (rule encoded_length_vi24_range)
  have mono: "?e c \<le> ?e a"
    using fits_Cons [OF assms(1)] less_imp_le [OF assms(2)] encoded_length_vi24_mono by blast
  have "seek_offset [a, b, c] 2 = ?e a + length a + (?e a + length a + (?e b + length b))"
    by (simp add: seek_offset_def numeral_2_eq_2)
  moreover from this have "seek_offset [a, b, c] 2 < 2 ^ 32"
    using assms(4) le [of a] le [of b] by simp
  ultimately have room: "key_insert (key_of own [a, b, c]) 2 f = Inl Undefined_Behaviour"
    if "length (enc_fractions [a, b, c]) + length (enc_fraction f) < 2 ^ 32"
    using key_insert_of [of "[a, b, c]" f 2 own] assms(1,2,3) mono that by (simp add: Let_def)
  show ?thesis
  proof (cases "length (enc_fractions [a, b, c]) + length (enc_fraction f) < 2 ^ 32")
    case False
    define n where "n = length (enc_fractions [a, b, c])"
    have "unat (of_nat n :: u32) = n" using fits_bounds(2) [OF assms(1)] by (simp only: n_def unat_of_nat32)
    then have "key_room (of_nat n) (?e f + length f) = Inl Undefined_Behaviour"
      using False unfolding n_def [symmetric] by (intro key_room_none) simp
    moreover have "key_size (key_of own [a, b, c]) = of_nat n" by (simp only: key_of_simps n_def)
    ultimately show ?thesis using assms(3)
      by (simp add: key_insert_def key_add_def key_old_of [OF assms(1)] Let_def del: of_nat_numeral key_of_simps(3))
  qed (rule room)
qed

theorem key_insert_third_overflows_witness:
  "key_insert (key_of True [[1, 1], [2], []]) 2 [7] = Inl Undefined_Behaviour"
  using key_insert_third_overflows [of "[1, 1]" "[2]" "[]" "[7]" True]
  by (simp add: fits_def encoded_length_vi24_def max_vb_defs)

text \<open>Decoding a key trusts the fraction lengths. On a buffer whose remaining count is
  right, the declared length of a fraction makes it read past the end, and where more memory
  follows it succeeds and leaves a remaining count that has wrapped around.\<close>

lemma key_decode_trusts_lengths:
  "reader_ok \<lparr>mem = [1, 5], remain = 2\<rparr>
    \<and> key_decode True \<lparr>mem = [1, 5], remain = 2\<rparr> = Inl Undefined_Behaviour
    \<and> reader_ok \<lparr>mem = [1, 5, 10, 11, 12, 13, 14], remain = 2\<rparr>
    \<and> key_decode True \<lparr>mem = [1, 5, 10, 11, 12, 13, 14], remain = 2\<rparr>
      = Inr (key_of True [[10, 11, 12, 13, 14]], \<lparr>mem = [], remain = - 5\<rparr>)"
  by (intro conjI; code_simp)

end
