(* ===== verification/Key_Comparator.thy ===== *)
theory Key_Comparator
  imports Cell_Key
begin

text \<open>
  The order of the keys: src/src/cc/include/swcdb/db/Cells/KeyComparator.h and the key
  sequences of db/Types/KeySeq.h. A template of the code over the sequence is a function over
  the fraction order \<open>cond\<close> it is instantiated with; the walks over the encoded keys are kept,
  reading past a key's block is \<open>Undefined_Behaviour\<close>.

  The lemmas show that on representations the walks compute list comparisons, that these are
  orders in the sense of \<open>comp_order\<close> for all four sequences, and that \<open>align\<close> widens a box.
\<close>

section \<open>Key sequences\<close>

datatype KeySeq = UNKNOWN | LEXIC | VOLUME | FC_LEXIC | FC_VOLUME

fun is_fc :: "KeySeq \<Rightarrow> bool" where
  "is_fc FC_LEXIC = True" | "is_fc FC_VOLUME = True" | "is_fc _ = False"

fun seq_condition :: "KeySeq \<Rightarrow> bytes \<Rightarrow> bytes \<Rightarrow> comp" where
  "seq_condition LEXIC p1 p2 = condition_lexic p1 p2"
| "seq_condition FC_LEXIC p1 p2 = condition_lexic p1 p2"
| "seq_condition VOLUME p1 p2 = condition_volume p1 p2"
| "seq_condition FC_VOLUME p1 p2 = condition_volume p1 p2"
| "seq_condition UNKNOWN p1 p2 = NONE"

fun seq_is_matching :: "(bytes \<Rightarrow> bytes \<Rightarrow> bool) \<Rightarrow> KeySeq \<Rightarrow> comp \<Rightarrow> bytes \<Rightarrow> bytes \<Rightarrow> bool" where
  "seq_is_matching rx LEXIC cp p1 p2 = is_matching_lexic rx cp p1 p2"
| "seq_is_matching rx FC_LEXIC cp p1 p2 = is_matching_lexic rx cp p1 p2"
| "seq_is_matching rx VOLUME cp p1 p2 = is_matching_volume rx cp p1 p2"
| "seq_is_matching rx FC_VOLUME cp p1 p2 = is_matching_volume rx cp p1 p2"
| "seq_is_matching rx UNKNOWN cp p1 p2 = False"

text \<open>\<open>sz = decode_vi24(&p)\<close>, the \<open>sz\<close> bytes behind it, and \<open>p += sz\<close>.\<close>

definition next_fraction :: "bytes \<Rightarrow> (bytes \<times> bytes) res" where
  "next_fraction p = res_bind (decode_vi24_ptr p) (\<lambda>(sz, rest).
     if unat sz \<le> length rest then Inr (take (unat sz) rest, drop (unat sz) rest)
     else Inl Undefined_Behaviour)"

section \<open>Comparing two keys\<close>

fun compare_loop :: "(bytes \<Rightarrow> bytes \<Rightarrow> comp) \<Rightarrow> nat \<Rightarrow> bytes \<Rightarrow> bytes \<Rightarrow> comp option res" where
  "compare_loop cond 0 p1 p2 = Inr None"
| "compare_loop cond (Suc mn) p1 p2 =
     res_bind (next_fraction p1) (\<lambda>(f1, p1). res_bind (next_fraction p2) (\<lambda>(f2, p2).
       let cp = cond f1 f2
       in if cp \<noteq> EQ then Inr (Some cp) else compare_loop cond mn p1 p2))"

definition compare :: "(bytes \<Rightarrow> bytes \<Rightarrow> comp) \<Rightarrow> key \<Rightarrow> key \<Rightarrow> comp res" where
  "compare cond k other =
     (let mn = (if key_count k < key_count other then key_count k else key_count other)
      in res_bind (compare_loop cond (unat mn) (key_bytes k) (key_bytes other)) (\<lambda>r.
        case r of
          Some cp \<Rightarrow> Inr cp
        | None \<Rightarrow> Inr (if key_count k = key_count other then EQ
                     else if key_count k > key_count other then LT else GT)))"

definition compare_fc :: "(bytes \<Rightarrow> bytes \<Rightarrow> comp) \<Rightarrow> key \<Rightarrow> key \<Rightarrow> comp res" where
  "compare_fc cond k other =
     (if key_count k < key_count other then Inr GT
      else if key_count k > key_count other then Inr LT
      else compare cond k other)"

fun key_compare :: "KeySeq \<Rightarrow> key \<Rightarrow> key \<Rightarrow> comp res" where
  "key_compare LEXIC k other = compare condition_lexic k other"
| "key_compare VOLUME k other = compare condition_volume k other"
| "key_compare FC_LEXIC k other = compare_fc condition_lexic k other"
| "key_compare FC_VOLUME k other = compare_fc condition_volume k other"
| "key_compare UNKNOWN k other = Inr NONE"

section \<open>Comparing up to a number of fractions\<close>

text \<open>With \<open>empty_eq\<close> an empty fraction of the first key ends the comparison as equal.\<close>

fun compare_opt_loop ::
  "(bytes \<Rightarrow> bytes \<Rightarrow> comp) \<Rightarrow> bool \<Rightarrow> nat \<Rightarrow> bytes \<Rightarrow> bytes \<Rightarrow> comp option res" where
  "compare_opt_loop cond empty_eq 0 p1 p2 = Inr None"
| "compare_opt_loop cond empty_eq (Suc mn) p1 p2 =
     res_bind (next_fraction p2) (\<lambda>(f2, p2). res_bind (next_fraction p1) (\<lambda>(f1, p1).
       if f1 = [] \<and> empty_eq then Inr (Some EQ)
       else let cp = cond f1 f2
         in if cp \<noteq> EQ then Inr (Some cp) else compare_opt_loop cond empty_eq mn p1 p2))"

definition compare_opt ::
  "(bytes \<Rightarrow> bytes \<Rightarrow> comp) \<Rightarrow> key \<Rightarrow> key \<Rightarrow> u24 \<Rightarrow> bool \<Rightarrow> comp res" where
  "compare_opt cond opt_empty other mx empty_eq =
     (let mn = (if key_count opt_empty < key_count other then key_count opt_empty
                 else key_count other);
          mn = (if mx \<noteq> 0 \<and> mn > mx then mx else mn)
      in res_bind (compare_opt_loop cond empty_eq (unat mn) (key_bytes opt_empty) (key_bytes other))
        (\<lambda>r. case r of
          Some cp \<Rightarrow> Inr cp
        | None \<Rightarrow> Inr (if key_count opt_empty \<noteq> key_count other \<and>
                       (mx = 0 \<or> mx > key_count opt_empty \<or> mx > key_count other)
                     then (if key_count opt_empty > key_count other then LT else GT)
                     else EQ)))"

definition compare_opt_fc ::
  "(bytes \<Rightarrow> bytes \<Rightarrow> comp) \<Rightarrow> key \<Rightarrow> key \<Rightarrow> u24 \<Rightarrow> bool \<Rightarrow> comp res" where
  "compare_opt_fc cond opt_empty other mx empty_eq =
     (if (mx = 0 \<or> mx > key_count opt_empty \<or> mx > key_count other) \<and>
        key_count opt_empty < key_count other then Inr GT
      else if (mx = 0 \<or> mx > key_count opt_empty \<or> mx > key_count other) \<and>
        key_count opt_empty > key_count other then Inr LT
      else compare_opt cond opt_empty other mx empty_eq)"

definition compare_opt_lexic :: "key \<Rightarrow> key \<Rightarrow> u24 \<Rightarrow> bool \<Rightarrow> comp res" where
  "compare_opt_lexic = compare_opt condition_lexic"

definition compare_opt_volume :: "key \<Rightarrow> key \<Rightarrow> u24 \<Rightarrow> bool \<Rightarrow> comp res" where
  "compare_opt_volume = compare_opt condition_volume"

definition compare_opt_fc_lexic :: "key \<Rightarrow> key \<Rightarrow> u24 \<Rightarrow> bool \<Rightarrow> comp res" where
  "compare_opt_fc_lexic = compare_opt_fc condition_lexic"

definition compare_opt_fc_volume :: "key \<Rightarrow> key \<Rightarrow> u24 \<Rightarrow> bool \<Rightarrow> comp res" where
  "compare_opt_fc_volume = compare_opt_fc condition_volume"

fun compare_upto :: "KeySeq \<Rightarrow> key \<Rightarrow> key \<Rightarrow> u24 \<Rightarrow> comp res" where
  "compare_upto LEXIC k other mx = compare_opt condition_lexic k other mx False"
| "compare_upto VOLUME k other mx = compare_opt condition_volume k other mx False"
| "compare_upto FC_LEXIC k other mx = compare_opt_fc condition_lexic k other mx False"
| "compare_upto FC_VOLUME k other mx = compare_opt_fc condition_volume k other mx False"
| "compare_upto UNKNOWN k other mx = Inr NONE"

section \<open>Comparing fraction by fraction\<close>

text \<open>
  The overloads with \<open>break_if\<close> check every position on its own: a key passes when no
  fraction of the other one is at \<open>break_if\<close> from its own. \<open>kc\<close> and \<open>oc\<close> are the numbers of
  fractions of the two, the fuel is \<open>max - c\<close>.
\<close>

fun compare_if_loop :: "(bytes \<Rightarrow> bytes \<Rightarrow> comp) \<Rightarrow> comp \<Rightarrow> bool \<Rightarrow> nat \<Rightarrow> nat
    \<Rightarrow> nat \<Rightarrow> nat \<Rightarrow> bytes \<Rightarrow> bytes \<Rightarrow> bool res" where
  "compare_if_loop cond break_if empty_ok kc oc 0 c p1 p2 = Inr True"
| "compare_if_loop cond break_if empty_ok kc oc (Suc n) c p1 p2 =
     (if c = kc \<or> c = oc
      then Inr (if kc > oc then break_if \<noteq> LT else break_if \<noteq> GT)
      else res_bind (next_fraction p2) (\<lambda>(f2, p2). res_bind (next_fraction p1) (\<lambda>(f1, p1).
        if f1 = [] \<and> empty_ok then compare_if_loop cond break_if empty_ok kc oc n (Suc c) p1 p2
        else if cond f1 f2 = break_if then Inr False
        else compare_if_loop cond break_if empty_ok kc oc n (Suc c) p1 p2)))"

definition compare_if :: "(bytes \<Rightarrow> bytes \<Rightarrow> comp) \<Rightarrow> key \<Rightarrow> key \<Rightarrow> comp \<Rightarrow> u24 \<Rightarrow> bool \<Rightarrow> bool res" where
  "compare_if cond k other break_if mx empty_ok =
     (let mx = (if mx = 0
        then (if key_count k > key_count other then key_count k else key_count other) else mx)
      in compare_if_loop cond break_if empty_ok (unat (key_count k)) (unat (key_count other))
           (unat mx) 0 (key_bytes k) (key_bytes other))"

definition compare_if_fc ::
  "(bytes \<Rightarrow> bytes \<Rightarrow> comp) \<Rightarrow> key \<Rightarrow> key \<Rightarrow> comp \<Rightarrow> u24 \<Rightarrow> bool \<Rightarrow> bool res" where
  "compare_if_fc cond k other break_if mx empty_ok =
     (if (mx = 0 \<or> mx > key_count k \<or> mx > key_count other) \<and> key_count k < key_count other
      then Inr (break_if \<noteq> GT)
      else if (mx = 0 \<or> mx > key_count k \<or> mx > key_count other) \<and> key_count k > key_count other
      then Inr (break_if \<noteq> LT)
      else compare_if cond k other break_if mx empty_ok)"

fun key_compare_if :: "KeySeq \<Rightarrow> key \<Rightarrow> key \<Rightarrow> comp \<Rightarrow> u24 \<Rightarrow> bool \<Rightarrow> bool res" where
  "key_compare_if LEXIC k other b mx e = compare_if condition_lexic k other b mx e"
| "key_compare_if VOLUME k other b mx e = compare_if condition_volume k other b mx e"
| "key_compare_if FC_LEXIC k other b mx e = compare_if_fc condition_lexic k other b mx e"
| "key_compare_if FC_VOLUME k other b mx e = compare_if_fc condition_volume k other b mx e"
| "key_compare_if UNKNOWN k other b mx e = Inr False"

text \<open>The same against a key in the vector form, with 32-bit counters.\<close>

fun compare_vec_loop :: "(bytes \<Rightarrow> bytes \<Rightarrow> comp) \<Rightarrow> comp \<Rightarrow> bool \<Rightarrow> nat \<Rightarrow> bytes list
    \<Rightarrow> nat \<Rightarrow> nat \<Rightarrow> bytes \<Rightarrow> bool res" where
  "compare_vec_loop cond break_if empty_ok kc other 0 c ptr = Inr True"
| "compare_vec_loop cond break_if empty_ok kc other (Suc n) c ptr =
     (if c = kc \<or> c = length other
      then Inr (if kc > length other then break_if \<noteq> LT else break_if \<noteq> GT)
      else res_bind (next_fraction ptr) (\<lambda>(f, ptr).
        if f = [] \<and> empty_ok then compare_vec_loop cond break_if empty_ok kc other n (Suc c) ptr
        else if cond f (other ! c) = break_if then Inr False
        else compare_vec_loop cond break_if empty_ok kc other n (Suc c) ptr))"

definition compare_vec ::
  "(bytes \<Rightarrow> bytes \<Rightarrow> comp) \<Rightarrow> key \<Rightarrow> bytes list \<Rightarrow> comp \<Rightarrow> u32 \<Rightarrow> bool \<Rightarrow> bool res" where
  "compare_vec cond k other break_if mx empty_ok =
     (let kc = unat (key_count k);
          mx = (if mx = 0 then (if kc > length other then of_nat kc else of_nat (length other)) else mx)
      in compare_vec_loop cond break_if empty_ok kc other (unat mx) 0 (key_bytes k))"

definition compare_vec_fc ::
  "(bytes \<Rightarrow> bytes \<Rightarrow> comp) \<Rightarrow> key \<Rightarrow> bytes list \<Rightarrow> comp \<Rightarrow> u32 \<Rightarrow> bool \<Rightarrow> bool res" where
  "compare_vec_fc cond k other break_if mx empty_ok =
     (let kc = unat (key_count k); oc = length other
      in if (mx = 0 \<or> unat mx > kc \<or> unat mx > oc) \<and> kc < oc then Inr (break_if \<noteq> GT)
         else if (mx = 0 \<or> unat mx > kc \<or> unat mx > oc) \<and> kc > oc then Inr (break_if \<noteq> LT)
         else compare_vec cond k other break_if mx empty_ok)"

fun key_compare_vec :: "KeySeq \<Rightarrow> key \<Rightarrow> bytes list \<Rightarrow> comp \<Rightarrow> u32 \<Rightarrow> bool \<Rightarrow> bool res" where
  "key_compare_vec LEXIC k other b mx e = compare_vec condition_lexic k other b mx e"
| "key_compare_vec VOLUME k other b mx e = compare_vec condition_volume k other b mx e"
| "key_compare_vec FC_LEXIC k other b mx e = compare_vec_fc condition_lexic k other b mx e"
| "key_compare_vec FC_VOLUME k other b mx e = compare_vec_fc condition_volume k other b mx e"
| "key_compare_vec UNKNOWN k other b mx e = Inr False"

section \<open>Aligning a box of keys\<close>

text \<open>
  One side of one step: at the end of the vector the fraction is appended, otherwise it
  replaces the element that compares to it as \<open>side\<close> (\<open>LT\<close> for the start: the element is the
  greater). The result is the element, what remains of the vector, and whether it changed.
\<close>

fun align_side :: "(bytes \<Rightarrow> bytes \<Rightarrow> comp) \<Rightarrow> comp \<Rightarrow> bytes \<Rightarrow> bytes list
    \<Rightarrow> bytes \<times> bytes list \<times> bool" where
  "align_side cond side f [] = (f, [], True)"
| "align_side cond side f (x # xs) =
     (if cond x f = side then (f, xs, True) else (x, xs, False))"

fun align_loop :: "(bytes \<Rightarrow> bytes \<Rightarrow> comp) \<Rightarrow> nat \<Rightarrow> bytes \<Rightarrow> bytes list \<Rightarrow> bytes list
    \<Rightarrow> (bytes list \<times> bytes list \<times> bool) res" where
  "align_loop cond 0 ptr it_min it_max = Inr (it_min, it_max, False)"
| "align_loop cond (Suc n) ptr it_min it_max =
     res_bind (next_fraction ptr) (\<lambda>(f, ptr).
       let (mn, it_min, c1) = align_side cond LT f it_min;
           (mx, it_max, c2) = align_side cond GT f it_max
       in res_bind (align_loop cond n ptr it_min it_max) (\<lambda>(start, finish, chg).
         Inr (mn # start, mx # finish, c1 \<or> c2 \<or> chg)))"

fun key_align :: "KeySeq \<Rightarrow> key \<Rightarrow> bytes list \<Rightarrow> bytes list \<Rightarrow> (bytes list \<times> bytes list \<times> bool) res" where
  "key_align UNKNOWN k start finish = Inr (start, finish, False)"
| "key_align LEXIC k start finish =
     align_loop condition_lexic (unat (key_count k)) (key_bytes k) start finish"
| "key_align FC_LEXIC k start finish =
     align_loop condition_lexic (unat (key_count k)) (key_bytes k) start finish"
| "key_align VOLUME k start finish =
     align_loop condition_volume (unat (key_count k)) (key_bytes k) start finish"
| "key_align FC_VOLUME k start finish =
     align_loop condition_volume (unat (key_count k)) (key_bytes k) start finish"

text \<open>The form over two vectors; its counter of common positions is 24 bits wide.\<close>

fun align_vec_loop :: "(bytes \<Rightarrow> bytes \<Rightarrow> comp) \<Rightarrow> comp \<Rightarrow> nat \<Rightarrow> bytes list \<Rightarrow> bytes list
    \<Rightarrow> bytes list \<times> bool" where
  "align_vec_loop cond cp (Suc mn) (x # xs) (y # ys) =
     (let (r, chg) = align_vec_loop cond cp mn xs ys
      in if cond x y = cp then (y # r, True) else (x # r, chg))"
| "align_vec_loop cond cp _ xs ys = (xs, False)"

definition align_vec :: "(bytes \<Rightarrow> bytes \<Rightarrow> comp) \<Rightarrow> bytes list \<Rightarrow> bytes list \<Rightarrow> comp
    \<Rightarrow> bytes list \<times> bool" where
  "align_vec cond k other cp =
     (if other = [] then (k, False)
      else if k = [] then (other, True)
      else
        let small = length k < length other;
            mn = (of_nat (if small then length k else length other) :: u24);
            (k', chg) = align_vec_loop cond cp (unat mn) k other
        in if small then (k' @ drop (unat mn) other, True) else (k', chg))"

fun keyvec_align :: "KeySeq \<Rightarrow> bytes list \<Rightarrow> bytes list \<Rightarrow> comp \<Rightarrow> bytes list \<times> bool" where
  "keyvec_align UNKNOWN k other cp = (k, False)"
| "keyvec_align LEXIC k other cp = align_vec condition_lexic k other cp"
| "keyvec_align FC_LEXIC k other cp = align_vec condition_lexic k other cp"
| "keyvec_align VOLUME k other cp = align_vec condition_volume k other cp"
| "keyvec_align FC_VOLUME k other cp = align_vec condition_volume k other cp"

section \<open>The walks over representations\<close>

lemma next_enc_fraction [fractions]:
  "length f < 2 ^ 24 \<Longrightarrow> next_fraction (enc_fraction f @ rest) = Inr (f, rest)"
  by (simp add: next_fraction_def decode_fraction)

fun first_diff :: "(bytes \<Rightarrow> bytes \<Rightarrow> comp) \<Rightarrow> bool \<Rightarrow> bytes list \<Rightarrow> bytes list \<Rightarrow> comp option" where
  "first_diff cond e (f # fs) (g # gs) =
     (if f = [] \<and> e then Some EQ
      else if cond f g \<noteq> EQ then Some (cond f g) else first_diff cond e fs gs)"
| "first_diff cond e _ _ = None"

lemma compare_opt_loop_of:
  assumes "fits fs" and "fits gs" and "n \<le> length fs" and "n \<le> length gs"
  shows "compare_opt_loop cond e n (enc_fractions fs) (enc_fractions gs)
    = Inr (first_diff cond e (take n fs) (take n gs))"
  using assms
proof (induction n arbitrary: fs gs)
  case (Suc n)
  then obtain f fs' g gs' where "fs = f # fs'" "gs = g # gs'"
    by (metis Suc_le_length_iff)
  then show ?case using Suc fits_Cons [of f fs'] fits_Cons [of g gs']
    by (simp add: next_enc_fraction Let_def)
qed simp

lemma compare_loop_opt: 
  assumes "fits fs" and "fits gs" and "n \<le> length fs" and "n \<le> length gs"
  shows "compare_loop cond n (enc_fractions fs) (enc_fractions gs)
    = Inr (first_diff cond False (take n fs) (take n gs))"
  using assms
proof (induction n arbitrary: fs gs)
  case (Suc n)
  then obtain f fs' g gs' where "fs = f # fs'" "gs = g # gs'"
    by (metis Suc_le_length_iff)
  then show ?case using Suc fits_Cons [of f fs'] fits_Cons [of g gs']
    by (simp add: next_enc_fraction Let_def)
qed simp

fun frac_compare :: "('a \<Rightarrow> 'a \<Rightarrow> comp) \<Rightarrow> 'a list \<Rightarrow> 'a list \<Rightarrow> comp" where
  "frac_compare cond [] [] = EQ"
| "frac_compare cond [] (g # gs) = GT"
| "frac_compare cond (f # fs) [] = LT"
| "frac_compare cond (f # fs) (g # gs) =
     (if cond f g \<noteq> EQ then cond f g else frac_compare cond fs gs)"

definition fc_compare :: "('a \<Rightarrow> 'a \<Rightarrow> comp) \<Rightarrow> 'a list \<Rightarrow> 'a list \<Rightarrow> comp" where
  "fc_compare cond fs gs =
     (if length fs < length gs then GT else if length fs > length gs then LT
      else frac_compare cond fs gs)"

fun seq_compare :: "KeySeq \<Rightarrow> bytes list \<Rightarrow> bytes list \<Rightarrow> comp" where
  "seq_compare LEXIC fs gs = frac_compare condition_lexic fs gs"
| "seq_compare VOLUME fs gs = frac_compare condition_volume fs gs"
| "seq_compare FC_LEXIC fs gs = fc_compare condition_lexic fs gs"
| "seq_compare FC_VOLUME fs gs = fc_compare condition_volume fs gs"
| "seq_compare UNKNOWN fs gs = NONE"

lemma frac_compare_first_diff:
  "frac_compare cond fs gs = (case first_diff cond False fs gs of Some cp \<Rightarrow> cp
     | None \<Rightarrow> if length fs = length gs then EQ else if length fs > length gs then LT else GT)"
  by (induction cond fs gs rule: frac_compare.induct) auto

lemma first_diff_take_min:
  "n = min (length fs) (length gs) \<Longrightarrow> first_diff cond e (take n fs) (take n gs) = first_diff cond e fs gs"
  by (induction cond e fs gs arbitrary: n rule: first_diff.induct) auto

lemma count_less [simp]:
  "m < 2 ^ 24 \<Longrightarrow> n < 2 ^ 24 \<Longrightarrow> (of_nat m :: u24) < of_nat n \<longleftrightarrow> m < n"
  by (simp add: word_less_nat_alt)

lemma count_eq [simp]:
  "m < 2 ^ 24 \<Longrightarrow> n < 2 ^ 24 \<Longrightarrow> (of_nat m :: u24) = of_nat n \<longleftrightarrow> m = n"
  by (metis unat_of_nat24)

lemma compare_of:
  assumes "fits fs" and "fits gs"
  shows "compare cond (key_of o1 fs) (key_of o2 gs) = Inr (frac_compare cond fs gs)"
proof -
  let ?n = "if length fs < length gs then length fs else length gs"
  note b = fits_bounds(1) [OF assms(1)] fits_bounds(1) [OF assms(2)]
  have "compare_loop cond ?n (enc_fractions fs) (enc_fractions gs)
      = Inr (first_diff cond False (take ?n fs) (take ?n gs))"
    using assms by (intro compare_loop_opt) auto
  also have "first_diff cond False (take ?n fs) (take ?n gs) = first_diff cond False fs gs"
    by (rule first_diff_take_min) auto
  finally have loop: "compare_loop cond ?n (enc_fractions fs) (enc_fractions gs)
      = Inr (first_diff cond False fs gs)" .
  have n: "unat (if (of_nat (length fs) :: u24) < of_nat (length gs) then of_nat (length fs)
      else of_nat (length gs) :: u24) = ?n"
    using b by simp
  show ?thesis
    unfolding compare_def Let_def key_of_simps n loop res_bind_simps frac_compare_first_diff
    using b by (cases "first_diff cond False fs gs") simp_all
qed

lemma compare_fc_of:
  assumes "fits fs" and "fits gs"
  shows "compare_fc cond (key_of o1 fs) (key_of o2 gs) = Inr (fc_compare cond fs gs)"
  using assms fits_bounds(1) [OF assms(1)] fits_bounds(1) [OF assms(2)]
  by (simp add: compare_fc_def fc_compare_def compare_of)

lemma key_compare_of:
  assumes "fits fs" and "fits gs"
  shows "key_compare s (key_of o1 fs) (key_of o2 gs) = Inr (seq_compare s fs gs)"
  using assms by (cases s) (simp_all add: compare_of compare_fc_of)

text \<open>The first \<open>k\<close> fractions; an empty one of the first key ends it as equal with \<open>e\<close>.\<close>

definition upto_compare :: "(bytes \<Rightarrow> bytes \<Rightarrow> comp) \<Rightarrow> bool \<Rightarrow> nat \<Rightarrow> bytes list \<Rightarrow> bytes list \<Rightarrow> comp" where
  "upto_compare cond e k fs gs = (case first_diff cond e (take k fs) (take k gs) of Some cp \<Rightarrow> cp
     | None \<Rightarrow> if length (take k fs) = length (take k gs) then EQ
             else if length (take k fs) > length (take k gs) then LT else GT)"

lemma upto_compare_False: "upto_compare cond False k fs gs = frac_compare cond (take k fs) (take k gs)"
  by (simp add: upto_compare_def frac_compare_first_diff)

lemma compare_opt_any:
  assumes "fits fs" and "fits gs"
  shows "compare_opt cond (key_of o1 fs) (key_of o2 gs) mx e
    = Inr (upto_compare cond e (if mx = 0 then max (length fs) (length gs) else unat mx) fs gs)"
proof -
  note b = fits_bounds(1) [OF assms(1)] fits_bounds(1) [OF assms(2)]
  let ?w = "if (of_nat (length fs) :: u24) < of_nat (length gs) then of_nat (length fs)
      else of_nat (length gs) :: u24"
  let ?n = "min (length fs) (length gs)"
  define m where "m = (if mx = 0 then ?n else min ?n (unat mx))"
  have "unat ?w = ?n" using b by simp
  then have m: "unat (if mx \<noteq> 0 \<and> ?w > mx then mx else ?w) = m"
    by (auto simp: m_def word_less_nat_alt min_def)
  let ?k = "if mx = 0 then max (length fs) (length gs) else unat mx"
  have mk: "m = min (length (take ?k fs)) (length (take ?k gs))"
    by (auto simp: m_def)
  have "m \<le> ?k" by (auto simp: m_def)
  then have "first_diff cond e (take m fs) (take m gs)
      = first_diff cond e (take ?k fs) (take ?k gs)"
    using first_diff_take_min [OF mk, of cond e] by (simp add: min_absorb1)
  moreover have "compare_opt_loop cond e m (enc_fractions fs) (enc_fractions gs)
      = Inr (first_diff cond e (take m fs) (take m gs))"
    using assms by (intro compare_opt_loop_of) (auto simp: m_def)
  ultimately have loop: "compare_opt_loop cond e m (enc_fractions fs) (enc_fractions gs)
      = Inr (first_diff cond e (take ?k fs) (take ?k gs))"
    by simp
  show ?thesis
  proof (cases "first_diff cond e (take ?k fs) (take ?k gs)")
    case (Some cp)
    then show ?thesis
      unfolding compare_opt_def Let_def key_of_simps m loop res_bind_simps upto_compare_def
      by simp
  next
    case None
    then have "upto_compare cond e ?k fs gs
      = (if length (take ?k fs) = length (take ?k gs) then EQ
         else if length (take ?k fs) > length (take ?k gs) then LT else GT)"
      by (simp only: upto_compare_def option.case)
    also have "\<dots> = (if length fs \<noteq> length gs \<and> (mx = 0 \<or> unat mx > length fs \<or> unat mx > length gs)
         then (if length fs > length gs then LT else GT) else EQ)"
      by (cases "mx = 0") auto
    finally show ?thesis
      unfolding compare_opt_def Let_def key_of_simps m loop res_bind_simps None option.case
      using b by (simp add: word_less_nat_alt)
  qed
qed

lemma compare_opt_of:
  assumes "fits fs" and "fits gs"
  shows "compare_opt cond (key_of o1 fs) (key_of o2 gs) mx False
    = Inr (if mx = 0 then frac_compare cond fs gs
           else frac_compare cond (take (unat mx) fs) (take (unat mx) gs))"
  unfolding compare_opt_any [OF assms] upto_compare_False by simp

lemma compare_opt_fc_of:
  assumes "fits fs" and "fits gs"
  shows "compare_opt_fc cond (key_of o1 fs) (key_of o2 gs) mx False
    = Inr (if mx = 0 then fc_compare cond fs gs
           else fc_compare cond (take (unat mx) fs) (take (unat mx) gs))"
  using fits_bounds(1) [OF assms(1)] fits_bounds(1) [OF assms(2)]
  by (auto simp: compare_opt_fc_def compare_opt_of [OF assms] fc_compare_def word_less_nat_alt)

lemma compare_upto_of:
  assumes "fits fs" and "fits gs"
  shows "compare_upto s (key_of o1 fs) (key_of o2 gs) mx
    = Inr (if mx = 0 then seq_compare s fs gs
           else seq_compare s (take (unat mx) fs) (take (unat mx) gs))"
  using assms by (cases s) (simp_all add: compare_opt_of compare_opt_fc_of)

section \<open>The key orders\<close>

text \<open>The list extensions of an order, element by element and by length first, are orders.\<close>

context comp_order
begin

lemma frac_same: "list_all dom fs \<Longrightarrow> list_all dom gs \<Longrightarrow> frac_compare cmp fs gs = EQ \<longleftrightarrow> list_all2 same fs gs"
  by (induction fs gs rule: list_induct2') (auto simp: cmp_same)

lemma frac_three:
  "list_all dom fs \<Longrightarrow> list_all dom gs \<Longrightarrow>
    frac_compare cmp fs gs = EQ \<or> frac_compare cmp fs gs = GT \<or> frac_compare cmp fs gs = LT"
proof (induction fs gs rule: list_induct2')
  case (4 f fs g gs)
  then show ?case using cmp_three [of f g] by auto
qed auto

lemma frac_swap:
  "list_all dom fs \<Longrightarrow> list_all dom gs \<Longrightarrow> frac_compare cmp fs gs = GT \<longleftrightarrow> frac_compare cmp gs fs = LT"
proof (induction fs gs rule: list_induct2')
  case (4 f fs g gs)
  then show ?case
    using cmp_swap [of f g] cmp_same [of f g] cmp_same [of g f] same_sym [of f g] same_sym [of g f]
    by auto
qed auto

lemma frac_trans:
  assumes "list_all dom fs" "list_all dom gs" "list_all dom hs"
    and "frac_compare cmp fs gs = GT" and "frac_compare cmp gs hs = GT"
  shows "frac_compare cmp fs hs = GT"
  using assms
proof (induction fs arbitrary: gs hs)
  case Nil
  then show ?case by (cases gs; cases hs) auto
next
  case (Cons f fs)
  then obtain g gs' where gs: "gs = g # gs'" by (cases gs) auto
  with Cons obtain h hs' where hs: "hs = h # hs'" by (cases hs) auto
  have dom: "dom f" "dom g" "dom h" "list_all dom fs" "list_all dom gs'" "list_all dom hs'"
    using Cons.prems gs hs by auto
  consider "cmp f g = GT" "cmp g h = GT" | "cmp f g = GT" "cmp g h = EQ"
    | "cmp f g = EQ" "cmp g h = GT" | "cmp f g = EQ" "cmp g h = EQ"
    using Cons.prems gs hs cmp_three [OF dom(1,2)] cmp_three [OF dom(2,3)] by auto
  then show ?case
  proof cases
    case 1
    then show ?thesis using cmp_trans [OF dom(1,2,3)] hs by simp
  next
    case 2
    then have "cmp f h = GT" using cmp_same_right dom cmp_same by blast
    then show ?thesis using hs by simp
  next
    case 3
    then have "cmp f h = GT" using cmp_same_left dom cmp_same by blast
    then show ?thesis using hs by simp
  next
    case 4
    then have "cmp f h = EQ" using cmp_same dom same_trans by blast
    then show ?thesis using 4 Cons.IH [of gs' hs'] Cons.prems gs hs dom by auto
  qed
qed

lemma list_same_equiv: "equivp (list_all2 same)"
proof (intro equivpI reflpI sympI transpI)
  show "list_all2 same xs xs" for xs by (simp add: list_all2_conv_all_nth same_refl)
  show "list_all2 same ys xs" if "list_all2 same xs ys" for xs ys
    using that by (auto simp: list_all2_conv_all_nth intro: same_sym)
  show "list_all2 same xs zs" if "list_all2 same xs ys" "list_all2 same ys zs" for xs ys zs
    using same_trans that by (rule list_all2_trans)
qed

lemma frac_order: "comp_order (frac_compare cmp) (list_all dom) (list_all2 same)"
proof (unfold_locales, goal_cases)
  case 5
  from this(1-3) this(4,5) show ?case by (rule frac_trans)
qed (rule frac_three frac_same list_same_equiv frac_swap; assumption?)+

lemma fc_order: "comp_order (fc_compare cmp) (list_all dom) (list_all2 same)"
proof unfold_locales
  fix a b c assume a: "list_all dom a" and b: "list_all dom b"
  show "fc_compare cmp a b = EQ \<or> fc_compare cmp a b = GT \<or> fc_compare cmp a b = LT"
    using frac_three [OF a b] by (simp add: fc_compare_def)
  show "fc_compare cmp a b = EQ \<longleftrightarrow> list_all2 same a b"
    using frac_same [OF a b] by (auto simp: fc_compare_def dest: list_all2_lengthD)
  show "fc_compare cmp a b = GT \<longleftrightarrow> fc_compare cmp b a = LT"
    using frac_swap [OF a b] by (auto simp: fc_compare_def)
  assume c: "list_all dom c" and "fc_compare cmp a b = GT" "fc_compare cmp b c = GT"
  then show "fc_compare cmp a c = GT"
    using frac_trans [OF a b c] by (auto simp: fc_compare_def split: if_splits)
qed (rule list_same_equiv)

end

lemma seq_compare_is:
  "seq_compare LEXIC = frac_compare condition_lexic"
  "seq_compare VOLUME = frac_compare condition_volume"
  "seq_compare FC_LEXIC = fc_compare condition_lexic"
  "seq_compare FC_VOLUME = fc_compare condition_volume"
  by (simp_all add: fun_eq_iff)

lemma seq_compare_order:
  assumes "s \<noteq> UNKNOWN"
  shows "comp_order (seq_compare s) (\<lambda>_. True) (=)"
proof -
  have *: "list_all (\<lambda>_. True) = (\<lambda>_. True)" by (simp add: fun_eq_iff list_all_iff)
  show ?thesis
    using lexic.frac_order lexic.fc_order volume.frac_order volume.fc_order assms
    by (cases s) (simp_all add: * list.rel_eq seq_compare_is)
qed

text \<open>
  On keys that stand for fractions the comparison returns. \<open>key_cmp\<close> is what it returns; its
  domain is the representations and two keys are the same when their fractions are.
\<close>

definition key_cmp :: "KeySeq \<Rightarrow> key \<Rightarrow> key \<Rightarrow> comp" where
  "key_cmp s a b = projr (key_compare s a b)"

definition key_rep :: "key \<Rightarrow> bool" where
  "key_rep k \<longleftrightarrow> (\<exists>own fs. fits fs \<and> k = key_of own fs)"

definition same_key :: "key \<Rightarrow> key \<Rightarrow> bool" where
  "same_key a b \<longleftrightarrow> key_bytes a = key_bytes b"

lemma key_rep_of [simp]: "fits fs \<Longrightarrow> key_rep (key_of own fs)"
  by (auto simp: key_rep_def)

lemma key_repE:
  assumes "key_rep k"
  obtains own fs where "fits fs" and "k = key_of own fs"
  using assms by (auto simp: key_rep_def)

lemma key_cmp_of [simp]:
  "fits fs \<Longrightarrow> fits gs \<Longrightarrow> key_cmp s (key_of o1 fs) (key_of o2 gs) = seq_compare s fs gs"
  by (simp add: key_cmp_def key_compare_of)

lemma key_compare_Inr: "key_rep a \<Longrightarrow> key_rep b \<Longrightarrow> key_compare s a b = Inr (key_cmp s a b)"
  by (auto elim!: key_repE simp: key_compare_of)

lemma same_key_of: "fits fs \<Longrightarrow> fits gs \<Longrightarrow> same_key (key_of o1 fs) (key_of o2 gs) \<longleftrightarrow> fs = gs"
  by (auto simp: same_key_def dest: key_of_inject)

lemma same_key_equivp: "equivp same_key"
  by (auto simp: same_key_def intro!: equivpI reflpI sympI transpI)

lemma key_order:
  assumes "s \<noteq> UNKNOWN"
  shows "comp_order (key_cmp s) key_rep same_key"
proof -
  note sq = seq_compare_order [OF assms]
  show ?thesis
  proof unfold_locales
    fix a b c assume "key_rep a" and "key_rep b"
    then obtain o1 fs o2 gs where a: "fits fs" "a = key_of o1 fs" and b: "fits gs" "b = key_of o2 gs"
      by (metis key_repE)
    show "key_cmp s a b = EQ \<or> key_cmp s a b = GT \<or> key_cmp s a b = LT"
      using a b comp_order.cmp_three [OF sq] by simp
    show "key_cmp s a b = EQ \<longleftrightarrow> same_key a b"
      using a b comp_order.cmp_same [OF sq] by (simp add: same_key_of)
    show "key_cmp s a b = GT \<longleftrightarrow> key_cmp s b a = LT"
      using a b comp_order.cmp_swap [OF sq] by simp
    assume "key_rep c" and "key_cmp s a b = GT" "key_cmp s b c = GT"
    then show "key_cmp s a c = GT"
      using a b comp_order.cmp_trans [OF sq] by (auto elim!: key_repE)
  qed (rule same_key_equivp)
qed

interpretation lexic_key: comp_order "key_cmp LEXIC" key_rep same_key
  by (rule key_order) simp
interpretation volume_key: comp_order "key_cmp VOLUME" key_rep same_key
  by (rule key_order) simp
interpretation fc_lexic_key: comp_order "key_cmp FC_LEXIC" key_rep same_key
  by (rule key_order) simp
interpretation fc_volume_key: comp_order "key_cmp FC_VOLUME" key_rep same_key
  by (rule key_order) simp

section \<open>Position by position\<close>

definition passes ::
  "(bytes \<Rightarrow> bytes \<Rightarrow> comp) \<Rightarrow> comp \<Rightarrow> bool \<Rightarrow> bytes list \<Rightarrow> bytes list \<Rightarrow> bool" where
  "passes cond b e fs gs \<longleftrightarrow> list_all (\<lambda>(f, g). (f = [] \<and> e) \<or> cond f g \<noteq> b) (zip fs gs)"

text \<open>What the walk says when it meets the end of one of the keys.\<close>

definition count_passes :: "comp \<Rightarrow> nat \<Rightarrow> nat \<Rightarrow> bool" where
  "count_passes b m n \<longleftrightarrow> (if m > n then b \<noteq> LT else b \<noteq> GT)"

lemma passes_simps [simp]:
  "passes cond b e [] gs" "passes cond b e fs []"
  "passes cond b e (f # fs) (g # gs) \<longleftrightarrow> ((f = [] \<and> e) \<or> cond f g \<noteq> b) \<and> passes cond b e fs gs"
  by (simp_all add: passes_def)

lemma compare_if_loop_of:
  assumes "fits fs" and "fits gs"
  shows "compare_if_loop cond b e (c + length fs) (c + length gs) n c (enc_fractions fs) (enc_fractions gs)
    = Inr (passes cond b e (take n fs) (take n gs)
        \<and> (min (length fs) (length gs) < n \<longrightarrow> count_passes b (length fs) (length gs)))"
  using assms
proof (induction n arbitrary: c fs gs)
  case (Suc n)
  show ?case
  proof (cases "fs = [] \<or> gs = []")
    case True
    then show ?thesis by (auto simp: count_passes_def)
  next
    case False
    then obtain f fs' g gs' where *: "fs = f # fs'" "gs = g # gs'"
      by (metis list.exhaust)
    have "compare_if_loop cond b e (Suc c + length fs') (Suc c + length gs') n (Suc c)
        (enc_fractions fs') (enc_fractions gs')
      = Inr (passes cond b e (take n fs') (take n gs')
        \<and> (min (length fs') (length gs') < n \<longrightarrow> count_passes b (length fs') (length gs')))"
      using Suc fits_Cons * by blast
    then show ?thesis
      using Suc.prems fits_Cons [of f fs'] fits_Cons [of g gs']
      by (cases e; cases "f = []") (simp_all add: * next_enc_fraction count_passes_def)
  qed
qed simp

lemma compare_if_of:
  assumes "fits fs" and "fits gs"
  shows "compare_if cond (key_of o1 fs) (key_of o2 gs) b mx e =
    (let m = (if mx = 0 then max (length fs) (length gs) else unat mx)
     in Inr (passes cond b e (take m fs) (take m gs)
          \<and> (min (length fs) (length gs) < m \<longrightarrow> count_passes b (length fs) (length gs))))"
proof -
  note bd = fits_bounds(1) [OF assms(1)] fits_bounds(1) [OF assms(2)]
  have "unat (if mx = 0 then (if (of_nat (length fs) :: u24) > of_nat (length gs)
        then of_nat (length fs) else of_nat (length gs)) else mx)
      = (if mx = 0 then max (length fs) (length gs) else unat mx)"
    using bd by simp
  then show ?thesis
    unfolding compare_if_def Let_def key_of_simps
    using compare_if_loop_of [OF assms, of cond b e 0] bd by simp
qed

lemma compare_vec_loop_of:
  assumes "fits fs"
  shows "compare_vec_loop cond b e (length pre + length fs) (pre @ gs) n (length pre) (enc_fractions fs)
    = Inr (passes cond b e (take n fs) (take n gs)
        \<and> (min (length fs) (length gs) < n \<longrightarrow> count_passes b (length fs) (length gs)))"
  using assms
proof (induction n arbitrary: pre fs gs)
  case (Suc n)
  show ?case
  proof (cases "fs = [] \<or> gs = []")
    case True
    then show ?thesis by (auto simp: count_passes_def)
  next
    case False
    then obtain f fs' g gs' where *: "fs = f # fs'" "gs = g # gs'"
      by (metis list.exhaust)
    have "fits fs'" using Suc.prems * fits_Cons by blast
    from Suc.IH [OF this, of "pre @ [g]" gs']
    have "compare_vec_loop cond b e (Suc (length pre + length fs')) (pre @ g # gs') n (Suc (length pre))
        (enc_fractions fs')
      = Inr (passes cond b e (take n fs') (take n gs')
        \<and> (min (length fs') (length gs') < n \<longrightarrow> count_passes b (length fs') (length gs')))"
      by simp
    then show ?thesis
      using Suc.prems fits_Cons [of f fs']
      by (cases e; cases "f = []") (simp_all add: * next_enc_fraction count_passes_def)
  qed
qed simp

lemma compare_vec_of:
  assumes "fits fs" and "length gs < 2 ^ 32"
  shows "compare_vec cond (key_of o1 fs) gs b mx e =
    (let m = (if mx = 0 then max (length fs) (length gs) else unat mx)
     in Inr (passes cond b e (take m fs) (take m gs)
          \<and> (min (length fs) (length gs) < m \<longrightarrow> count_passes b (length fs) (length gs))))"
proof -
  note bd = fits_bounds(1) [OF assms(1)] assms(2)
  have n: "unat (if mx = 0 then (if length fs > length gs
        then of_nat (length fs) else of_nat (length gs)) else mx :: u32)
      = (if mx = 0 then max (length fs) (length gs) else unat mx)"
    using bd by simp
  then show ?thesis
    using compare_vec_loop_of [OF assms(1), of cond b e "[]" gs] bd
    unfolding compare_vec_def Let_def key_of_simps unat_of_nat24 [OF bd(1)] n by simp
qed

section \<open>Aligning\<close>

fun align_merge :: "(bytes \<Rightarrow> bytes \<Rightarrow> comp) \<Rightarrow> comp \<Rightarrow> bytes list \<Rightarrow> bytes list \<Rightarrow> bytes list" where
  "align_merge cond side [] xs = xs"
| "align_merge cond side (f # fs) [] = f # align_merge cond side fs []"
| "align_merge cond side (f # fs) (x # xs) =
     (if cond x f = side then f else x) # align_merge cond side fs xs"

lemma align_merge_Nil [simp]: "align_merge cond side fs [] = fs"
  by (induction fs) auto

lemma length_align_merge [simp]: "length (align_merge cond side fs xs) = max (length fs) (length xs)"
  by (induction cond side fs xs rule: align_merge.induct) auto

lemma align_loop_of:
  assumes "fits fs" and "\<And>x. cond x x = EQ"
  shows "align_loop cond (length fs) (enc_fractions fs) xs ys =
    Inr (align_merge cond LT fs xs, align_merge cond GT fs ys,
         align_merge cond LT fs xs \<noteq> xs \<or> align_merge cond GT fs ys \<noteq> ys)"
  using assms(1)
proof (induction fs arbitrary: xs ys)
  case (Cons f fs)
  have f: "fits fs" "length f < 2 ^ 24" using Cons.prems fits_Cons by blast+
  have ne: "cond x y = LT \<Longrightarrow> x \<noteq> y" "cond x y = GT \<Longrightarrow> x \<noteq> y" for x y
    using assms(2) by auto
  show ?case
    using f Cons.IH [OF f(1)] ne by (cases xs; cases ys) (auto simp: next_enc_fraction assms(2))
qed simp

lemma align_vec_loop_of:
  assumes "\<And>x. cond x x = EQ" and "cp \<noteq> EQ"
  shows "n = min (length xs) (length ys) \<Longrightarrow>
    align_vec_loop cond cp n xs ys = (take (length xs) (align_merge cond cp ys xs),
      take (length xs) (align_merge cond cp ys xs) \<noteq> xs)"
proof (induction xs arbitrary: n ys)
  case (Cons x xs)
  then show ?case using assms by (cases ys) auto
qed simp

lemma drop_align_merge:
  "length xs \<le> n \<Longrightarrow> drop n (align_merge cond cp ys xs) = drop n ys"
  by (induction cond cp ys xs arbitrary: n rule: align_merge.induct) (auto simp: drop_Cons')

lemma align_vec_of:
  assumes "\<And>x. cond x x = EQ" and "cp \<noteq> EQ" and "min (length xs) (length ys) < 2 ^ 24"
  shows "align_vec cond xs ys cp = (align_merge cond cp ys xs, align_merge cond cp ys xs \<noteq> xs)"
proof -
  let ?n = "if length xs < length ys then length xs else length ys"
  let ?m = "align_merge cond cp ys xs"
  have n: "unat (of_nat ?n :: u24) = min (length xs) (length ys)"
    using assms(3) by (simp add: min_def split: if_splits)
  note loop = align_vec_loop_of [where cond = cond and cp = cp and xs = xs and ys = ys, OF assms(1,2) refl]
  show ?thesis
  proof (cases "length xs < length ys")
    case True
    have "take (length xs) ?m @ drop (length xs) ys = ?m"
      by (metis append_take_drop_id drop_align_merge le_refl)
    moreover have "?m \<noteq> xs" using True by (metis length_align_merge max.strict_order_iff not_less_iff_gr_or_eq max.commute max_def)
    ultimately show ?thesis
      using True n loop assms(1) by (auto simp: align_vec_def Let_def)
  next
    case False
    then have "take (length xs) ?m = ?m" by simp
    then show ?thesis
      using False n loop by (auto simp: align_vec_def Let_def)
  qed
qed

lemma align_merge_box:
  assumes "comp_order cond (\<lambda>_. True) (=)" and "side = LT \<or> side = GT"
  shows "i < length fs \<Longrightarrow> cond (align_merge cond side fs xs ! i) (fs ! i) \<noteq> side"
    and "i < length xs \<Longrightarrow> cond (align_merge cond side fs xs ! i) (xs ! i) \<noteq> side"
proof -
  have sw: "\<not> (cond a b = LT \<and> cond b a = LT)" "\<not> (cond a b = GT \<and> cond b a = GT)" for a b
    using comp_order.cmp_swap [OF assms(1) TrueI TrueI] by (metis comp.distinct)+
  note rf = comp_order.cmp_refl [OF assms(1) TrueI]
  show "i < length fs \<Longrightarrow> cond (align_merge cond side fs xs ! i) (fs ! i) \<noteq> side"
    using assms(2) rf
    by (induction cond side fs xs arbitrary: i rule: align_merge.induct) (auto simp: nth_Cons split: nat.split)
  show "i < length xs \<Longrightarrow> cond (align_merge cond side fs xs ! i) (xs ! i) \<noteq> side"
    using assms(2) rf sw
    by (induction cond side fs xs arbitrary: i rule: align_merge.induct)
      (auto simp: nth_Cons dest: sw(1) [simplified, rule_format] sw(2) [simplified, rule_format]
        split: nat.split)
qed

lemma align_merge_again:
  assumes "\<And>x. cond x x = EQ" and "side \<noteq> EQ"
  shows "align_merge cond side fs (align_merge cond side fs xs) = align_merge cond side fs xs"
  using assms by (induction cond side fs xs rule: align_merge.induct) auto

section \<open>Properties\<close>

lemma seq_condition_order:
  assumes "s \<noteq> UNKNOWN"
  shows "comp_order (seq_condition s) (\<lambda>_. True) (=)"
proof -
  have "seq_condition s = condition_lexic \<or> seq_condition s = condition_volume"
    using assms by (cases s) (auto simp: fun_eq_iff)
  then show ?thesis using lexic.comp_order_axioms volume.comp_order_axioms by metis
qed

lemma seq_condition_refl: "s \<noteq> UNKNOWN \<Longrightarrow> seq_condition s x x = EQ"
  using comp_order.cmp_refl [OF seq_condition_order] by blast

lemma condition_refl [simp]: "condition_lexic x x = EQ" "condition_volume x x = EQ"
  by (simp_all add: lexic.cmp_refl volume.cmp_refl)

lemma key_align_of:
  assumes "fits fs" and "s \<noteq> UNKNOWN"
  shows "key_align s (key_of own fs) xs ys =
    (let start = align_merge (seq_condition s) LT fs xs; finish = align_merge (seq_condition s) GT fs ys
     in Inr (start, finish, start \<noteq> xs \<or> finish \<noteq> ys))"
proof -
  have "seq_condition LEXIC = condition_lexic" "seq_condition FC_LEXIC = condition_lexic"
    "seq_condition VOLUME = condition_volume" "seq_condition FC_VOLUME = condition_volume"
    by (auto simp: fun_eq_iff)
  then show ?thesis
    using assms fits_bounds(1) [OF assms(1)] by (cases s) (simp_all add: align_loop_of Let_def)
qed

text \<open>C2: Comparing two keys walks over their encoded bytes without leaving them and returns the
  comparison of their lists of fractions in the order of the sequence; up to a number of
  fractions it is the comparison of the prefixes of that length.\<close>

theorem key_compare_refines_lists:
  assumes "fits fs" and "fits gs"
  shows "key_compare s (key_of o1 fs) (key_of o2 gs) = Inr (seq_compare s fs gs)
    \<and> compare_upto s (key_of o1 fs) (key_of o2 gs) mx
      = Inr (if mx = 0 then seq_compare s fs gs
             else seq_compare s (take (unat mx) fs) (take (unat mx) gs))"
  using key_compare_of [OF assms] compare_upto_of [OF assms] by blast

theorem key_compare_refines_lists_witness:
  "key_compare LEXIC (key_of True [[1], [2, 3]]) (key_of False [[1], [4], []]) = Inr GT
    \<and> compare_upto VOLUME (key_of True [[1], [2, 3]]) (key_of False [[1], [4], []]) 1 = Inr EQ"
proof -
  have f: "fits [[1], [2, 3]]" "fits [[1], [4], []]"
    by (simp_all add: fits_def encoded_length_vi24_def max_vb_defs)
  show ?thesis
    using key_compare_refines_lists [OF f, of LEXIC True False 1]
      key_compare_refines_lists [OF f, of VOLUME True False 1]
    by (simp add: condition_lexic_def condition_volume_def)
qed

text \<open>C1: Each of the four sequences orders the keys totally: exactly one of the three answers
  is given, equality is equality of the fractions, the answers swap with the operands, and both
  strict answers are transitive.\<close>

theorem key_compare_is_order:
  assumes "s \<noteq> UNKNOWN" and "fits fs" and "fits gs" and "fits hs"
  shows "key_compare s (key_of o1 fs) (key_of o2 gs) \<in> {Inr GT, Inr EQ, Inr LT}
    \<and> (key_compare s (key_of o1 fs) (key_of o2 gs) = Inr EQ \<longleftrightarrow> fs = gs)
    \<and> (key_compare s (key_of o1 fs) (key_of o2 gs) = Inr GT
        \<longleftrightarrow> key_compare s (key_of o2 gs) (key_of o1 fs) = Inr LT)
    \<and> (key_compare s (key_of o1 fs) (key_of o2 gs) = Inr GT
        \<and> key_compare s (key_of o2 gs) (key_of o3 hs) = Inr GT
        \<longrightarrow> key_compare s (key_of o1 fs) (key_of o3 hs) = Inr GT)"
proof -
  note o = seq_compare_order [OF assms(1)]
  show ?thesis
    using assms comp_order.cmp_three [OF o, of fs gs] comp_order.cmp_same [OF o, of fs gs]
      comp_order.cmp_swap [OF o, of fs gs] comp_order.cmp_trans [OF o, of fs gs hs]
    by (auto simp: key_compare_of)
qed

theorem key_compare_is_order_witness:
  "key_compare FC_LEXIC (key_of True [[9]]) (key_of True [[1], [2]]) \<in> {Inr GT, Inr EQ, Inr LT}
    \<and> key_compare FC_LEXIC (key_of True [[9]]) (key_of True [[1], [2]]) \<noteq> Inr EQ"
proof -
  have f: "fits [[9]]" "fits [[1], [2]]"
    by (simp_all add: fits_def encoded_length_vi24_def max_vb_defs)
  show ?thesis
    using key_compare_is_order [OF _ f f(1), of FC_LEXIC True True True] by auto
qed

text \<open>The comparison with \<open>break_if\<close> in the sequences that do not count fractions: it
  returns, and it passes exactly when no position below the limit is at \<open>break_if\<close> (an empty
  fraction passing when \<open>empty_ok\<close>), and, where the limit reaches beyond the shorter key, the
  numbers of fractions are not at \<open>break_if\<close> either. Against the vector form it is the same.\<close>

lemma key_compare_if_positions:
  assumes "fits fs" and "fits gs" and "m = (if mx = 0 then max (length fs) (length gs) else unat mx)"
  shows "key_compare_if LEXIC (key_of o1 fs) (key_of o2 gs) b mx e =
      Inr (passes condition_lexic b e (take m fs) (take m gs)
        \<and> (min (length fs) (length gs) < m \<longrightarrow> count_passes b (length fs) (length gs)))
    \<and> key_compare_if VOLUME (key_of o1 fs) (key_of o2 gs) b mx e =
      Inr (passes condition_volume b e (take m fs) (take m gs)
        \<and> (min (length fs) (length gs) < m \<longrightarrow> count_passes b (length fs) (length gs)))
    \<and> key_compare_vec LEXIC (key_of o1 fs) gs b (ucast mx) e
      = key_compare_if LEXIC (key_of o1 fs) (key_of o2 gs) b mx e
    \<and> key_compare_vec VOLUME (key_of o1 fs) gs b (ucast mx) e
      = key_compare_if VOLUME (key_of o1 fs) (key_of o2 gs) b mx e"
proof -
  have u: "unat (ucast mx :: u32) = unat mx" by (rule unat_ucast_up) simp
  then have z: "(ucast mx :: u32) = 0 \<longleftrightarrow> mx = 0" by (metis unat_eq_zero)
  have "length gs < 2 ^ 32" using fits_bounds(1) [OF assms(2)] by simp
  then show ?thesis
    using assms by (simp add: compare_if_of compare_vec_of Let_def u z)
qed

lemma key_compare_if_positions_witness:
  "key_compare_if LEXIC (key_of True [[2], [1]]) (key_of True [[1], [2]]) GT 1 False = Inr True
    \<and> key_compare_if LEXIC (key_of True [[2], [1]]) (key_of True [[1], [2]]) GT 0 False = Inr False"
proof -
  have f: "fits [[2], [1]]" "fits [[1], [2]]"
    by (simp_all add: fits_def encoded_length_vi24_def max_vb_defs)
  show ?thesis
    using key_compare_if_positions [OF f, of 1 1 True True GT False]
      key_compare_if_positions [OF f, of 2 0 True True GT False]
    by (simp add: condition_lexic_def)
qed

lemma key_align_box:
  assumes "s \<noteq> UNKNOWN" and "fits fs"
  shows "\<exists>start finish chg. key_align s (key_of own fs) xs ys = Inr (start, finish, chg)
    \<and> (chg \<longleftrightarrow> start \<noteq> xs \<or> finish \<noteq> ys)
    \<and> length start = max (length fs) (length xs) \<and> length finish = max (length fs) (length ys)
    \<and> (\<forall>i < length fs. seq_condition s (start ! i) (fs ! i) \<noteq> LT
        \<and> seq_condition s (finish ! i) (fs ! i) \<noteq> GT)
    \<and> (\<forall>i < length xs. seq_condition s (start ! i) (xs ! i) \<noteq> LT)
    \<and> (\<forall>i < length ys. seq_condition s (finish ! i) (ys ! i) \<noteq> GT)
    \<and> key_align s (key_of own fs) start finish = Inr (start, finish, False)"
proof -
  let ?c = "seq_condition s"
  let ?start = "align_merge ?c LT fs xs" and ?finish = "align_merge ?c GT fs ys"
  note box = align_merge_box [OF seq_condition_order [OF assms(1)]]
  note again = align_merge_again [where cond = ?c, OF seq_condition_refl [OF assms(1)]]
  have "key_align s (key_of own fs) xs ys = Inr (?start, ?finish, ?start \<noteq> xs \<or> ?finish \<noteq> ys)"
    using assms by (simp add: key_align_of Let_def)
  moreover have "key_align s (key_of own fs) ?start ?finish = Inr (?start, ?finish, False)"
    using assms by (simp add: key_align_of Let_def again)
  ultimately show ?thesis using box by (intro exI conjI) auto
qed

text \<open>C34: Aligning a box of two bounds to a key makes every fraction of the key lie between the
  bounds, never narrows them, reports a change exactly when there is one, and has nothing left
  to do when it is repeated.\<close>

theorem key_align_widens:
  assumes "s \<noteq> UNKNOWN" and "fits fs"
  shows "\<exists>start finish chg. key_align s (key_of own fs) xs ys = Inr (start, finish, chg)
    \<and> (chg \<longleftrightarrow> start \<noteq> xs \<or> finish \<noteq> ys)
    \<and> length start = max (length fs) (length xs) \<and> length finish = max (length fs) (length ys)
    \<and> (\<forall>i < length fs. seq_condition s (start ! i) (fs ! i) \<noteq> LT
        \<and> seq_condition s (finish ! i) (fs ! i) \<noteq> GT)
    \<and> (\<forall>i < length xs. seq_condition s (start ! i) (xs ! i) \<noteq> LT)
    \<and> (\<forall>i < length ys. seq_condition s (finish ! i) (ys ! i) \<noteq> GT)
    \<and> key_align s (key_of own fs) start finish = Inr (start, finish, False)"
  using assms by (rule key_align_box)

theorem key_align_widens_witness:
  "\<exists>start finish chg. key_align LEXIC (key_of True [[5], [7]]) [[6]] [[4], [9]] = Inr (start, finish, chg)
    \<and> key_align LEXIC (key_of True [[5], [7]]) start finish = Inr (start, finish, False)"
  using key_align_widens [of LEXIC "[[5], [7]]" True "[[6]]" "[[4], [9]]"]
  by (fastforce simp: fits_def encoded_length_vi24_def max_vb_defs)

text \<open>Aligning one vector to another is the same widening of one side, as long as the
  number of common positions has room in its 24-bit counter.\<close>

lemma keyvec_align_widens:
  assumes "s \<noteq> UNKNOWN" and "side = LT \<or> side = GT" and "min (length xs) (length ys) < 2 ^ 24"
  shows "\<exists>xs' chg. keyvec_align s xs ys side = (xs', chg)
    \<and> (chg \<longleftrightarrow> xs' \<noteq> xs) \<and> length xs' = max (length xs) (length ys)
    \<and> (\<forall>i < length ys. seq_condition s (xs' ! i) (ys ! i) \<noteq> side)
    \<and> (\<forall>i < length xs. seq_condition s (xs' ! i) (xs ! i) \<noteq> side)"
proof -
  let ?c = "seq_condition s" and ?r = "align_merge (seq_condition s) side ys xs"
  note box = align_merge_box [OF seq_condition_order [OF assms(1)] assms(2)]
  have "seq_condition LEXIC = condition_lexic" "seq_condition FC_LEXIC = condition_lexic"
    "seq_condition VOLUME = condition_volume" "seq_condition FC_VOLUME = condition_volume"
    by (auto simp: fun_eq_iff)
  then have "keyvec_align s xs ys side = align_vec ?c xs ys side"
    using assms(1) by (cases s) simp_all
  also have "\<dots> = (?r, ?r \<noteq> xs)"
    using assms(2,3) by (intro align_vec_of seq_condition_refl [OF assms(1)]) auto
  finally show ?thesis using box by (intro exI conjI) (auto simp: max.commute)
qed

lemma keyvec_align_widens_witness:
  "\<exists>xs' chg. keyvec_align VOLUME [[6], [1]] [[5]] LT = (xs', chg) \<and> (chg \<longleftrightarrow> xs' \<noteq> [[6], [1]])
    \<and> length xs' = 2"
  using keyvec_align_widens [of VOLUME LT "[[6], [1]]" "[[5]]"] by fastforce

end
