(* ===== verification/Cells_Cell.thy ===== *)
theory Cells_Cell
  imports Key_Comparator
begin

text \<open>
  The cell: src/src/cc/include/swcdb/db/Cells/Cell.h, Cell.cc and the value encoders of
  core/Encoder.cc that its values go through. \<open>c_value\<close> is what can be read at the value
  pointer (nothing for the null pointer), \<open>c_vlen\<close> the length the cell keeps for it; times are
  64-bit words read as signed. The clock is an argument, and so are the compression libraries
  (\<open>libs\<close>: what they make of a block, and what they make of its compressed form).

  The lemmas show that what \<open>write\<close> stores is read back as the same cell, up to the fields the
  control bits leave out, and in the length that was announced.
\<close>

section \<open>Constants\<close>

definition INSERT :: byte where "INSERT = 1"
definition DELETE_LE :: byte where "DELETE_LE = 2"
definition DELETE_EQ :: byte where "DELETE_EQ = 3"

definition TIMESTAMP_NULL :: i64 where "TIMESTAMP_NULL = 0x8000000000000001"
definition TIMESTAMP_AUTO :: i64 where "TIMESTAMP_AUTO = 0x8000000000000002"

abbreviation "TS_DESC \<equiv> (0x01 :: byte)"
abbreviation "HAVE_ENCODER \<equiv> (0x02 :: byte)"
abbreviation "REV_IS_TS \<equiv> (0x04 :: byte)"
abbreviation "HAVE_TIMESTAMP \<equiv> (0x08 :: byte)"
abbreviation "HAVE_REVISION \<equiv> (0x10 :: byte)"
abbreviation "OP_EQUAL \<equiv> (0x01 :: byte)"

datatype column_type =
    Col_UNKNOWN | Col_PLAIN | COUNTER_I64 | COUNTER_I32 | COUNTER_I16 | COUNTER_I8
  | Col_SERIAL | Col_CELL_DEFINED

fun is_counter :: "column_type \<Rightarrow> bool" where
  "is_counter COUNTER_I64 = True" | "is_counter COUNTER_I32 = True"
| "is_counter COUNTER_I16 = True" | "is_counter COUNTER_I8 = True"
| "is_counter _ = False"

section \<open>Value encoders\<close>

abbreviation "ENC_ZLIB \<equiv> (2 :: byte)"
abbreviation "ENC_SNAPPY \<equiv> (3 :: byte)"
abbreviation "ENC_ZSTD \<equiv> (4 :: byte)"

record libs =
  compress :: "byte \<Rightarrow> bytes \<Rightarrow> bytes option"
  uncompress :: "byte \<Rightarrow> bytes \<Rightarrow> bytes option"

text \<open>The compressed block, or nothing where the input is to be stored as it is.\<close>

definition Encoder_encode :: "libs \<Rightarrow> byte \<Rightarrow> bytes \<Rightarrow> bool \<Rightarrow> bytes option" where
  "Encoder_encode lib encoder src ok_more =
     (if encoder = ENC_ZLIB \<or> encoder = ENC_SNAPPY \<or> encoder = ENC_ZSTD
      then (case compress lib encoder src of
              None \<Rightarrow> None
            | Some z \<Rightarrow> if z \<noteq> [] \<and> (ok_more \<or> length z < length src) then Some z else None)
      else None)"

text \<open>
  A buffer of \<open>sz\<close> bytes is filled: zlib and zstd results have to be of that size, snappy
  writes what it has, and any other encoder leaves the buffer as it was allocated.
\<close>

definition Encoder_decode :: "libs \<Rightarrow> byte \<Rightarrow> bytes \<Rightarrow> nat \<Rightarrow> bytes res" where
  "Encoder_decode lib encoder src sz =
     (if encoder = ENC_ZLIB \<or> encoder = ENC_ZSTD
      then (case uncompress lib encoder src of
              None \<Rightarrow> Inl ENCODER_DECODE
            | Some v \<Rightarrow> if length v = sz then Inr v else Inl ENCODER_DECODE)
      else if encoder = ENC_SNAPPY
      then (case uncompress lib encoder src of
              None \<Rightarrow> Inl ENCODER_DECODE
            | Some v \<Rightarrow> if length v = sz then Inr v else Inl Undefined_Behaviour)
      else if sz = 0 then Inr [] else Inl Undefined_Behaviour)"

section \<open>The cell\<close>

record cell =
  c_key :: key
  c_own :: bool
  c_flag :: byte
  c_control :: byte
  c_vlen :: u32
  c_value :: bytes
  c_timestamp :: i64
  c_revision :: i64

definition has_bit :: "byte \<Rightarrow> byte \<Rightarrow> bool" where
  "has_bit ctrl b \<longleftrightarrow> ctrl AND b \<noteq> 0"

definition clear_bit :: "byte \<Rightarrow> byte \<Rightarrow> byte" where
  "clear_bit ctrl b = ctrl AND (0xff - b)"

definition Cell_new :: cell where
  "Cell_new = \<lparr>c_key = Key_new, c_own = False, c_flag = 0, c_control = 0, c_vlen = 0, c_value = [],
     c_timestamp = TIMESTAMP_AUTO, c_revision = TIMESTAMP_AUTO\<rparr>"

text \<open>\<open>_value\<close>: a copy of \<open>vlen\<close> bytes.\<close>

definition cell_value :: "u32 \<Rightarrow> bytes \<Rightarrow> bytes" where
  "cell_value vlen v = take (unat vlen) v"

definition Cell_of :: "cell \<Rightarrow> cell" where
  "Cell_of other = other\<lparr>c_key := key_copy (c_key other), c_own := c_vlen other \<noteq> 0,
     c_value := cell_value (c_vlen other) (c_value other)\<rparr>"

definition Cell_of_no_value :: "cell \<Rightarrow> bool \<Rightarrow> cell" where
  "Cell_of_no_value other no_value =
     (let own = (\<not> no_value \<and> c_vlen other \<noteq> 0);
          vlen = (if own then c_vlen other else 0)
      in \<lparr>c_key = key_copy (c_key other), c_own = own, c_flag = c_flag other,
          c_control = (if no_value then clear_bit (c_control other) HAVE_ENCODER else c_control other),
          c_vlen = vlen, c_value = cell_value vlen (c_value other),
          c_timestamp = c_timestamp other, c_revision = c_revision other\<rparr>)"

definition cell_move :: "cell \<Rightarrow> cell \<times> cell" where
  "cell_move other =
     (let (k, k') = key_move (c_key other)
      in (other\<lparr>c_key := k\<rparr>, other\<lparr>c_key := k', c_value := [], c_vlen := 0\<rparr>))"

definition cell_free :: "cell \<Rightarrow> cell" where
  "cell_free c = c\<lparr>c_vlen := 0, c_value := []\<rparr>"

section \<open>Times\<close>

definition set_time_order_desc :: "cell \<Rightarrow> bool \<Rightarrow> cell" where
  "set_time_order_desc c desc =
     c\<lparr>c_control := (if desc then c_control c OR TS_DESC else clear_bit (c_control c) TS_DESC)\<rparr>"

definition is_time_order_desc :: "cell \<Rightarrow> bool" where
  "is_time_order_desc c \<longleftrightarrow> has_bit (c_control c) TS_DESC"

definition set_timestamp :: "cell \<Rightarrow> i64 \<Rightarrow> cell" where
  "set_timestamp c ts = c\<lparr>c_timestamp := ts, c_control := c_control c OR HAVE_TIMESTAMP\<rparr>"

definition drop_timestamp :: "i64 \<Rightarrow> cell \<Rightarrow> cell" where
  "drop_timestamp ts c =
     (let ctrl = clear_bit (c_control c) HAVE_TIMESTAMP
      in if has_bit ctrl REV_IS_TS
         then c\<lparr>c_timestamp := ts, c_control := clear_bit ctrl REV_IS_TS, c_revision := TIMESTAMP_AUTO\<rparr>
         else c\<lparr>c_timestamp := ts, c_control := ctrl\<rparr>)"

definition set_timestamp_null :: "cell \<Rightarrow> cell" where
  "set_timestamp_null = drop_timestamp TIMESTAMP_NULL"

definition set_timestamp_auto :: "cell \<Rightarrow> cell" where
  "set_timestamp_auto = drop_timestamp TIMESTAMP_AUTO"

definition set_timestamp_with_rev_is_ts :: "cell \<Rightarrow> i64 \<Rightarrow> cell" where
  "set_timestamp_with_rev_is_ts c ts =
     (let c = set_timestamp c ts
      in c\<lparr>c_revision := c_timestamp c,
           c_control := clear_bit (c_control c) HAVE_REVISION OR REV_IS_TS\<rparr>)"

definition set_revision :: "cell \<Rightarrow> i64 \<Rightarrow> cell" where
  "set_revision c ts =
     c\<lparr>c_revision := ts, c_control := clear_bit (c_control c) REV_IS_TS OR HAVE_REVISION\<rparr>"

definition removal :: "cell \<Rightarrow> bool" where
  "removal c \<longleftrightarrow> c_flag c \<noteq> INSERT"

definition is_removing :: "cell \<Rightarrow> i64 \<Rightarrow> bool" where
  "is_removing c ts \<longleftrightarrow> ts \<noteq> TIMESTAMP_AUTO \<and>
     ((c_flag c = DELETE_LE \<and> \<not> i64_less (c_timestamp c) ts) \<or>
      (c_flag c = DELETE_EQ \<and> c_timestamp c = ts))"

definition has_expired :: "i64 \<Rightarrow> cell \<Rightarrow> i64 \<Rightarrow> bool" where
  "has_expired now_ns c ttl \<longleftrightarrow>
     ttl \<noteq> 0 \<and> has_bit (c_control c) HAVE_TIMESTAMP \<and> i64_less (c_timestamp c + ttl) now_ns"

definition have_encoder :: "cell \<Rightarrow> bool" where
  "have_encoder c \<longleftrightarrow> has_bit (c_control c) HAVE_ENCODER"

section \<open>Values\<close>

definition set_value :: "cell \<Rightarrow> bytes \<Rightarrow> u32 \<Rightarrow> bool \<Rightarrow> cell" where
  "set_value c v len owner =
     c\<lparr>c_vlen := len, c_own := owner, c_value := (if owner then cell_value len v else v)\<rparr>"

definition set_value_encoded :: "libs \<Rightarrow> cell \<Rightarrow> byte \<Rightarrow> bytes \<Rightarrow> cell" where
  "set_value_encoded lib c encoder v =
     (if v = [] then c\<lparr>c_vlen := 0, c_value := []\<rparr>
      else case Encoder_encode lib encoder v False of
        Some z \<Rightarrow>
          (let out = vi32_out (of_nat (length v)) @ encode_i8 encoder @ z
           in c\<lparr>c_control := c_control c OR HAVE_ENCODER, c_vlen := of_nat (length out),
                c_value := cell_value (of_nat (length out)) out, c_own := True\<rparr>)
      | None \<Rightarrow>
          c\<lparr>c_control := clear_bit (c_control c) HAVE_ENCODER, c_vlen := of_nat (length v),
            c_value := cell_value (of_nat (length v)) v, c_own := True\<rparr>)"

definition get_value :: "libs \<Rightarrow> cell \<Rightarrow> (byte \<times> bytes) res" where
  "get_value lib c =
     (if have_encoder c
      then case dbind decode_vi32 (\<lambda>sz. dbind decode_i8 (\<lambda>encoder. dret (sz, encoder)))
             \<lparr>mem = c_value c, remain = ucast (c_vlen c)\<rparr> of
          Inl e \<Rightarrow> Inl e
        | Inr ((sz, encoder), r) \<Rightarrow>
            res_bind (Encoder_decode lib encoder (take (unat (remain r)) (mem r)) (unat sz))
              (\<lambda>v. Inr (encoder, v))
      else Inr (0, take (unat (c_vlen c)) (c_value c)))"

section \<open>Counters\<close>

fun counter_width :: "column_type \<Rightarrow> i64 \<Rightarrow> i64" where
  "counter_width COUNTER_I8 v = signed_take_bit 7 v"
| "counter_width COUNTER_I16 v = signed_take_bit 15 v"
| "counter_width COUNTER_I32 v = signed_take_bit 31 v"
| "counter_width _ v = v"

definition set_counter :: "cell \<Rightarrow> byte \<Rightarrow> i64 \<Rightarrow> column_type \<Rightarrow> i64 \<Rightarrow> cell" where
  "set_counter c opr v typ rv =
     (let v = counter_width typ v;
          has_rev = (has_bit opr OP_EQUAL \<and> rv \<noteq> TIMESTAMP_NULL);
          opr = (if has_rev then opr OR HAVE_REVISION else opr);
          vlen = 1 + encoded_length_vi64 v + (if has_rev then encoded_length_vi64 rv else 0)
      in c\<lparr>c_own := True, c_vlen := of_nat vlen,
           c_value := vi64_out v @ [opr] @ (if has_rev then vi64_out rv else [])\<rparr>)"

definition get_counter :: "cell \<Rightarrow> i64 res" where
  "get_counter c = res_bind (decode_vi64_ptr (c_value c)) (\<lambda>(v, ptr). Inr v)"

definition get_counter_op :: "cell \<Rightarrow> (byte \<times> i64) res" where
  "get_counter_op c = res_bind (decode_vi64_ptr (c_value c)) (\<lambda>(v, ptr).
     case ptr of [] \<Rightarrow> Inl Undefined_Behaviour | opr # _ \<Rightarrow> Inr (opr, v))"

definition get_counter_rev :: "cell \<Rightarrow> (byte \<times> i64 \<times> i64) res" where
  "get_counter_rev c = res_bind (decode_vi64_ptr (c_value c)) (\<lambda>(v, ptr).
     case ptr of
       [] \<Rightarrow> Inl Undefined_Behaviour
     | opr # ptr \<Rightarrow>
         if has_bit opr HAVE_REVISION
         then res_bind (decode_vi64_ptr ptr) (\<lambda>(rv, _). Inr (opr, v, rv))
         else Inr (opr, v, TIMESTAMP_NULL))"

section \<open>Copying, reading and writing\<close>

definition cell_copy :: "cell \<Rightarrow> cell \<Rightarrow> bool \<Rightarrow> cell" where
  "cell_copy c other no_value =
     (let c = c\<lparr>c_key := key_copy (c_key other), c_flag := c_flag other, c_control := c_control other,
            c_timestamp := c_timestamp other, c_revision := c_revision other\<rparr>
      in if no_value then cell_free (c\<lparr>c_control := clear_bit (c_control c) HAVE_ENCODER\<rparr>)
         else set_value c (c_value other) (c_vlen other) True)"

definition cell_encoded_length :: "cell \<Rightarrow> bool \<Rightarrow> nat" where
  "cell_encoded_length c no_value =
     (let len = unat (key_encoded_length (c_key c)) + 2
        + (if has_bit (c_control c) HAVE_TIMESTAMP then 8 else 0)
        + (if has_bit (c_control c) HAVE_REVISION then 8 else 0)
      in if no_value then len + 1 else len + encoded_length_vi32 (c_vlen c) + unat (c_vlen c))"

definition cell_write :: "cell \<Rightarrow> bool \<Rightarrow> bytes" where
  "cell_write c no_value =
     (let no_value = (no_value \<or> c_vlen c = 0);
          ctrl = (if no_value then clear_bit (c_control c) HAVE_ENCODER else c_control c)
      in encode_i8 (c_flag c) @ key_encode (c_key c) @ encode_i8 ctrl
         @ (if has_bit ctrl HAVE_TIMESTAMP then encode_i64 (c_timestamp c) else [])
         @ (if has_bit ctrl HAVE_REVISION then encode_i64 (c_revision c) else [])
         @ (if no_value then encode_i8 0
            else vi32_out (c_vlen c) @ take (unat (c_vlen c)) (c_value c)))"

definition cell_read :: "bool \<Rightarrow> cell decoder" where
  "cell_read owner =
     dbind decode_i8 (\<lambda>flag.
     dbind (key_decode owner) (\<lambda>k.
     dbind decode_i8 (\<lambda>control.
     dbind (if has_bit control HAVE_TIMESTAMP then decode_i64 else dret TIMESTAMP_AUTO) (\<lambda>timestamp.
     dbind (if has_bit control HAVE_REVISION then decode_i64
            else dret (if has_bit control REV_IS_TS then timestamp else TIMESTAMP_AUTO)) (\<lambda>revision.
     dbind decode_vi32 (\<lambda>vlen.
     dbind (if vlen \<noteq> 0
            then (\<lambda>r. if remain r < ucast vlen then Inl SERIALIZATION_INPUT_OVERRUN
                   else dbind (read_raw (unat vlen)) dret (r\<lparr>remain := remain r - ucast vlen\<rparr>))
            else dret []) (\<lambda>v.
     dret \<lparr>c_key = k, c_own = owner, c_flag = flag, c_control = control, c_vlen = vlen,
           c_value = v, c_timestamp = timestamp, c_revision = revision\<rparr>)))))))"

definition cell_equal :: "cell \<Rightarrow> cell \<Rightarrow> bool" where
  "cell_equal c other \<longleftrightarrow>
     c_flag c = c_flag other \<and> c_control c = c_control other \<and> c_vlen c = c_vlen other \<and>
     (\<not> has_bit (c_control c) HAVE_TIMESTAMP \<or> c_timestamp c = c_timestamp other) \<and>
     (\<not> has_bit (c_control c) HAVE_REVISION \<or> c_revision c = c_revision other) \<and>
     key_equal (c_key c) (c_key other) \<and>
     mem_eq (c_value c) (c_value other) (unat (c_vlen c))"

section \<open>Control bits\<close>

lemma has_bit_exp: "has_bit c (2 ^ n) \<longleftrightarrow> bit c n"
  by (simp add: has_bit_def and_exp_eq_0_iff_not_bit)

lemma clear_bit_not: "clear_bit c b = c AND NOT b"
proof -
  have "(0xff :: byte) = - 1" by code_simp
  then have "(0xff :: byte) - b = NOT b" by (simp only: not_eq_complement diff_conv_add_uminus add.commute)
  then show ?thesis by (simp add: clear_bit_def)
qed

definition "control_bits = ({1, 2, 4, 8, 16} :: byte set)"

lemma control_bitsE:
  assumes "b \<in> control_bits"
  obtains n where "n < 8" and "b = 2 ^ n"
proof -
  have "b = 2 ^ 0 \<or> b = 2 ^ 1 \<or> b = 2 ^ 2 \<or> b = 2 ^ 3 \<or> b = 2 ^ 4"
    using assms by (simp add: control_bits_def)
  then show ?thesis 
    using that [of 0] that [of 1] that [of 2] that [of 3] that [of 4] by auto
qed

lemma has_clear_bit [simp]:
  "a \<in> control_bits \<Longrightarrow> b \<in> control_bits \<Longrightarrow> has_bit (clear_bit c b) a \<longleftrightarrow> has_bit c a \<and> a \<noteq> b"
  by (auto elim!: control_bitsE simp: has_bit_exp clear_bit_not bit_and_iff bit_not_iff bit_exp_iff)

lemma has_bit_or [simp]:
  "a \<in> control_bits \<Longrightarrow> b \<in> control_bits \<Longrightarrow> has_bit (c OR b) a \<longleftrightarrow> has_bit c a \<or> a = b"
  by (auto elim!: control_bitsE simp: has_bit_exp bit_or_iff bit_exp_iff)

lemma control_bitsI [simp]:
  "1 \<in> control_bits" "2 \<in> control_bits" "4 \<in> control_bits" "8 \<in> control_bits" "16 \<in> control_bits"
  by (simp_all add: control_bits_def)

section \<open>Reading what was written\<close>

text \<open>A cell as the code builds it, and what a reader makes of it.\<close>

definition cell_ok :: "cell \<Rightarrow> bool" where
  "cell_ok c \<longleftrightarrow> key_rep (c_key c) \<and> unat (c_vlen c) \<le> length (c_value c)"

definition drops_value :: "bool \<Rightarrow> cell \<Rightarrow> bool" where
  "drops_value no_value c \<longleftrightarrow> no_value \<or> c_vlen c = 0"

definition cell_view :: "bool \<Rightarrow> bool \<Rightarrow> cell \<Rightarrow> cell" where
  "cell_view owner no_value c =
     (let nv = drops_value no_value c;
          ctrl = (if nv then clear_bit (c_control c) HAVE_ENCODER else c_control c);
          ts = (if has_bit ctrl HAVE_TIMESTAMP then c_timestamp c else TIMESTAMP_AUTO)
      in \<lparr>c_key = (c_key c)\<lparr>key_own := owner\<rparr>, c_own = owner, c_flag = c_flag c, c_control = ctrl,
          c_vlen = (if nv then 0 else c_vlen c),
          c_value = (if nv then [] else take (unat (c_vlen c)) (c_value c)),
          c_timestamp = ts,
          c_revision = (if has_bit ctrl HAVE_REVISION then c_revision c
            else if has_bit ctrl REV_IS_TS then ts else TIMESTAMP_AUTO)\<rparr>)"

lemma decodes_i8: "decodes decode_i8 (encode_i8 b) b"
  unfolding decodes_def
proof (intro allI impI)
  fix n :: u64 and rest assume "length (encode_i8 b) \<le> unat n"
  then have "n \<noteq> 0" by (auto simp: encode_i8_def)
  then show "decode_i8 \<lparr>mem = encode_i8 b @ rest, remain = n\<rparr>
      = Inr (b, \<lparr>mem = rest, remain = n - of_nat (length (encode_i8 b))\<rparr>)"
    by (simp add: encode_i8_def decode_i8_Cons)
qed

lemma decodes_i64: "decodes decode_i64 (encode_i64 v) v"
  unfolding decodes_def
proof (intro allI impI)
  fix n :: u64 and rest assume "length (encode_i64 v) \<le> unat n"
  then show "decode_i64 \<lparr>mem = encode_i64 v @ rest, remain = n\<rparr>
      = Inr (v, \<lparr>mem = rest, remain = n - of_nat (length (encode_i64 v))\<rparr>)"
    using decode_le [of 8 n v rest] by (simp add: encode_i64_def decode_i64_def)
qed

lemma decodes_if:
  "(b \<Longrightarrow> decodes m bs x) \<Longrightarrow> (\<not> b \<Longrightarrow> decodes m' cs y) \<Longrightarrow>
    decodes (if b then m else m') (if b then bs else cs) (if b then x else y)"
  by auto

lemma decodes_key: "key_rep k \<Longrightarrow> decodes (key_decode owner) (key_encode k) (k\<lparr>key_own := owner\<rparr>)"
proof (erule key_repE)
  fix own fs assume "fits fs" and k: "k = key_of own fs"
  moreover have "(key_of own fs)\<lparr>key_own := owner\<rparr> = key_of owner fs" by (simp add: key_of_def)
  ultimately show ?thesis using key_codec.decodes_enc [of fs owner own] by simp
qed

lemma decodes_value:
  assumes "n \<noteq> 0" and "unat (n :: u32) \<le> length v"
  shows "decodes (\<lambda>r. if remain r < ucast n then Inl SERIALIZATION_INPUT_OVERRUN
      else dbind (read_raw (unat n)) dret (r\<lparr>remain := remain r - ucast n\<rparr>))
    (take (unat n) v) (take (unat n) v)"
  unfolding decodes_def
proof (intro allI impI)
  fix m :: u64 and rest assume "length (take (unat n) v) \<le> unat m"
  then have le: "unat n \<le> unat m" using assms(2) by simp
  have u: "unat (ucast n :: u64) = unat n" by (rule unat_ucast_up) simp
  then have "(ucast n :: u64) = of_nat (unat n)" by (metis word_unat_eq_iff of_nat_unat)
  then show "(if remain \<lparr>mem = take (unat n) v @ rest, remain = m\<rparr> < ucast n then Inl SERIALIZATION_INPUT_OVERRUN
      else dbind (read_raw (unat n)) dret (\<lparr>mem = take (unat n) v @ rest, remain = m\<rparr>
        \<lparr>remain := remain \<lparr>mem = take (unat n) v @ rest, remain = m\<rparr> - ucast n\<rparr>))
    = Inr (take (unat n) v, \<lparr>mem = rest, remain = m - of_nat (length (take (unat n) v))\<rparr>)"
    using le assms(2) u by (simp add: word_less_nat_alt not_less min_absorb2 del: unsigned_ucast_eq)
qed

lemma vi32_out_0: "vi32_out 0 = [0]"
  by code_simp

lemma cell_decodes:
  assumes "cell_ok c"
  shows "decodes (cell_read owner) (cell_write c no_value) (cell_view owner no_value c)"
proof -
  let ?nv = "drops_value no_value c"
  let ?ctrl = "if ?nv then clear_bit (c_control c) HAVE_ENCODER else c_control c"
  let ?vlen = "if ?nv then 0 else c_vlen c"
  let ?val = "if ?nv then [] else take (unat (c_vlen c)) (c_value c)"
  have vlen0: "?vlen = 0 \<longleftrightarrow> ?nv" by (auto simp: drops_value_def)
  have w: "cell_write c no_value = encode_i8 (c_flag c) @ key_encode (c_key c) @ encode_i8 ?ctrl
      @ (if has_bit ?ctrl HAVE_TIMESTAMP then encode_i64 (c_timestamp c) else [])
      @ (if has_bit ?ctrl HAVE_REVISION then encode_i64 (c_revision c) else [])
      @ vi32_out ?vlen @ (if ?vlen \<noteq> 0 then ?val else []) @ []"
    by (simp add: cell_write_def drops_value_def Let_def vi32_out_0 encode_i8_def)
  have val: "decodes (if ?vlen \<noteq> 0
            then (\<lambda>r. if remain r < ucast ?vlen then Inl SERIALIZATION_INPUT_OVERRUN
                   else dbind (read_raw (unat ?vlen)) dret (r\<lparr>remain := remain r - ucast ?vlen\<rparr>))
            else dret []) (if ?vlen \<noteq> 0 then ?val else []) ?val"
  proof (cases ?nv)
    case False
    then have "c_vlen c \<noteq> 0" by (simp add: drops_value_def)
    then show ?thesis using False assms decodes_value [of "c_vlen c" "c_value c"]
      by (simp add: cell_ok_def)
  qed auto
  have ts: "decodes (if has_bit ?ctrl HAVE_TIMESTAMP then decode_i64 else dret TIMESTAMP_AUTO)
      (if has_bit ?ctrl HAVE_TIMESTAMP then encode_i64 (c_timestamp c) else [])
      (if has_bit ?ctrl HAVE_TIMESTAMP then c_timestamp c else TIMESTAMP_AUTO)"
    by (rule decodes_if) (auto simp: decodes_i64)
  have rev: "decodes (if has_bit ?ctrl HAVE_REVISION then decode_i64 else dret y)
      (if has_bit ?ctrl HAVE_REVISION then encode_i64 (c_revision c) else [])
      (if has_bit ?ctrl HAVE_REVISION then c_revision c else y)" for y
    by (rule decodes_if) (auto simp: decodes_i64)
  have key: "key_rep (c_key c)" using assms by (simp add: cell_ok_def)
  show ?thesis
    unfolding w cell_read_def cell_view_def Let_def
    by (rule decodes_dbind decodes_i8 decodes_key [OF key] ts rev vi32.decodes_enc TrueI val decodes_dret)+
qed

lemma cell_length:
  assumes "cell_ok c"
  shows "length (cell_write c no_value) = cell_encoded_length c (drops_value no_value c)"
proof -
  obtain own fs where k: "fits fs" "c_key c = key_of own fs"
    using assms by (auto simp: cell_ok_def elim: key_repE)
  have "length (key_encode (c_key c)) = unat (key_encoded_length (c_key c))"
    using key_codec.enc_len [OF k(1)] k(2) by simp
  moreover have "unat (c_vlen c) \<le> length (c_value c)"
    using assms by (simp add: cell_ok_def)
  ultimately show ?thesis
    by (simp add: cell_write_def cell_encoded_length_def drops_value_def Let_def encode_i8_def
        encode_i64_def)
qed

interpretation cell_codec: codec_pos "\<lambda>c. cell_write c no_value" "cell_read owner"
  "\<lambda>c. cell_encoded_length c (drops_value no_value c)" cell_ok "cell_view owner no_value"
  for owner no_value
proof unfold_locales
  fix c and n :: u64 and rest assume c: "cell_ok c"
  show "length (cell_write c no_value) = cell_encoded_length c (drops_value no_value c)"
    by (rule cell_length [OF c])
  show "0 < cell_encoded_length c (drops_value no_value c)"
    by (simp add: cell_encoded_length_def Let_def)
  assume "cell_encoded_length c (drops_value no_value c) \<le> unat n"
  then show "cell_read owner \<lparr>mem = cell_write c no_value @ rest, remain = n\<rparr>
    = Inr (cell_view owner no_value c,
        \<lparr>mem = rest, remain = n - of_nat (cell_encoded_length c (drops_value no_value c))\<rparr>)"
    using decodesD [OF cell_decodes [OF c], of no_value n owner rest] by (simp add: cell_length [OF c])
qed

lemma cell_encoded_length_small: "cell_encoded_length c no_value < 2 ^ 64"
proof -
  have "unat (key_encoded_length (c_key c)) < 2 ^ 32" "unat (c_vlen c) < 2 ^ 32"
    by (rule unat_fits, simp)+
  moreover have "encoded_length_vi32 (c_vlen c) \<le> 5"
    by (simp add: encoded_length_vi32_def)
  ultimately show ?thesis by (simp add: cell_encoded_length_def Let_def)
qed

lemma key_equal_same:
  "key_rep a \<Longrightarrow> key_rep b \<Longrightarrow> key_equal a b \<longleftrightarrow> a\<lparr>key_own := True\<rparr> = b\<lparr>key_own := True\<rparr>"
proof (elim key_repE)
  fix o1 fs o2 gs
  assume f: "fits fs" and a: "a = key_of o1 fs" and g: "fits gs" and b: "b = key_of o2 gs"
  have "(key_of own hs)\<lparr>key_own := True\<rparr> = key_of True hs" for own hs by (simp add: key_of_def)
  moreover have "key_of True fs = key_of True gs \<longleftrightarrow> fs = gs"
    using key_of_inject [OF _ f g] by (metis key_of_simps(5))
  ultimately show ?thesis using key_equal_iff [OF f g] a b by simp
qed

text \<open>A cell without a value has no value encoder either.\<close>

definition cell_clean :: "cell \<Rightarrow> bool" where
  "cell_clean c \<longleftrightarrow> (c_vlen c = 0 \<longrightarrow> \<not> has_bit (c_control c) HAVE_ENCODER)"

lemma clear_bit_idle: "\<not> has_bit c b \<Longrightarrow> clear_bit c b = c"
proof -
  assume "\<not> has_bit c b"
  then have "\<not> bit (c AND b) i" for i by (simp add: has_bit_def)
  then show ?thesis
    unfolding clear_bit_not by (intro bit_word_eqI) (auto simp: bit_and_iff bit_not_iff)
qed

lemma key_encode_own: "key_encode (k\<lparr>key_own := own\<rparr>) = key_encode k"
  by (simp add: key_encode_def key_bytes_def)

lemma cell_equal_view:
  assumes "cell_ok c" "cell_ok d" "cell_clean c" "cell_clean d"
  shows "cell_equal c d \<longleftrightarrow> cell_view True False c = cell_view True False d"
proof -
  have k: "key_rep (c_key c)" "key_rep (c_key d)"
    and v: "unat (c_vlen c) \<le> length (c_value c)" "unat (c_vlen d) \<le> length (c_value d)"
    using assms(1,2) by (auto simp: cell_ok_def)
  have nv: "(if drops_value False x then clear_bit (c_control x) HAVE_ENCODER else c_control x) = c_control x"
    if "cell_clean x" for x
    using that by (auto simp: drops_value_def cell_clean_def clear_bit_idle)
  have vl: "(if drops_value False x then 0 else c_vlen x) = c_vlen x" for x
    by (simp add: drops_value_def)
  have va: "(if drops_value False x then [] else take (unat (c_vlen x)) (c_value x))
      = take (unat (c_vlen x)) (c_value x)" for x
    by (simp add: drops_value_def)
  show ?thesis
    using v mem_eq_take [of "unat (c_vlen c)" "c_value c" "c_value d"]
    unfolding cell_view_def Let_def nv [OF assms(3)] nv [OF assms(4)] vl va cell_equal_def
      key_equal_same [OF k]
    by auto
qed

lemma cell_equal_iff_write:
  assumes "cell_ok c" "cell_ok d" "cell_clean c" "cell_clean d"
  shows "cell_equal c d \<longleftrightarrow> cell_write c False = cell_write d False"
proof
  assume "cell_write c False = cell_write d False"
  then show "cell_equal c d"
    using cell_codec.enc_prefix_free [OF assms(1,2), of False "[]" "[]" True] cell_encoded_length_small
      cell_equal_view [OF assms] by simp
next
  assume eq: "cell_equal c d"
  then have "(c_key c)\<lparr>key_own := True\<rparr> = (c_key d)\<lparr>key_own := True\<rparr>"
    using assms(1,2) key_equal_same by (simp add: cell_equal_def cell_ok_def)
  then have "key_encode (c_key c) = key_encode (c_key d)"
    by (metis key_encode_own)
  then show "cell_write c False = cell_write d False"
    using eq assms(1,2) mem_eq_take [of "unat (c_vlen c)" "c_value c" "c_value d"]
    by (auto simp: cell_equal_def cell_write_def cell_ok_def Let_def)
qed

lemma decode_vi64_ptr_out: "decode_vi64_ptr (vi64_out v @ rest) = Inr (v, rest)"
proof -
  have "encoded_length_vi64 v \<le> unat (10 :: u64)"
    by (simp add: encoded_length_vi64_def)
  from vi64.dec_enc [OF _ this] show ?thesis by (simp add: decode_vi64_ptr_def)
qed

lemma unat_ucast_32_64: "unat (ucast (w :: u32) :: u64) = unat w"
  by (rule unat_ucast_up) simp

text \<open>The times a written cell can carry: what no control bit stands for is at its default.\<close>

definition times_carried :: "cell \<Rightarrow> bool" where
  "times_carried c \<longleftrightarrow>
     (\<not> has_bit (c_control c) HAVE_TIMESTAMP \<longrightarrow> c_timestamp c = TIMESTAMP_AUTO) \<and>
     (\<not> has_bit (c_control c) HAVE_REVISION \<longrightarrow>
        c_revision c = (if has_bit (c_control c) REV_IS_TS then c_timestamp c else TIMESTAMP_AUTO))"

lemma ctrl_view [simp]:
  "has_bit (c_control (cell_view owner nv c)) HAVE_TIMESTAMP = has_bit (c_control c) HAVE_TIMESTAMP"
  "has_bit (c_control (cell_view owner nv c)) HAVE_REVISION = has_bit (c_control c) HAVE_REVISION"
  "has_bit (c_control (cell_view owner nv c)) REV_IS_TS = has_bit (c_control c) REV_IS_TS"
  "has_bit (c_control (cell_view owner nv c)) TS_DESC = has_bit (c_control c) TS_DESC"
  by (simp_all add: cell_view_def Let_def)

lemma times_view:
  "c_timestamp (cell_view owner nv c) =
     (if has_bit (c_control c) HAVE_TIMESTAMP then c_timestamp c else TIMESTAMP_AUTO)"
  "c_revision (cell_view owner nv c) =
     (if has_bit (c_control c) HAVE_REVISION then c_revision c
      else if has_bit (c_control c) REV_IS_TS then c_timestamp (cell_view owner nv c) else TIMESTAMP_AUTO)"
  by (simp_all add: cell_view_def Let_def)

section \<open>Properties\<close>

text \<open>C3: A cell is written in the length that is announced for it, and reading that gives the
  cell back: key, flag, order bit, value and the times its control bits stand for, with the value
  and its encoder bit left out when there is none or none is wanted.\<close>

theorem cell_roundtrip:
  assumes "cell_ok c" and "cell_encoded_length c (drops_value no_value c) \<le> unat n"
  shows "length (cell_write c no_value) = cell_encoded_length c (drops_value no_value c)
    \<and> cell_read owner \<lparr>mem = cell_write c no_value @ rest, remain = n\<rparr>
      = Inr (cell_view owner no_value c,
          \<lparr>mem = rest, remain = n - of_nat (cell_encoded_length c (drops_value no_value c))\<rparr>)"
  using cell_codec.enc_len [OF assms(1)] cell_codec.dec_enc [OF assms] by blast

theorem cell_roundtrip_witness:
  "cell_read True \<lparr>mem = cell_write (set_timestamp (set_value Cell_new [1, 2, 3] 3 True) 5) False @ [9],
      remain = 16\<rparr>
    = Inr (Cell_new\<lparr>c_key := key_of True [], c_own := True, c_control := 8, c_vlen := 3,
        c_value := [1, 2, 3], c_timestamp := 5\<rparr>, \<lparr>mem = [9], remain = 1\<rparr>)"
proof -
  let ?c = "set_timestamp (set_value Cell_new [1, 2, 3] 3 True) 5"
  have k: "Key_new = key_of False []" by (simp add: Key_new_def key_of_def)
  have ok: "cell_ok ?c"
    by (simp add: cell_ok_def set_timestamp_def set_value_def Cell_new_def cell_value_def k)
  have nv: "\<not> drops_value False ?c"
    by (simp add: drops_value_def set_timestamp_def set_value_def)
  have len: "cell_encoded_length ?c False = 15" by code_simp
  have view: "cell_view True False ?c = Cell_new\<lparr>c_key := key_of True [], c_own := True, c_control := 8,
      c_vlen := 3, c_value := [1, 2, 3], c_timestamp := 5\<rparr>"
    by code_simp
  show ?thesis
    using cell_roundtrip [OF ok, of False 16 True "[9]"] nv by (simp add: len view)
qed

text \<open>Two cells are equal for the code exactly when they are written as the same bytes.\<close>

lemma cell_equal_is_equal_encoding:
  assumes "cell_ok c" and "cell_ok d" and "cell_clean c" and "cell_clean d"
  shows "cell_equal c d \<longleftrightarrow> cell_write c False = cell_write d False"
  using assms by (rule cell_equal_iff_write)

lemma cell_equal_is_equal_encoding_witness:
  "\<not> cell_equal (set_value Cell_new [1, 2] 2 True) (set_value Cell_new [1, 3] 2 True)
    \<and> cell_write (set_value Cell_new [1, 2] 2 True) False
      \<noteq> cell_write (set_value Cell_new [1, 3] 2 True) False"
proof -
  have k: "key_rep Key_new" using key_rep_of [of "[]" False] by (simp add: Key_new_def key_of_def)
  have ok: "cell_ok (set_value Cell_new [1, x] 2 True)" "cell_clean (set_value Cell_new [1, x] 2 True)" for x
    using k by (simp_all add: cell_ok_def cell_clean_def set_value_def Cell_new_def cell_value_def)
  have "\<not> cell_equal (set_value Cell_new [1, 2] 2 True) (set_value Cell_new [1, 3] 2 True)"
    by code_simp
  then show ?thesis using cell_equal_is_equal_encoding [OF ok(1) ok(1) ok(2) ok(2)] by blast
qed

text \<open>The setters of the times keep what a written cell can carry, and for such a cell the
  reader has the same timestamp and revision.\<close>

lemma times_survive_encoding:
  assumes "times_carried c"
  shows "times_carried (set_time_order_desc c desc)
    \<and> times_carried (set_timestamp_auto c)
    \<and> times_carried (set_timestamp_with_rev_is_ts c ts)
    \<and> times_carried (set_revision c ts)
    \<and> (\<not> has_bit (c_control c) REV_IS_TS \<or> has_bit (c_control c) HAVE_REVISION
        \<longrightarrow> times_carried (set_timestamp c ts))
    \<and> c_timestamp (cell_view owner nv c) = c_timestamp c
    \<and> c_revision (cell_view owner nv c) = c_revision c"
  using assms
  by (auto simp: times_carried_def set_time_order_desc_def set_timestamp_auto_def drop_timestamp_def
      set_timestamp_with_rev_is_ts_def set_revision_def set_timestamp_def Let_def times_view)

lemma times_survive_encoding_witness:
  "times_carried (set_revision Cell_new 7)
    \<and> c_revision (cell_view True False (set_timestamp (set_revision Cell_new 7) 3)) = 7"
proof -
  have "times_carried Cell_new"
    by (simp add: times_carried_def Cell_new_def has_bit_def)
  then have r: "times_carried (set_revision Cell_new 7)"
    using times_survive_encoding [of Cell_new False 7 True False] by blast
  have "has_bit (c_control (set_revision Cell_new 7)) HAVE_REVISION"
    by (simp add: set_revision_def)
  then have "times_carried (set_timestamp (set_revision Cell_new 7) 3)"
    using times_survive_encoding [OF r, of False 3 True False] by blast
  then have "c_revision (cell_view True False (set_timestamp (set_revision Cell_new 7) 3))
      = c_revision (set_timestamp (set_revision Cell_new 7) 3)"
    using times_survive_encoding [of _ False 3 True False] by blast
  then show ?thesis using r by (simp add: set_timestamp_def set_revision_def)
qed

text \<open>A timestamp set on a cell whose revision was declared to be its timestamp leaves the
  revision of the cell in memory at the old time, while every reader of the written cell sees the
  new one as the revision.\<close>

lemma set_timestamp_stale_revision:
  "c_revision (set_timestamp (set_timestamp_with_rev_is_ts c t1) t2) = t1
    \<and> c_revision (cell_view owner nv (set_timestamp (set_timestamp_with_rev_is_ts c t1) t2)) = t2"
  by (simp add: set_timestamp_def set_timestamp_with_rev_is_ts_def Let_def times_view)

text \<open>A counter value is stored at the width of its column, and its value, its operation
  and the revision stored with an assignment are read back.\<close>

lemma counter_roundtrip:
  assumes "\<not> has_bit opr HAVE_REVISION"
  shows "get_counter (set_counter c opr v typ rv) = Inr (counter_width typ v)
    \<and> get_counter_rev (set_counter c opr v typ rv) =
      (if has_bit opr OP_EQUAL \<and> rv \<noteq> TIMESTAMP_NULL
       then Inr (opr OR HAVE_REVISION, counter_width typ v, rv)
       else Inr (opr, counter_width typ v, TIMESTAMP_NULL))
    \<and> unat (c_vlen (set_counter c opr v typ rv)) = length (c_value (set_counter c opr v typ rv))"
proof -
  have len: "encoded_length_vi64 w \<le> 10" for w by (simp add: encoded_length_vi64_def)
  have "unat (c_vlen (set_counter c opr v typ rv)) = length (c_value (set_counter c opr v typ rv))"
    using len [of rv] len [of "counter_width typ v"] unat_of_nat32
      [of "1 + encoded_length_vi64 (counter_width typ v) + encoded_length_vi64 rv"]
      unat_of_nat32 [of "1 + encoded_length_vi64 (counter_width typ v)"]
    by (simp add: set_counter_def Let_def)
  then show ?thesis
    using assms decode_vi64_ptr_out [of rv "[]"]
    by (simp add: get_counter_def get_counter_rev_def set_counter_def Let_def decode_vi64_ptr_out)
qed

lemma counter_roundtrip_witness:
  "get_counter (set_counter Cell_new OP_EQUAL 300 COUNTER_I8 5) = Inr 44
    \<and> get_counter_rev (set_counter Cell_new OP_EQUAL 300 COUNTER_I8 5) = Inr (0x11, 44, 5)"
proof -
  have "counter_width COUNTER_I8 300 = 44" "(1 :: byte) OR 0x10 = 0x11"
    "(5 :: i64) \<noteq> TIMESTAMP_NULL" "\<not> has_bit 1 HAVE_REVISION" "has_bit 1 OP_EQUAL"
    by code_simp+
  then show ?thesis using counter_roundtrip [of OP_EQUAL Cell_new 300 COUNTER_I8 5] by simp
qed

text \<open>A value stored through an encoder is given back, whether the encoder made it smaller
  or not, for compression libraries that undo what they did.\<close>

lemma encoded_value_roundtrip:
  assumes "v \<noteq> []" and "length v + 6 < 2 ^ 32"
    and "\<And>z. compress lib encoder v = Some z \<Longrightarrow> uncompress lib encoder z = Some v"
  shows "\<exists>e. get_value lib (set_value_encoded lib c encoder v) = Inr (e, v)"
proof (cases "Encoder_encode lib encoder v False")
  case None
  have "unat (of_nat (length v) :: u32) = length v" using assms(2) by (intro unat_of_nat32) simp
  then show ?thesis
    using assms(1) None
    by (simp add: get_value_def set_value_encoded_def have_encoder_def cell_value_def)
next
  case (Some z)
  then have enc: "compress lib encoder v = Some z" "length z < length v"
    "encoder = ENC_ZLIB \<or> encoder = ENC_SNAPPY \<or> encoder = ENC_ZSTD"
    by (auto simp: Encoder_encode_def split: if_splits option.splits)
  let ?n = "of_nat (length v) :: u32"
  let ?out = "vi32_out ?n @ encode_i8 encoder @ z"
  have n: "unat ?n = length v" using assms(2) by (intro unat_of_nat32) simp
  have "encoded_length_vi32 ?n \<le> 5" by (simp add: encoded_length_vi32_def)
  then have "length ?out < 2 ^ 32" using enc(2) assms(2) by (simp add: encode_i8_def)
  then have whole: "cell_value (of_nat (length ?out)) ?out = ?out"
    unfolding cell_value_def by (simp only: unat_of_nat32 take_all_iff order_refl)
  from \<open>length ?out < 2 ^ 32\<close> have u: "unat (of_nat (length ?out) :: u32) = length ?out" by (rule unat_of_nat32)
  then have u64: "unat (ucast (of_nat (length ?out) :: u32) :: u64) = length ?out"
    by (simp only: unat_ucast_32_64)
  have "decodes (dbind decode_vi32 (\<lambda>sz. dbind decode_i8 (\<lambda>encoder. dret (sz, encoder))))
      (vi32_out ?n @ encode_i8 encoder) (?n, encoder)"
    by (rule decodes_dbind [OF vi32.decodes_enc [OF TrueI] decodes_dbind_dret [OF decodes_i8]])
  from decodesD [OF this, of "ucast (of_nat (length ?out) :: u32)" z]
  have "dbind decode_vi32 (\<lambda>sz. dbind decode_i8 (\<lambda>encoder. dret (sz, encoder)))
      \<lparr>mem = ?out, remain = ucast (of_nat (length ?out) :: u32)\<rparr>
    = Inr ((?n, encoder), \<lparr>mem = z, remain = ucast (of_nat (length ?out) :: u32)
        - of_nat (length (vi32_out ?n @ encode_i8 encoder))\<rparr>)"
    using u64 by simp
  moreover have "unat (ucast (of_nat (length ?out) :: u32) - of_nat (length (vi32_out ?n @ encode_i8 encoder)) :: u64)
      = length z"
    using u64 by (subst unat_sub_of_nat) simp_all
  moreover have "Encoder_decode lib encoder z (length v) = Inr v"
    using enc assms(3) by (auto simp: Encoder_decode_def)
  moreover have "set_value_encoded lib c encoder v = c\<lparr>c_control := c_control c OR HAVE_ENCODER,
      c_vlen := of_nat (length ?out), c_value := ?out, c_own := True\<rparr>"
    using assms(1) Some by (simp add: set_value_encoded_def Let_def whole del: length_append of_nat_add)
  ultimately show ?thesis
    by (simp add: get_value_def have_encoder_def n del: length_append of_nat_add append.assoc)
qed

lemma encoded_value_roundtrip_witness:
  "\<exists>e. get_value \<lparr>compress = \<lambda>e v. Some [1], uncompress = \<lambda>e z. Some [7, 7, 7]\<rparr>
      (set_value_encoded \<lparr>compress = \<lambda>e v. Some [1], uncompress = \<lambda>e z. Some [7, 7, 7]\<rparr>
         Cell_new ENC_ZSTD [7, 7, 7])
    = Inr (e, [7, 7, 7])"
  by (rule encoded_value_roundtrip) auto

text \<open>An empty value stored through an encoder does not clear the encoder bit an earlier
  value has set, and reading the value of the cell then fails.\<close>

lemma empty_value_keeps_encoder_bit:
  assumes "have_encoder c"
  shows "get_value lib (set_value_encoded lib c encoder []) = Inl SERIALIZATION_INPUT_OVERRUN"
proof -
  have "decode_vi32 \<lparr>mem = [], remain = 0\<rparr> = Inl SERIALIZATION_INPUT_OVERRUN" by code_simp
  then show ?thesis
    using assms by (simp add: get_value_def set_value_encoded_def have_encoder_def)
qed

lemma empty_value_keeps_encoder_bit_witness:
  "get_value \<lparr>compress = \<lambda>e v. None, uncompress = \<lambda>e z. None\<rparr>
      (set_value_encoded \<lparr>compress = \<lambda>e v. None, uncompress = \<lambda>e z. None\<rparr>
         (Cell_new\<lparr>c_control := HAVE_ENCODER\<rparr>) ENC_ZSTD [])
    = Inl SERIALIZATION_INPUT_OVERRUN"
  by (rule empty_value_keeps_encoder_bit) (simp add: have_encoder_def has_bit_def)

end
