(* ===== verification/Cells_Mutable.thy ===== *)
theory Cells_Mutable
  imports Cells_Cell
begin

text \<open>
  The sorted container of cells a range keeps in memory and merges updates into:
  src/src/cc/include/swcdb/db/Cells/Mutable.h and lib/swcdb/db/Cells/Mutable.cc. The two-level
  vector behind it is a list; an iterator is a position in it, and a loop that moves an
  iterator is a recursion on the cells from there on, which returns what those cells become.
  \<open>m_bytes\<close> and \<open>m_size\<close> are the counters the code keeps beside the container. The clock is
  read once per operation (\<open>now\<close>).
\<close>

section \<open>State\<close>

record mutable =
  m_seq :: KeySeq
  m_type :: column_type
  m_max_revs :: u32
  m_ttl :: u64
  m_cells :: "cell list"
  m_bytes :: u64
  m_size :: u64

definition Mutable_new :: "KeySeq \<Rightarrow> u32 \<Rightarrow> u64 \<Rightarrow> column_type \<Rightarrow> mutable" where
  "Mutable_new s revs ttl_ns typ = \<lparr>m_seq = s, m_type = typ, m_max_revs = revs, m_ttl = ttl_ns,
     m_cells = [], m_bytes = 0, m_size = 0\<rparr>"

text \<open>\<open>_add\<close> and \<open>_remove\<close>: the counters for one cell.\<close>

definition m_add :: "mutable \<Rightarrow> cell \<Rightarrow> mutable" where
  "m_add m c = m\<lparr>m_bytes := m_bytes m + of_nat (cell_encoded_length c False), m_size := m_size m + 1\<rparr>"

definition m_remove :: "mutable \<Rightarrow> cell \<Rightarrow> mutable" where
  "m_remove m c = m\<lparr>m_bytes := m_bytes m - of_nat (cell_encoded_length c False), m_size := m_size m - 1\<rparr>"

definition m_free :: "mutable \<Rightarrow> mutable" where
  "m_free m = m\<lparr>m_cells := [], m_bytes := 0, m_size := 0\<rparr>"

text \<open>\<open>_adjust_copy\<close>: a cell of the container becomes a copy of another one.\<close>

definition adjust_copy :: "mutable \<Rightarrow> cell \<Rightarrow> cell \<Rightarrow> mutable \<times> cell" where
  "adjust_copy m c other =
     (let c' = cell_copy c other False
      in (m\<lparr>m_bytes := m_bytes m - of_nat (cell_encoded_length c False)
              + of_nat (cell_encoded_length c' False)\<rparr>, c'))"

definition take_sorted :: "mutable \<Rightarrow> mutable \<Rightarrow> mutable \<times> mutable" where
  "take_sorted m other =
     (if m_size other \<noteq> 0
      then (m\<lparr>m_cells := m_cells m @ m_cells other, m_bytes := m_bytes m + m_bytes other,
              m_size := m_size m + m_size other\<rparr>,
            other\<lparr>m_cells := [], m_bytes := 0, m_size := 0\<rparr>)
      else (m, other))"

definition add_sorted :: "mutable \<Rightarrow> cell \<Rightarrow> mutable" where
  "add_sorted m c = (m_add m c)\<lparr>m_cells := m_cells m @ [c]\<rparr>"

definition add_sorted_copy :: "mutable \<Rightarrow> cell \<Rightarrow> bool \<Rightarrow> mutable" where
  "add_sorted_copy m c no_value = add_sorted m (Cell_of_no_value c no_value)"

text \<open>Loading a block of cells; the fuel of the loop is the number of bytes of the block.\<close>

definition add_sorted_buffer :: "mutable \<Rightarrow> bytes \<Rightarrow> u64 \<Rightarrow> (mutable \<times> nat) res option" where
  "add_sorted_buffer m ptr len =
     map_option (\<lambda>r. res_bind r (\<lambda>cs.
       Inr (m\<lparr>m_cells := m_cells m @ cs, m_bytes := m_bytes m + len,
              m_size := m_size m + of_nat (length cs)\<rparr>, length cs)))
       (read_while (unat len) (cell_read True) \<lparr>mem = ptr, remain = len\<rparr>)"

definition takeout :: "mutable \<Rightarrow> nat \<Rightarrow> mutable \<times> cell option" where
  "takeout m pos =
     (if pos < length (m_cells m)
      then ((m_remove m (m_cells m ! pos))
              \<lparr>m_cells := take pos (m_cells m) @ drop (Suc pos) (m_cells m)\<rparr>,
            Some (m_cells m ! pos))
      else (m, None))"

section \<open>The place to start from\<close>

definition NARROW_SIZE :: nat where "NARROW_SIZE = 20"

text \<open>
  \<open>get(key, offset)\<close> jumps through the container with shrinking steps; it returns the
  position and the offset, which is a hint for the next call. Not returning is \<open>None\<close>.
\<close>

partial_function (option) get_search :: "mutable \<Rightarrow> key \<Rightarrow> nat \<Rightarrow> nat \<Rightarrow> (nat \<times> nat) res option" where
  "get_search m k offset step =
     (if \<not> offset < length (m_cells m) then Some (Inr (0, 0))
      else case key_compare (m_seq m) (c_key (m_cells m ! offset)) k of
        Inl e \<Rightarrow> Some (Inl e)
      | Inr cp \<Rightarrow>
          if cp = GT
          then (if step < unat (of_nat NARROW_SIZE + m_max_revs m) then Some (Inr (offset, offset))
                else let step = step div 2
                  in if offset + step \<ge> unat (m_size m)
                     then (let step = step div 2 in get_search m k (unat (m_size m) - step) step)
                     else get_search m k (offset + step) step)
          else let step = step div 2;
                   step = (if step \<le> NARROW_SIZE then step + unat (m_max_revs m) else step)
            in if offset < step then Some (Inr (0, 0)) else get_search m k (offset - step) step)"

definition m_get :: "mutable \<Rightarrow> key \<Rightarrow> nat \<Rightarrow> (nat \<times> nat) res option" where
  "m_get m k offset =
     (let size = unat (m_size m)
      in if key_empty k \<or> size \<le> NARROW_SIZE then Some (Inr (0, 0))
         else if 1 < offset \<and> offset < size
         then get_search m k offset
           (if size - offset \<le> NARROW_SIZE then NARROW_SIZE else size - offset)
         else get_search m k (size div 2) (size div 2))"

section \<open>Adding a cell\<close>

text \<open>A cell the iterator passes.\<close>

definition pass :: "cell \<Rightarrow> (mutable \<times> cell list \<times> nat) res \<Rightarrow> (mutable \<times> cell list \<times> nat) res" where
  "pass c r = res_bind r (\<lambda>(m, cs, off). Inr (m, c # cs, off))"

lemma pass_cong [fundef_cong]: "c = d \<Longrightarrow> r = s \<Longrightarrow> pass c r = pass d s"
  by simp

definition put_before :: "mutable \<Rightarrow> cell \<Rightarrow> cell list \<Rightarrow> nat \<Rightarrow> (mutable \<times> cell list \<times> nat) res" where
  "put_before m c cs off = Inr (m_add m c, c # cs, off)"

text \<open>\<open>add_sorted(e_cell)\<close> when the iterator reaches the end.\<close>

definition put_last :: "mutable \<Rightarrow> cell \<Rightarrow> nat \<Rightarrow> (mutable \<times> cell list \<times> nat) res" where
  "put_last m e off = put_before m (Cell_of_no_value e False) [] off"

fun add_remove :: "i64 \<Rightarrow> cell \<Rightarrow> mutable \<Rightarrow> cell list \<Rightarrow> nat \<Rightarrow> (mutable \<times> cell list \<times> nat) res" where
  "add_remove now e m [] off = put_last m e off"
| "add_remove now e m (c # cs) off =
     (if has_expired now c (m_ttl m) then add_remove now e (m_remove m c) cs off
      else res_bind (key_compare (m_seq m) (c_key c) (c_key e)) (\<lambda>cp.
        if cp = GT then pass c (add_remove now e m cs (Suc off))
        else if cp = LT then put_before m (Cell_of e) (c # cs) off
        else
          let chk_rev = (c_revision e \<noteq> TIMESTAMP_AUTO);
              rev_set = (c_revision c \<noteq> TIMESTAMP_AUTO)
          in if chk_rev \<and> (c_revision c = c_revision e \<or>
                (removal c \<and> (\<not> rev_set \<or> i64_less (c_revision e) (c_revision c)) \<and>
                 is_removing c (c_timestamp e)))
             then Inr (m, c # cs, off)
             else if (\<not> chk_rev \<or> (rev_set \<and> i64_less (c_revision c) (c_revision e))) \<and>
                is_removing e (c_timestamp c)
             then add_remove now e (m_remove m c) cs off
             else pass c (add_remove now e m cs off)))"

fun add_unfinalized :: "i64 \<Rightarrow> cell \<Rightarrow> mutable \<Rightarrow> cell list \<Rightarrow> nat \<Rightarrow> (mutable \<times> cell list \<times> nat) res" where
  "add_unfinalized now e m [] off = put_last m e off"
| "add_unfinalized now e m (c # cs) off =
     (if has_expired now c (m_ttl m) then add_unfinalized now e (m_remove m c) cs off
      else res_bind (key_compare (m_seq m) (c_key c) (c_key e)) (\<lambda>cp.
        if cp = GT then pass c (add_unfinalized now e m cs (Suc off))
        else if cp = LT then put_before m (Cell_of e) (c # cs) off
        else if c_revision e = TIMESTAMP_AUTO then pass c (add_unfinalized now e m cs off)
        else if c_revision c \<noteq> TIMESTAMP_AUTO \<and> c_revision c = c_revision e then Inr (m, c # cs, off)
        else if c_revision c \<noteq> TIMESTAMP_AUTO \<and> i64_less (c_revision c) (c_revision e)
        then pass c (add_unfinalized now e m cs off)
        else if c_revision c \<noteq> TIMESTAMP_AUTO \<and> removal c \<and> is_removing c (c_timestamp e)
        then Inr (m, c # cs, off)
        else put_before m (Cell_of e) (c # cs) off))"

fun add_plain_single :: "i64 \<Rightarrow> cell \<Rightarrow> mutable \<Rightarrow> cell list \<Rightarrow> nat \<Rightarrow> (mutable \<times> cell list \<times> nat) res" where
  "add_plain_single now e m [] off = put_last m e off"
| "add_plain_single now e m (c # cs) off =
     (if has_expired now c (m_ttl m) then add_plain_single now e (m_remove m c) cs off
      else res_bind (key_compare (m_seq m) (c_key c) (c_key e)) (\<lambda>cp.
        if cp = GT then pass c (add_plain_single now e m cs (Suc off))
        else if cp = LT then put_before m (Cell_of e) (c # cs) off
        else
          let chk_rev = (c_revision e \<noteq> TIMESTAMP_AUTO)
          in if removal c
             then (if chk_rev \<and> i64_less (c_revision e) (c_revision c) \<and> is_removing c (c_timestamp e)
                   then Inr (m, c # cs, off)
                   else pass c (add_plain_single now e m cs off))
             else if \<not> chk_rev \<or> i64_less (c_revision c) (c_revision e)
             then (let (m, c) = adjust_copy m c e in Inr (m, c # cs, off))
             else Inr (m, c # cs, off)))"

text \<open>
  \<open>_remove_overhead\<close> walks over the cells of one key and drops those versions that are more
  than \<open>max_revs\<close>. It leaves the iterator behind them: what it kept, and what follows.
\<close>

fun remove_overhead :: "key \<Rightarrow> u32 \<Rightarrow> mutable \<Rightarrow> cell list \<Rightarrow> mutable \<times> cell list \<times> cell list" where
  "remove_overhead k revs m [] = (m, [], [])"
| "remove_overhead k revs m (c # cs) =
     (if key_equal k (c_key c)
      then (if c_flag c = INSERT
            then (if m_max_revs m < revs + 1
                  then remove_overhead k (revs + 1) (m_remove m c) cs
                  else let (m, kept, rest) = remove_overhead k (revs + 1) m cs in (m, c # kept, rest))
            else let (m, kept, rest) = remove_overhead k revs m cs in (m, c # kept, rest))
      else (m, [], c # cs))"

fun add_plain_multi ::
  "i64 \<Rightarrow> cell \<Rightarrow> u32 \<Rightarrow> mutable \<Rightarrow> cell list \<Rightarrow> nat \<Rightarrow> (mutable \<times> cell list \<times> nat) res" where
  "add_plain_multi now e revs m [] off = put_last m e off"
| "add_plain_multi now e revs m (c # cs) off =
     (if has_expired now c (m_ttl m) then add_plain_multi now e revs (m_remove m c) cs off
      else res_bind (key_compare (m_seq m) (c_key c) (c_key e)) (\<lambda>cp.
        if cp = GT then pass c (add_plain_multi now e revs m cs (Suc off))
        else if cp = LT then put_before m (Cell_of e) (c # cs) off
        else
          let chk_ts = (c_timestamp e \<noteq> TIMESTAMP_AUTO);
              chk_rev = (c_revision e \<noteq> TIMESTAMP_AUTO);
              newer = (\<not> chk_rev \<or> i64_less (c_revision c) (c_revision e))
          in if chk_rev \<and> c_revision c = c_revision e then Inr (m, c # cs, off)
             else if removal c
             then (if chk_rev \<and> i64_less (c_revision e) (c_revision c) \<and> is_removing c (c_timestamp e)
                   then Inr (m, c # cs, off)
                   else pass c (add_plain_multi now e revs m cs off))
             else if chk_ts \<and> c_timestamp c = c_timestamp e
             then (if newer then (let (m, c) = adjust_copy m c e in Inr (m, c # cs, off))
                   else Inr (m, c # cs, off))
             else
               let revs = revs + 1
               in if (if is_time_order_desc e
                      then chk_ts \<and> i64_less (c_timestamp e) (c_timestamp c)
                      else \<not> chk_ts \<or> i64_less (c_timestamp c) (c_timestamp e))
                  then (if m_max_revs m = revs then Inr (m, c # cs, off)
                        else pass c (add_plain_multi now e revs m cs off))
                  else if m_max_revs m = revs
                  then (if newer then (let (m, c) = adjust_copy m c e in Inr (m, c # cs, off))
                        else Inr (m, c # cs, off))
                  else
                    let (m, kept, rest) = remove_overhead (c_key e) revs (m_add m (Cell_of e)) (c # cs)
                    in Inr (m, Cell_of e # kept @ rest, off)))"

text \<open>A counter cell is stored at the width of its column.\<close>

definition counter_cell :: "mutable \<Rightarrow> cell \<Rightarrow> cell res" where
  "counter_cell m e =
     (let no_value = (m_type m \<noteq> COUNTER_I64);
          c = Cell_of_no_value e no_value
      in if no_value
         then res_bind (get_counter_rev e) (\<lambda>(opr, v, eq_rev). Inr (set_counter c opr v (m_type m) eq_rev))
         else Inr c)"

text \<open>An increment folded into the cell that holds the count, with the later of the times.\<close>

definition counter_merge :: "column_type \<Rightarrow> cell \<Rightarrow> cell \<Rightarrow> byte \<Rightarrow> i64 \<Rightarrow> i64 \<Rightarrow> cell" where
  "counter_merge typ c e opr v eq_rev =
     (let c' = set_counter c opr v typ eq_rev;
          ts = (if c_timestamp e = TIMESTAMP_AUTO \<or> i64_less (c_timestamp c) (c_timestamp e)
                then c_timestamp e else c_timestamp c);
          rv = (if c_revision e = TIMESTAMP_AUTO \<or> i64_less (c_revision c) (c_revision e)
                then c_revision e else c_revision c)
      in if ts = TIMESTAMP_AUTO
         then (let c' = set_timestamp_auto c'
               in if rv \<noteq> TIMESTAMP_AUTO then set_revision c' rv else c')
         else if ts = rv then set_timestamp_with_rev_is_ts c' ts
         else set_revision (set_timestamp c' ts) rv)"

fun add_counter :: "i64 \<Rightarrow> cell \<Rightarrow> mutable \<Rightarrow> cell list \<Rightarrow> nat \<Rightarrow> (mutable \<times> cell list \<times> nat) res" where
  "add_counter now e m [] off = res_bind (counter_cell m e) (\<lambda>n. put_before m n [] off)"
| "add_counter now e m (c # cs) off =
     (if has_expired now c (m_ttl m) then add_counter now e (m_remove m c) cs off
      else res_bind (key_compare (m_seq m) (c_key c) (c_key e)) (\<lambda>cp.
        if cp = GT then pass c (add_counter now e m cs (Suc off))
        else if cp = LT then res_bind (counter_cell m e) (\<lambda>n. put_before m n (c # cs) off)
        else if removal c
        then (if c_revision e \<noteq> TIMESTAMP_AUTO \<and> i64_less (c_revision e) (c_revision c) \<and>
                is_removing c (c_timestamp e)
              then Inr (m, c # cs, off)
              else pass c (add_counter now e m cs off))
        else res_bind (get_counter_rev c) (\<lambda>(opr, v, eq_rev).
          let eq_rev = (if has_bit opr OP_EQUAL \<and> eq_rev = TIMESTAMP_NULL \<and>
                          c_timestamp c \<noteq> TIMESTAMP_AUTO then c_timestamp c else eq_rev)
          in if has_bit opr OP_EQUAL \<and> i64_less (c_timestamp e) eq_rev
             then Inr (m, c # cs, off)
             else res_bind (get_counter_op e) (\<lambda>(opr2, v2).
               if has_bit opr2 OP_EQUAL
               then (let (m, c) = adjust_copy m c e in Inr (m, c # cs, off))
               else let c' = counter_merge (m_type m) c e opr (v + v2) eq_rev
                 in Inr (m\<lparr>m_bytes := m_bytes m - of_nat (cell_encoded_length c False)
                        + of_nat (cell_encoded_length c' False)\<rparr>, c' # cs, off)))))"

text \<open>\<open>add_raw\<close> with an iterator, and with the place looked up from the hint.\<close>

definition add_at ::
  "i64 \<Rightarrow> cell \<Rightarrow> mutable \<Rightarrow> cell list \<Rightarrow> nat \<Rightarrow> bool \<Rightarrow> (mutable \<times> cell list \<times> nat) res" where
  "add_at now e m cs off finalized =
     (if removal e then add_remove now e m cs off
      else if is_counter (m_type m)
      then (if finalized then add_counter now e m cs off else add_unfinalized now e m cs off)
      else if m_max_revs m = 1 then add_plain_single now e m cs off
      else add_plain_multi now e 0 m cs off)"

definition add_raw_at :: "i64 \<Rightarrow> cell \<Rightarrow> mutable \<Rightarrow> nat \<Rightarrow> nat \<Rightarrow> bool \<Rightarrow> (mutable \<times> nat) res" where
  "add_raw_at now e m pos off finalized =
     res_bind (add_at now e m (drop pos (m_cells m)) off finalized)
       (\<lambda>(m', cs, off'). Inr (m'\<lparr>m_cells := take pos (m_cells m) @ cs\<rparr>, off'))"

definition add_raw :: "i64 \<Rightarrow> cell \<Rightarrow> mutable \<Rightarrow> nat \<Rightarrow> bool \<Rightarrow> (mutable \<times> nat) res option" where
  "add_raw now e m off finalized =
     map_option (\<lambda>r. res_bind r (\<lambda>(pos, off'). add_raw_at now e m pos off' finalized))
       (m_get m (c_key e) off)"

fun add_raw_list :: "i64 \<Rightarrow> bool \<Rightarrow> mutable \<Rightarrow> nat \<Rightarrow> cell list \<Rightarrow> mutable res option" where
  "add_raw_list now finalized m off [] = Some (Inr m)"
| "add_raw_list now finalized m off (e # es) =
     (case add_raw now e m off finalized of
        None \<Rightarrow> None
      | Some (Inl err) \<Rightarrow> Some (Inl err)
      | Some (Inr (m', off')) \<Rightarrow> add_raw_list now finalized m' off' es)"

section \<open>Changing the schema\<close>

lemma remove_overhead_rest:
  "remove_overhead k revs m cs = (m', kept, rest) \<Longrightarrow> length rest \<le> length cs"
  by (induction k revs m cs arbitrary: m' kept rest rule: remove_overhead.induct)
    (auto split: if_splits prod.splits intro: le_SucI)

function configure_loop :: "i64 \<Rightarrow> bool \<Rightarrow> mutable \<Rightarrow> cell list \<Rightarrow> mutable \<times> cell list" where
  "configure_loop now chk_revs m [] = (m, [])"
| "configure_loop now chk_revs m (c # cs) =
     (if has_expired now c (m_ttl m) then configure_loop now chk_revs (m_remove m c) cs
      else let (m, kept, rest) = (if chk_revs then remove_overhead (c_key c) 1 m cs else (m, [], cs));
               (m, cs') = configure_loop now chk_revs m rest
        in (m, c # kept @ cs'))"
  by pat_completeness auto
termination
  by (relation "measure (\<lambda>(now, chk, m, cs). length cs)")
    (auto split: if_splits dest!: remove_overhead_rest [OF sym])

definition configure :: "i64 \<Rightarrow> mutable \<Rightarrow> u32 \<Rightarrow> u64 \<Rightarrow> column_type \<Rightarrow> bool \<Rightarrow> mutable" where
  "configure now m revs ttl_ns typ finalized =
     (let chk_revs = (m_max_revs m \<noteq> revs \<and> (\<not> is_counter (m_type m) \<or> finalized));
          chk_ttl = (m_ttl m \<noteq> ttl_ns);
          m = m\<lparr>m_type := typ, m_ttl := ttl_ns, m_max_revs := revs\<rparr>
      in if m_size m = 0 \<or> (\<not> chk_revs \<and> \<not> chk_ttl) then m
         else let (m', cs) = configure_loop now chk_revs m (m_cells m) in m'\<lparr>m_cells := cs\<rparr>)"

section \<open>Writing\<close>

definition m_write :: "i64 \<Rightarrow> mutable \<Rightarrow> bytes" where
  "m_write now m = concat (map (\<lambda>c. if has_expired now c (m_ttl m) then [] else cell_write c False)
     (m_cells m))"

text \<open>The loop of \<open>write_and_free\<close>: what it writes, and how many cells it passes.\<close>

fun write_upto :: "i64 \<Rightarrow> u64 \<Rightarrow> nat \<Rightarrow> nat \<Rightarrow> cell list \<Rightarrow> bytes \<times> nat" where
  "write_upto now ttl threshold fill [] = ([], 0)"
| "write_upto now ttl threshold fill (c # cs) =
     (if threshold = 0 \<or> threshold > fill
      then (let out = (if has_expired now c ttl then [] else cell_write c False);
                (outs, n) = write_upto now ttl threshold (fill + length out) cs
            in (out @ outs, Suc n))
      else ([], 0))"

text \<open>\<open>_remove(it, number)\<close>: the counters go down cell by cell, then the range is taken out.\<close>

definition remove_range :: "mutable \<Rightarrow> nat \<Rightarrow> nat \<Rightarrow> mutable" where
  "remove_range m pos n =
     (fold (\<lambda>c m. m_remove m c) (take n (drop pos (m_cells m))) m)
       \<lparr>m_cells := take pos (m_cells m) @ drop (pos + n) (m_cells m)\<rparr>"

definition write_and_free :: "i64 \<Rightarrow> mutable \<Rightarrow> nat \<Rightarrow> nat \<Rightarrow> mutable \<times> bytes \<times> bool" where
  "write_and_free now m fill threshold =
     (if m_size m = 0 then (m, [], False)
      else let (out, n) = write_upto now (m_ttl m) threshold fill (m_cells m)
        in if n = 0 then (m, out, False)
           else if of_nat n = m_size m then (m_free m, out, False)
           else let m' = remove_range m 0 n in (m', out, m_cells m' \<noteq> []))"

section \<open>Reading the container\<close>

text \<open>
  \<open>get(pos, key)\<close>: a negative position is meant to count from the end; the key stays as it is
  when there is no such cell. \<open>get(key, comp, res)\<close>: the first key after a key, or from it on.
\<close>

definition get_key_at :: "mutable \<Rightarrow> 32 word \<Rightarrow> key \<Rightarrow> key" where
  "get_key_at m pos k =
     (if (pos <s 0 \<and> m_size m < scast (- pos)) \<or> m_size m \<le> scast pos then k
      else let at = unat (if pos <s 0 then m_size m + scast pos else scast pos)
        in if at < length (m_cells m) then key_copy (c_key (m_cells m ! at)) else k)"

fun first_key :: "KeySeq \<Rightarrow> key \<Rightarrow> bool \<Rightarrow> cell list \<Rightarrow> key option res" where
  "first_key s k ge [] = Inr None"
| "first_key s k ge (c # cs) =
     res_bind (key_compare s k (c_key c)) (\<lambda>chk.
       if chk = GT \<or> (ge \<and> chk = EQ) then Inr (Some (key_copy (c_key c)))
       else first_key s k ge cs)"

definition get_key_after :: "mutable \<Rightarrow> key \<Rightarrow> bool \<Rightarrow> key option res option" where
  "get_key_after m k ge =
     map_option (\<lambda>r. res_bind r (\<lambda>(pos, off). first_key (m_seq m) k ge (drop pos (m_cells m))))
       (m_get m k 0)"

definition has_one_key :: "mutable \<Rightarrow> bool" where
  "has_one_key m = key_equal (c_key (hd (m_cells m))) (c_key (last (m_cells m)))"

text \<open>\<open>check_sequence\<close>: no cell may be smaller than the one before it.\<close>

fun check_sequence :: "KeySeq \<Rightarrow> cell list \<Rightarrow> bool res" where
  "check_sequence s (c # d # cs) =
     res_bind (key_compare s (c_key d) (c_key c)) (\<lambda>cp.
       if cp = GT then Inr False else check_sequence s (d # cs))"
| "check_sequence s cs = Inr True"

text \<open>\<open>scan_after\<close>: the cells behind one key, up to another, added to a second container.\<close>

fun scan_after_loop ::
  "i64 \<Rightarrow> mutable \<Rightarrow> key \<Rightarrow> key \<Rightarrow> bool \<Rightarrow> cell list \<Rightarrow> mutable \<Rightarrow> (mutable \<times> bool) res option" where
  "scan_after_loop now m after to finalized [] dst = Some (Inr (dst, True))"
| "scan_after_loop now m after to finalized (c # cs) dst =
     (case (if key_empty to then Inr EQ else key_compare (m_seq m) to (c_key c)) of
        Inl err \<Rightarrow> Some (Inl err)
      | Inr t \<Rightarrow>
          if t = GT then Some (Inr (dst, False))
          else if has_expired now c (m_ttl m) then scan_after_loop now m after to finalized cs dst
          else case (if key_empty after then Inr GT else key_compare (m_seq m) after (c_key c)) of
              Inl err \<Rightarrow> Some (Inl err)
            | Inr a \<Rightarrow>
                if a \<noteq> GT then scan_after_loop now m after to finalized cs dst
                else case add_raw now c dst 0 finalized of
                    None \<Rightarrow> None
                  | Some (Inl err) \<Rightarrow> Some (Inl err)
                  | Some (Inr (dst', off)) \<Rightarrow> scan_after_loop now m after to finalized cs dst')"

definition scan_after ::
  "i64 \<Rightarrow> mutable \<Rightarrow> key \<Rightarrow> key \<Rightarrow> mutable \<Rightarrow> bool \<Rightarrow> (mutable \<times> bool) res option" where
  "scan_after now m after to dst finalized =
     (if m_size m = 0 then Some (Inr (dst, False))
      else case m_get m after 0 of
          None \<Rightarrow> None
        | Some (Inl err) \<Rightarrow> Some (Inl err)
        | Some (Inr (pos, off)) \<Rightarrow>
            scan_after_loop now m after to finalized (drop pos (m_cells m)) dst)"

section \<open>Splitting\<close>

text \<open>
  \<open>split\<close> of a container of a single vector: the cells from the first change of key on that is
  behind \<open>count\<close> cells or \<open>bytes\<close> bytes go to the other container. The loop returns how many
  cells stay and their bytes.
\<close>

fun split_point :: "u64 \<Rightarrow> u64 \<Rightarrow> u64 \<Rightarrow> u64 \<Rightarrow> cell list \<Rightarrow> (u64 \<times> u64) option" where
  "split_point cnt bytes n b (c # d # cs) =
     (let n = n + 1; b = b + of_nat (cell_encoded_length c False)
      in if (cnt \<le> n \<or> bytes \<le> b) \<and> \<not> key_equal (c_key c) (c_key d) then Some (n, b)
         else split_point cnt bytes n b (d # cs))"
| "split_point cnt bytes n b cs = None"

definition m_split :: "i64 \<Rightarrow> mutable \<Rightarrow> mutable \<Rightarrow> u64 \<Rightarrow> u64 \<Rightarrow> bool \<Rightarrow> mutable \<times> mutable \<times> bool" where
  "m_split now m other cnt bytes loaded =
     (if m_size m < 2 \<or> (m_size m < cnt \<and> m_bytes m < bytes) then (m, other, False)
      else let cnt = (if cnt = 0 then m_size m div 2 else cnt);
               bytes = (if bytes = 0 then m_bytes m div 2 else bytes)
        in case split_point cnt bytes 0 0 (m_cells m) of
             None \<Rightarrow> (m, other, False)
           | Some (n, b) \<Rightarrow>
               let gone = drop (unat n) (m_cells m);
                   moved = filter (\<lambda>c. loaded \<and> \<not> has_expired now c (m_ttl m)) gone
               in (m\<lparr>m_cells := take (unat n) (m_cells m), m_size := n, m_bytes := b\<rparr>,
                   fold (\<lambda>c m. add_sorted m c) moved other, True))"

section \<open>Finalizing counters\<close>

text \<open>
  \<open>_finalize_counter\<close> joins the cells of a key into one. \<open>agg\<close> is the first live cell of the
  key; the sum starts when a second one comes.
\<close>

record counter_agg =
  g_rev :: i64
  g_ts :: i64
  g_op :: byte
  g_eq_rev :: i64
  g_value :: i64

definition agg_start :: "cell \<Rightarrow> counter_agg res" where
  "agg_start a = res_bind (get_counter_rev a) (\<lambda>(opr, v, eq_rev).
     Inr \<lparr>g_rev = c_revision a, g_ts = c_timestamp a, g_op = opr,
          g_eq_rev = (if eq_rev = TIMESTAMP_NULL then c_timestamp a else eq_rev), g_value = v\<rparr>)"

definition agg_step :: "counter_agg \<Rightarrow> cell \<Rightarrow> counter_agg res" where
  "agg_step g c = res_bind (get_counter_rev c) (\<lambda>(opr, v, eq_rev).
     let eq_rev = (if eq_rev = TIMESTAMP_NULL then c_timestamp c else eq_rev)
     in if \<not> has_bit (g_op g) OP_EQUAL \<or> \<not> i64_less eq_rev (g_eq_rev g)
        then let g = (if has_bit opr OP_EQUAL then g\<lparr>g_op := opr, g_value := v, g_eq_rev := eq_rev\<rparr>
                      else g\<lparr>g_value := g_value g + v\<rparr>)
          in Inr (g\<lparr>g_ts := (if i64_less (g_ts g) (c_timestamp c) then c_timestamp c else g_ts g),
                   g_rev := c_revision c\<rparr>)
        else Inr g)"

definition agg_cell :: "column_type \<Rightarrow> cell \<Rightarrow> counter_agg option \<Rightarrow> cell" where
  "agg_cell typ a st =
     (case st of
        None \<Rightarrow> Cell_of_no_value a False
      | Some g \<Rightarrow>
          let c = Cell_of_no_value a True;
              c = (if g_ts g = g_rev g then set_timestamp_with_rev_is_ts c (g_ts g)
                   else set_revision (set_timestamp c (g_ts g)) (g_rev g))
          in set_counter c OP_EQUAL (g_value g) typ TIMESTAMP_NULL)"

fun finalize_loop ::
  "i64 \<Rightarrow> u64 \<Rightarrow> column_type \<Rightarrow> (cell \<times> counter_agg option) option \<Rightarrow> cell list \<Rightarrow> cell list res" where
  "finalize_loop now ttl typ None [] = Inr []"
| "finalize_loop now ttl typ None (c # cs) =
     (if has_expired now c ttl \<or> removal c then finalize_loop now ttl typ None cs
      else finalize_loop now ttl typ (Some (c, None)) cs)"
| "finalize_loop now ttl typ (Some (a, st)) [] = Inr [agg_cell typ a st]"
| "finalize_loop now ttl typ (Some (a, st)) (c # cs) =
     (if \<not> key_equal (c_key a) (c_key c)
      then res_bind (if has_expired now c ttl \<or> removal c then finalize_loop now ttl typ None cs
                     else finalize_loop now ttl typ (Some (c, None)) cs)
             (\<lambda>out. Inr (agg_cell typ a st # out))
      else if \<not> has_expired now c ttl \<and> \<not> removal c
      then res_bind (case st of None \<Rightarrow> agg_start a | Some g \<Rightarrow> Inr g) (\<lambda>g.
             res_bind (agg_step g c) (\<lambda>g. finalize_loop now ttl typ (Some (a, Some g)) cs))
      else finalize_loop now ttl typ (Some (a, st)) cs)"

definition finalize_raw :: "i64 \<Rightarrow> mutable \<Rightarrow> mutable res" where
  "finalize_raw now m =
     (if 1 < m_size m \<and> is_counter (m_type m)
      then res_bind (finalize_loop now (m_ttl m) (m_type m) None (m_cells m))
        (\<lambda>cs. Inr (fold (\<lambda>c m. add_sorted m c) cs (m_free m)))
      else Inr m)"

section \<open>Adding a block of cells\<close>

text \<open>
  A block is read and added cell by cell; what was added stays when a cell cannot be read.
  The fuel is a bound on the number of cells.
\<close>

fun add_raw_loop ::
  "nat \<Rightarrow> i64 \<Rightarrow> bool \<Rightarrow> mutable \<Rightarrow> nat \<Rightarrow> reader \<Rightarrow> (mutable \<times> err option) option" where
  "add_raw_loop fuel now finalized m off r =
     (if remain r = 0 then Some (m, None)
      else case fuel of
          0 \<Rightarrow> None
        | Suc f \<Rightarrow>
            (case cell_read False r of
               Inl err \<Rightarrow> Some (m, Some err)
             | Inr (c, r') \<Rightarrow>
                 (case add_raw now c m off finalized of
                    None \<Rightarrow> None
                  | Some (Inl err) \<Rightarrow> Some (m, Some err)
                  | Some (Inr (m', off')) \<Rightarrow> add_raw_loop f now finalized m' off' r')))"

declare add_raw_loop.simps [simp del]

definition add_raw_buffer :: "i64 \<Rightarrow> bool \<Rightarrow> mutable \<Rightarrow> bytes \<Rightarrow> (mutable \<times> err option) option" where
  "add_raw_buffer now finalized m buf =
     add_raw_loop (length buf) now finalized m 0 \<lparr>mem = buf, remain = of_nat (length buf)\<rparr>"

end
