(* ===== verification/Mutable_Edits.thy ===== *)
theory Mutable_Edits
  imports Cells_Mutable
begin

text \<open>
  What the operations of the cells container keep. Every way to add a cell is an \<open>edits\<close> of the
  container: at one place, where cells of the added key come and go and expired cells go, all
  else staying as it is. From that follow that the container stays sorted, that its cells stay
  well formed and that its counters stay exact. The search for a starting place returns and
  never skips the place of a key; with no version to keep it may run for ever.
\<close>

section \<open>What an addition does to the container\<close>

definition cle :: "KeySeq \<Rightarrow> cell \<Rightarrow> cell \<Rightarrow> bool" where
  "cle s c d \<longleftrightarrow> key_cmp s (c_key c) (c_key d) \<noteq> LT"

abbreviation same_cell_key :: "cell \<Rightarrow> cell \<Rightarrow> bool" where
  "same_cell_key c d \<equiv> same_key (c_key c) (c_key d)"

text \<open>A cell of a counter column: a removal, or a value as \<open>set_counter\<close> stores it.\<close>

definition counter_value :: "byte \<Rightarrow> i64 \<Rightarrow> i64 \<Rightarrow> bytes" where
  "counter_value opr v rv = vi64_out v @ opr # (if has_bit opr HAVE_REVISION then vi64_out rv else [])"

definition counter_ok :: "cell \<Rightarrow> bool" where
  "counter_ok c \<longleftrightarrow> (\<exists>opr v rv. c_value c = counter_value opr v rv \<and>
     unat (c_vlen c) = length (counter_value opr v rv) \<and>
     (has_bit opr HAVE_REVISION \<longrightarrow> has_bit opr OP_EQUAL \<and> rv \<noteq> TIMESTAMP_NULL))"

definition usable :: "cell \<Rightarrow> bool" where
  "usable c \<longleftrightarrow> removal c \<or> counter_ok c"

text \<open>
  The abstract view of every way to add the cell \<open>e\<close> from some place on: expired cells and cells
  of the key of \<open>e\<close> may go, cells that are not after \<open>e\<close> may stay, cells of the key of
  \<open>e\<close> may be put where no smaller cell follows, and what is left stays as it is. The counters
  are adjusted for each cell that comes or goes.
\<close>

inductive edits :: "i64 \<Rightarrow> cell \<Rightarrow> mutable \<Rightarrow> cell list \<Rightarrow> mutable \<Rightarrow> cell list \<Rightarrow> bool"
  for now :: i64 and e :: cell where
  edits_done: "edits now e m cs m cs"
| edits_drop: "has_expired now c (m_ttl m) \<or> same_cell_key c e \<Longrightarrow>
    edits now e (m_remove m c) cs m' cs' \<Longrightarrow> edits now e m (c # cs) m' cs'"
| edits_keep: "cle (m_seq m) c e \<Longrightarrow> edits now e m cs m' cs' \<Longrightarrow> edits now e m (c # cs) m' (c # cs')"
| edits_put: "cs = [] \<or> cle (m_seq m) e (hd cs) \<Longrightarrow> same_cell_key n e \<Longrightarrow> cell_ok n \<Longrightarrow>
    (usable e \<longrightarrow> usable n) \<Longrightarrow> edits now e (m_add m n) cs m' cs' \<Longrightarrow> edits now e m cs m' (n # cs')"

inductive_cases edits_NilE: "edits now e m [] m' cs'"

lemma m_conf [simp]:
  "m_seq (m_add m c) = m_seq m" "m_type (m_add m c) = m_type m" "m_max_revs (m_add m c) = m_max_revs m"
  "m_ttl (m_add m c) = m_ttl m" "m_cells (m_add m c) = m_cells m"
  "m_seq (m_remove m c) = m_seq m" "m_type (m_remove m c) = m_type m"
  "m_max_revs (m_remove m c) = m_max_revs m" "m_ttl (m_remove m c) = m_ttl m"
  "m_cells (m_remove m c) = m_cells m"
  by (simp_all add: m_add_def m_remove_def)

definition bytes_of :: "cell list \<Rightarrow> u64" where
  "bytes_of cs = of_nat (sum_list (map (\<lambda>c. cell_encoded_length c False) cs))"

lemma bytes_of_simps [simp, accounting]:
  "bytes_of [] = 0"
  "bytes_of (c # cs) = of_nat (cell_encoded_length c False) + bytes_of cs"
  "bytes_of (cs @ ds) = bytes_of cs + bytes_of ds"
  by (simp_all add: bytes_of_def)

lemma counters_step [accounting]:
  "m_bytes (m_add m c) = m_bytes m + of_nat (cell_encoded_length c False)"
  "m_size (m_add m c) = m_size m + 1"
  "m_bytes (m_remove m c) = m_bytes m - of_nat (cell_encoded_length c False)"
  "m_size (m_remove m c) = m_size m - 1"
  by (simp_all add: m_add_def m_remove_def)

lemma edits_counters:
  "edits now e m cs m' cs' \<Longrightarrow>
    m_bytes m' - bytes_of cs' = m_bytes m - bytes_of cs \<and>
    m_size m' - of_nat (length cs') = m_size m - of_nat (length cs)"
  by (induction rule: edits.induct) (auto simp: accounting algebra_simps)

lemma edits_conf:
  "edits now e m cs m' cs' \<Longrightarrow> m_seq m' = m_seq m \<and> m_type m' = m_type m \<and>
    m_max_revs m' = m_max_revs m \<and> m_ttl m' = m_ttl m \<and> m_cells m' = m_cells m"
  by (induction rule: edits.induct) auto

lemma edits_ok: "edits now e m cs m' cs' \<Longrightarrow> list_all cell_ok cs \<Longrightarrow> list_all cell_ok cs'"
  by (induction rule: edits.induct) auto

lemma edits_usable: "edits now e m cs m' cs' \<Longrightarrow> usable e \<Longrightarrow> list_all usable cs \<Longrightarrow> list_all usable cs'"
  by (induction rule: edits.induct) auto

lemma edits_elems: "edits now e m cs m' cs' \<Longrightarrow> c \<in> set cs' \<Longrightarrow> c \<in> set cs \<or> same_cell_key c e"
  by (induction rule: edits.induct) auto

text \<open>Live cells of other keys are all there, in their order.\<close>

definition others :: "i64 \<Rightarrow> u64 \<Rightarrow> cell \<Rightarrow> cell list \<Rightarrow> cell list" where
  "others now ttl e cs = filter (\<lambda>c. \<not> same_cell_key c e \<and> \<not> has_expired now c ttl) cs"

lemma edits_others: "edits now e m cs m' cs' \<Longrightarrow> others now (m_ttl m) e cs' = others now (m_ttl m) e cs"
  by (induction rule: edits.induct) (auto simp: others_def)

section \<open>Sortedness\<close>

definition cells_sorted :: "KeySeq \<Rightarrow> cell list \<Rightarrow> bool" where
  "cells_sorted s cs \<longleftrightarrow> sorted_wrt (cle s) cs"

lemma cle_trans:
  assumes "s \<noteq> UNKNOWN" "cell_ok a" "cell_ok b" "cell_ok c" "cle s a b" "cle s b c"
  shows "cle s a c"
  using comp_order.not_LT_trans [OF key_order [OF assms(1)]] assms(2-) by (auto simp: cle_def cell_ok_def)

lemma cle_same:
  assumes "s \<noteq> UNKNOWN" "cell_ok a" "cell_ok b" "same_cell_key a b"
  shows "cle s a b" and "cle s b a"
proof -
  have k: "key_rep (c_key a)" "key_rep (c_key b)" using assms(2,3) by (simp_all add: cell_ok_def)
  have "same_key (c_key b) (c_key a)" using assms(4) same_key_equivp by (metis equivp_symp)
  with k assms(4) have "key_cmp s (c_key a) (c_key b) = EQ" "key_cmp s (c_key b) (c_key a) = EQ"
    using comp_order.cmp_same [OF key_order [OF assms(1)]] by simp_all
  then show "cle s a b" and "cle s b a" by (simp_all add: cle_def)
qed

lemma edits_sorted:
  "edits now e m cs m' cs' \<Longrightarrow> m_seq m \<noteq> UNKNOWN \<Longrightarrow> cell_ok e \<Longrightarrow> list_all cell_ok cs \<Longrightarrow>
    cells_sorted (m_seq m) cs \<Longrightarrow> cells_sorted (m_seq m) cs'"
proof (induction rule: edits.induct)
  case (edits_keep m c cs m' cs')
  have "cle (m_seq m) c x" if "x \<in> set cs'" for x
  proof (cases "x \<in> set cs")
    case True
    then show ?thesis using edits_keep.prems by (simp add: cells_sorted_def)
  next
    case False
    then have "same_cell_key x e" using edits_elems [OF edits_keep.hyps(2) that] by blast
    moreover have "cell_ok x"
      using edits_ok [OF edits_keep.hyps(2)] edits_keep.prems that by (simp add: list_all_iff)
    ultimately have "cle (m_seq m) e x" using cle_same edits_keep.prems by blast
    moreover have "cell_ok c" using edits_keep.prems by simp
    ultimately show ?thesis
      using cle_trans [OF edits_keep.prems(1) _ edits_keep.prems(2) \<open>cell_ok x\<close>] edits_keep.hyps(1) by blast
  qed
  then show ?case using edits_keep by (simp add: cells_sorted_def)
next
  case (edits_put cs m n m' cs')
  have ok: "list_all cell_ok cs'" using edits_ok [OF edits_put.hyps(5)] edits_put.prems by blast
  have "cle (m_seq m) n x" if x: "x \<in> set cs'" for x
  proof (cases "x \<in> set cs")
    case True
    then obtain h t where cs: "cs = h # t" by (cases cs) auto
    then have "cle (m_seq m) e h" "cell_ok h" using edits_put by auto
    moreover have "cle (m_seq m) h x \<or> x = h"
      using True cs edits_put.prems by (auto simp: cells_sorted_def)
    moreover have "cell_ok x" using x ok by (simp add: list_all_iff)
    ultimately have "cle (m_seq m) e x" using cle_trans edits_put.prems by blast
    moreover have "cle (m_seq m) n e"
      using cle_same edits_put.hyps edits_put.prems by blast
    ultimately show ?thesis
      using cle_trans edits_put.hyps(3) edits_put.prems \<open>cell_ok x\<close> by blast
  next
    case False
    then have "same_cell_key x e" using edits_elems [OF edits_put.hyps(5) x] by blast
    then have "same_cell_key n x"
      using edits_put.hyps(2) by (metis equivp_symp equivp_transp same_key_equivp)
    then show ?thesis using cle_same edits_put x ok by (simp add: list_all_iff)
  qed
  then show ?case using edits_put by (simp add: cells_sorted_def)
qed (auto simp: cells_sorted_def)

section \<open>Every addition is an edit\<close>

lemma key_copy_same: "key_rep k \<Longrightarrow> key_rep (key_copy k) \<and> same_key (key_copy k) k"
  by (auto elim!: key_repE simp: key_copy_of same_key_of)

lemma Cell_of_ok:
  assumes "cell_ok e"
  shows "cell_ok (Cell_of e) \<and> same_cell_key (Cell_of e) e"
    and "cell_ok (Cell_of_no_value e nv) \<and> same_cell_key (Cell_of_no_value e nv) e"
    and "cell_ok (cell_copy c e nv) \<and> same_cell_key (cell_copy c e nv) e"
  using assms key_copy_same [of "c_key e"]
  by (auto simp: cell_ok_def Cell_of_def Cell_of_no_value_def cell_copy_def cell_value_def
      set_value_def cell_free_def Let_def)

lemma usable_copy:
  assumes "usable e" and "c_flag n = c_flag e" and "c_value n = take (unat (c_vlen e)) (c_value e)"
    and "c_vlen n = c_vlen e"
  shows "usable n"
proof (cases "removal e")
  case True
  then show ?thesis using assms(2) by (simp add: usable_def removal_def)
next
  case False
  then have "counter_ok e" using assms(1) by (simp add: usable_def)
  then have "c_value n = c_value e" using assms(3) by (auto simp: counter_ok_def)
  then show ?thesis using \<open>counter_ok e\<close> assms(4) by (simp add: usable_def counter_ok_def)
qed

lemma Cell_of_usable:
  assumes "usable e"
  shows "usable (Cell_of e) \<and> usable (Cell_of_no_value e False) \<and> usable (cell_copy c e False)"
  by (intro conjI usable_copy [OF assms])
    (auto simp: Cell_of_def Cell_of_no_value_def cell_copy_def cell_value_def set_value_def Let_def)

lemmas copies = Cell_of_ok Cell_of_usable

definition returns ::
  "i64 \<Rightarrow> cell \<Rightarrow> mutable \<Rightarrow> cell list \<Rightarrow> (mutable \<times> cell list \<times> nat) res \<Rightarrow> bool" where
  "returns now e m cs r \<longleftrightarrow> (\<exists>m' cs' off'. r = Inr (m', cs', off') \<and> edits now e m cs m' cs')"

lemma returns_pass: "cle (m_seq m) c e \<Longrightarrow> returns now e m cs r \<Longrightarrow> returns now e m (c # cs) (pass c r)"
  by (auto simp: returns_def pass_def intro: edits_keep)

lemma returns_drop:
  "has_expired now c (m_ttl m) \<or> same_cell_key c e \<Longrightarrow> returns now e (m_remove m c) cs r \<Longrightarrow>
    returns now e m (c # cs) r"
  by (auto simp: returns_def intro: edits_drop)

lemma returns_stay: "returns now e m cs (Inr (m, cs, off))"
  by (auto simp: returns_def intro: edits_done)

lemma returns_put:
  "cs = [] \<or> cle (m_seq m) e (hd cs) \<Longrightarrow> same_cell_key n e \<Longrightarrow> cell_ok n \<Longrightarrow>
    (usable e \<longrightarrow> usable n) \<Longrightarrow> returns now e m cs (put_before m n cs off)"
  by (auto simp: returns_def put_before_def intro: edits_put edits_done)

lemma returns_last: "cell_ok e \<Longrightarrow> returns now e m [] (put_last m e off)"
  unfolding put_last_def using copies by (intro returns_put) auto

lemma m_remove_add: "m_remove (m_add m n) c = m\<lparr>m_bytes := m_bytes m
    - of_nat (cell_encoded_length c False) + of_nat (cell_encoded_length n False)\<rparr>"
  by (simp add: m_remove_def m_add_def algebra_simps)

lemma returns_replace:
  assumes "m_seq m \<noteq> UNKNOWN" and "cell_ok e" "cell_ok c" "same_cell_key c e"
    and n: "cell_ok n" "same_cell_key n e" "usable e \<longrightarrow> usable n"
  shows "returns now e m (c # cs) (Inr (m\<lparr>m_bytes := m_bytes m - of_nat (cell_encoded_length c False)
    + of_nat (cell_encoded_length n False)\<rparr>, n # cs, off))"
proof -
  have "edits now e (m_add m n) (c # cs) (m_remove (m_add m n) c) cs"
    using assms(4) by (intro edits_drop edits_done) simp
  moreover have "cle (m_seq m) e c" using cle_same assms(1-4) by blast
  ultimately have "edits now e m (c # cs) (m_remove (m_add m n) c) (n # cs)"
    using n by (intro edits_put) auto
  then show ?thesis by (auto simp: returns_def m_remove_add)
qed

lemma returns_adjust:
  assumes "m_seq m \<noteq> UNKNOWN" and "cell_ok e" "cell_ok c" "same_cell_key c e"
  shows "returns now e m (c # cs) (let (m, c) = adjust_copy m c e in Inr (m, c # cs, off))"
  using returns_replace [OF assms] Cell_of_ok(3) [OF assms(2)] Cell_of_usable by (simp add: adjust_copy_def Let_def)

lemma compare_cells:
  assumes "s \<noteq> UNKNOWN" "cell_ok c" "cell_ok e"
  obtains (before) "key_compare s (c_key c) (c_key e) = Inr GT" "cle s c e"
    | (after) "key_compare s (c_key c) (c_key e) = Inr LT" "cle s e c"
    | (same) "key_compare s (c_key c) (c_key e) = Inr EQ" "same_cell_key c e" "cle s c e" "cle s e c"
proof -
  have k: "key_rep (c_key c)" "key_rep (c_key e)" using assms(2,3) by (simp_all add: cell_ok_def)
  note o = key_order [OF assms(1)] and cmp = key_compare_Inr [OF k, of s]
  consider "key_cmp s (c_key c) (c_key e) = EQ" | "key_cmp s (c_key c) (c_key e) = GT"
    | "key_cmp s (c_key c) (c_key e) = LT"
    using comp_order.cmp_three [OF o k] by blast
  then show ?thesis
  proof cases
    case 1
    then have "same_cell_key c e" using comp_order.cmp_same [OF o k] by simp
    then show ?thesis using same cmp 1 cle_same [OF assms] by simp
  next
    case 2
    then show ?thesis using before cmp by (simp add: cle_def)
  next
    case 3
    then have "key_cmp s (c_key e) (c_key c) = GT" using comp_order.cmp_swapD [OF o k] by blast
    then show ?thesis using after cmp 3 by (simp add: cle_def)
  qed
qed

lemmas returns_intros = returns_last returns_stay returns_pass returns_drop returns_put returns_adjust

lemma add_remove_returns:
  "m_seq m \<noteq> UNKNOWN \<Longrightarrow> cell_ok e \<Longrightarrow> list_all cell_ok cs \<Longrightarrow>
    returns now e m cs (add_remove now e m cs off)"
proof (induction cs arbitrary: m off)
  case (Cons c cs)
  have ok: "cell_ok c" "list_all cell_ok cs" using Cons.prems by auto
  note IH = Cons.IH [OF _ Cons.prems(2) ok(2)]
  show ?case
  proof (cases "has_expired now c (m_ttl m)")
    case True
    then show ?thesis using IH [of "m_remove m c"] Cons.prems(1) by (auto intro: returns_drop)
  next
    case False
    from Cons.prems(1) ok(1) Cons.prems(2) show ?thesis
    proof (cases rule: compare_cells)
      case before
      then show ?thesis using False IH Cons.prems(1) by (auto intro: returns_pass)
    next
      case after
      then show ?thesis using False Cell_of_ok(1) [OF Cons.prems(2)] Cell_of_usable by (auto intro: returns_put)
    next
      case same
      then show ?thesis
        using False IH [of m] IH [of "m_remove m c"] Cons.prems(1)
        by (auto simp: Let_def intro!: returns_stay intro: returns_pass returns_drop)
    qed
  qed
qed (auto intro: returns_last)

lemma add_unfinalized_returns:
  "m_seq m \<noteq> UNKNOWN \<Longrightarrow> cell_ok e \<Longrightarrow> list_all cell_ok cs \<Longrightarrow>
    returns now e m cs (add_unfinalized now e m cs off)"
proof (induction cs arbitrary: m off)
  case (Cons c cs)
  have ok: "cell_ok c" "list_all cell_ok cs" using Cons.prems by auto
  note IH = Cons.IH [OF _ Cons.prems(2) ok(2)]
  show ?case
  proof (cases "has_expired now c (m_ttl m)")
    case True
    then show ?thesis using IH [of "m_remove m c"] Cons.prems(1) by (auto intro: returns_drop)
  next
    case False
    from Cons.prems(1) ok(1) Cons.prems(2) show ?thesis
    proof (cases rule: compare_cells)
      case before
      then show ?thesis using False IH Cons.prems(1) by (auto intro: returns_pass)
    next
      case after
      then show ?thesis using False Cell_of_ok(1) [OF Cons.prems(2)] Cell_of_usable by (auto intro: returns_put)
    next
      case same
      then show ?thesis
        using False IH [of m] Cons.prems(1) Cell_of_ok(1) [OF Cons.prems(2)] Cell_of_usable
        by (auto intro!: returns_stay intro: returns_pass returns_put)
    qed
  qed
qed (auto intro: returns_last)

lemma add_plain_single_returns:
  "m_seq m \<noteq> UNKNOWN \<Longrightarrow> cell_ok e \<Longrightarrow> list_all cell_ok cs \<Longrightarrow>
    returns now e m cs (add_plain_single now e m cs off)"
proof (induction cs arbitrary: m off)
  case (Cons c cs)
  have ok: "cell_ok c" "list_all cell_ok cs" using Cons.prems by auto
  note IH = Cons.IH [OF _ Cons.prems(2) ok(2)]
  show ?case
  proof (cases "has_expired now c (m_ttl m)")
    case True
    then show ?thesis using IH [of "m_remove m c"] Cons.prems(1) by (auto intro: returns_drop)
  next
    case False
    from Cons.prems(1) ok(1) Cons.prems(2) show ?thesis
    proof (cases rule: compare_cells)
      case before
      then show ?thesis using False IH Cons.prems(1) by (auto intro: returns_pass)
    next
      case after
      then show ?thesis using False Cell_of_ok(1) [OF Cons.prems(2)] Cell_of_usable by (auto intro: returns_put)
    next
      case same
      note adj = returns_adjust [OF Cons.prems(1,2) ok(1) same(2), of now cs off]
      show ?thesis
        using False same IH [of m] Cons.prems(1) adj
        by (auto simp: Let_def intro!: returns_stay intro: returns_pass)
    qed
  qed
qed (auto intro: returns_last)

lemma key_equal_same_key: "key_rep a \<Longrightarrow> key_rep b \<Longrightarrow> key_equal a b \<longleftrightarrow> same_key a b"
  by (auto elim!: key_repE simp: key_equal_iff same_key_of)

lemma remove_overhead_edits:
  "remove_overhead k revs m cs = (m', kept, rest) \<Longrightarrow> m_seq m \<noteq> UNKNOWN \<Longrightarrow> cell_ok e \<Longrightarrow>
    k = c_key e \<Longrightarrow> list_all cell_ok cs \<Longrightarrow> edits now e m cs m' (kept @ rest)"
proof (induction k revs m cs arbitrary: m' kept rest rule: remove_overhead.induct)
  case (2 k revs m c cs)
  have ok: "cell_ok c" "list_all cell_ok cs" using "2.prems" by auto
  show ?case
  proof (cases "key_equal k (c_key c)")
    case True
    then have same: "same_cell_key c e"
      using "2.prems"(3,4) ok(1) key_equal_same_key same_key_equivp
      by (metis cell_ok_def equivp_symp)
    then have le: "cle (m_seq m) c e" using cle_same "2.prems" ok by blast
    show ?thesis
      using "2.prems" "2.IH" True same le ok
      by (auto split: if_splits prod.splits intro: edits_drop edits_keep)
  next
    case False
    then show ?thesis using "2.prems" by (auto intro: edits_done)
  qed
qed (auto intro: edits_done)

lemma add_plain_multi_returns:
  "m_seq m \<noteq> UNKNOWN \<Longrightarrow> cell_ok e \<Longrightarrow> list_all cell_ok cs \<Longrightarrow>
    returns now e m cs (add_plain_multi now e revs m cs off)"
proof (induction cs arbitrary: m off revs)
  case (Cons c cs)
  have ok: "cell_ok c" "list_all cell_ok cs" using Cons.prems by auto
  note IH = Cons.IH [OF _ Cons.prems(2) ok(2)]
  show ?case
  proof (cases "has_expired now c (m_ttl m)")
    case True
    then show ?thesis using IH [of "m_remove m c"] Cons.prems(1) by (auto intro: returns_drop)
  next
    case False
    from Cons.prems(1) ok(1) Cons.prems(2) show ?thesis
    proof (cases rule: compare_cells)
      case before
      then show ?thesis using False IH Cons.prems(1) by (auto intro: returns_pass)
    next
      case after
      then show ?thesis using False Cell_of_ok(1) [OF Cons.prems(2)] Cell_of_usable
        by (auto intro: returns_put)
    next
      case same
      note adj = returns_adjust [OF Cons.prems(1,2) ok(1) same(2), of now cs off]
      have over: "returns now e m (c # cs) (let (m, kept, rest) =
          remove_overhead (c_key e) (revs + 1) (m_add m (Cell_of e)) (c # cs)
        in Inr (m, Cell_of e # kept @ rest, off))"
      proof -
        obtain m' kept rest where
          r: "remove_overhead (c_key e) (revs + 1) (m_add m (Cell_of e)) (c # cs) = (m', kept, rest)"
          by (metis prod_cases3)
        have "edits now e (m_add m (Cell_of e)) (c # cs) m' (kept @ rest)"
          using remove_overhead_edits [OF r] Cons.prems by simp
        then have "edits now e m (c # cs) m' (Cell_of e # kept @ rest)"
          using same(4) Cell_of_ok(1) [OF Cons.prems(2)] Cell_of_usable by (intro edits_put) auto
        then show ?thesis by (simp add: r returns_def del: remove_overhead.simps)
      qed
      have p: "returns now e m (c # cs) (pass c (add_plain_multi now e rv m cs off))" for rv
        using IH [of m] Cons.prems(1) same(3) by (auto intro: returns_pass)
      show ?thesis
        using False same p adj over returns_stay [of now e m "c # cs" off]
        by (simp add: Let_def del: remove_overhead.simps split del: if_split cong: if_cong)
          (auto simp del: remove_overhead.simps split: if_split)
    qed
  qed
qed (auto intro: returns_last)

section \<open>Counters\<close>

lemma get_counter_value:
  assumes "c_value c = counter_value opr v rv"
  shows "get_counter_op c = Inr (opr, v)"
    and "get_counter_rev c = Inr (opr, v, if has_bit opr HAVE_REVISION then rv else TIMESTAMP_NULL)"
  using assms decode_vi64_ptr_out [of rv "[]"]
  by (simp_all add: get_counter_op_def get_counter_rev_def counter_value_def decode_vi64_ptr_out)

lemma or_has_bit: "b \<in> control_bits \<Longrightarrow> has_bit c b \<Longrightarrow> c OR b = c"
  by (auto elim!: control_bitsE simp: has_bit_exp bit_or_iff bit_exp_iff intro!: bit_word_eqI)

lemma set_counter_ok:
  assumes "has_bit opr HAVE_REVISION \<longrightarrow> has_bit opr OP_EQUAL \<and> rv \<noteq> TIMESTAMP_NULL"
  shows "counter_ok (set_counter c opr v typ rv)"
proof -
  let ?w = "counter_width typ v"
  let ?has = "has_bit opr OP_EQUAL \<and> rv \<noteq> TIMESTAMP_NULL"
  let ?o = "if ?has then opr OR HAVE_REVISION else opr"
  have h: "has_bit ?o HAVE_REVISION \<longleftrightarrow> ?has" and e: "has_bit ?o OP_EQUAL \<longleftrightarrow> has_bit opr OP_EQUAL"
    using assms by auto
  have val: "c_value (set_counter c opr v typ rv) = counter_value ?o ?w rv"
    using h by (simp add: set_counter_def counter_value_def Let_def)
  have len: "encoded_length_vi64 x \<le> 10" for x by (simp add: encoded_length_vi64_def)
  have "c_vlen (set_counter c opr v typ rv) = of_nat (length (counter_value ?o ?w rv))"
    using h by (simp add: set_counter_def counter_value_def Let_def)
  moreover have "length (counter_value ?o ?w rv) < 2 ^ 32"
    using len [of ?w] len [of rv] by (simp add: counter_value_def)
  ultimately have "unat (c_vlen (set_counter c opr v typ rv)) = length (counter_value ?o ?w rv)"
    by (simp only: unat_of_nat32)
  then show ?thesis
    unfolding counter_ok_def using val h e by blast
qed

lemma set_counter_fields [simp]:
  "c_key (set_counter c opr v typ rv) = c_key c" "c_flag (set_counter c opr v typ rv) = c_flag c"
  by (simp_all add: set_counter_def Let_def)

lemma counter_ok_cell: "key_rep (c_key c) \<Longrightarrow> counter_ok c \<Longrightarrow> cell_ok c"
  by (auto simp: cell_ok_def counter_ok_def)

lemma counter_cell_ok:
  assumes "cell_ok e" and "counter_ok e"
  obtains n where "counter_cell m e = Inr n" "cell_ok n" "same_cell_key n e" "usable n"
proof (cases "m_type m = COUNTER_I64")
  case True
  then have "counter_cell m e = Inr (Cell_of_no_value e False)" by (simp add: counter_cell_def)
  then show ?thesis using that Cell_of_ok(2) [OF assms(1)] Cell_of_usable assms(2)
    by (auto simp: usable_def)
next
  case False
  obtain opr v rv where e: "c_value e = counter_value opr v rv"
    and b: "has_bit opr HAVE_REVISION \<longrightarrow> has_bit opr OP_EQUAL \<and> rv \<noteq> TIMESTAMP_NULL"
    using assms(2) by (auto simp: counter_ok_def)
  let ?n = "set_counter (Cell_of_no_value e True) opr v (m_type m)
      (if has_bit opr HAVE_REVISION then rv else TIMESTAMP_NULL)"
  have "counter_cell m e = Inr ?n"
    using False by (simp add: counter_cell_def get_counter_value [OF e])
  moreover have "counter_ok ?n" using b by (intro set_counter_ok) auto
  ultimately show ?thesis
    using that [of ?n] Cell_of_ok(2) [OF assms(1), of True] counter_ok_cell [of ?n]
    by (auto simp: usable_def cell_ok_def)
qed

lemma counter_merge_fields [simp]:
  "c_key (counter_merge typ c e opr v rv) = c_key c"
  "c_flag (counter_merge typ c e opr v rv) = c_flag c"
  "c_value (counter_merge typ c e opr v rv) = c_value (set_counter c opr v typ rv)"
  "c_vlen (counter_merge typ c e opr v rv) = c_vlen (set_counter c opr v typ rv)"
  by (simp_all add: counter_merge_def Let_def set_timestamp_auto_def drop_timestamp_def
      set_revision_def set_timestamp_def set_timestamp_with_rev_is_ts_def)

lemma add_counter_returns:
  "m_seq m \<noteq> UNKNOWN \<Longrightarrow> cell_ok e \<Longrightarrow> counter_ok e \<Longrightarrow> list_all cell_ok cs \<Longrightarrow> list_all usable cs \<Longrightarrow>
    returns now e m cs (add_counter now e m cs off)"
proof (induction cs arbitrary: m off)
  case Nil
  obtain n where "counter_cell m e = Inr n" "cell_ok n" "same_cell_key n e" "usable n"
    using Nil.prems(2,3) by (rule counter_cell_ok)
  then show ?case by (auto intro: returns_put)
next
  case (Cons c cs)
  have ok: "cell_ok c" "list_all cell_ok cs" "usable c" "list_all usable cs" using Cons.prems by auto
  note IH = Cons.IH [OF _ Cons.prems(2,3) ok(2,4)]
  show ?case
  proof (cases "has_expired now c (m_ttl m)")
    case True
    then show ?thesis using IH [of "m_remove m c"] Cons.prems(1) by (auto intro: returns_drop)
  next
    case False
    from Cons.prems(1) ok(1) Cons.prems(2) show ?thesis
    proof (cases rule: compare_cells)
      case before
      then show ?thesis using False IH Cons.prems(1) by (auto intro: returns_pass)
    next
      case after
      obtain n where "counter_cell m e = Inr n" "cell_ok n" "same_cell_key n e" "usable n"
        using Cons.prems(2,3) by (rule counter_cell_ok)
      then show ?thesis using after False by (auto intro: returns_put)
    next
      case same
      show ?thesis
      proof (cases "removal c")
        case True
        then show ?thesis using same False IH [of m] Cons.prems(1)
          by (auto intro!: returns_stay intro: returns_pass)
      next
        case nrem: False
        then have "counter_ok c" using ok(3) by (simp add: usable_def)
        then obtain opr v rv where c: "c_value c = counter_value opr v rv"
          and b: "has_bit opr HAVE_REVISION \<longrightarrow> has_bit opr OP_EQUAL \<and> rv \<noteq> TIMESTAMP_NULL"
          by (auto simp: counter_ok_def)
        obtain opr2 v2 rv2 where e: "c_value e = counter_value opr2 v2 rv2"
          using Cons.prems(3) by (auto simp: counter_ok_def)
        have adj: "returns now e m (c # cs) (let (m, c) = adjust_copy m c e in Inr (m, c # cs, off))"
          using Cons.prems(1,2) ok(1) same(2) by (rule returns_adjust)
        have merge: "returns now e m (c # cs) (Inr (m\<lparr>m_bytes := m_bytes m
            - of_nat (cell_encoded_length c False) + of_nat (cell_encoded_length
                (counter_merge (m_type m) c e opr (v + v2) r) False)\<rparr>,
            counter_merge (m_type m) c e opr (v + v2) r # cs, off))"
          if "has_bit opr HAVE_REVISION \<longrightarrow> r = rv" for r
        proof -
          let ?n = "counter_merge (m_type m) c e opr (v + v2) r"
          have "counter_ok (set_counter c opr (v + v2) (m_type m) r)"
            using that b by (intro set_counter_ok) auto
          then have "counter_ok ?n" by (simp add: counter_ok_def)
          moreover have "cell_ok ?n"
            using \<open>counter_ok ?n\<close> ok(1) by (intro counter_ok_cell) (simp_all add: cell_ok_def)
          ultimately show ?thesis
            using returns_replace [OF Cons.prems(1,2) ok(1) same(2), of ?n] same(2)
            by (simp add: usable_def)
        qed
        let ?q = "if has_bit opr HAVE_REVISION then rv else TIMESTAMP_NULL"
        let ?r = "if has_bit opr OP_EQUAL \<and> ?q = TIMESTAMP_NULL \<and> c_timestamp c \<noteq> TIMESTAMP_AUTO
          then c_timestamp c else ?q"
        have m: "returns now e m (c # cs) (Inr (m\<lparr>m_bytes := m_bytes m
            - of_nat (cell_encoded_length c False) + of_nat (cell_encoded_length
                (counter_merge (m_type m) c e opr (v + v2) ?r) False)\<rparr>,
            counter_merge (m_type m) c e opr (v + v2) ?r # cs, off))"
          using b by (intro merge) auto
        have "add_counter now e m (c # cs) off =
          (if has_bit opr OP_EQUAL \<and> i64_less (c_timestamp e) ?r then Inr (m, c # cs, off)
           else if has_bit opr2 OP_EQUAL then (let (m, c) = adjust_copy m c e in Inr (m, c # cs, off))
           else Inr (m\<lparr>m_bytes := m_bytes m - of_nat (cell_encoded_length c False)
               + of_nat (cell_encoded_length (counter_merge (m_type m) c e opr (v + v2) ?r) False)\<rparr>,
             counter_merge (m_type m) c e opr (v + v2) ?r # cs, off))"
          using same(1) False nrem by (simp add: get_counter_value [OF c] get_counter_value(1) [OF e]
              Let_def split del: if_split cong: if_cong)
        then show ?thesis
          using adj m returns_stay [of now e m "c # cs" off] by (simp split del: if_split) (simp split: if_split)
      qed
    qed
  qed
qed

section \<open>The invariant of the container\<close>

definition container_ok :: "mutable \<Rightarrow> bool" where
  "container_ok m \<longleftrightarrow> m_seq m \<noteq> UNKNOWN \<and> list_all cell_ok (m_cells m) \<and>
     cells_sorted (m_seq m) (m_cells m) \<and>
     m_bytes m = bytes_of (m_cells m) \<and> m_size m = of_nat (length (m_cells m))"

text \<open>What a cell has to be for the container's type to accept it.\<close>

definition addable :: "mutable \<Rightarrow> cell \<Rightarrow> bool \<Rightarrow> bool" where
  "addable m e finalized \<longleftrightarrow> cell_ok e \<and>
     (is_counter (m_type m) \<and> finalized \<and> \<not> removal e \<longrightarrow>
        counter_ok e \<and> list_all usable (m_cells m))"

lemma edits_append:
  "list_all (\<lambda>c. cle (m_seq m) c e) pre \<Longrightarrow> edits now e m cs m' cs' \<Longrightarrow>
    edits now e m (pre @ cs) m' (pre @ cs')"
  by (induction pre) (auto intro: edits_keep)

lemma edits_container:
  assumes m: "container_ok m" and "cell_ok e" and ed: "edits now e m (m_cells m) m' cs'"
  shows "container_ok (m'\<lparr>m_cells := cs'\<rparr>)"
    and "others now (m_ttl m) e cs' = others now (m_ttl m) e (m_cells m)"
  using edits_counters [OF ed] edits_conf [OF ed] edits_ok [OF ed] edits_others [OF ed]
    edits_sorted [OF ed] assms by (auto simp: container_ok_def)

text \<open>A place to start from: every cell before it is smaller than the one to add.\<close>

definition place_ok :: "mutable \<Rightarrow> key \<Rightarrow> nat \<Rightarrow> bool" where
  "place_ok m k pos \<longleftrightarrow> (\<forall>c \<in> set (take pos (m_cells m)). key_cmp (m_seq m) (c_key c) k = GT)"

text \<open>
  The contract of an operation that adds a cell from a position on: on the containers it
  accepts it returns and edits.
\<close>

locale adder =
  fixes add :: "i64 \<Rightarrow> cell \<Rightarrow> mutable \<Rightarrow> cell list \<Rightarrow> nat \<Rightarrow> (mutable \<times> cell list \<times> nat) res"
    and accepts :: "mutable \<Rightarrow> cell \<Rightarrow> cell list \<Rightarrow> bool"
  assumes add_returns: "m_seq m \<noteq> UNKNOWN \<Longrightarrow> cell_ok e \<Longrightarrow> list_all cell_ok cs \<Longrightarrow> accepts m e cs \<Longrightarrow>
      returns now e m cs (add now e m cs off)"
    and accepts_drop: "accepts m e cs \<Longrightarrow> accepts m e (drop n cs)"
begin

lemma keeps:
  assumes m: "container_ok m" and e: "cell_ok e" "accepts m e (m_cells m)" and p: "place_ok m (c_key e) pos"
  shows "\<exists>m' cs off'. add now e m (drop pos (m_cells m)) off = Inr (m', cs, off') \<and>
    edits now e m (m_cells m) m' (take pos (m_cells m) @ cs) \<and>
    container_ok (m'\<lparr>m_cells := take pos (m_cells m) @ cs\<rparr>)"
proof -
  have seq: "m_seq m \<noteq> UNKNOWN" and ok: "list_all cell_ok (drop pos (m_cells m))"
    using m by (auto simp: container_ok_def list_all_iff dest: in_set_dropD)
  obtain m' cs off' where r: "add now e m (drop pos (m_cells m)) off = Inr (m', cs, off')"
    and ed: "edits now e m (drop pos (m_cells m)) m' cs"
    using add_returns [OF seq e(1) ok accepts_drop [OF e(2)], of now off] by (auto simp: returns_def)
  have "list_all (\<lambda>c. cle (m_seq m) c e) (take pos (m_cells m))"
    using p by (auto simp: place_ok_def list_all_iff cle_def)
  from edits_append [OF this ed] have "edits now e m (m_cells m) m' (take pos (m_cells m) @ cs)" by simp
  with r edits_container(1) [OF m e(1) this] show ?thesis by blast
qed

end

interpretation removing: adder add_remove "\<lambda>m e cs. True"
  by unfold_locales (auto intro: add_remove_returns)

interpretation unfinalized: adder add_unfinalized "\<lambda>m e cs. True"
  by unfold_locales (auto intro: add_unfinalized_returns)

interpretation plain_single: adder add_plain_single "\<lambda>m e cs. True"
  by unfold_locales (auto intro: add_plain_single_returns)

interpretation plain_multi: adder "\<lambda>now e. add_plain_multi now e revs" "\<lambda>m e cs. True" for revs
  by unfold_locales (auto intro: add_plain_multi_returns)

interpretation counting: adder add_counter "\<lambda>m e cs. counter_ok e \<and> list_all usable cs"
  by unfold_locales (auto simp: list_all_iff dest: in_set_dropD intro: add_counter_returns)

text \<open>\<open>add_raw\<close> chooses among them.\<close>

interpretation choosing: adder "\<lambda>now e m cs off. add_at now e m cs off finalized"
  "\<lambda>m e cs. is_counter (m_type m) \<and> finalized \<and> \<not> removal e \<longrightarrow> counter_ok e \<and> list_all usable cs"
  for finalized
proof unfold_locales
  fix m :: mutable and e cs now off
  assume "m_seq m \<noteq> UNKNOWN" "cell_ok e" "list_all cell_ok cs"
    and "is_counter (m_type m) \<and> finalized \<and> \<not> removal e \<longrightarrow> counter_ok e \<and> list_all usable cs"
  then show "returns now e m cs (add_at now e m cs off finalized)"
    using removing.add_returns unfinalized.add_returns plain_single.add_returns
      plain_multi.add_returns counting.add_returns by (simp add: add_at_def)
qed (auto simp: list_all_iff dest: in_set_dropD)

lemma add_raw_at_keeps:
  assumes m: "container_ok m" and e: "addable m e finalized" and p: "place_ok m (c_key e) pos"
  shows "\<exists>m' off'. add_raw_at now e m pos off finalized = Inr (m', off') \<and> container_ok m' \<and>
    edits now e m (m_cells m) (m'\<lparr>m_cells := m_cells m\<rparr>) (m_cells m')"
proof -
  obtain m' cs off' where r: "add_at now e m (drop pos (m_cells m)) off finalized = Inr (m', cs, off')"
    and ed: "edits now e m (m_cells m) m' (take pos (m_cells m) @ cs)"
    and ok: "container_ok (m'\<lparr>m_cells := take pos (m_cells m) @ cs\<rparr>)"
    using choosing.keeps [OF m, of e finalized pos now off] e p by (auto simp: addable_def)
  moreover have "m'\<lparr>m_cells := m_cells m\<rparr> = m'" using edits_conf [OF ed] by simp
  ultimately show ?thesis by (simp add: add_raw_at_def)
qed

section \<open>The search\<close>

lemma place_ok_0 [simp]: "place_ok m k 0"
  by (simp add: place_ok_def)

lemma place_ok_at:
  assumes m: "container_ok m" and k: "key_rep k" and pos: "pos < length (m_cells m)"
    and gt: "key_cmp (m_seq m) (c_key (m_cells m ! pos)) k = GT"
  shows "place_ok m k pos"
  unfolding place_ok_def
proof
  fix c assume "c \<in> set (take pos (m_cells m))"
  then obtain i where i: "i < pos" "c = m_cells m ! i"
    by (auto simp: in_set_conv_nth)
  let ?d = "m_cells m ! pos"
  note o = key_order [of "m_seq m"]
  have s: "m_seq m \<noteq> UNKNOWN" and "cell_ok c" "cell_ok ?d"
    using m i pos by (auto simp: container_ok_def list_all_length)
  then have kr: "key_rep (c_key c)" "key_rep (c_key ?d)" by (simp_all add: cell_ok_def)
  have "cle (m_seq m) c ?d"
    using m i pos sorted_wrt_nth_less by (fastforce simp: container_ok_def cells_sorted_def)
  then have "key_cmp (m_seq m) (c_key c) (c_key ?d) = GT \<or> same_key (c_key c) (c_key ?d)"
    using comp_order.not_LT_iff [OF o [OF s] kr] by (simp add: cle_def)
  then show "key_cmp (m_seq m) (c_key c) k = GT"
    using comp_order.cmp_trans [OF o [OF s] kr k] comp_order.cmp_same_left [OF o [OF s] kr k] gt
    by blast
qed

lemma get_search_returns:
  assumes m: "container_ok m" and k: "key_rep k"
    and revs: "m_max_revs m \<noteq> 0" "unat (m_max_revs m) + 20 < 2 ^ 32"
  shows "0 < step \<Longrightarrow> \<exists>pos off. get_search m k offset step = Some (Inr (pos, off)) \<and> place_ok m k pos"
proof (induction "(offset + step, step)" arbitrary: offset step
    rule: wf_induct_rule [OF wf_lex_prod [OF wf_less wf_less]])
  case 1
  note IH = "1.hyps" [rule_format]
  have r0: "0 < unat (m_max_revs m)" using revs(1) by (simp add: unat_gt_0)
  have narrow: "unat (of_nat NARROW_SIZE + m_max_revs m) = 20 + unat (m_max_revs m)"
    using revs(2) by (simp add: NARROW_SIZE_def unat_word_ariths(1))
  show ?case
  proof (cases "offset < length (m_cells m)")
    case False
    then show ?thesis by (subst get_search.simps) simp
  next
    case True
    let ?c = "m_cells m ! offset"
    have "cell_ok ?c" using m True by (simp add: container_ok_def list_all_length)
    then have cmp: "key_compare (m_seq m) (c_key ?c) k = Inr (key_cmp (m_seq m) (c_key ?c) k)"
      using k by (intro key_compare_Inr) (simp_all add: cell_ok_def)
    show ?thesis
    proof (cases "key_cmp (m_seq m) (c_key ?c) k = GT")
      case gt: True
      note at = place_ok_at [OF m k True gt]
      show ?thesis
      proof (cases "step < 20 + unat (m_max_revs m)")
        case True
        then show ?thesis
          using at gt cmp narrow \<open>offset < length (m_cells m)\<close> by (subst get_search.simps) simp
      next
        case False
        let ?s = "step div 2" and ?n = "unat (m_size m)"
        have big: "20 \<le> step" using False by simp
        have 1: "\<exists>pos off. get_search m k (?n - ?s div 2) (?s div 2) = Some (Inr (pos, off)) \<and> place_ok m k pos"
          if "?n \<le> offset + ?s"
          using that big by (intro IH) auto
        have 2: "\<exists>pos off. get_search m k (offset + ?s) ?s = Some (Inr (pos, off)) \<and> place_ok m k pos"
          using big by (intro IH) auto
        show ?thesis
          using 1 2 gt cmp narrow False \<open>offset < length (m_cells m)\<close>
          by (subst get_search.simps) (simp add: Let_def)
      qed
    next
      case ngt: False
      let ?s = "if step div 2 \<le> NARROW_SIZE then step div 2 + unat (m_max_revs m) else step div 2"
      have "\<exists>pos off. get_search m k (offset - ?s) ?s = Some (Inr (pos, off)) \<and> place_ok m k pos"
        if "?s \<le> offset"
        using that r0 "1.prems" by (intro IH) (auto simp: NARROW_SIZE_def)
      then show ?thesis
        using ngt cmp True by (subst get_search.simps) (simp add: Let_def)
    qed
  qed
qed

lemma m_get_returns:
  assumes m: "container_ok m" and k: "key_rep k"
    and revs: "m_max_revs m \<noteq> 0" "unat (m_max_revs m) + 20 < 2 ^ 32"
  shows "\<exists>pos off'. m_get m k off = Some (Inr (pos, off')) \<and> place_ok m k pos"
proof -
  note s = get_search_returns [OF m k revs]
  show ?thesis
    using s [of "unat (m_size m) div 2" "unat (m_size m) div 2"] s [of NARROW_SIZE off]
      s [of "unat (m_size m) - off" off]
    by (auto simp: m_get_def Let_def NARROW_SIZE_def)
qed

text \<open>With no version to keep the step can become zero, and the search stays where it is.\<close>

definition never_before :: "mutable \<Rightarrow> key \<Rightarrow> bool" where
  "never_before m k \<longleftrightarrow> list_all (\<lambda>c. \<exists>cp. key_compare (m_seq m) (c_key c) k = Inr cp \<and> cp \<noteq> GT) (m_cells m)"

lemma get_search_stuck_aux:
  assumes "get_search m k offset step = Some y"
  shows "m_max_revs m = 0 \<longrightarrow> never_before m k \<longrightarrow> step \<le> offset \<longrightarrow> \<not> offset < length (m_cells m)"
proof (rule get_search.raw_induct [OF _ assms], intro impI notI)
  fix search m k offset step y
  assume IH: "\<And>m k offset step y. search m k offset step = Some y \<Longrightarrow>
      m_max_revs m = 0 \<longrightarrow> never_before m k \<longrightarrow> step \<le> offset \<longrightarrow> \<not> offset < length (m_cells m)"
    and body: "(if \<not> offset < length (m_cells m) then Some (Inr (0, 0))
      else case key_compare (m_seq m) (c_key (m_cells m ! offset)) k of
        Inl e \<Rightarrow> Some (Inl e)
      | Inr cp \<Rightarrow>
          if cp = GT
          then (if step < unat (of_nat NARROW_SIZE + m_max_revs m) then Some (Inr (offset, offset))
                else let step = step div 2
                  in if offset + step \<ge> unat (m_size m)
                     then (let step = step div 2 in search m k (unat (m_size m) - step) step)
                     else search m k (offset + step) step)
          else let step = step div 2;
                   step = (if step \<le> NARROW_SIZE then step + unat (m_max_revs m) else step)
            in if offset < step then Some (Inr (0, 0)) else search m k (offset - step) step) = Some y"
    and z: "m_max_revs m = 0" "never_before m k" "step \<le> offset" "offset < length (m_cells m)"
  obtain cp where cp: "key_compare (m_seq m) (c_key (m_cells m ! offset)) k = Inr cp" "cp \<noteq> GT"
    using z(2,4) unfolding never_before_def list_all_length by blast
  have "search m k (offset - step div 2) (step div 2) = Some y"
    using body z(3,4) cp by (auto simp add: Let_def z(1) split: if_splits)
  from IH [OF this] show False using z by auto
qed

lemma get_search_stuck:
  assumes "m_max_revs m = 0" and "never_before m k" "step \<le> offset" "offset < length (m_cells m)"
  shows "get_search m k offset step = None"
  using get_search_stuck_aux [of m k offset step] assms by (cases "get_search m k offset step") auto

end
