(* ===== verification/Mutable_Container.thy ===== *)
theory Mutable_Container
  imports Mutable_Edits
begin

text \<open>
  The operations of the cells container as its users see them (\<open>add_raw\<close> with one cell, a
  list or an encoded block, \<open>get\<close>, \<open>write\<close>, \<open>scan_after\<close>, \<open>write_and_free\<close>, \<open>split\<close>), each with
  what it does to the cells and to the invariant of the container.
\<close>

section \<open>The container after an addition\<close>

definition same_setup :: "mutable \<Rightarrow> mutable \<Rightarrow> bool" where
  "same_setup m m' \<longleftrightarrow> m_seq m' = m_seq m \<and> m_type m' = m_type m \<and>
     m_max_revs m' = m_max_revs m \<and> m_ttl m' = m_ttl m"

definition searchable :: "mutable \<Rightarrow> bool" where
  "searchable m \<longleftrightarrow> m_max_revs m \<noteq> 0 \<and> unat (m_max_revs m) + 20 < 2 ^ 32"

lemma add_raw_edits:
  assumes m: "container_ok m" and e: "addable m e finalized" and revs: "searchable m"
  shows "\<exists>m' off'. add_raw now e m off finalized = Some (Inr (m', off')) \<and> container_ok m' \<and>
    edits now e m (m_cells m) (m'\<lparr>m_cells := m_cells m\<rparr>) (m_cells m')"
proof -
  have k: "key_rep (c_key e)" using e by (simp add: addable_def cell_ok_def)
  obtain pos off1 where g: "m_get m (c_key e) off = Some (Inr (pos, off1))" and p: "place_ok m (c_key e) pos"
    using m_get_returns [OF m k, of off] revs by (auto simp: searchable_def)
  from add_raw_at_keeps [OF m e p, of now off1] g show ?thesis
    by (auto simp: add_raw_def)
qed

lemma edits_setup: "edits now e m (m_cells m) (m'\<lparr>m_cells := m_cells m\<rparr>) cs' \<Longrightarrow> same_setup m m'"
  by (drule edits_conf) (simp add: same_setup_def)

text \<open>C5: Adding a cell of any kind to a sorted container returns, whatever the search hint. The
  container stays sorted and well formed, its byte and cell counters stay exact, its setup is
  unchanged, and the live cells of all other keys are there as before; a cell that is new has
  the key of the added one.\<close>

theorem add_raw_keeps_container:
  assumes "container_ok m" and "addable m e finalized" and "searchable m"
  shows "\<exists>m' off'. add_raw now e m off finalized = Some (Inr (m', off')) \<and>
    container_ok m' \<and> same_setup m m' \<and>
    others now (m_ttl m) e (m_cells m') = others now (m_ttl m) e (m_cells m) \<and>
    (\<forall>c \<in> set (m_cells m') - set (m_cells m). same_cell_key c e)"
proof -
  obtain m' off' where r: "add_raw now e m off finalized = Some (Inr (m', off'))" and ok: "container_ok m'"
    and ed: "edits now e m (m_cells m) (m'\<lparr>m_cells := m_cells m\<rparr>) (m_cells m')"
    using add_raw_edits [OF assms, of now off] by blast
  have "\<forall>c \<in> set (m_cells m') - set (m_cells m). same_cell_key c e"
    using edits_elems [OF ed] by blast
  with r ok edits_setup [OF ed] edits_others [OF ed] show ?thesis by blast
qed

text \<open>A cell with a value and a time, and an empty container, for the examples.\<close>

definition plain_cell :: "bytes list \<Rightarrow> bytes \<Rightarrow> i64 \<Rightarrow> cell" where
  "plain_cell fs v ts = set_timestamp_with_rev_is_ts
     (set_value (Cell_new\<lparr>c_key := key_of True fs, c_flag := INSERT\<rparr>) v (of_nat (length v)) True) ts"

lemma plain_cell_ok:
  "fits fs \<Longrightarrow> length v < 2 ^ 32 \<Longrightarrow> cell_ok (plain_cell fs v ts) \<and> \<not> removal (plain_cell fs v ts)"
  by (simp add: plain_cell_def cell_ok_def set_timestamp_with_rev_is_ts_def set_timestamp_def set_value_def
      Cell_new_def removal_def cell_value_def unat_of_nat take_bit_nat_eq_self Let_def)

lemma Mutable_new_ok: "s \<noteq> UNKNOWN \<Longrightarrow> container_ok (Mutable_new s revs ttl_ns typ)"
  by (simp add: container_ok_def Mutable_new_def cells_sorted_def)

theorem add_raw_keeps_container_witness:
  "\<exists>m' off'. add_raw 0 (plain_cell [[1], []] [7] 5) (Mutable_new LEXIC 3 0 Col_PLAIN) 4 True = Some (Inr (m', off')) \<and>
    container_ok m'"
proof -
  have "fits [[1], []]" by (simp add: fits_def encoded_length_vi24_def max_vb_defs)
  from plain_cell_ok [OF this, of "[7]" 5]
  have "addable (Mutable_new LEXIC 3 0 Col_PLAIN) (plain_cell [[1], []] [7] 5) True"
    by (simp add: addable_def Mutable_new_def)
  moreover have "searchable (Mutable_new LEXIC 3 0 Col_PLAIN)"
    by (simp add: searchable_def Mutable_new_def)
  moreover have "container_ok (Mutable_new LEXIC 3 0 Col_PLAIN)" by (simp add: Mutable_new_ok)
  ultimately show ?thesis using add_raw_keeps_container by blast
qed

section \<open>Many additions\<close>

definition countable :: "mutable \<Rightarrow> bool \<Rightarrow> cell list \<Rightarrow> bool" where
  "countable m finalized es \<longleftrightarrow> (is_counter (m_type m) \<and> finalized \<longrightarrow>
     list_all usable (m_cells m) \<and> list_all usable es)"

lemma add_raw_list_edits:
  assumes "container_ok m" and "searchable m" and "list_all cell_ok es" and "countable m finalized es"
  shows "\<exists>m'. add_raw_list now finalized m off es = Some (Inr m') \<and> container_ok m' \<and> same_setup m m' \<and>
    filter (\<lambda>c. (\<forall>e \<in> set es. \<not> same_cell_key c e) \<and> \<not> has_expired now c (m_ttl m)) (m_cells m')
    = filter (\<lambda>c. (\<forall>e \<in> set es. \<not> same_cell_key c e) \<and> \<not> has_expired now c (m_ttl m)) (m_cells m)"
  using assms
proof (induction es arbitrary: m off)
  case Nil
  then show ?case by (simp add: same_setup_def)
next
  case (Cons e es)
  have "addable m e finalized"
    using Cons.prems by (auto simp: addable_def countable_def usable_def)
  with Cons.prems obtain m1 off1 where
    r: "add_raw now e m off finalized = Some (Inr (m1, off1))" and ok: "container_ok m1"
    and ed: "edits now e m (m_cells m) (m1\<lparr>m_cells := m_cells m\<rparr>) (m_cells m1)"
    using add_raw_edits [of m e finalized now off] by blast
  have set1: "same_setup m m1" using ed by (rule edits_setup)
  have "countable m1 finalized es"
    using Cons.prems(4) edits_usable [OF ed] set1 by (auto simp: countable_def same_setup_def)
  then obtain m' where m': "add_raw_list now finalized m1 off1 es = Some (Inr m')" "container_ok m'" "same_setup m1 m'"
    "filter (\<lambda>c. (\<forall>e \<in> set es. \<not> same_cell_key c e) \<and> \<not> has_expired now c (m_ttl m1)) (m_cells m')
     = filter (\<lambda>c. (\<forall>e \<in> set es. \<not> same_cell_key c e) \<and> \<not> has_expired now c (m_ttl m1)) (m_cells m1)"
    using Cons.IH [of m1 off1] ok Cons.prems set1 by (auto simp: searchable_def same_setup_def)
  let ?P = "\<lambda>c. \<forall>e \<in> set es. \<not> same_cell_key c e"
  have split: "filter (\<lambda>c. (\<forall>e \<in> set (e # es). \<not> same_cell_key c e) \<and> \<not> has_expired now c (m_ttl m)) cs
      = filter (\<lambda>c. \<not> same_cell_key c e) (filter (\<lambda>c. ?P c \<and> \<not> has_expired now c (m_ttl m)) cs)" for cs
    by (auto intro: filter_cong)
  have swap: "filter (\<lambda>c. \<not> same_cell_key c e) (filter (\<lambda>c. ?P c \<and> \<not> has_expired now c (m_ttl m)) cs)
      = filter ?P (others now (m_ttl m) e cs)" for cs
    by (auto simp: others_def intro: filter_cong)
  have "m_ttl m1 = m_ttl m" using set1 by (simp add: same_setup_def)
  then have "filter (\<lambda>c. \<not> same_cell_key c e) (filter (\<lambda>c. ?P c \<and> \<not> has_expired now c (m_ttl m)) (m_cells m'))
      = filter ?P (others now (m_ttl m) e (m_cells m1))"
    using m'(4) by (simp only: swap)
  also have "\<dots> = filter ?P (others now (m_ttl m) e (m_cells m))" using edits_others [OF ed] by simp
  finally have "filter (\<lambda>c. (\<forall>e \<in> set (e # es). \<not> same_cell_key c e) \<and> \<not> has_expired now c (m_ttl m)) (m_cells m')
      = filter (\<lambda>c. (\<forall>e \<in> set (e # es). \<not> same_cell_key c e) \<and> \<not> has_expired now c (m_ttl m)) (m_cells m)"
    unfolding split by (simp only: swap)
  then show ?case using r m' set1 by (auto simp: same_setup_def)
qed

text \<open>Adding any list of cells, one after the other with the hint of the previous search,
  ends with a sorted well-formed container with exact counters, in which the live cells of keys
  that were not added are untouched.\<close>

lemma add_raw_list_keeps_container:
  assumes "container_ok m" and "searchable m" and "list_all cell_ok es" and "countable m finalized es"
  shows "\<exists>m'. add_raw_list now finalized m off es = Some (Inr m') \<and> container_ok m' \<and> same_setup m m' \<and>
    filter (\<lambda>c. (\<forall>e \<in> set es. \<not> same_cell_key c e) \<and> \<not> has_expired now c (m_ttl m)) (m_cells m')
    = filter (\<lambda>c. (\<forall>e \<in> set es. \<not> same_cell_key c e) \<and> \<not> has_expired now c (m_ttl m)) (m_cells m)"
  using assms by (rule add_raw_list_edits)

lemma add_raw_list_keeps_container_witness:
  "\<exists>m'. add_raw_list 0 True (Mutable_new VOLUME 2 0 Col_PLAIN) 0 [plain_cell [[1]] [7] 5, plain_cell [] [] 4]
     = Some (Inr m') \<and> container_ok m'"
proof -
  let ?m = "Mutable_new VOLUME 2 0 Col_PLAIN" and ?es = "[plain_cell [[1]] [7] 5, plain_cell [] [] 4]"
  have f: "fits [[1] :: bytes]" "fits []" by (simp_all add: fits_def encoded_length_vi24_def max_vb_defs)
  have "list_all cell_ok ?es" using plain_cell_ok [OF f(1), of "[7]" 5] plain_cell_ok [OF f(2), of "[]" 4] by simp
  moreover have "searchable ?m" "countable ?m True ?es"
    by (simp_all add: searchable_def countable_def Mutable_new_def)
  moreover have "container_ok ?m" by (simp add: Mutable_new_ok)
  ultimately show ?thesis using add_raw_list_keeps_container by blast
qed

section \<open>Blocks of cells\<close>

lemma view_key [simp]: "c_key (cell_view owner nv c) = (c_key c)\<lparr>key_own := owner\<rparr>"
  by (simp add: cell_view_def Let_def)

lemma same_key_own [simp]: "same_key (k\<lparr>key_own := own\<rparr>) k"
  by (simp add: same_key_def key_bytes_def)

lemma key_rep_own:
  assumes "key_rep k"
  shows "key_rep (k\<lparr>key_own := own\<rparr>)"
proof -
  obtain o1 fs where "fits fs" "k = key_of o1 fs" using assms by (rule key_repE)
  moreover have "(key_of o1 fs)\<lparr>key_own := own\<rparr> = key_of own fs" by (simp add: key_of_def)
  ultimately show ?thesis by (auto simp: key_rep_def)
qed

lemma view_ok: "cell_ok c \<Longrightarrow> cell_ok (cell_view owner nv c)"
  by (auto simp: cell_ok_def key_rep_own) (auto simp: cell_view_def Let_def)

lemma cell_length_no_value: "cell_encoded_length c (drops_value False c) = cell_encoded_length c False"
  by (auto simp: cell_encoded_length_def drops_value_def Let_def encoded_length_vi32_def max_vb_defs)

lemma view_length: "cell_encoded_length (cell_view owner False c) False = cell_encoded_length c False"
proof -
  have "key_encoded_length ((c_key c)\<lparr>key_own := owner\<rparr>) = key_encoded_length (c_key c)"
    by (simp add: key_encoded_length_def)
  then show ?thesis
    by (auto simp: cell_encoded_length_def cell_view_def drops_value_def Let_def encoded_length_vi32_def max_vb_defs)
qed

text \<open>The bytes of a list of cells as the container writes them.\<close>

abbreviation cells_out :: "cell list \<Rightarrow> bytes" where
  "cells_out cs \<equiv> concat (map (\<lambda>c. cell_write c False) cs)"

lemma length_cells_out:
  "list_all cell_ok cs \<Longrightarrow> length (cells_out cs) = sum_list (map (\<lambda>c. cell_encoded_length c False) cs)"
  by (induction cs) (simp_all add: cell_length cell_length_no_value)

lemma length_le_cells_out: "list_all cell_ok cs \<Longrightarrow> length cs \<le> length (cells_out cs)"
proof (induction cs)
  case (Cons c cs)
  then have "0 < length (cell_write c False)"
    using cell_codec.len_pos [of c False] cell_length [of c False] by auto
  moreover have "length cs \<le> length (cells_out cs)" using Cons by simp
  ultimately show ?case by (simp del: length_greater_0_conv)
qed simp

lemma live_out: "concat (map (\<lambda>c. if P c then [] else cell_write c False) cs) = cells_out (filter (\<lambda>c. \<not> P c) cs)"
  by (induction cs) simp_all

lemma m_write_out: "m_write now m = cells_out (filter (\<lambda>c. \<not> has_expired now c (m_ttl m)) (m_cells m))"
  unfolding m_write_def by (rule live_out)


lemma cells_sorted_view:
  "list_all cell_ok cs \<Longrightarrow> s \<noteq> UNKNOWN \<Longrightarrow> cells_sorted s cs \<Longrightarrow> cells_sorted s (map (cell_view owner nv) cs)"
proof (induction cs)
  case (Cons c cs)
  have "cle s (cell_view owner nv c) (cell_view owner nv d)" if d: "d \<in> set cs" for d
  proof -
    have ok: "cell_ok c" "cell_ok d" and le: "cle s c d"
      using Cons.prems d by (auto simp: list_all_iff cells_sorted_def)
    have "cle s (cell_view owner nv c) c" "cle s d (cell_view owner nv d)"
      using cle_same [OF Cons.prems(2)] view_ok ok by auto
    with le show ?thesis using cle_trans [OF Cons.prems(2)] view_ok ok by blast
  qed
  then show ?case using Cons by (auto simp: cells_sorted_def)
qed (simp add: cells_sorted_def)

lemma cells_sorted_filter: "cells_sorted s cs \<Longrightarrow> cells_sorted s (filter P cs)"
  by (simp add: cells_sorted_def sorted_wrt_filter)

text \<open>C30: What a container writes, loaded into a new container of its key sequence, gives back its
  live cells in order, as a reader sees them; the new container is sorted and its counters exact.\<close>

theorem container_write_reload:
  assumes m: "container_ok m"
    and "live = filter (\<lambda>c. \<not> has_expired now c (m_ttl m)) (m_cells m)"
    and "out = m_write now m" and "length out < 2 ^ 64"
  shows "\<exists>m2. add_sorted_buffer (Mutable_new (m_seq m) revs ttl_ns typ) out (of_nat (length out))
        = Some (Inr (m2, length live)) \<and>
      m_cells m2 = map (cell_view True False) live \<and> container_ok m2"
proof -
  let ?v = "cell_view True False"
  have out: "out = cells_out live" using assms by (simp add: m_write_out)
  have ok: "list_all cell_ok live" and sorted: "cells_sorted (m_seq m) live"
    using m assms(2) by (auto simp: container_ok_def list_all_iff cells_sorted_filter)
  have "read_while (length out) (cell_read True) \<lparr>mem = cells_out live @ [], remain = of_nat (length out)\<rparr>
      = Some (Inr (map ?v live))"
    using ok assms(4) length_le_cells_out [OF ok] length_cells_out [OF ok] out
    by (intro cell_codec.read_while_concat) (auto simp: list_all_iff cell_length_no_value)
  then have "add_sorted_buffer (Mutable_new (m_seq m) revs ttl_ns typ) out (of_nat (length out))
      = Some (Inr ((Mutable_new (m_seq m) revs ttl_ns typ)\<lparr>m_cells := map ?v live,
          m_bytes := of_nat (length out), m_size := of_nat (length live)\<rparr>, length live))"
    using assms(4) out by (simp add: add_sorted_buffer_def Mutable_new_def)
  moreover have "container_ok ((Mutable_new (m_seq m) revs ttl_ns typ)\<lparr>m_cells := map ?v live,
      m_bytes := of_nat (length out), m_size := of_nat (length live)\<rparr>)"
  proof -
    have "bytes_of (map ?v live) = of_nat (length out)"
      using length_cells_out [OF ok] out by (simp add: bytes_of_def o_def view_length)
    moreover have "list_all cell_ok (map ?v live)" using ok by (auto simp: list_all_iff view_ok)
    moreover have "m_seq m \<noteq> UNKNOWN" using m by (simp add: container_ok_def)
    ultimately show ?thesis
      using cells_sorted_view [OF ok _ sorted] by (simp add: container_ok_def Mutable_new_def)
  qed
  ultimately show ?thesis by auto
qed

theorem container_write_reload_witness:
  "\<exists>m2. add_sorted_buffer (Mutable_new LEXIC 1 0 Col_PLAIN)
      (cell_write (plain_cell [[1]] [7] 5) False @ cell_write (plain_cell [[2]] [8] 4) False) 30
      = Some (Inr (m2, 2)) \<and> container_ok m2"
proof -
  let ?c = "plain_cell [[1]] [7] 5" and ?d = "plain_cell [[2]] [8] 4"
  let ?m = "add_sorted (add_sorted (Mutable_new LEXIC 1 0 Col_PLAIN) ?c) ?d"
  have f: "fits [[1]]" "fits [[2]]" by (simp_all add: fits_def encoded_length_vi24_def max_vb_defs)
  have "cle LEXIC ?c ?d" by code_simp
  then have m: "container_ok ?m"
    using plain_cell_ok [OF f(1), of "[7]" 5] plain_cell_ok [OF f(2), of "[8]" 4]
    by (simp add: container_ok_def add_sorted_def Mutable_new_def cells_sorted_def accounting add.commute)
  have out: "m_write 0 ?m = cell_write ?c False @ cell_write ?d False"
    by (simp add: m_write_def add_sorted_def m_add_def Mutable_new_def has_expired_def)
  have live: "filter (\<lambda>c. \<not> has_expired 0 c (m_ttl ?m)) (m_cells ?m) = [?c, ?d]"
    by (simp add: add_sorted_def m_add_def Mutable_new_def has_expired_def)
  have len: "length (cell_write ?c False @ cell_write ?d False) = 30" by code_simp
  have "length (cell_write ?c False @ cell_write ?d False) < 2 ^ 64" unfolding len by simp
  from container_write_reload [OF m live [symmetric] out [symmetric] this, of 1 0 Col_PLAIN]
  obtain m2 where "add_sorted_buffer (Mutable_new (m_seq ?m) 1 0 Col_PLAIN)
      (cell_write ?c False @ cell_write ?d False) (of_nat 30) = Some (Inr (m2, 2))" "container_ok m2"
    unfolding len by auto
  moreover have "m_seq ?m = LEXIC" by (simp add: add_sorted_def m_add_def Mutable_new_def)
  ultimately show ?thesis by auto
qed

lemma add_raw_loop_stop: "remain r = 0 \<Longrightarrow> add_raw_loop fuel now finalized m off r = Some (m, None)"
  by (simp add: add_raw_loop.simps)

lemma add_raw_loop_concat:
  assumes "list_all cell_ok es" and "unat n = length (cells_out es) + k" and "length es \<le> fuel"
    and "add_raw_list now finalized m off (map (cell_view False False) es) = Some (Inr m')"
  shows "\<exists>off'. add_raw_loop fuel now finalized m off \<lparr>mem = cells_out es @ rest, remain = n\<rparr>
    = add_raw_loop (fuel - length es) now finalized m' off' \<lparr>mem = rest, remain = of_nat k\<rparr>"
  using assms
proof (induction es arbitrary: n fuel m off)
  case Nil
  have "n = of_nat (unat n)" by simp
  also have "unat n = k" using Nil by simp
  finally have "n = of_nat k" .
  then show ?case using Nil by auto
next
  case (Cons e es)
  let ?len = "cell_encoded_length e (drops_value False e)"
  obtain f where f: "fuel = Suc f" using Cons.prems(3) by (cases fuel) auto
  have e: "cell_ok e" and ok: "list_all cell_ok es" using Cons.prems(1) by auto
  have le: "?len \<le> unat n" using Cons.prems(2) cell_length [OF e, of False] by simp
  have n0: "n \<noteq> 0" using cell_codec.len_pos [OF e, of False] le by auto
  have rd: "cell_read False \<lparr>mem = cell_write e False @ cells_out es @ rest, remain = n\<rparr>
      = Inr (cell_view False False e, \<lparr>mem = cells_out es @ rest, remain = n - of_nat ?len\<rparr>)"
    by (rule cell_codec.dec_enc [OF e le])
  have un: "unat (n - of_nat ?len) = length (cells_out es) + k"
    using Cons.prems(2) cell_length [OF e, of False] by (simp add: unat_sub_of_nat [OF le])
  obtain m1 off1 where r: "add_raw now (cell_view False False e) m off finalized = Some (Inr (m1, off1))"
    and l: "add_raw_list now finalized m1 off1 (map (cell_view False False) es) = Some (Inr m')"
    using Cons.prems(4) by (auto split: option.splits sum.splits)
  have "length es \<le> f" using Cons.prems(3) f by simp
  from Cons.IH [OF ok un this l] show ?case
    using rd r n0 f by (subst add_raw_loop.simps) simp
qed

text \<open>C31: Adding a block of encoded cells is adding the cells it encodes one after the other; a
  block that ends in bytes that are no cell has added all cells before them and reports the
  error.\<close>

theorem add_raw_buffer_adds_cells:
  assumes es: "list_all cell_ok es" and len: "length (cells_out es @ rest) < 2 ^ 64"
    and list: "add_raw_list now finalized m 0 (map (cell_view False False) es) = Some (Inr m')"
    and err: "rest \<noteq> [] \<Longrightarrow> cell_read False \<lparr>mem = rest, remain = of_nat (length rest)\<rparr> = Inl e"
  shows "add_raw_buffer now finalized m (cells_out es @ rest) = Some (m', if rest = [] then None else Some e)"
proof -
  let ?buf = "cells_out es @ rest"
  let ?fuel = "length ?buf - length es"
  have "unat (of_nat (length ?buf) :: u64) = length (cells_out es) + length rest"
    using len by (subst unat_of_nat64) simp_all
  moreover have le: "length es \<le> length (cells_out es)" using es by (rule length_le_cells_out)
  ultimately obtain off' where r: "add_raw_buffer now finalized m ?buf
      = add_raw_loop ?fuel now finalized m' off' \<lparr>mem = rest, remain = of_nat (length rest)\<rparr>"
    using add_raw_loop_concat [OF es _ _ list, of "of_nat (length ?buf)" "length rest" "length ?buf" rest]
    by (auto simp: add_raw_buffer_def)
  show ?thesis
  proof (cases "rest = []")
    case True
    then show ?thesis unfolding r by (simp add: add_raw_loop_stop)
  next
    case rest: False
    have "?fuel \<noteq> 0" using le rest by (cases rest) auto
    then obtain f where f: "?fuel = Suc f" by (cases ?fuel) auto
    have "(of_nat (length rest) :: u64) \<noteq> 0"
      using len rest by (simp add: word_of_nat_eq_0_iff nat_dvd_not_less)
    then show ?thesis
      unfolding r f using err rest by (subst add_raw_loop.simps) simp
  qed
qed

theorem add_raw_buffer_adds_cells_witness:
  "\<exists>m'. add_raw_buffer 0 True (Mutable_new LEXIC 1 0 Col_PLAIN)
      (cell_write (plain_cell [[1]] [7] 5) False @ cell_write (plain_cell [] [8] 4) False @ [1, 0])
      = Some (m', Some SERIALIZATION_INPUT_OVERRUN)"
proof -
  let ?m = "Mutable_new LEXIC 1 0 Col_PLAIN" and ?es = "[plain_cell [[1]] [7] 5, plain_cell [] [8] 4]"
  have f: "fits [[1]]" "fits []" by (simp_all add: fits_def encoded_length_vi24_def max_vb_defs)
  have ok: "list_all cell_ok ?es"
    using plain_cell_ok [OF f(1), of "[7]" 5] plain_cell_ok [OF f(2), of "[8]" 4] by simp
  then have v: "list_all cell_ok (map (cell_view False False) ?es)" by (simp add: view_ok)
  have "searchable ?m" "countable ?m True (map (cell_view False False) ?es)"
    by (simp_all add: searchable_def countable_def Mutable_new_def)
  moreover have "container_ok ?m" by (simp add: Mutable_new_ok)
  ultimately obtain m' where m': "add_raw_list 0 True ?m 0 (map (cell_view False False) ?es) = Some (Inr m')"
    using add_raw_list_edits [OF _ _ v, of ?m True 0 0] by blast
  have len: "length (cells_out ?es @ [1, 0]) < 2 ^ 64"
  proof -
    have "length (cells_out ?es @ [1, 0]) = 30" by code_simp
    then show ?thesis by simp
  qed
  have err: "cell_read False \<lparr>mem = [1, 0], remain = of_nat (length [1, 0 :: byte])\<rparr>
    = Inl SERIALIZATION_INPUT_OVERRUN" by code_simp
  from add_raw_buffer_adds_cells [OF ok len m' err] show ?thesis by auto
qed

section \<open>The search\<close>

text \<open>C9: With at least one version to keep the search of a sorted container returns for every key
  and every hint, and every cell before the place it returns is smaller than the key: a cell is
  never added behind one of its key or a greater one.\<close>

theorem search_never_skips:
  assumes "container_ok m" and "key_rep k" and "searchable m"
  shows "\<exists>pos off'. m_get m k off = Some (Inr (pos, off')) \<and>
    (\<forall>c \<in> set (take pos (m_cells m)). key_compare (m_seq m) (c_key c) k = Inr GT)"
proof -
  obtain pos off' where g: "m_get m k off = Some (Inr (pos, off'))" "place_ok m k pos"
    using m_get_returns [OF assms(1,2), of off] assms(3) by (auto simp: searchable_def)
  have "key_compare (m_seq m) (c_key c) k = Inr GT" if c: "c \<in> set (take pos (m_cells m))" for c
  proof -
    have "c \<in> set (m_cells m)" using c by (rule in_set_takeD)
    then have "key_rep (c_key c)" using assms(1) by (auto simp: container_ok_def list_all_iff cell_ok_def)
    then show ?thesis using g(2) c assms(2) by (simp add: place_ok_def key_compare_Inr)
  qed
  with g show ?thesis by blast
qed

text \<open>Many cells of one key.\<close>

definition replicated :: "nat \<Rightarrow> u32 \<Rightarrow> mutable" where
  "replicated n revs = fold (\<lambda>c m. add_sorted m c) (replicate n (plain_cell [[1]] [] 1))
     (Mutable_new LEXIC revs 0 Col_PLAIN)"

lemma add_sorted_all:
  "m_cells (fold (\<lambda>c m. add_sorted m c) cs m) = m_cells m @ cs"
  "m_size (fold (\<lambda>c m. add_sorted m c) cs m) = m_size m + of_nat (length cs)"
  "m_bytes (fold (\<lambda>c m. add_sorted m c) cs m) = m_bytes m + bytes_of cs"
  "m_seq (fold (\<lambda>c m. add_sorted m c) cs m) = m_seq m"
  "m_type (fold (\<lambda>c m. add_sorted m c) cs m) = m_type m"
  "m_max_revs (fold (\<lambda>c m. add_sorted m c) cs m) = m_max_revs m"
  "m_ttl (fold (\<lambda>c m. add_sorted m c) cs m) = m_ttl m"
  by (induction cs arbitrary: m) (simp_all add: add_sorted_def accounting algebra_simps)

lemma replicated_simps [simp]:
  "m_cells (replicated n revs) = replicate n (plain_cell [[1]] [] 1)" "m_size (replicated n revs) = of_nat n"
  "m_seq (replicated n revs) = LEXIC" "m_max_revs (replicated n revs) = revs"
  unfolding replicated_def add_sorted_all by (simp_all add: Mutable_new_def)

lemma replicated_bytes: "m_bytes (replicated n revs) = bytes_of (replicate n (plain_cell [[1]] [] 1))"
  unfolding replicated_def add_sorted_all by (simp add: Mutable_new_def)

lemma fits_one: "length f < 2 ^ 24 \<Longrightarrow> fits [f]"
  by (simp add: fits_def encoded_length_vi24_def max_vb_defs)

lemma replicated_ok: "container_ok (replicated n revs)"
proof -
  have "fits [[1]]" by (simp add: fits_one)
  then have ok: "cell_ok (plain_cell [[1]] [] 1)" using plain_cell_ok [of "[[1]]" "[]" 1] by simp
  then have "cle LEXIC (plain_cell [[1]] [] 1) (plain_cell [[1]] [] 1)" by (intro cle_same(1)) (simp_all add: same_key_def)
  then have "cells_sorted LEXIC (replicate n (plain_cell [[1]] [] 1))"
    by (induction n) (auto simp: cells_sorted_def)
  with ok show ?thesis
    by (simp add: container_ok_def list_all_iff replicated_bytes)
qed

theorem search_never_skips_witness:
  "\<exists>pos off'. m_get (replicated 50 2) (key_of True [[1], [2]]) 7 = Some (Inr (pos, off'))"
proof -
  have k: "key_rep (key_of True [[1], [2]])"
    by (intro key_rep_of) (simp add: fits_def encoded_length_vi24_def max_vb_defs)
  have s: "searchable (replicated 50 2)" by (simp add: searchable_def)
  from search_never_skips [OF replicated_ok k s, of 7] show ?thesis by blast
qed

text \<open>With no version to keep (\<open>max_revs\<close> zero, which the schema of a column may hold) the search
  for a key that is not after any cell of the container never returns.\<close>

lemma search_without_versions_hangs:
  assumes "m_max_revs m = 0" and "m_size m = of_nat (length (m_cells m))"
    and "NARROW_SIZE < length (m_cells m)" and "length (m_cells m) < 2 ^ 64"
    and "never_before m k" and "\<not> key_empty k"
  shows "m_get m k 0 = None"
proof -
  let ?n = "length (m_cells m)"
  have n: "unat (m_size m) = ?n" using assms(2,4) by simp
  have "get_search m k (?n div 2) (?n div 2) = None"
    using assms(1,3,5) by (intro get_search_stuck) (auto simp: NARROW_SIZE_def)
  then show ?thesis using assms(3,6) n by (simp add: m_get_def)
qed

lemma search_without_versions_hangs_witness:
  "m_get (replicated 30 0) (key_of True [[1]]) 0 = None"
proof (rule search_without_versions_hangs)
  have f: "fits [[1]]" by (simp add: fits_one)
  have "c_key (plain_cell [[1]] [] 1) = key_of True [[1]]"
    by (simp add: plain_cell_def set_timestamp_with_rev_is_ts_def set_timestamp_def set_value_def Cell_new_def)
  moreover have "key_compare LEXIC (key_of True [[1]]) (key_of True [[1]]) = Inr EQ" by code_simp
  ultimately show "never_before (replicated 30 0) (key_of True [[1]])"
    by (auto simp: never_before_def list_all_iff)
qed (simp_all add: NARROW_SIZE_def key_empty_def key_of_def)

text \<open>A negative position given to \<open>get(pos, key)\<close>, which is to count from the end, never gives a
  key: read as an unsigned size it is behind every container.\<close>

lemma get_key_at_negative:
  assumes "pos <s 0" and "m_size m < 2 ^ 63"
  shows "get_key_at m pos k = k"
proof -
  have "bit pos 31" using assms(1) bit_last_iff [of pos] by (simp add: word_sless_alt)
  then have "bit (scast pos :: u64) 63" by (simp add: bit_simps)
  then have "bit (unat (scast pos :: u64)) 63" unfolding bit_unsigned_iff by simp
  then have "odd (unat (scast pos :: u64) div 2 ^ 63)" using bit_iff_odd by blast
  then have "2 ^ 63 \<le> unat (scast pos :: u64)" by (metis div_less even_zero not_le)
  then have "m_size m \<le> scast pos" using assms(2) by (simp add: word_le_nat_alt word_less_nat_alt)
  then show ?thesis using assms(2) by (auto simp: get_key_at_def)
qed

section \<open>Copying what follows a key\<close>

fun add_raw_each :: "i64 \<Rightarrow> bool \<Rightarrow> mutable \<Rightarrow> cell list \<Rightarrow> mutable res option" where
  "add_raw_each now finalized m [] = Some (Inr m)"
| "add_raw_each now finalized m (e # es) =
     (case add_raw now e m 0 finalized of
        None \<Rightarrow> None
      | Some (Inl err) \<Rightarrow> Some (Inl err)
      | Some (Inr (m', off')) \<Rightarrow> add_raw_each now finalized m' es)"

text \<open>The live cells behind one key, up to another.\<close>

definition scanned :: "i64 \<Rightarrow> mutable \<Rightarrow> key \<Rightarrow> key \<Rightarrow> cell \<Rightarrow> bool" where
  "scanned now m after to c \<longleftrightarrow> \<not> has_expired now c (m_ttl m) \<and>
     (key_empty after \<or> key_cmp (m_seq m) after (c_key c) = GT) \<and>
     (key_empty to \<or> key_cmp (m_seq m) to (c_key c) \<noteq> GT)"

lemma scan_after_loop_adds:
  assumes "m_seq m \<noteq> UNKNOWN" "key_rep after" "key_rep to" "list_all cell_ok cs" "cells_sorted (m_seq m) cs"
    and "add_raw_each now finalized dst (filter (scanned now m after to) cs) = Some (Inr dst')"
  shows "\<exists>all. scan_after_loop now m after to finalized cs dst = Some (Inr (dst', all))"
  using assms
proof (induction cs arbitrary: dst)
  case (Cons c cs)
  note o = key_order [OF Cons.prems(1)]
  have "cell_ok c" and cs: "list_all cell_ok cs" using Cons.prems(4) by simp_all
  then have ok: "key_rep (c_key c)" by (simp add: cell_ok_def)
  note cmp = key_compare_Inr [OF _ ok, of _ "m_seq m"]
  have sorted: "cells_sorted (m_seq m) cs" using Cons.prems(5) by (simp add: cells_sorted_def)
  note IH = Cons.IH [OF Cons.prems(1-3) cs sorted]
  show ?case
  proof (cases "\<not> key_empty to \<and> key_cmp (m_seq m) to (c_key c) = GT")
    case True
    have "\<not> scanned now m after to d" if "d \<in> set (c # cs)" for d
    proof -
      have d: "key_rep (c_key d)" using that Cons.prems(4) by (auto simp: list_all_iff cell_ok_def)
      have "d = c \<or> key_cmp (m_seq m) (c_key c) (c_key d) = GT \<or> same_key (c_key c) (c_key d)"
        using that Cons.prems(5) comp_order.not_LT_iff [OF o ok d]
        by (auto simp: cells_sorted_def cle_def)
      then have "key_cmp (m_seq m) to (c_key d) = GT"
        using True comp_order.cmp_trans [OF o Cons.prems(3) ok d]
          comp_order.cmp_same_right [OF o Cons.prems(3) ok d] by blast
      then show ?thesis using True by (simp add: scanned_def)
    qed
    then have "filter (scanned now m after to) (c # cs) = []" by (simp add: filter_empty_conv)
    then show ?thesis using Cons.prems(6) True cmp [OF Cons.prems(3)] by (intro exI [of _ False]) simp
  next
    case to: False
    show ?thesis
    proof (cases "scanned now m after to c")
      case True
      then obtain dst1 off1 where r: "add_raw now c dst 0 finalized = Some (Inr (dst1, off1))"
        and d: "add_raw_each now finalized dst1 (filter (scanned now m after to) cs) = Some (Inr dst')"
        using Cons.prems(6) by (auto split: option.splits sum.splits)
      from IH [OF d] r to True [unfolded scanned_def] show ?thesis
        using cmp [OF Cons.prems(3)] cmp [OF Cons.prems(2)] by auto
    next
      case False
      then have "add_raw_each now finalized dst (filter (scanned now m after to) cs) = Some (Inr dst')"
        using Cons.prems(6) by simp
      from IH [OF this] to False [unfolded scanned_def] show ?thesis
        using cmp [OF Cons.prems(3)] cmp [OF Cons.prems(2)] by auto
    qed
  qed
qed (auto intro: exI [of _ True])

text \<open>Copying what follows a key adds to the other container exactly the live cells of this one
  that are behind the key and not behind the end, in their order: the search neither skips one
  of them nor does the early stop.\<close>

lemma scan_after_copies_range:
  assumes m: "container_ok m" and "key_rep after" and "key_rep to" and "searchable m"
    and add: "add_raw_each now finalized dst (filter (scanned now m after to) (m_cells m)) = Some (Inr dst')"
    and size: "length (m_cells m) < 2 ^ 64"
  shows "\<exists>all. scan_after now m after to dst finalized = Some (Inr (dst', all))"
proof (cases "m_cells m = []")
  case True
  then show ?thesis using m add by (intro exI [of _ False]) (simp add: scan_after_def container_ok_def)
next
  case False
  have n: "m_size m \<noteq> 0"
    using m False size by (auto simp: container_ok_def word_of_nat_eq_0_iff nat_dvd_not_less)
  have seq: "m_seq m \<noteq> UNKNOWN" and ok: "list_all cell_ok (m_cells m)"
    and sorted: "cells_sorted (m_seq m) (m_cells m)" using m by (simp_all add: container_ok_def)
  obtain pos off where g: "m_get m after 0 = Some (Inr (pos, off))" and p: "place_ok m after pos"
    using m_get_returns [OF m assms(2), of 0] assms(4) by (auto simp: searchable_def)
  have "\<not> scanned now m after to c" if c: "c \<in> set (take pos (m_cells m))" for c
  proof -
    have "key_rep (c_key c)" using in_set_takeD [OF c] ok by (auto simp: list_all_iff cell_ok_def)
    moreover have "key_cmp (m_seq m) (c_key c) after = GT" using p c by (simp add: place_ok_def)
    ultimately have "key_cmp (m_seq m) after (c_key c) = LT"
      using comp_order.cmp_swap [OF key_order [OF seq]] assms(2) by blast
    moreover have "\<not> key_empty after"
    proof
      assume "key_empty after"
      then have "pos = 0" using g by (simp add: m_get_def Let_def)
      then show False using c by simp
    qed
    ultimately show ?thesis by (simp add: scanned_def)
  qed
  then have "filter (scanned now m after to) (take pos (m_cells m)) = []" by (simp add: filter_empty_conv)
  then have "filter (scanned now m after to) (m_cells m) = filter (scanned now m after to) (drop pos (m_cells m))"
    by (metis append_Nil append_take_drop_id filter_append)
  then have "add_raw_each now finalized dst (filter (scanned now m after to) (drop pos (m_cells m))) = Some (Inr dst')"
    using add by simp
  moreover have "list_all cell_ok (drop pos (m_cells m))" using ok by (auto simp: list_all_iff dest: in_set_dropD)
  moreover have "cells_sorted (m_seq m) (drop pos (m_cells m))"
    using sorted by (simp add: cells_sorted_def sorted_wrt_drop)
  ultimately show ?thesis
    using scan_after_loop_adds [OF seq assms(2,3)] g n by (simp add: scan_after_def)
qed

lemma scan_after_copies_range_witness:
  "\<exists>dst' all. scan_after 0 (replicated 2 1) (key_of True [[0]]) (key_of True [[1], [2]])
      (Mutable_new LEXIC 1 0 Col_PLAIN) True = Some (Inr (dst', all)) \<and> length (m_cells dst') = 1"
proof -
  let ?dst = "Mutable_new LEXIC 1 0 Col_PLAIN"
  let ?P = "scanned 0 (replicated 2 1) (key_of True [[0]]) (key_of True [[1], [2]])"
  have "case add_raw_each 0 True ?dst (filter ?P (m_cells (replicated 2 1))) of
      Some (Inr d) \<Rightarrow> length (m_cells d) = 1 | _ \<Rightarrow> False" by code_simp
  then obtain d where d: "add_raw_each 0 True ?dst (filter ?P (m_cells (replicated 2 1))) = Some (Inr d)"
    "length (m_cells d) = 1" by (auto split: option.splits sum.splits)
  have f: "fits [[0]]" "fits [[1], [2]]"
    by (simp_all add: fits_def encoded_length_vi24_def max_vb_defs)
  have "searchable (replicated 2 1)" by (simp add: searchable_def)
  from scan_after_copies_range [OF replicated_ok key_rep_of [OF f(1)] key_rep_of [OF f(2)] this d(1)] d(2)
  show ?thesis by auto
qed

section \<open>Writing out and splitting\<close>

lemma cle_antisym:
  assumes "s \<noteq> UNKNOWN" "cell_ok a" "cell_ok b" "cle s a b" "cle s b a"
  shows "same_cell_key a b"
proof -
  have k: "key_rep (c_key a)" "key_rep (c_key b)" using assms by (simp_all add: cell_ok_def)
  note o = key_order [OF assms(1)]
  have "key_cmp s (c_key a) (c_key b) \<noteq> GT"
    using comp_order.cmp_swap [OF o k] assms(5) by (simp add: cle_def)
  then show ?thesis using comp_order.not_LT_iff [OF o k] assms(4) by (simp add: cle_def)
qed

lemma write_upto_prefix:
  "write_upto now ttl threshold fill cs = (out, n) \<Longrightarrow>
    n \<le> length cs \<and> out = cells_out (filter (\<lambda>c. \<not> has_expired now c ttl) (take n cs))"
proof (induction cs arbitrary: fill out n)
  case (Cons c cs)
  show ?case
  proof (cases "threshold = 0 \<or> threshold > fill")
    case True
    let ?o = "if has_expired now c ttl then [] else cell_write c False"
    obtain outs k where w: "write_upto now ttl threshold (fill + length ?o) cs = (outs, k)" by fastforce
    then have "out = ?o @ outs" "n = Suc k" using Cons.prems True by (simp_all only: write_upto.simps Let_def if_True prod.case prod.inject)
    then show ?thesis using Cons.IH [OF w] by simp
  qed (use Cons in simp)
qed simp

lemma fold_remove:
  "fold (\<lambda>c m. m_remove m c) cs m = m\<lparr>m_bytes := m_bytes m - bytes_of cs, m_size := m_size m - of_nat (length cs)\<rparr>"
  by (induction cs arbitrary: m) (simp_all add: m_remove_def algebra_simps)

lemma bytes_of_take_drop: "bytes_of cs - bytes_of (take n cs) = bytes_of (drop n cs)"
  using bytes_of_simps(3) [of "take n cs" "drop n cs"] by simp

lemma size_of_take_drop:
  "(of_nat (length cs) :: u64) - of_nat (length (take n cs)) = of_nat (length (drop n cs))"
proof -
  have "length cs = length (take n cs) + length (drop n cs)" by simp
  then show ?thesis by (metis add_diff_cancel_left' of_nat_add)
qed

lemma cells_sorted_drop: "cells_sorted s cs \<Longrightarrow> cells_sorted s (drop n cs)"
  by (simp add: cells_sorted_def sorted_wrt_drop)

lemma cells_sorted_take: "cells_sorted s cs \<Longrightarrow> cells_sorted s (take n cs)"
  by (simp add: cells_sorted_def sorted_wrt_take)

lemma list_all_takeI: "list_all P cs \<Longrightarrow> list_all P (take n cs) \<and> list_all P (drop n cs)"
  by (auto simp: list_all_iff dest: in_set_takeD in_set_dropD)

lemma remove_range_first:
  assumes "container_ok m"
  shows "m_cells (remove_range m 0 n) = drop n (m_cells m)" and "container_ok (remove_range m 0 n)"
proof -
  have "list_all cell_ok (m_cells m)" using assms by (simp add: container_ok_def)
  then have "list_all cell_ok (drop n (m_cells m))" using list_all_takeI by blast
  moreover have "m_size (remove_range m 0 n) = of_nat (length (drop n (m_cells m)))"
    using assms unfolding size_of_take_drop [symmetric]
    by (simp add: container_ok_def remove_range_def fold_remove)
  moreover have "m_bytes (remove_range m 0 n) = bytes_of (drop n (m_cells m))"
    using assms unfolding bytes_of_take_drop [symmetric]
    by (simp add: container_ok_def remove_range_def fold_remove)
  ultimately show "container_ok (remove_range m 0 n)"
    using assms cells_sorted_drop by (simp add: container_ok_def remove_range_def fold_remove)
qed (simp add: remove_range_def fold_remove)

text \<open>Writing out and freeing takes a prefix of the container: the live ones of its cells are
  what was written, the rest stays, sorted and with exact counters; \<open>more\<close> is told when
  something was taken and something stays.\<close>

lemma write_and_free_takes_prefix:
  assumes m: "container_ok m" and size: "length (m_cells m) < 2 ^ 64"
    and w: "write_and_free now m fill threshold = (m', out, again)"
  shows "\<exists>n \<le> length (m_cells m).
    out = cells_out (filter (\<lambda>c. \<not> has_expired now c (m_ttl m)) (take n (m_cells m))) \<and>
    m_cells m' = drop n (m_cells m) \<and> container_ok m' \<and> (again \<longleftrightarrow> 0 < n \<and> n < length (m_cells m))"
proof (cases "m_size m = 0")
  case True
  then have "m_cells m = []"
    using m size by (auto simp: container_ok_def word_of_nat_eq_0_iff nat_dvd_not_less)
  then show ?thesis using w m True by (simp add: write_and_free_def)
next
  case False
  obtain o1 n where u: "write_upto now (m_ttl m) threshold fill (m_cells m) = (o1, n)" by fastforce
  note p = write_upto_prefix [OF u]
  have w': "(m', out, again) = (if n = 0 then (m, o1, False)
      else if of_nat n = m_size m then (m_free m, o1, False)
      else (remove_range m 0 n, o1, m_cells (remove_range m 0 n) \<noteq> []))"
    unfolding w [symmetric] write_and_free_def using False u by (simp add: Let_def)
  have all: "of_nat n = m_size m \<longleftrightarrow> n = length (m_cells m)"
    using m p size by (auto simp: container_ok_def word_unat_eq_iff)
  have free: "container_ok (m_free m)"
    using m by (simp add: container_ok_def m_free_def cells_sorted_def)
  consider "n = 0" | "n \<noteq> 0" "n = length (m_cells m)" | "n \<noteq> 0" "n < length (m_cells m)"
    using p by linarith
  then show ?thesis
  proof cases
    case 1
    then show ?thesis using w' p m by auto
  next
    case 2
    then show ?thesis using w' p all free by (auto simp: m_free_def)
  next
    case 3
    have "(m', out, again) = (remove_range m 0 n, o1, m_cells (remove_range m 0 n) \<noteq> [])"
      using w' 3 all by simp
    then have "m' = remove_range m 0 n" "out = o1" "again \<longleftrightarrow> m_cells m' \<noteq> []"
      by (metis prod.inject)+
    then show ?thesis using 3 p remove_range_first [OF m, of n] by (intro exI [of _ n]) auto
  qed
qed

lemma write_and_free_takes_prefix_witness:
  "\<exists>n \<le> 3. m_cells (fst (write_and_free 0 (replicated 3 1) 0 20)) = drop n (m_cells (replicated 3 1)) \<and>
    (snd (snd (write_and_free 0 (replicated 3 1) 0 20)) \<longleftrightarrow> 0 < n \<and> n < 3)"
proof -
  obtain m' out again where w: "write_and_free 0 (replicated 3 1) 0 20 = (m', out, again)"
    using prod_cases3 by blast
  from write_and_free_takes_prefix [OF replicated_ok _ w] show ?thesis by (auto simp: w)
qed

lemma split_point_at:
  "split_point cnt bytes n b cs = Some (n', b') \<Longrightarrow>
    \<exists>i < length cs - 1. n' = n + of_nat (Suc i) \<and> b' = b + bytes_of (take (Suc i) cs) \<and>
      \<not> key_equal (c_key (cs ! i)) (c_key (cs ! Suc i))"
proof (induction cnt bytes n b cs rule: split_point.induct)
  case (1 cnt bytes n b c d cs)
  show ?case
  proof (cases "(cnt \<le> n + 1 \<or> bytes \<le> b + of_nat (cell_encoded_length c False)) \<and> \<not> key_equal (c_key c) (c_key d)")
    case True
    then show ?thesis using "1.prems" by (intro exI [of _ 0]) (simp add: Let_def)
  next
    case False
    then obtain i where "i < length (d # cs) - 1" "n' = n + 1 + of_nat (Suc i)"
      "b' = b + of_nat (cell_encoded_length c False) + bytes_of (take (Suc i) (d # cs))"
      "\<not> key_equal (c_key ((d # cs) ! i)) (c_key ((d # cs) ! Suc i))"
      using "1.IH" [OF refl refl] "1.prems" by (auto simp: Let_def)
    then show ?thesis by (intro exI [of _ "Suc i"]) (simp add: algebra_simps)
  qed
qed simp_all

lemma key_change_separates:
  assumes seq: "s \<noteq> UNKNOWN" and ok: "list_all cell_ok cs" and sorted: "cells_sorted s cs"
    and i: "i < length cs - 1" and ne: "\<not> key_equal (c_key (cs ! i)) (c_key (cs ! Suc i))"
    and c: "c \<in> set (take (Suc i) cs)" and d: "d \<in> set (drop (Suc i) cs)"
  shows "\<not> same_cell_key c d"
proof
  assume same: "same_cell_key c d"
  let ?a = "cs ! i" and ?b = "cs ! Suc i"
  have okk: "cell_ok c" "cell_ok d" "cell_ok ?a" "cell_ok ?b"
    using in_set_takeD [OF c] in_set_dropD [OF d] ok i by (auto simp: list_all_iff)
  obtain j where j: "j \<le> i" "c = cs ! j"
    using c by (auto simp: in_set_conv_nth) (use less_Suc_eq_le in blast)
  obtain l where "l < length cs - Suc i" "d = cs ! (Suc i + l)" using d by (auto simp: in_set_conv_nth)
  then obtain k where k: "Suc i \<le> k" "k < length cs" "d = cs ! k"
    by (intro that [of "Suc i + l"]) auto
  have le: "cle s (cs ! x) (cs ! y)" if "x \<le> y" "y < length cs" for x y
  proof (cases "x = y")
    case True
    then show ?thesis using cle_same(1) [OF seq, of "cs ! x"] ok that by (auto simp: list_all_length same_key_def)
  next
    case False
    then show ?thesis using sorted that by (auto simp: cells_sorted_def sorted_wrt_iff_nth_less)
  qed
  have "cle s c ?a" "cle s ?a ?b" "cle s ?b d"
    using le [of j i] le [of i "Suc i"] le [of "Suc i" k] j k i by auto
  moreover have "cle s d c" using cle_same(2) [OF seq okk(1,2) same] .
  ultimately have "cle s ?b ?a" "cle s ?a ?b"
    using cle_trans [OF seq] okk by blast+
  then have "same_cell_key ?a ?b" using okk seq cle_antisym by blast
  then show False using ne okk by (auto simp: cell_ok_def key_equal_same_key)
qed

lemma split_gives:
  assumes m: "container_ok m" and size: "length (m_cells m) < 2 ^ 64"
    and other: "container_ok other" "m_cells other = []" "m_seq other = m_seq m"
    and sp: "m_split now m other cnt bytes loaded = (m', other', True)"
  shows "container_ok m'" and "container_ok other'" and "same_setup m m'" and "same_setup other other'"
    and "\<exists>kept gone. kept \<noteq> [] \<and> gone \<noteq> [] \<and> m_cells m = kept @ gone \<and> m_cells m' = kept \<and>
      m_cells other' = filter (\<lambda>c. loaded \<and> \<not> has_expired now c (m_ttl m)) gone \<and>
      (\<forall>c \<in> set kept. \<forall>d \<in> set gone. \<not> same_cell_key c d)"
proof -
  let ?cs = "m_cells m"
  obtain n b where pt: "split_point (if cnt = 0 then m_size m div 2 else cnt)
      (if bytes = 0 then m_bytes m div 2 else bytes) 0 0 ?cs = Some (n, b)"
    and m': "m' = m\<lparr>m_cells := take (unat n) ?cs, m_size := n, m_bytes := b\<rparr>"
    and o': "other' = fold (\<lambda>c m. add_sorted m c)
      (filter (\<lambda>c. loaded \<and> \<not> has_expired now c (m_ttl m)) (drop (unat n) ?cs)) other"
    using sp by (auto simp: m_split_def Let_def split: if_splits option.splits)
  obtain i where i: "i < length ?cs - 1" "n = of_nat (Suc i)" "b = bytes_of (take (Suc i) ?cs)"
    "\<not> key_equal (c_key (?cs ! i)) (c_key (?cs ! Suc i))"
    using split_point_at [OF pt] by auto
  have n: "unat n = Suc i" unfolding i(2) using i(1) size by (intro unat_of_nat64) simp
  have seq: "m_seq m \<noteq> UNKNOWN" and ok: "list_all cell_ok ?cs" and sorted: "cells_sorted (m_seq m) ?cs"
    using m by (simp_all add: container_ok_def)
  have ok': "list_all cell_ok (take (Suc i) ?cs)" "list_all cell_ok (drop (Suc i) ?cs)"
    using list_all_takeI [OF ok] by blast+
  show "container_ok m'"
    using m ok' i n cells_sorted_take [OF sorted, of "Suc i"]
    by (auto simp: container_ok_def m' min_def)
  show "container_ok other'"
  proof -
    let ?mv = "filter (\<lambda>c. loaded \<and> \<not> has_expired now c (m_ttl m)) (drop (Suc i) ?cs)"
    have "list_all cell_ok ?mv" using ok'(2) by (auto simp: list_all_iff)
    moreover have "cells_sorted (m_seq m) ?mv"
      using sorted by (intro cells_sorted_filter cells_sorted_drop)
    ultimately show ?thesis
      using other seq unfolding o' n container_ok_def add_sorted_all by simp
  qed
  show "same_setup m m'" "same_setup other other'" by (simp_all add: m' o' add_sorted_all same_setup_def)
  have "\<forall>c \<in> set (take (Suc i) ?cs). \<forall>d \<in> set (drop (Suc i) ?cs). \<not> same_cell_key c d"
    using key_change_separates [OF seq ok sorted i(1,4)] by blast
  then show "\<exists>kept gone. kept \<noteq> [] \<and> gone \<noteq> [] \<and> m_cells m = kept @ gone \<and> m_cells m' = kept \<and>
      m_cells other' = filter (\<lambda>c. loaded \<and> \<not> has_expired now c (m_ttl m)) gone \<and>
      (\<forall>c \<in> set kept. \<forall>d \<in> set gone. \<not> same_cell_key c d)"
    using i n other
    by (intro exI [of _ "take (Suc i) ?cs"] exI [of _ "drop (Suc i) ?cs"]) (auto simp: m' o' add_sorted_all)
qed

text \<open>A split moves the cells from a change of key on to the other container: both are sorted with
  exact counters, no key is on both sides, and together they hold what was there (but for expired
  cells, which are dropped on the way).\<close>

lemma split_partitions:
  assumes m: "container_ok m" and size: "length (m_cells m) < 2 ^ 64"
    and other: "container_ok other" "m_cells other = []" "m_seq other = m_seq m"
    and sp: "m_split now m other cnt bytes True = (m', other', True)"
  shows "container_ok m' \<and> container_ok other' \<and> m_cells m' \<noteq> [] \<and>
    (\<exists>gone. m_cells m = m_cells m' @ gone \<and> gone \<noteq> [] \<and>
      m_cells other' = filter (\<lambda>c. \<not> has_expired now c (m_ttl m)) gone \<and>
      (\<forall>c \<in> set (m_cells m'). \<forall>d \<in> set gone. \<not> same_cell_key c d))"
  using split_gives [OF m size other sp] by auto

lemma split_partitions_witness:
  "\<exists>m' other'. m_split 0 (fold (\<lambda>c m. add_sorted m c) [plain_cell [[1]] [7] 5, plain_cell [[2]] [8] 4]
        (Mutable_new LEXIC 1 0 Col_PLAIN)) (Mutable_new LEXIC 1 0 Col_PLAIN) 1 0 True = (m', other', True) \<and>
      container_ok m' \<and> container_ok other'"
proof -
  let ?new = "Mutable_new LEXIC 1 0 Col_PLAIN"
  let ?cs = "[plain_cell [[1]] [7] 5, plain_cell [[2]] [8] 4]"
  let ?m = "fold (\<lambda>c m. add_sorted m c) ?cs ?new"
  have f: "fits [[1]]" "fits [[2]]" by (simp_all add: fits_one)
  have "list_all cell_ok ?cs" using plain_cell_ok [OF f(1), of "[7]" 5] plain_cell_ok [OF f(2), of "[8]" 4] by simp
  moreover have "cells_sorted LEXIC ?cs" by code_simp
  moreover have new: "container_ok ?new" "m_cells ?new = []" "m_seq ?new = LEXIC"
    by (simp_all add: Mutable_new_ok) (simp_all add: Mutable_new_def)
  ultimately have m: "container_ok ?m" unfolding container_ok_def add_sorted_all by simp
  have cs: "m_cells ?m = ?cs" "m_seq ?m = LEXIC" unfolding add_sorted_all using new by simp_all
  have "snd (snd (m_split 0 ?m ?new 1 0 True))" by code_simp
  then obtain m' other' where sp: "m_split 0 ?m ?new 1 0 True = (m', other', True)"
    by (metis prod.collapse)
  have "length (m_cells ?m) < 2 ^ 64" unfolding cs by simp
  moreover have "m_seq ?new = m_seq ?m" unfolding cs(2) new(3) by simp
  ultimately have "container_ok m' \<and> container_ok other'"
    using split_partitions [OF m _ new(1,2) _ sp] by blast
  with sp show ?thesis by blast
qed

end
