(* ===== verification/Mutable_Versions.thy ===== *)
theory Mutable_Versions
  imports Mutable_Container
begin

text \<open>
  What the container keeps of a key: the later revision where one version is kept, the sum of a
  counter where it is finalized, and what a change of the schema drops.
\<close>

section \<open>The latest revision of a key\<close>

definition versions :: "key \<Rightarrow> cell list \<Rightarrow> cell list" where
  "versions k cs = filter (\<lambda>c. same_key (c_key c) k) cs"

text \<open>What a reader can tell of a cell beside its key.\<close>

definition content :: "cell \<Rightarrow> byte \<times> byte \<times> bytes \<times> i64 \<times> i64" where
  "content c = (c_flag c, c_control c, take (unat (c_vlen c)) (c_value c), c_timestamp c, c_revision c)"

definition supersedes :: "cell \<Rightarrow> cell \<Rightarrow> bool" where
  "supersedes e c \<longleftrightarrow> c_revision e = TIMESTAMP_AUTO \<or> i64_less (c_revision c) (c_revision e)"

text \<open>The specification: of the cells of a key the one no later addition superseded.\<close>

fun latest_from :: "cell option \<Rightarrow> key \<Rightarrow> cell list \<Rightarrow> cell option" where
  "latest_from w k [] = w"
| "latest_from w k (e # es) =
     latest_from (if \<not> same_key (c_key e) k then w
                  else case w of None \<Rightarrow> Some e
                    | Some c \<Rightarrow> if supersedes e c then Some e else Some c) k es"

definition latest :: "key \<Rightarrow> cell list \<Rightarrow> cell option" where
  "latest = latest_from None"

lemma Cell_of_no_value_False: "Cell_of_no_value e False = Cell_of e"
  by (simp add: Cell_of_no_value_def Cell_of_def cell_value_def Let_def)

lemma content_copies [simp]:
  "content (Cell_of e) = content e" "content (cell_copy c e False) = content e"
  by (simp_all add: content_def Cell_of_def cell_copy_def cell_value_def set_value_def Let_def)

lemma revision_copies [simp]:
  "c_revision (Cell_of e) = c_revision e" "c_revision (cell_copy c e False) = c_revision e"
  by (simp_all add: Cell_of_def cell_copy_def set_value_def Let_def)

lemma same_key_refl [simp]: "same_key a a"
  by (simp add: same_key_def)

lemma same_key_sym: "same_key a b \<longleftrightarrow> same_key b a"
  by (auto simp: same_key_def)

lemma same_key_left: "same_key a b \<Longrightarrow> same_key a k \<longleftrightarrow> same_key b k"
  by (auto simp: same_key_def)

text \<open>Behind a cell that is greater than \<open>e\<close> there is no cell of its key.\<close>

lemma no_versions_after:
  assumes s: "s \<noteq> UNKNOWN" and e: "cell_ok e" and cs: "list_all cell_ok (c # cs)"
    and sorted: "cells_sorted s (c # cs)" and lt: "key_cmp s (c_key c) (c_key e) = LT"
  shows "versions (c_key e) (c # cs) = []"
proof -
  note o = key_order [OF s]
  have k: "key_rep (c_key e)" "key_rep (c_key c)" using e cs by (simp_all add: cell_ok_def)
  have "\<not> same_cell_key d e" if d: "d \<in> set (c # cs)" for d
  proof
    assume same: "same_cell_key d e"
    have okd: "cell_ok d" using d cs by (auto simp: list_all_iff)
    then have "cle s c e"
      using d sorted same cle_trans [OF s _ okd e, of c] cle_same [OF s okd e same] cs
      by (auto simp: cells_sorted_def)
    then show False using lt by (simp add: cle_def)
  qed
  then show ?thesis by (auto simp: versions_def filter_empty_conv)
qed

lemma versions_Cons [simp]:
  "versions k [] = []"
  "versions k (c # cs) = (if same_key (c_key c) k then c # versions k cs else versions k cs)"
  "versions k (cs @ ds) = versions k cs @ versions k ds"
  by (simp_all add: versions_def)

lemma not_expired_0 [simp]: "\<not> has_expired now c 0"
  by (simp add: has_expired_def)

lemma cells_sorted_Cons: "cells_sorted s (c # cs) \<Longrightarrow> cells_sorted s cs"
  by (simp add: cells_sorted_def)

lemma same_copy: "cell_ok e \<Longrightarrow> same_cell_key (Cell_of e) e" "cell_ok e \<Longrightarrow> same_cell_key (cell_copy c e nv) e"
  using Cell_of_ok by blast+

lemma put_last_eq: "put_last m e off = Inr (m_add m (Cell_of e), [Cell_of e], off)"
  by (simp add: put_last_def put_before_def Cell_of_no_value_False)

lemma add_plain_single_versions:
  assumes "add_plain_single now e m cs off = Inr (m', cs', off')"
    and "m_seq m \<noteq> UNKNOWN" "m_ttl m = 0" "cell_ok e" "list_all cell_ok cs" "cells_sorted (m_seq m) cs"
    and "list_all (\<lambda>c. \<not> removal c) cs"
  shows "map content (versions (c_key e) cs')
    = (case versions (c_key e) cs of
         [] \<Rightarrow> [content e]
       | c # vs \<Rightarrow> (if supersedes e c then content e else content c) # map content vs)"
  using assms
proof (induction cs arbitrary: m m' cs' off off')
  case Nil
  then show ?case by (auto simp: put_last_eq same_copy)
next
  case (Cons c cs)
  have ok: "cell_ok c" "list_all cell_ok cs" using Cons.prems by auto
  have ttl: "\<not> has_expired now c (m_ttl m)" using Cons.prems by simp
  from Cons.prems(2) ok(1) Cons.prems(4) show ?case
  proof (cases rule: compare_cells)
    case before
    have "\<not> same_cell_key c e"
    proof
      assume "same_cell_key c e"
      then have "key_cmp (m_seq m) (c_key c) (c_key e) = EQ"
        using comp_order.cmp_same [OF key_order [OF Cons.prems(2)]] ok(1) Cons.prems(4)
        by (simp add: cell_ok_def)
      then show False using before(1) by (simp add: key_cmp_def)
    qed
    moreover obtain m'' cs'' off'' where r: "add_plain_single now e m cs (Suc off) = Inr (m'', cs'', off'')"
      and cs': "cs' = c # cs''"
      using Cons.prems(1) before(1) ttl by (auto simp: pass_def)
    moreover have "cells_sorted (m_seq m) cs" using Cons.prems(6) by (rule cells_sorted_Cons)
    ultimately show ?thesis using Cons.IH [OF r] Cons.prems by simp
  next
    case after
    have "key_cmp (m_seq m) (c_key c) (c_key e) = LT" using after(1) by (simp add: key_cmp_def)
    then have none: "versions (c_key e) (c # cs) = []"
      using no_versions_after Cons.prems by blast
    have "cs' = Cell_of e # c # cs" using Cons.prems(1) after(1) ttl by (simp add: put_before_def)
    then show ?thesis using none same_copy(1) [OF Cons.prems(4)]
      by (simp del: versions_Cons(2) add: versions_Cons(2) [of _ "Cell_of e"])
  next
    case same
    have nr: "\<not> removal c" using Cons.prems by simp
    show ?thesis
    proof (cases "supersedes e c")
      case True
      then have "cs' = cell_copy c e False # cs"
        using Cons.prems(1) same ttl nr by (auto simp: supersedes_def adjust_copy_def Let_def)
      then show ?thesis using True same(2) same_copy(2) [OF Cons.prems(4)] by simp
    next
      case False
      then have "cs' = c # cs"
        using Cons.prems(1) same ttl nr by (auto simp: supersedes_def Let_def)
      then show ?thesis using False same(2) by simp
    qed
  qed
qed

section \<open>One version: the latest revision wins\<close>

lemma removal_copies [simp]:
  "removal (Cell_of e) \<longleftrightarrow> removal e" "removal (cell_copy c e nv) \<longleftrightarrow> removal e"
  by (simp_all add: removal_def Cell_of_def cell_copy_def set_value_def cell_free_def Let_def)

lemma add_plain_single_values:
  "add_plain_single now e m cs off = Inr (m', cs', off') \<Longrightarrow> \<not> removal e \<Longrightarrow>
    list_all (\<lambda>c. \<not> removal c) cs \<Longrightarrow> list_all (\<lambda>c. \<not> removal c) cs'"
proof (induction now e m cs off arbitrary: m' cs' off' rule: add_plain_single.induct)
  case (1 now e m off)
  then show ?case by (auto simp: put_last_eq)
next
  case (2 now e m c cs off)
  then show ?case
    by (fastforce simp: pass_def put_before_def adjust_copy_def Let_def split: if_splits)
qed

lemma add_plain_single_as_raw:
  assumes "\<not> removal e" "\<not> is_counter (m_type m)" "m_max_revs m = 1"
    and "add_raw now e m off finalized = Some (Inr (m', off'))"
    and m: "container_ok m" and e: "cell_ok e"
  obtains pos m1 cs' off1 where "place_ok m (c_key e) pos"
    "add_plain_single now e m (drop pos (m_cells m)) off1 = Inr (m1, cs', off')"
    "m_cells m' = take pos (m_cells m) @ cs'"
proof -
  have k: "key_rep (c_key e)" using e by (simp add: cell_ok_def)
  obtain pos off1 where g: "m_get m (c_key e) off = Some (Inr (pos, off1))" "place_ok m (c_key e) pos"
    using m_get_returns [OF m k, of off] assms(3) by auto
  then show ?thesis
    using assms(1-4) that by (fastforce simp: add_raw_def add_raw_at_def add_at_def)
qed

lemma versions_before_place:
  assumes m: "container_ok m" and e: "cell_ok e" and p: "place_ok m (c_key e) pos"
  shows "versions (c_key e) (take pos (m_cells m)) = []"
proof -
  have s: "m_seq m \<noteq> UNKNOWN" and ok: "list_all cell_ok (m_cells m)" using m by (simp_all add: container_ok_def)
  have "\<not> same_cell_key c e" if c: "c \<in> set (take pos (m_cells m))" for c
  proof
    assume same: "same_cell_key c e"
    have "key_rep (c_key c)" "key_rep (c_key e)"
      using in_set_takeD [OF c] ok e by (auto simp: list_all_iff cell_ok_def)
    then have "key_cmp (m_seq m) (c_key c) (c_key e) = EQ"
      using comp_order.cmp_same [OF key_order [OF s]] same by blast
    then show False using p c by (auto simp: place_ok_def)
  qed
  then show ?thesis by (auto simp: versions_def filter_empty_conv)
qed

text \<open>The state the abstract view keeps for a key, and its step.\<close>

definition keeps :: "cell option \<Rightarrow> cell list \<Rightarrow> bool" where
  "keeps w vs \<longleftrightarrow> map content vs = (case w of None \<Rightarrow> [] | Some c \<Rightarrow> [content c])"

definition keep_latest :: "cell \<Rightarrow> cell option \<Rightarrow> cell option" where
  "keep_latest e w = (case w of None \<Rightarrow> Some e | Some c \<Rightarrow> if supersedes e c then Some e else Some c)"

lemma versions_other:
  assumes "\<not> same_key (c_key e) k" and "others now ttl_ns e cs' = others now ttl_ns e cs" and "ttl_ns = 0"
  shows "versions k cs' = versions k cs"
proof -
  have ne: "\<not> same_cell_key c e" if "same_key (c_key c) k" for c
    using that assms(1) unfolding same_key_def by argo
  have "versions k (others now ttl_ns e cs) = versions k cs" for cs
    unfolding versions_def others_def filter_filter assms(3) by (intro filter_cong) (auto dest: ne)
  then show ?thesis using assms(2) by metis
qed

lemma content_supersedes: "content c = content d \<Longrightarrow> supersedes e c \<longleftrightarrow> supersedes e d"
  by (simp add: content_def supersedes_def)

lemma add_raw_latest:
  assumes m: "container_ok m" and e: "cell_ok e" "\<not> removal e"
    and conf: "\<not> is_counter (m_type m)" "m_max_revs m = 1" "m_ttl m = 0"
    and vs: "list_all (\<lambda>c. \<not> removal c) (m_cells m)"
    and r: "add_raw now e m off finalized = Some (Inr (m', off'))"
    and oth: "others now (m_ttl m) e (m_cells m') = others now (m_ttl m) e (m_cells m)"
    and w: "keeps w (versions k (m_cells m))"
  shows "list_all (\<lambda>c. \<not> removal c) (m_cells m')"
    and "keeps (if same_key (c_key e) k then keep_latest e w else w) (versions k (m_cells m'))"
proof -
  obtain pos m1 cs' off1 where p: "place_ok m (c_key e) pos"
    and s: "add_plain_single now e m (drop pos (m_cells m)) off1 = Inr (m1, cs', off')"
    and m': "m_cells m' = take pos (m_cells m) @ cs'"
    by (rule add_plain_single_as_raw [OF e(2) conf(1,2) r m e(1)])
  have vals: "list_all (\<lambda>c. \<not> removal c) (take pos (m_cells m))" "list_all (\<lambda>c. \<not> removal c) (drop pos (m_cells m))"
    using list_all_takeI [OF vs] by blast+
  then show "list_all (\<lambda>c. \<not> removal c) (m_cells m')"
    using add_plain_single_values [OF s e(2)] m' by simp
  show "keeps (if same_key (c_key e) k then keep_latest e w else w) (versions k (m_cells m'))"
  proof (cases "same_key (c_key e) k")
    case False
    then show ?thesis using versions_other [OF False oth conf(3)] w by simp
  next
    case True
    have vk: "versions k cs = versions (c_key e) cs" for cs
      using True unfolding versions_def by (intro filter_cong) (auto simp: same_key_def)
    note none = versions_before_place [OF m e(1) p]
    have "versions (c_key e) (take pos (m_cells m) @ drop pos (m_cells m)) = versions (c_key e) (drop pos (m_cells m))"
      using none by (simp only: versions_Cons append_Nil)
    then have old: "versions k (m_cells m) = versions (c_key e) (drop pos (m_cells m))" by (simp add: vk)
    have new: "versions k (m_cells m') = versions (c_key e) cs'" using none m' by (simp add: vk)
    have "m_seq m \<noteq> UNKNOWN" "list_all cell_ok (drop pos (m_cells m))" "cells_sorted (m_seq m) (drop pos (m_cells m))"
      using m list_all_takeI cells_sorted_drop by (auto simp: container_ok_def)
    from add_plain_single_versions [OF s this(1) conf(3) e(1) this(2,3) vals(2)]
    show ?thesis using True w unfolding old new keeps_def keep_latest_def
      by (auto split: list.splits option.splits dest: content_supersedes)
  qed
qed

lemma latest_from_step:
  "latest_from w k (e # es) = latest_from (if same_key (c_key e) k then keep_latest e w else w) k es"
  by (simp add: keep_latest_def)

declare latest_from.simps(2) [simp del]

lemma add_raw_list_latest_from:
  assumes "container_ok m" "list_all (\<lambda>e. cell_ok e \<and> \<not> removal e) es"
    and "\<not> is_counter (m_type m)" "m_max_revs m = 1" "m_ttl m = 0"
    and "list_all (\<lambda>c. \<not> removal c) (m_cells m)"
    and "\<forall>k. keeps (w k) (versions k (m_cells m))"
  shows "\<exists>m'. add_raw_list now finalized m off es = Some (Inr m') \<and>
    (\<forall>k. keeps (latest_from (w k) k es) (versions k (m_cells m')))"
  using assms
proof (induction es arbitrary: m off w)
  case (Cons e es)
  have e: "cell_ok e" "\<not> removal e" using Cons.prems(2) by auto
  have "addable m e finalized" "searchable m"
    using Cons.prems e by (simp_all add: addable_def searchable_def)
  from add_raw_edits [OF Cons.prems(1) this, of now off]
  obtain m1 off1 where r: "add_raw now e m off finalized = Some (Inr (m1, off1))" and ok: "container_ok m1"
    and ed: "edits now e m (m_cells m) (m1\<lparr>m_cells := m_cells m\<rparr>) (m_cells m1)" by blast
  note st = add_raw_latest [OF Cons.prems(1) e Cons.prems(3-6) r edits_others [OF ed]]
  have conf: "\<not> is_counter (m_type m1)" "m_max_revs m1 = 1" "m_ttl m1 = 0"
    using edits_setup [OF ed] Cons.prems by (simp_all add: same_setup_def)
  have vals: "list_all (\<lambda>c. \<not> removal c) (m_cells m1)"
    using st(1) Cons.prems(7) by blast
  have "\<forall>k. keeps (if same_key (c_key e) k then keep_latest e (w k) else w k) (versions k (m_cells m1))"
    using st(2) Cons.prems(7) by blast
  from Cons.IH [OF ok _ conf vals this, of off1] Cons.prems(2) r show ?case
    by (simp add: latest_from_step)
qed simp



section \<open>The number of versions\<close>

text \<open>The versions of a key, and the bound on them.\<close>

definition inserts :: "key \<Rightarrow> cell list \<Rightarrow> nat" where
  "inserts k cs = length (filter (\<lambda>c. \<not> removal c) (versions k cs))"

definition bounded :: "nat \<Rightarrow> cell list \<Rightarrow> bool" where
  "bounded n cs \<longleftrightarrow> (\<forall>k. inserts k cs \<le> n)"

lemma inserts_simps [simp]:
  "inserts k [] = 0"
  "inserts k (c # cs) = (if same_key (c_key c) k \<and> \<not> removal c then Suc (inserts k cs) else inserts k cs)"
  "inserts k (cs @ ds) = inserts k cs + inserts k ds"
  by (simp_all add: inserts_def)

lemma inserts_none: "versions k cs = [] \<Longrightarrow> inserts k cs = 0"
  by (simp add: inserts_def)

lemma edits_inserts_other:
  "edits now e m cs m' cs' \<Longrightarrow> \<not> same_key (c_key e) k \<Longrightarrow> inserts k cs' \<le> inserts k cs"
proof (induction rule: edits.induct)
  case (edits_put cs m n m' cs')
  then have "\<not> same_key (c_key n) k" by (metis same_key_left same_key_sym)
  with edits_put show ?case by simp
qed auto

lemma unat_next: "unat (r :: u32) + n < 2 ^ 32 \<Longrightarrow> 0 < n \<Longrightarrow> unat (r + 1) = Suc (unat r)"
  by (simp add: unat_word_ariths(1))

lemma remove_overhead_inserts:
  assumes "remove_overhead k revs m cs = (m', kept, rest)" and "key_rep k" "list_all cell_ok cs"
    and "unat revs + length cs < 2 ^ 32"
  shows "inserts k kept \<le> unat (m_max_revs m) - unat revs \<and>
    (\<exists>gone. cs = gone @ rest) \<and> (rest = [] \<or> \<not> same_key (c_key (hd rest)) k)"
  using assms
proof (induction k revs m cs arbitrary: m' kept rest rule: remove_overhead.induct)
  case (2 k revs m c cs)
  have key: "key_equal k (c_key c) \<longleftrightarrow> same_key (c_key c) k"
    using "2.prems" by (simp add: cell_ok_def key_equal_same_key same_key_sym [of k])
  have ok: "list_all cell_ok cs" using "2.prems"(3) by simp
  have inc: "unat (revs + 1) = Suc (unat revs)"
    using "2.prems"(4) by (intro unat_next [of _ "length (c # cs)"]) simp_all
  then have small: "unat (revs + 1) + length cs < 2 ^ 32" "unat revs + length cs < 2 ^ 32"
    using "2.prems"(4) by simp_all
  show ?case
  proof (cases "same_key (c_key c) k")
    case False
    then show ?thesis using "2.prems"(1) key by (auto intro: exI [of _ "[]"])
  next
    case same: True
    consider (drop) "c_flag c = INSERT" "m_max_revs m < revs + 1"
      | (keep) "c_flag c = INSERT" "\<not> m_max_revs m < revs + 1" | (other) "c_flag c \<noteq> INSERT" by blast
    then show ?thesis
    proof cases
      case drop
      then have "remove_overhead k (revs + 1) (m_remove m c) cs = (m', kept, rest)"
        using "2.prems"(1) key same by simp
      from "2.IH"(1) [OF _ drop this "2.prems"(2) ok small(1)] key same inc show ?thesis
        by (auto intro: exI [of _ "c # _"])
    next
      case keep
      then obtain kept1 where r: "remove_overhead k (revs + 1) m cs = (m', kept1, rest)" and k1: "kept = c # kept1"
        using "2.prems"(1) key same by (auto split: prod.splits)
      have "unat revs < unat (m_max_revs m)" using keep(2) inc by (simp add: word_less_nat_alt)
      with "2.IH"(2) [OF _ keep r "2.prems"(2) ok small(1)] key same inc k1 keep(1) show ?thesis
        by (auto simp: removal_def intro: exI [of _ "c # _"])
    next
      case other
      then obtain kept1 where r: "remove_overhead k revs m cs = (m', kept1, rest)" and k1: "kept = c # kept1"
        using "2.prems"(1) key same by (auto split: prod.splits)
      from "2.IH"(3) [OF _ other r "2.prems"(2) ok small(2)] key same k1 other show ?thesis
        by (auto simp: removal_def intro: exI [of _ "c # _"])
    qed
  qed
qed simp

lemma add_plain_multi_same:
  assumes "add_plain_multi now e revs m (c # cs) off = Inr (m', cs', off')"
    and "key_compare (m_seq m) (c_key c) (c_key e) = Inr EQ" "\<not> has_expired now c (m_ttl m)"
  obtains (stay) "cs' = c # cs"
    | (replace) "\<not> removal c" "cs' = cell_copy c e False # cs"
    | (over) cs'' where "removal c" "add_plain_multi now e revs m cs off = Inr (m', cs'', off')" "cs' = c # cs''"
    | (onward) cs'' where "\<not> removal c" "m_max_revs m \<noteq> revs + 1"
        "add_plain_multi now e (revs + 1) m cs off = Inr (m', cs'', off')" "cs' = c # cs''"
    | (put) kept rest where "\<not> removal c" "m_max_revs m \<noteq> revs + 1"
        "remove_overhead (c_key e) (revs + 1) (m_add m (Cell_of e)) (c # cs) = (m', kept, rest)"
        "cs' = Cell_of e # kept @ rest"
proof -
  have "cs' = c # cs \<or> (\<not> removal c \<and> cs' = cell_copy c e False # cs) \<or>
    (\<exists>cs''. removal c \<and> add_plain_multi now e revs m cs off = Inr (m', cs'', off') \<and> cs' = c # cs'') \<or>
    (\<exists>cs''. \<not> removal c \<and> m_max_revs m \<noteq> revs + 1 \<and>
        add_plain_multi now e (revs + 1) m cs off = Inr (m', cs'', off') \<and> cs' = c # cs'') \<or>
    (\<exists>kept rest. \<not> removal c \<and> m_max_revs m \<noteq> revs + 1 \<and>
        remove_overhead (c_key e) (revs + 1) (m_add m (Cell_of e)) (c # cs) = (m', kept, rest) \<and>
        cs' = Cell_of e # kept @ rest)"
    using assms
    by (simp add: Let_def adjust_copy_def pass_def res_bind_Inr_iff del: remove_overhead.simps
        split: if_split_asm prod.split_asm) (auto simp del: remove_overhead.simps)
  then show thesis using that by metis
qed

lemma no_versions_behind:
  assumes s: "s \<noteq> UNKNOWN" and e: "cell_ok e" and cs: "list_all cell_ok (c # cs)" and so: "cells_sorted s (c # cs)"
    and same: "same_cell_key c e" and split: "c # cs = gone @ rest"
    and h: "rest = [] \<or> \<not> same_key (c_key (hd rest)) (c_key e)"
  shows "versions (c_key e) rest = []"
proof (cases rest)
  case (Cons d ds)
  have sub: "set (d # ds) \<subseteq> set (c # cs)" unfolding split Cons by auto
  then have ok: "cell_ok c" "cell_ok d" "list_all cell_ok (d # ds)"
    using cs unfolding list_all_iff by auto
  have "d \<noteq> c" using h same Cons by auto
  then have "d \<in> set cs" using sub by auto
  then have "cle s c d" using so by (simp add: cells_sorted_def)
  then have "cle s e d" using cle_trans [OF s e ok(1,2)] cle_same(2) [OF s ok(1) e same] by blast
  then have "\<not> cle s d e" using cle_antisym [OF s ok(2) e] h Cons by auto
  then have "key_cmp s (c_key d) (c_key e) = LT" by (simp add: cle_def)
  moreover have "cells_sorted s (d # ds)" using so unfolding split Cons cells_sorted_def sorted_wrt_append by blast
  ultimately show ?thesis using no_versions_after [OF s e ok(3)] Cons by blast
qed simp

lemma add_plain_multi_inserts:
  assumes "add_plain_multi now e revs m cs off = Inr (m', cs', off')"
    and "m_seq m \<noteq> UNKNOWN" "cell_ok e" "\<not> removal e" "list_all cell_ok cs" "cells_sorted (m_seq m) cs"
    and "unat revs < unat (m_max_revs m)" "unat revs + inserts (c_key e) cs \<le> unat (m_max_revs m)"
    and "unat revs + length cs + 2 < 2 ^ 32"
  shows "unat revs + inserts (c_key e) cs' \<le> unat (m_max_revs m)"
  using assms
proof (induction cs arbitrary: m m' revs cs' off off')
  case Nil
  then show ?case by (auto simp: put_last_eq same_copy)
next
  case (Cons c cs)
  note p = Cons.prems
  have ok: "cell_ok c" "list_all cell_ok cs" using p(5) by auto
  have sorted: "cells_sorted (m_seq m) cs" using p(6) by (rule cells_sorted_Cons)
  have kr: "key_rep (c_key e)" using p(3) by (simp add: cell_ok_def)
  have len: "unat revs + length cs + 2 < 2 ^ 32" using p(9) by simp
  have ic: "inserts (c_key e) cs \<le> inserts (c_key e) (c # cs)" by simp
  show ?case
  proof (cases "has_expired now c (m_ttl m)")
    case True
    then have "add_plain_multi now e revs (m_remove m c) cs off = Inr (m', cs', off')" using p(1) by simp
    from Cons.IH [OF this] p ok sorted len ic show ?thesis by simp
  next
    case nexp: False
    from p(2) ok(1) p(3) show ?thesis
    proof (cases rule: compare_cells)
      case before
      have ns: "\<not> same_cell_key c e"
        using before(1) p(2) ok(1) p(3) comp_order.cmp_same [OF key_order [OF p(2)], of "c_key c" "c_key e"]
        by (auto simp: cell_ok_def key_cmp_def)
      obtain cs'' where r: "add_plain_multi now e revs m cs (Suc off) = Inr (m', cs'', off')" and "cs' = c # cs''"
        using p(1) before(1) nexp by (auto simp: pass_def)
      then show ?thesis using Cons.IH [OF r p(2-4) ok(2) sorted p(7) _ len] ns p(8) by simp
    next
      case after
      have "key_cmp (m_seq m) (c_key c) (c_key e) = LT" using after(1) by (simp add: key_cmp_def)
      then have "inserts (c_key e) (c # cs) = 0"
        using no_versions_after [OF p(2,3,5,6)] by (intro inserts_none)
      moreover have "cs' = Cell_of e # c # cs" using p(1) after(1) nexp by (simp add: put_before_def)
      ultimately show ?thesis using p(4,7) same_copy(1) [OF p(3)] by simp
    next
      case same
      from p(1) same(1) nexp show ?thesis
      proof (cases rule: add_plain_multi_same)
        case stay
        then show ?thesis using p(8) by simp
      next
        case replace
        then show ?thesis using p(4,8) same(2) same_copy(2) [OF p(3)] by simp
      next
        case (over cs'')
        then show ?thesis using Cons.IH [OF over(2) p(2-4) ok(2) sorted p(7) _ len] p(8) by simp
      next
        case (onward cs'')
        have i: "unat (revs + 1) = Suc (unat revs)" using p(9) by (intro unat_next [of _ 2]) simp_all
        have "unat (revs + 1) \<noteq> unat (m_max_revs m)" using onward(2) by (metis word_unat_eq_iff)
        then have "unat (revs + 1) < unat (m_max_revs m)" using i p(7) by simp
        moreover have "unat (revs + 1) + inserts (c_key e) cs \<le> unat (m_max_revs m)"
          using p(8) same(2) onward(1) i by simp
        moreover have "unat (revs + 1) + length cs + 2 < 2 ^ 32" using p(9) i by simp
        ultimately have "unat (revs + 1) + inserts (c_key e) cs'' \<le> unat (m_max_revs m)"
          using Cons.IH [OF onward(3) p(2-4) ok(2) sorted] by blast
        then show ?thesis using onward(1,4) same(2) i by simp
      next
        case (put kept rest)
        have i: "unat (revs + 1) = Suc (unat revs)" using p(9) by (intro unat_next [of _ 2]) simp_all
        have "unat (revs + 1) + length (c # cs) < 2 ^ 32" using p(9) i by simp
        from remove_overhead_inserts [OF put(3) kr p(5) this]
        obtain gone where k: "inserts (c_key e) kept \<le> unat (m_max_revs m) - unat (revs + 1)"
          and g: "c # cs = gone @ rest" and h: "rest = [] \<or> \<not> same_key (c_key (hd rest)) (c_key e)" by auto
        have "inserts (c_key e) rest = 0"
          using no_versions_behind [OF p(2,3,5,6) same(2) g h] by (rule inserts_none)
        then show ?thesis using put(4) k i p(4,7) same_copy(1) [OF p(3)] by simp
      qed
    qed
  qed
qed

lemma copy_removal: "removal e \<Longrightarrow> inserts k (Cell_of e # cs) = inserts k cs"
  by simp

lemma add_remove_inserts:
  "add_remove now e m cs off = Inr (m', cs', off') \<Longrightarrow> removal e \<Longrightarrow> inserts k cs' \<le> inserts k cs"
proof (induction cs arbitrary: m m' cs' off off')
  case (Cons c cs)
  have IH: "inserts k cs'' \<le> inserts k (c # cs) \<and> inserts k (c # cs'') \<le> inserts k (c # cs)"
    if "add_remove now e m1 cs o1 = Inr (m2, cs'', o2)" for m1 o1 m2 cs'' o2
    using Cons.IH [OF that Cons.prems(2)] by simp
  have "cs' = c # cs \<or> cs' = Cell_of e # c # cs \<or>
      (\<exists>m1 o1. add_remove now e m1 cs o1 = Inr (m', cs', off')) \<or>
      (\<exists>m1 o1 cs''. add_remove now e m1 cs o1 = Inr (m', cs'', off') \<and> cs' = c # cs'')"
    using Cons.prems(1) by (auto simp: pass_def put_before_def Let_def split: if_splits)
  then show ?case using IH Cons.prems(2) by (elim disjE exE conjE) (simp_all del: inserts_simps(2) add: copy_removal)
qed (simp add: put_last_eq)


lemma add_plain_single_inserts:
  assumes "add_plain_single now e m cs off = Inr (m', cs', off')"
    and "m_seq m \<noteq> UNKNOWN" "cell_ok e" "\<not> removal e" "list_all cell_ok cs" "cells_sorted (m_seq m) cs"
    and "inserts (c_key e) cs \<le> 1"
  shows "inserts (c_key e) cs' \<le> 1"
  using assms
proof (induction cs arbitrary: m m' cs' off off')
  case Nil
  then show ?case by (auto simp: put_last_eq same_copy)
next
  case (Cons c cs)
  note p = Cons.prems
  have ok: "cell_ok c" "list_all cell_ok cs" using p(5) by auto
  have sorted: "cells_sorted (m_seq m) cs" using p(6) by (rule cells_sorted_Cons)
  have ic: "inserts (c_key e) cs \<le> 1" using p(7) by (simp split: if_splits)
  note IH = Cons.IH [OF _ _ p(3,4) ok(2)]
  show ?case
  proof (cases "has_expired now c (m_ttl m)")
    case True
    then have "add_plain_single now e (m_remove m c) cs off = Inr (m', cs', off')" using p(1) by simp
    from IH [OF this] p(2) sorted ic show ?thesis by simp
  next
    case nexp: False
    from p(2) ok(1) p(3) show ?thesis
    proof (cases rule: compare_cells)
      case before
      obtain cs'' where r: "add_plain_single now e m cs (Suc off) = Inr (m', cs'', off')" and "cs' = c # cs''"
        using p(1) before(1) nexp by (auto simp: pass_def)
      moreover have "\<not> same_cell_key c e"
        using before(1) p(2) ok(1) p(3) comp_order.cmp_same [OF key_order [OF p(2)], of "c_key c" "c_key e"]
        by (auto simp: cell_ok_def key_cmp_def)
      ultimately show ?thesis using IH [OF r p(2) sorted ic] by simp
    next
      case after
      have "key_cmp (m_seq m) (c_key c) (c_key e) = LT" using after(1) by (simp add: key_cmp_def)
      then have "inserts (c_key e) (c # cs) = 0"
        using no_versions_after [OF p(2,3,5,6)] by (intro inserts_none)
      moreover have "cs' = Cell_of e # c # cs" using p(1) after(1) nexp by (simp add: put_before_def)
      ultimately show ?thesis using same_copy(1) [OF p(3)] by simp
    next
      case same
      have "cs' = c # cs \<or> (\<not> removal c \<and> cs' = cell_copy c e False # cs) \<or>
          (\<exists>cs''. removal c \<and> add_plain_single now e m cs off = Inr (m', cs'', off') \<and> cs' = c # cs'')"
        using p(1) same(1) nexp by (auto simp: pass_def adjust_copy_def Let_def split: if_splits)
      then show ?thesis
        using p(4,7) same(2) same_copy(2) [OF p(3)] IH [OF _ p(2) sorted ic] by auto
    qed
  qed
qed

lemma add_at_inserts:
  assumes "add_at now e m cs off finalized = Inr (m', cs', off')" and "\<not> is_counter (m_type m)"
    and "m_seq m \<noteq> UNKNOWN" "cell_ok e" "list_all cell_ok cs" "cells_sorted (m_seq m) cs"
    and "m_max_revs m \<noteq> 0" "inserts (c_key e) cs \<le> unat (m_max_revs m)" "length cs + 2 < 2 ^ 32"
  shows "inserts (c_key e) cs' \<le> unat (m_max_revs m)"
proof (cases "removal e")
  case True
  then have "add_remove now e m cs off = Inr (m', cs', off')" using assms(1) by (simp add: add_at_def)
  from add_remove_inserts [OF this True, of "c_key e"] assms(8) show ?thesis by simp
next
  case nrem: False
  show ?thesis
  proof (cases "m_max_revs m = 1")
    case True
    then have "add_plain_single now e m cs off = Inr (m', cs', off')" using assms(1,2) nrem by (simp add: add_at_def)
    from add_plain_single_inserts [OF this assms(3,4) nrem assms(5,6)] assms(8) True show ?thesis by simp
  next
    case False
    then have "add_plain_multi now e 0 m cs off = Inr (m', cs', off')" using assms(1,2) nrem by (simp add: add_at_def)
    from add_plain_multi_inserts [OF this assms(3,4) nrem assms(5,6)] assms(7-9) show ?thesis
      by (simp add: unat_gt_0)
  qed
qed

text \<open>C7: In a plain column no key ever has more versions than the schema allows: an addition of any
  cell, of whatever time and revision, leaves the container within the bound.\<close>

theorem versions_stay_bounded:
  assumes m: "container_ok m" and e: "cell_ok e" and conf: "\<not> is_counter (m_type m)" "searchable m"
    and b: "bounded (unat (m_max_revs m)) (m_cells m)" and size: "length (m_cells m) + 2 < 2 ^ 32"
  shows "\<exists>m' off'. add_raw now e m off finalized = Some (Inr (m', off')) \<and>
    bounded (unat (m_max_revs m)) (m_cells m')"
proof -
  have k: "key_rep (c_key e)" using e by (simp add: cell_ok_def)
  have "addable m e finalized" using e conf(1) by (simp add: addable_def)
  from add_raw_edits [OF m this conf(2), of now off]
  obtain m' off' where r: "add_raw now e m off finalized = Some (Inr (m', off'))"
    and ed: "edits now e m (m_cells m) (m'\<lparr>m_cells := m_cells m\<rparr>) (m_cells m')" by blast
  obtain pos off1 where g: "m_get m (c_key e) off = Some (Inr (pos, off1))" and p: "place_ok m (c_key e) pos"
    using m_get_returns [OF m k, of off] conf(2) by (auto simp: searchable_def)
  obtain m1 cs' where a: "add_at now e m (drop pos (m_cells m)) off1 finalized = Inr (m1, cs', off')"
    and m': "m_cells m' = take pos (m_cells m) @ cs'"
    using r g by (fastforce simp: add_raw_def add_raw_at_def)
  have old: "inserts (c_key e) (drop pos (m_cells m)) \<le> unat (m_max_revs m)"
  proof -
    have "inserts (c_key e) (take pos (m_cells m) @ drop pos (m_cells m)) \<le> unat (m_max_revs m)"
      using b by (simp add: bounded_def)
    then show ?thesis by (simp only: inserts_simps)
  qed
  have "m_seq m \<noteq> UNKNOWN" "list_all cell_ok (drop pos (m_cells m))" "cells_sorted (m_seq m) (drop pos (m_cells m))"
    using m list_all_takeI cells_sorted_drop by (auto simp: container_ok_def)
  then have "inserts (c_key e) cs' \<le> unat (m_max_revs m)"
    using add_at_inserts [OF a conf(1) _ e] old conf(2) size by (simp add: searchable_def)
  moreover have "inserts (c_key e) (take pos (m_cells m)) = 0"
    by (intro inserts_none versions_before_place [OF m e p])
  ultimately have same: "inserts (c_key e) (m_cells m') \<le> unat (m_max_revs m)" using m' by simp
  have "inserts k1 (m_cells m') \<le> unat (m_max_revs m)" for k1
  proof (cases "same_key (c_key e) k1")
    case True
    then have "inserts k1 (m_cells m') = inserts (c_key e) (m_cells m')"
      by (simp add: inserts_def versions_def same_key_def)
    then show ?thesis using same by simp
  next
    case False
    have "inserts k1 (m_cells m') \<le> inserts k1 (m_cells m)" using edits_inserts_other [OF ed False] .
    also have "\<dots> \<le> unat (m_max_revs m)" using b by (simp add: bounded_def)
    finally show ?thesis .
  qed
  with r show ?thesis by (auto simp: bounded_def)
qed

theorem versions_stay_bounded_witness:
  "\<exists>m' off'. add_raw 0 (plain_cell [[1]] [7] 9) (replicated 2 2) 0 True = Some (Inr (m', off')) \<and>
    bounded 2 (m_cells m')"
proof -
  have "fits [[1]]" by (simp add: fits_one)
  then have e: "cell_ok (plain_cell [[1]] [7] 9)" using plain_cell_ok [of "[[1]]" "[7]" 9] by simp
  have "bounded 2 (m_cells (replicated 2 2))"
    by (simp add: bounded_def numeral_2_eq_2)
  then have b: "bounded (unat (m_max_revs (replicated 2 2))) (m_cells (replicated 2 2))" by simp
  have t: "\<not> is_counter (m_type (replicated 2 2))"
    unfolding replicated_def add_sorted_all by (simp add: Mutable_new_def)
  have s: "searchable (replicated 2 2)" by (simp add: searchable_def)
  from versions_stay_bounded [OF replicated_ok e t s b, of 0 0 True] show ?thesis by simp
qed

section \<open>Finalized counters\<close>

text \<open>A cell that adds to a counter, its amount, and the amount of all cells of a key.\<close>

definition increment :: "cell \<Rightarrow> bool" where
  "increment c \<longleftrightarrow> (\<exists>opr v. c_value c = counter_value opr v 0 \<and> unat (c_vlen c) = length (c_value c) \<and>
     \<not> has_bit opr OP_EQUAL \<and> \<not> has_bit opr HAVE_REVISION)"

definition amount :: "cell \<Rightarrow> i64" where
  "amount c = (case get_counter_rev c of Inl e \<Rightarrow> 0 | Inr (opr, v, rv) \<Rightarrow> v)"

definition total :: "key \<Rightarrow> cell list \<Rightarrow> i64" where
  "total k cs = sum_list (map amount (versions k cs))"

definition live :: "i64 \<Rightarrow> u64 \<Rightarrow> cell \<Rightarrow> bool" where
  "live now ttl_ns c \<longleftrightarrow> \<not> has_expired now c ttl_ns \<and> \<not> removal c"

definition strictly_sorted :: "KeySeq \<Rightarrow> cell list \<Rightarrow> bool" where
  "strictly_sorted s cs \<longleftrightarrow> sorted_wrt (\<lambda>c d. key_cmp s (c_key c) (c_key d) = GT) cs"

lemma total_simps [simp]:
  "total k [] = 0"
  "total k (c # cs) = (if same_key (c_key c) k then amount c + total k cs else total k cs)"
  by (simp_all add: total_def)

lemma incrementE:
  assumes "increment c"
  obtains opr where "get_counter_rev c = Inr (opr, amount c, TIMESTAMP_NULL)" "\<not> has_bit opr OP_EQUAL"
  using assms get_counter_value(2) [of c] by (fastforce simp: increment_def amount_def)

definition gathered :: "cell \<Rightarrow> counter_agg option \<Rightarrow> i64" where
  "gathered a st = (case st of None \<Rightarrow> amount a | Some g \<Rightarrow> g_value g)"

definition adding :: "counter_agg option \<Rightarrow> bool" where
  "adding st \<longleftrightarrow> (\<forall>g. st = Some g \<longrightarrow> \<not> has_bit (g_op g) OP_EQUAL)"

lemma agg_steps:
  assumes "increment a" "increment c" "adding st"
  obtains g g' where "(case st of None \<Rightarrow> agg_start a | Some g \<Rightarrow> Inr g) = Inr g"
    "agg_step g c = Inr g'" "gathered a (Some g') = gathered a st + amount c" "adding (Some g')"
proof -
  obtain o1 where a: "get_counter_rev a = Inr (o1, amount a, TIMESTAMP_NULL)" "\<not> has_bit o1 OP_EQUAL"
    using assms(1) by (rule incrementE)
  obtain o2 where c: "get_counter_rev c = Inr (o2, amount c, TIMESTAMP_NULL)" "\<not> has_bit o2 OP_EQUAL"
    using assms(2) by (rule incrementE)
  obtain g where g: "(case st of None \<Rightarrow> agg_start a | Some g \<Rightarrow> Inr g) = Inr g"
    and v: "g_value g = gathered a st" "\<not> has_bit (g_op g) OP_EQUAL"
    using a assms(3) by (cases st) (auto simp: agg_start_def gathered_def adding_def)
  then show ?thesis
    using that [OF g] c by (simp add: agg_step_def gathered_def adding_def Let_def)
qed

lemma agg_cell_sums:
  assumes "cell_ok a" "increment a"
  shows "cell_ok (agg_cell COUNTER_I64 a st) \<and> same_cell_key (agg_cell COUNTER_I64 a st) a \<and>
    amount (agg_cell COUNTER_I64 a st) = gathered a st"
proof (cases st)
  case None
  have "c_value (Cell_of a) = c_value a"
    using assms(2) by (auto simp: increment_def Cell_of_def cell_value_def)
  then have "amount (Cell_of a) = amount a" by (simp add: amount_def get_counter_rev_def)
  then show ?thesis using None Cell_of_ok(1) [OF assms(1)]
    by (simp add: agg_cell_def gathered_def Cell_of_no_value_False)
next
  case (Some g)
  let ?c = "Cell_of_no_value a True"
  let ?n = "agg_cell COUNTER_I64 a st"
  obtain c where n: "?n = set_counter c OP_EQUAL (g_value g) COUNTER_I64 TIMESTAMP_NULL"
    and k: "c_key c = c_key ?c"
    using Some by (auto simp: agg_cell_def Let_def set_timestamp_with_rev_is_ts_def set_timestamp_def set_revision_def)
  have ok: "counter_ok ?n" unfolding n by (intro set_counter_ok) (simp add: has_bit_def)
  have "c_key ?n = c_key ?c" unfolding n using k by simp
  then have "same_cell_key ?n a \<and> key_rep (c_key ?n)"
    using Cell_of_ok(2) [OF assms(1), of True] by (simp add: cell_ok_def)
  moreover from this have "cell_ok ?n" using ok by (intro counter_ok_cell) simp_all
  moreover have "amount ?n = g_value g"
  proof -
    have nb: "\<not> has_bit OP_EQUAL HAVE_REVISION" by (simp add: has_bit_def)
    have "c_value ?n = counter_value OP_EQUAL (g_value g) 0"
      unfolding n using nb by (simp add: set_counter_def counter_value_def Let_def)
    then show ?thesis using get_counter_value(2) [of ?n] by (simp add: amount_def)
  qed
  ultimately show ?thesis using Some by (simp add: gathered_def)
qed


text \<open>What a finalized list has of the live cells it came from: their keys, and what they add.\<close>

definition summed :: "KeySeq \<Rightarrow> cell list \<Rightarrow> (key \<Rightarrow> i64) \<Rightarrow> cell list \<Rightarrow> bool" where
  "summed s base f out \<longleftrightarrow> list_all cell_ok out \<and> strictly_sorted s out \<and>
     (\<forall>d \<in> set out. \<exists>c \<in> set base. same_cell_key d c) \<and> (\<forall>c \<in> set base. \<exists>d \<in> set out. same_cell_key d c) \<and>
     (\<forall>k. total k out = f k)"

lemma summed_sum: "summed s base f out \<Longrightarrow> (\<And>k. f k = g k) \<Longrightarrow> summed s base g out"
  by (simp add: summed_def)

lemma summed_more: "summed s (a # base) f out \<Longrightarrow> same_cell_key a c \<Longrightarrow> summed s (a # c # base) f out"
  by (auto simp: summed_def same_key_def)

text \<open>In a list that is sorted strictly a key has one cell.\<close>

lemma strictly_sorted_one:
  assumes "s \<noteq> UNKNOWN" and "list_all cell_ok out" and "strictly_sorted s out" and "d \<in> set out" and "same_key (c_key d) k"
  shows "versions k out = [d]"
  using assms(2-)
proof (induction out)
  case (Cons x out)
  have differ: "\<not> same_cell_key x y" if "y \<in> set out" for y
  proof
    assume "same_cell_key x y"
    moreover have "cell_ok x" "cell_ok y" "key_cmp s (c_key x) (c_key y) = GT"
      using that Cons.prems(1,2) by (auto simp: list_all_iff strictly_sorted_def)
    ultimately show False using comp_order.cmp_same [OF key_order [OF assms(1)], of "c_key x" "c_key y"]
      by (simp add: cell_ok_def)
  qed
  show ?case
  proof (cases "d = x")
    case True
    then have "\<not> same_key (c_key y) k" if "y \<in> set out" for y
      using differ [OF that] Cons.prems(4) by (simp add: same_key_def)
    then have "versions k out = []" by (simp add: versions_def filter_empty_conv)
    then show ?thesis using True Cons.prems(4) by (simp add: versions_def)
  next
    case False
    then have d: "d \<in> set out" using Cons.prems(3) by simp
    then have "\<not> same_key (c_key x) k" using differ [OF d] Cons.prems(4) by (auto simp: same_key_def)
    then show ?thesis using Cons.IH d Cons.prems by (simp add: versions_def strictly_sorted_def)
  qed
qed simp

lemma summed_one:
  "cell_ok a \<Longrightarrow> increment a \<Longrightarrow>
    summed s [a] (\<lambda>k. if same_key (c_key a) k then gathered a st else 0) [agg_cell COUNTER_I64 a st]"
  using agg_cell_sums [of a st] by (auto simp: summed_def strictly_sorted_def same_key_def)

lemma summed_Cons:
  assumes s: "s \<noteq> UNKNOWN" and a: "cell_ok a" "increment a" and sorted: "cells_sorted s (a # c # cs)"
    and ok: "list_all cell_ok (c # cs)" and ne: "\<not> same_cell_key a c"
    and out: "summed s base f out" and base: "set base \<subseteq> set (c # cs)"
  shows "summed s (a # base) (\<lambda>k. (if same_key (c_key a) k then gathered a st else 0) + f k)
    (agg_cell COUNTER_I64 a st # out)"
proof -
  let ?n = "agg_cell COUNTER_I64 a st"
  note n = agg_cell_sums [OF a, of st] and o = key_order [OF s]
  have dom: "cell_ok x \<Longrightarrow> key_rep (c_key x)" for x by (simp add: cell_ok_def)
  have okc: "cell_ok c" using ok by simp
  have "cle s a c" using sorted by (simp add: cells_sorted_def)
  then have ac: "key_cmp s (c_key a) (c_key c) = GT"
    using comp_order.not_LT_iff [OF o dom [OF a(1)] dom [OF okc]] ne by (simp add: cle_def)
  have "key_cmp s (c_key ?n) (c_key d) = GT" if d: "d \<in> set out" for d
  proof -
    obtain x where x: "x \<in> set (c # cs)" "same_cell_key d x" using out d base unfolding summed_def by blast
    have okx: "cell_ok x" "cell_ok d" using x d ok out by (auto simp: summed_def list_all_iff)
    have "x = c \<or> cle s c x" using x sorted by (auto simp: cells_sorted_def)
    then have "key_cmp s (c_key c) (c_key x) = GT \<or> same_cell_key c x"
      using comp_order.not_LT_iff [OF o dom [OF okc] dom [OF okx(1)]] by (auto simp: cle_def same_key_def)
    then have "key_cmp s (c_key a) (c_key x) = GT"
      using ac comp_order.cmp_trans [OF o dom [OF a(1)] dom [OF okc] dom [OF okx(1)]]
        comp_order.cmp_same_right [OF o dom [OF a(1)] dom [OF okc] dom [OF okx(1)]] by blast
    then have "key_cmp s (c_key a) (c_key d) = GT"
      using comp_order.cmp_same_right [OF o dom [OF a(1)] dom [OF okx(1)] dom [OF okx(2)]] x(2) same_key_sym by blast
    then show ?thesis
      using comp_order.cmp_same_left [OF o dom dom dom, of ?n a d] n okx a by blast
  qed
  moreover have "same_key (c_key ?n) k \<longleftrightarrow> same_key (c_key a) k" for k using n by (auto simp: same_key_def)
  ultimately show ?thesis
    using out n by (simp add: summed_def strictly_sorted_def)
qed

definition sums_up :: "KeySeq \<Rightarrow> i64 \<Rightarrow> u64 \<Rightarrow> cell list \<Rightarrow> bool" where
  "sums_up s now ttl_ns cs \<longleftrightarrow> (\<exists>out. finalize_loop now ttl_ns COUNTER_I64 None cs = Inr out \<and>
     summed s (filter (live now ttl_ns) cs) (\<lambda>k. total k (filter (live now ttl_ns) cs)) out)"

definition sums_up_with ::
  "KeySeq \<Rightarrow> i64 \<Rightarrow> u64 \<Rightarrow> cell \<Rightarrow> counter_agg option \<Rightarrow> cell list \<Rightarrow> bool" where
  "sums_up_with s now ttl_ns a st cs \<longleftrightarrow>
     (\<exists>out. finalize_loop now ttl_ns COUNTER_I64 (Some (a, st)) cs = Inr out \<and>
        summed s (a # filter (live now ttl_ns) cs) (\<lambda>k. (if same_key (c_key a) k then gathered a st else 0)
          + total k (filter (live now ttl_ns) cs)) out)"

lemma sums_up_Cons:
  assumes "live now ttl_ns c \<Longrightarrow> sums_up_with s now ttl_ns c None cs" and "sums_up s now ttl_ns cs"
  shows "sums_up s now ttl_ns (c # cs)"
proof (cases "live now ttl_ns c")
  case True
  obtain out where r: "finalize_loop now ttl_ns COUNTER_I64 (Some (c, None)) cs = Inr out"
    and o: "summed s (c # filter (live now ttl_ns) cs) (\<lambda>k. (if same_key (c_key c) k then gathered c None else 0)
      + total k (filter (live now ttl_ns) cs)) out"
    using assms(1) [OF True] by (auto simp: sums_up_with_def)
  have "summed s (filter (live now ttl_ns) (c # cs)) (\<lambda>k. total k (filter (live now ttl_ns) (c # cs))) out"
    using True summed_sum [OF o, of "\<lambda>k. total k (filter (live now ttl_ns) (c # cs))"] by (simp add: gathered_def)
  with r True show ?thesis by (simp add: sums_up_def live_def)
next
  case False
  obtain out where r: "finalize_loop now ttl_ns COUNTER_I64 None cs = Inr out"
    and o: "summed s (filter (live now ttl_ns) cs) (\<lambda>k. total k (filter (live now ttl_ns) cs)) out"
    using assms(2) by (auto simp: sums_up_def)
  have "summed s (filter (live now ttl_ns) (c # cs)) (\<lambda>k. total k (filter (live now ttl_ns) (c # cs))) out"
    using False o by simp
  with r False show ?thesis by (auto simp: sums_up_def live_def)
qed

lemma sums_up_with_Cons:
  assumes s: "s \<noteq> UNKNOWN" and a: "cell_ok a" "increment a" "adding st"
    and sorted: "cells_sorted s (a # c # cs)" and ok: "list_all cell_ok (c # cs)"
    and inc: "live now ttl_ns c \<Longrightarrow> increment c"
    and none: "sums_up s now ttl_ns (c # cs)"
    and some: "\<And>st. adding st \<Longrightarrow> sums_up_with s now ttl_ns a st cs"
  shows "sums_up_with s now ttl_ns a st (c # cs)"
proof (cases "same_cell_key a c")
  case False
  have eq: "\<not> key_equal (c_key a) (c_key c)"
    using a(1) ok False by (simp add: cell_ok_def key_equal_same_key)
  obtain out where r: "finalize_loop now ttl_ns COUNTER_I64 None (c # cs) = Inr out"
    and o: "summed s (filter (live now ttl_ns) (c # cs)) (\<lambda>k. total k (filter (live now ttl_ns) (c # cs))) out"
    using none by (auto simp: sums_up_def)
  have "finalize_loop now ttl_ns COUNTER_I64 (Some (a, st)) (c # cs) = Inr (agg_cell COUNTER_I64 a st # out)"
    using eq r by simp
  moreover have "set (filter (live now ttl_ns) (c # cs)) \<subseteq> set (c # cs)" by auto
  ultimately show ?thesis
    using summed_Cons [OF s a(1,2) sorted ok False o, of st] unfolding sums_up_with_def by blast
next
  case same: True
  have eq: "key_equal (c_key a) (c_key c)"
    using a(1) ok same by (simp add: cell_ok_def key_equal_same_key)
  have sk: "same_key (c_key c) k \<longleftrightarrow> same_key (c_key a) k" for k using same by (auto simp: same_key_def)
  show ?thesis
  proof (cases "live now ttl_ns c")
    case True
    obtain g g' where g: "(case st of None \<Rightarrow> agg_start a | Some g \<Rightarrow> Inr g) = Inr g"
      "agg_step g c = Inr g'" "gathered a (Some g') = gathered a st + amount c" "adding (Some g')"
      using agg_steps [OF a(2) inc [OF True] a(3)] by blast
    obtain out where r: "finalize_loop now ttl_ns COUNTER_I64 (Some (a, Some g')) cs = Inr out"
      and o: "summed s (a # filter (live now ttl_ns) cs) (\<lambda>k. (if same_key (c_key a) k then gathered a (Some g') else 0)
        + total k (filter (live now ttl_ns) cs)) out"
      using some [OF g(4)] by (auto simp: sums_up_with_def)
    have "summed s (a # filter (live now ttl_ns) (c # cs)) (\<lambda>k. (if same_key (c_key a) k then gathered a st else 0)
        + total k (filter (live now ttl_ns) (c # cs))) out"
      using True summed_sum [OF summed_more [OF o same], of "\<lambda>k. (if same_key (c_key a) k then gathered a st else 0)
        + total k (filter (live now ttl_ns) (c # cs))"] by (simp add: g(3) sk)
    with r g(1,2) eq True show ?thesis by (simp add: sums_up_with_def live_def)
  next
    case False
    obtain out where r: "finalize_loop now ttl_ns COUNTER_I64 (Some (a, st)) cs = Inr out"
      and o: "summed s (a # filter (live now ttl_ns) cs) (\<lambda>k. (if same_key (c_key a) k then gathered a st else 0)
        + total k (filter (live now ttl_ns) cs)) out"
      using some [OF a(3)] by (auto simp: sums_up_with_def)
    have "summed s (a # filter (live now ttl_ns) (c # cs)) (\<lambda>k. (if same_key (c_key a) k then gathered a st else 0)
        + total k (filter (live now ttl_ns) (c # cs))) out"
      using False o by simp
    with r eq False show ?thesis by (auto simp: sums_up_with_def live_def)
  qed
qed

lemma finalize_loop_sums:
  assumes s: "s \<noteq> UNKNOWN"
  shows "list_all cell_ok cs \<Longrightarrow> list_all (\<lambda>c. live now ttl_ns c \<longrightarrow> increment c) cs \<Longrightarrow>
    (cells_sorted s cs \<longrightarrow> sums_up s now ttl_ns cs) \<and>
    (\<forall>a st. cell_ok a \<longrightarrow> increment a \<longrightarrow> adding st \<longrightarrow> cells_sorted s (a # cs) \<longrightarrow>
      sums_up_with s now ttl_ns a st cs)"
proof (induction cs)
  case Nil
  then show ?case
    using summed_one by (auto simp: sums_up_def sums_up_with_def) (simp add: summed_def strictly_sorted_def)
next
  case (Cons c cs)
  have p: "cell_ok c" "list_all cell_ok cs" "live now ttl_ns c \<Longrightarrow> increment c"
    "list_all (\<lambda>c. live now ttl_ns c \<longrightarrow> increment c) cs" using Cons.prems by simp_all
  note IH = Cons.IH [OF p(2,4)]
  have none: "sums_up s now ttl_ns (c # cs)" if sorted: "cells_sorted s (c # cs)"
  proof (rule sums_up_Cons)
    show "sums_up s now ttl_ns cs" using IH cells_sorted_Cons [OF sorted] by blast
    assume "live now ttl_ns c"
    moreover have "adding None" by (simp add: adding_def)
    ultimately show "sums_up_with s now ttl_ns c None cs" using IH p(1,3) sorted by blast
  qed
  moreover have "sums_up_with s now ttl_ns a st (c # cs)"
    if a: "cell_ok a" "increment a" "adding st" and sorted: "cells_sorted s (a # c # cs)" for a st
  proof (rule sums_up_with_Cons [OF s a sorted])
    show "sums_up s now ttl_ns (c # cs)" using none cells_sorted_Cons [OF sorted] by blast
    have "cells_sorted s (a # cs)" using sorted by (simp add: cells_sorted_def)
    then show "sums_up_with s now ttl_ns a st1 cs" if "adding st1" for st1 using IH a that by blast
  qed (use p in simp_all)
  ultimately show ?case by blast
qed

text \<open>C8: Finalizing a container of more than one cell of a \<open>COUNTER_I64\<close> column, in which every live cell is an increment
  (a cell is live when it is neither expired nor a removal; an increment has no reset and no revision), leaves
  exactly one cell for every key that has a live one, which holds the sum of what all live cells of the key add,
  also when that is zero, and no cell of any other key. The container stays well-formed, is sorted strictly,
  and keeps its configuration.\<close>

theorem finalize_sums_counters:
  assumes m: "container_ok m" and conf: "m_type m = COUNTER_I64" "1 < m_size m"
    and inc: "list_all (\<lambda>c. live now (m_ttl m) c \<longrightarrow> increment c) (m_cells m)"
  defines "kept \<equiv> filter (live now (m_ttl m)) (m_cells m)"
  shows "\<exists>m'. finalize_raw now m = Inr m' \<and> container_ok m' \<and> same_setup m m' \<and>
    strictly_sorted (m_seq m) (m_cells m') \<and>
    (\<forall>c \<in> set kept. \<exists>d. versions (c_key c) (m_cells m') = [d] \<and> amount d = total (c_key c) kept) \<and>
    (\<forall>d \<in> set (m_cells m'). \<exists>c \<in> set kept. same_cell_key d c) \<and>
    (\<forall>k. total k (m_cells m') = total k kept)"
proof -
  have s: "m_seq m \<noteq> UNKNOWN" and ok: "list_all cell_ok (m_cells m)" and so: "cells_sorted (m_seq m) (m_cells m)"
    using m by (simp_all add: container_ok_def)
  obtain out where r: "finalize_loop now (m_ttl m) COUNTER_I64 None (m_cells m) = Inr out"
    and o: "summed (m_seq m) kept (\<lambda>k. total k kept) out"
    using finalize_loop_sums [OF s ok inc] so by (auto simp: sums_up_def kept_def)
  let ?m = "fold (\<lambda>c m. add_sorted m c) out (m_free m)"
  have "finalize_raw now m = Inr ?m" using r conf by (simp add: finalize_raw_def)
  moreover have sorted: "cells_sorted (m_seq m) out"
    using o sorted_wrt_mono_rel [of out "\<lambda>c d. key_cmp (m_seq m) (c_key c) (c_key d) = GT" "cle (m_seq m)"]
    by (simp add: summed_def strictly_sorted_def cells_sorted_def cle_def)
  moreover have "container_ok ?m"
    using sorted o s unfolding container_ok_def add_sorted_all by (simp add: m_free_def summed_def)
  moreover have "same_setup m ?m" unfolding same_setup_def add_sorted_all by (simp add: m_free_def)
  moreover have "m_cells ?m = out" unfolding add_sorted_all by (simp add: m_free_def)
  moreover have "\<exists>d. versions (c_key c) out = [d] \<and> amount d = total (c_key c) kept" if c: "c \<in> set kept" for c
  proof -
    obtain d where "d \<in> set out" "same_cell_key d c" using o c by (auto simp: summed_def)
    then have one: "versions (c_key c) out = [d]" using o by (intro strictly_sorted_one [OF s]) (simp_all add: summed_def)
    moreover have "total (c_key c) out = total (c_key c) kept" using o by (simp add: summed_def)
    ultimately show ?thesis by (simp add: total_def)
  qed
  ultimately show ?thesis using o by (intro exI [of _ ?m]) (simp add: summed_def)
qed


text \<open>Two increments of a counter.\<close>

definition count_cell :: "bytes list \<Rightarrow> i64 \<Rightarrow> i64 \<Rightarrow> cell" where
  "count_cell fs v ts = set_counter (plain_cell fs [] ts) 0 v COUNTER_I64 TIMESTAMP_NULL"

lemma count_cell_ok: "fits fs \<Longrightarrow> cell_ok (count_cell fs v ts) \<and> increment (count_cell fs v ts)"
proof -
  assume f: "fits fs"
  let ?c = "count_cell fs v ts"
  have b: "\<not> has_bit 0 b" for b by (simp add: has_bit_def)
  have k: "c_key ?c = c_key (plain_cell fs [] ts)" by (simp add: count_cell_def)
  have "counter_ok ?c" unfolding count_cell_def by (intro set_counter_ok) (simp add: b)
  moreover have "key_rep (c_key ?c)" using plain_cell_ok [OF f, of "[]" ts] k by (simp add: cell_ok_def)
  moreover have v: "c_value ?c = counter_value 0 v 0"
    by (simp add: count_cell_def set_counter_def counter_value_def b Let_def)
  moreover have "unat (c_vlen ?c) = length (c_value ?c)"
    using \<open>counter_ok ?c\<close> by (auto simp: counter_ok_def)
  ultimately show ?thesis using counter_ok_cell b by (auto simp: increment_def)
qed

theorem finalize_sums_counters_witness:
  "\<exists>m' d. finalize_raw 0 (fold (\<lambda>c m. add_sorted m c) [count_cell [[1]] 3 5, count_cell [[1]] (- 3) 6]
        (Mutable_new LEXIC 1 0 COUNTER_I64)) = Inr m' \<and>
      container_ok m' \<and> versions (key_of True [[1]]) (m_cells m') = [d] \<and> amount d = 0"
proof -
  let ?cs = "[count_cell [[1]] 3 5, count_cell [[1]] (- 3) 6]"
  let ?m = "fold (\<lambda>c m. add_sorted m c) ?cs (Mutable_new LEXIC 1 0 COUNTER_I64)"
  have f: "fits [[1]]" by (simp add: fits_one)
  have "list_all cell_ok ?cs" using count_cell_ok [OF f] by simp
  moreover have "cells_sorted LEXIC ?cs" by code_simp
  ultimately have m: "container_ok ?m"
    unfolding container_ok_def add_sorted_all by (simp add: Mutable_new_def)
  have cs: "m_cells ?m = ?cs" "m_type ?m = COUNTER_I64" "1 < m_size ?m"
    unfolding add_sorted_all by (simp_all add: Mutable_new_def)
  have "list_all (\<lambda>c. live 0 (m_ttl ?m) c \<longrightarrow> increment c) (m_cells ?m)"
    unfolding cs using count_cell_ok [OF f] by simp
  from finalize_sums_counters [OF m cs(2,3) this]
  obtain m' where r: "finalize_raw 0 ?m = Inr m'" "container_ok m'"
    "\<forall>c \<in> set (filter (live 0 (m_ttl ?m)) (m_cells ?m)). \<exists>d. versions (c_key c) (m_cells m') = [d] \<and>
      amount d = total (c_key c) (filter (live 0 (m_ttl ?m)) (m_cells ?m))" by blast
  have kept: "filter (live 0 (m_ttl ?m)) (m_cells ?m) = ?cs" "total (key_of True [[1]]) ?cs = 0"
    "c_key (count_cell [[1]] 3 5) = key_of True [[1]]" by code_simp+
  have "count_cell [[1]] 3 5 \<in> set ?cs" by (simp only: list.set insert_iff simp_thms)
  from r(3) [unfolded kept(1), rule_format, OF this] r(1,2) show ?thesis unfolding kept(2,3) by blast
qed

section \<open>Changing the number of versions\<close>

text \<open>A change of the schema to one version drops a live value that stands behind a delete marker of
  its key, although it is the only version: the marker is counted as one.\<close>

lemma configure_drops_live_version:
  "let del = set_timestamp_with_rev_is_ts (Cell_new\<lparr>c_key := key_of True [[1]], c_flag := DELETE_LE\<rparr>) 3;
       m = fold (\<lambda>c m. add_sorted m c) [del, plain_cell [[1]] [7] 5] (Mutable_new LEXIC 2 0 Col_PLAIN)
   in inserts (key_of True [[1]]) (m_cells m) = 1 \<and>
      m_cells (configure 0 m 1 0 Col_PLAIN True) = [del]"
  by code_simp

end
