(* ===== verification/Vectors_Vector.thy ===== *)
theory Vectors_Vector
  imports Main
begin

text \<open>
  The two-level vector behind the cells container:
  src/src/cc/include/swcdb/core/VectorsVector.h. It is a list of segments; the template
  parameters \<open>SIZE\<close> and \<open>SPLIT\<close> are the arguments \<open>sz\<close> and \<open>sp\<close>. An iterator is the index of a
  segment and of an item in it; its item is stale when it is behind the last segment. Capacities
  are not modelled: \<open>need_reserve\<close> and \<open>reserve\<close> change no content.

  The lemmas show that with its iterators it is a list with a position: every operation of an
  iterator is the operation of the list at that position (the locale \<open>cursor\<close>), so that the
  loops of the container that move an iterator are recursions over a list.
\<close>

type_synonym position = "nat \<times> nat"

section \<open>Iterators\<close>

definition it_begin :: position where
  "it_begin = (0, 0)"

fun it_seek :: "nat \<Rightarrow> 'a list list \<Rightarrow> nat \<Rightarrow> nat \<Rightarrow> position" where
  "it_seek i [] offset j = (i, j)"
| "it_seek i (v # vs) offset j =
     (if offset = 0 \<or> offset < length v then (i, offset)
      else it_seek (Suc i) vs (offset - length v) j)"

definition it_at :: "'a list list \<Rightarrow> position \<Rightarrow> nat \<Rightarrow> position" where
  "it_at vs it offset = it_seek 0 vs offset (snd it)"

definition it_new_at :: "'a list list \<Rightarrow> nat \<Rightarrow> position" where
  "it_new_at vs offset = it_seek 0 vs offset 0"

fun it_bool :: "'a list list \<Rightarrow> position \<Rightarrow> bool" where
  "it_bool vs (i, j) \<longleftrightarrow> i \<noteq> length vs \<and> j \<noteq> length (vs ! i)"

fun it_inc :: "'a list list \<Rightarrow> position \<Rightarrow> position" where
  "it_inc vs (i, j) =
     (if Suc j = length (vs ! i)
      then (if Suc i \<noteq> length vs then (Suc i, 0) else (Suc i, Suc j))
      else (i, Suc j))"

fun it_next :: "'a list list \<Rightarrow> position \<Rightarrow> position \<times> bool" where
  "it_next vs (i, j) =
     (if Suc j \<noteq> length (vs ! i) then ((i, Suc j), True)
      else if Suc i \<noteq> length vs then ((Suc i, 0), 0 \<noteq> length (vs ! Suc i))
      else ((Suc i, Suc j), False))"

fun it_item :: "'a list list \<Rightarrow> position \<Rightarrow> 'a" where
  "it_item vs (i, j) = vs ! i ! j"

text \<open>Before an insert a full segment is cut at \<open>SPLIT\<close>.\<close>

fun it_ensure :: "nat \<Rightarrow> nat \<Rightarrow> 'a list list \<Rightarrow> position \<Rightarrow> 'a list list \<times> position" where
  "it_ensure sz sp vs (i, j) =
     (if sz \<le> length (vs ! i)
      then (take i vs @ [take sp (vs ! i), drop sp (vs ! i)] @ drop (Suc i) vs,
            if sp \<le> j then (Suc i, j - sp) else (i, j))
      else (vs, (i, j)))"

definition it_insert ::
  "nat \<Rightarrow> nat \<Rightarrow> 'a \<Rightarrow> 'a list list \<Rightarrow> position \<Rightarrow> 'a list list \<times> position" where
  "it_insert sz sp x vs it =
     (let (vs, (i, j)) = it_ensure sz sp vs it
      in (vs[i := take j (vs ! i) @ x # drop j (vs ! i)], (i, j)))"

fun it_remove :: "'a list list \<Rightarrow> position \<Rightarrow> 'a list list \<times> position" where
  "it_remove vs (i, j) =
     (let v = take j (vs ! i) @ drop (Suc j) (vs ! i)
      in if v = [] \<and> 1 < length vs then (take i vs @ drop (Suc i) vs, (i, 0))
         else if j = length v
         then (vs[i := v], if Suc i \<noteq> length vs then (Suc i, 0) else (Suc i, j))
         else (vs[i := v], (i, j)))"

function it_remove_n :: "nat \<Rightarrow> 'a list list \<Rightarrow> nat \<Rightarrow> nat \<Rightarrow> 'a list list \<times> position" where
  "it_remove_n n vs i j =
     (if n = 0 \<or> \<not> i < length vs then (vs, (i, j))
      else if j = 0 \<and> length (vs ! i) \<le> n
      then (if length vs = 1 then (vs[i := []], (i, 0))
            else it_remove_n (n - length (vs ! i)) (take i vs @ drop (Suc i) vs) i 0)
      else
        let avail = length (vs ! i) - j
        in if n < avail then (vs[i := take j (vs ! i) @ drop (j + n) (vs ! i)], (i, j))
           else it_remove_n (n - avail) (vs[i := take j (vs ! i)]) (Suc i) 0)"
  by pat_completeness auto
termination
  by (relation "measure (\<lambda>(n, vs, i, j). length vs - i)") auto

declare it_remove_n.simps [simp del]

section \<open>The container\<close>

definition vv_count :: "'a list list \<Rightarrow> nat" where
  "vv_count vs = sum_list (map length vs)"

definition vv_front :: "'a list list \<Rightarrow> 'a" where
  "vv_front vs = hd (hd vs)"

definition vv_back :: "'a list list \<Rightarrow> 'a" where
  "vv_back vs = last (last vs)"

definition vv_nth :: "'a list list \<Rightarrow> nat \<Rightarrow> 'a option" where
  "vv_nth vs p = (let it = it_new_at vs p in if it_bool vs it then Some (it_item vs it) else None)"

definition vv_ensure :: "nat \<Rightarrow> 'a list list \<Rightarrow> 'a list list" where
  "vv_ensure sz vs = (if vs = [] \<or> sz \<le> length (last vs) then vs @ [[]] else vs)"

definition vv_push_back :: "nat \<Rightarrow> 'a list list \<Rightarrow> 'a \<Rightarrow> 'a list list" where
  "vv_push_back sz vs x = (let vs = vv_ensure sz vs in butlast vs @ [last vs @ [x]])"

text \<open>The segments of the other container are moved, and it is left empty.\<close>

definition vv_add :: "'a list list \<Rightarrow> 'a list list \<Rightarrow> 'a list list \<times> 'a list list" where
  "vv_add vs other = (vs @ other, [])"

definition vv_split :: "nat \<Rightarrow> 'a list list \<Rightarrow> 'a list list \<Rightarrow> 'a list list \<times> 'a list list" where
  "vv_split split_at vs to = (take split_at vs, to @ drop split_at vs)"

section \<open>The invariant and the abstraction\<close>

text \<open>No segment is empty, but for the one that is left when all is removed.\<close>

definition vv_ok :: "nat \<Rightarrow> 'a list list \<Rightarrow> bool" where
  "vv_ok sz vs \<longleftrightarrow> ([] \<notin> set vs \<or> vs = [[]]) \<and> (\<forall>v \<in> set vs. length v \<le> sz)"

fun it_ok :: "'a list list \<Rightarrow> position \<Rightarrow> bool" where
  "it_ok vs (i, j) \<longleftrightarrow> (i < length vs \<and> j < length (vs ! i)) \<or> i = length vs \<or>
     (vs = [[]] \<and> i = 0 \<and> j = 0)"

fun it_pos :: "'a list list \<Rightarrow> position \<Rightarrow> nat" where
  "it_pos vs (i, j) = length (concat (take i vs)) + (if i < length vs then j else 0)"

lemma concat_at:
  "i < length vs \<Longrightarrow> concat vs = concat (take i vs) @ vs ! i @ concat (drop (Suc i) vs)"
  by (metis append_take_drop_id concat.simps(2) concat_append Cons_nth_drop_Suc)

lemma it_bool_pos: "it_ok vs it \<Longrightarrow> it_bool vs it \<longleftrightarrow> it_pos vs it < length (concat vs)"
  by (cases it) (auto simp: concat_at)

lemma it_item_pos: "it_ok vs it \<Longrightarrow> it_bool vs it \<Longrightarrow> it_item vs it = concat vs ! it_pos vs it"
  by (cases it) (auto simp: concat_at nth_append)

lemma it_end_pos: "it_ok vs it \<Longrightarrow> \<not> it_bool vs it \<Longrightarrow> it_pos vs it = length (concat vs)"
  by (cases it) auto

lemma segment_nonempty: "vv_ok sz vs \<Longrightarrow> Suc i < length vs \<Longrightarrow> vs ! Suc i \<noteq> []"
  by (cases "vs = [[]]") (auto simp: vv_ok_def, metis nth_mem)

lemma it_inc_pos:
  assumes "vv_ok sz vs" "it_ok vs it" "it_bool vs it"
  shows "it_ok vs (it_inc vs it) \<and> it_pos vs (it_inc vs it) = Suc (it_pos vs it)"
proof (cases it)
  case (Pair i j)
  then have ij: "i < length vs" "j < length (vs ! i)" using assms by auto
  then have "concat (take (Suc i) vs) = concat (take i vs) @ vs ! i" by (simp add: take_Suc_conv_app_nth)
  then show ?thesis
    using Pair ij segment_nonempty [OF assms(1), of i] by auto
qed

lemma it_next_inc: "vv_ok sz vs \<Longrightarrow> it_ok vs it \<Longrightarrow> it_bool vs it \<Longrightarrow>
    it_next vs it = (it_inc vs it, it_bool vs (it_inc vs it))"
  using segment_nonempty [of sz vs "fst it"] by (cases it) auto

lemma it_seek_pos:
  assumes "[] \<notin> set vs"
  shows "case it_seek i vs offset j of (i', j') \<Rightarrow>
    if offset < length (concat vs)
    then i \<le> i' \<and> i' - i < length vs \<and> j' < length (vs ! (i' - i)) \<and>
      length (concat (take (i' - i) vs)) + j' = offset
    else i' = i + length vs"
  using assms
proof (induction i vs offset j rule: it_seek.induct)
  case (2 i v vs offset j)
  show ?case
  proof (cases "offset = 0 \<or> offset < length v")
    case True
    then show ?thesis using "2.prems" by auto
  next
    case False
    obtain i' j' where r: "it_seek (Suc i) vs (offset - length v) j = (i', j')" by fastforce
    show ?thesis
    proof (cases "offset - length v < length (concat vs)")
      case True
      with "2.IH" [OF False] "2.prems" r have "Suc i \<le> i'"
        and h: "i' - Suc i < length vs" "j' < length (vs ! (i' - Suc i))"
          "length (concat (take (i' - Suc i) vs)) + j' = offset - length v" by auto
      then obtain k where "i' = Suc i + k" using le_Suc_ex by blast
      with h r False True show ?thesis by auto
    next
      case less: False
      with "2.IH" [OF False] "2.prems" r False show ?thesis by auto
    qed
  qed
qed simp

lemma it_at_pos:
  assumes "vv_ok sz vs"
  shows "it_ok vs (it_at vs it p) \<and> it_pos vs (it_at vs it p) = min p (length (concat vs))"
proof (cases "vs = [[]]")
  case False
  then have "[] \<notin> set vs" using assms by (auto simp: vv_ok_def)
  from it_seek_pos [where i = 0 and offset = p and j = "snd it", OF this] show ?thesis
    by (auto simp: it_at_def min_def split: prod.splits if_splits)
qed (auto simp: it_at_def)

section \<open>Changing at a position\<close>

lemma vv_okI: "[] \<notin> set vs \<Longrightarrow> (\<forall>v \<in> set vs. length v \<le> sz) \<Longrightarrow> vv_ok sz vs"
  by (simp add: vv_ok_def)

lemma vv_ok_segments:
  assumes "vv_ok sz vs" "it_ok vs it" "it_bool vs it"
  shows "[] \<notin> set vs" "\<forall>v \<in> set vs. length v \<le> sz" "fst it < length vs" "snd it < length (vs ! fst it)"
  using assms by (cases it; auto simp: vv_ok_def)+

lemma set_cut: "i < length vs \<Longrightarrow> set vs = set (take i vs) \<union> {vs ! i} \<union> set (drop (Suc i) vs)"
  by (metis Un_insert_right append_take_drop_id Cons_nth_drop_Suc list.simps(15) set_append sup_bot_right Un_insert_left)

lemma concat_update:
  "i < length vs \<Longrightarrow> concat (vs[i := v]) = concat (take i vs) @ v @ concat (drop (Suc i) vs)"
  by (simp add: upd_conv_take_nth_drop)

lemma set_update: "i < length vs \<Longrightarrow> set (vs[i := v]) = set (take i vs) \<union> {v} \<union> set (drop (Suc i) vs)"
  by (simp add: upd_conv_take_nth_drop)

definition sizes_ok :: "nat \<Rightarrow> nat \<Rightarrow> bool" where
  "sizes_ok sz sp \<longleftrightarrow> 0 < sp \<and> sp < sz"

lemma it_ensure_keeps:
  assumes sz: "sizes_ok sz sp" and ok: "vv_ok sz vs" "it_ok vs it" "it_bool vs it"
    and e: "it_ensure sz sp vs it = (vs', it')"
  shows "vv_ok sz vs' \<and> it_ok vs' it' \<and> it_bool vs' it' \<and> concat vs' = concat vs \<and>
    it_pos vs' it' = it_pos vs it \<and> length (vs' ! fst it') < sz"
proof -
  obtain i j where it: "it = (i, j)" by (cases it)
  note seg = vv_ok_segments [OF ok]
  have i: "i < length vs" "j < length (vs ! i)" using seg it by simp_all
  show ?thesis
  proof (cases "sz \<le> length (vs ! i)")
    case False
    then show ?thesis using e it ok by auto
  next
    case True
    have full: "length (vs ! i) = sz" using True seg(2) i(1) nth_mem [of i vs] by (simp add: le_antisym)
    let ?a = "take sp (vs ! i)" and ?b = "drop sp (vs ! i)"
    have vs': "vs' = take i vs @ [?a, ?b] @ drop (Suc i) vs"
      and it': "it' = (if sp \<le> j then (Suc i, j - sp) else (i, j))" using e it True by auto
    have "?a \<noteq> []" "?b \<noteq> []" "length ?a < sz" "length ?b < sz" using sz full by (auto simp: sizes_ok_def)
    moreover have "[] \<notin> set (take i vs) \<union> set (drop (Suc i) vs)" "\<forall>v \<in> set (take i vs) \<union> set (drop (Suc i) vs). length v \<le> sz"
      using seg(1,2) set_cut [OF i(1)] by auto
    ultimately have "vv_ok sz vs'" by (intro vv_okI) (auto simp: vs')
    moreover have "concat vs' = concat vs" using concat_at [OF i(1)] by (simp add: vs')
    moreover have "vs' ! i = ?a" "vs' ! Suc i = ?b" "length vs' = Suc (length vs)" "take i vs' = take i vs"
      "take (Suc i) vs' = take i vs @ [?a]"
      using i(1) by (auto simp: vs' nth_append min_def)
    ultimately show ?thesis
      using i it it' full sz by (auto simp: sizes_ok_def)
  qed
qed

lemma it_insert_list:
  assumes sz: "sizes_ok sz sp" and ok: "vv_ok sz vs" "it_ok vs it" "it_bool vs it"
    and r: "it_insert sz sp x vs it = (vs', it')"
  shows "vv_ok sz vs' \<and> it_ok vs' it' \<and> it_pos vs' it' = it_pos vs it \<and>
    concat vs' = take (it_pos vs it) (concat vs) @ x # drop (it_pos vs it) (concat vs)"
proof -
  obtain us i j where e: "it_ensure sz sp vs it = (us, (i, j))" by (metis prod.collapse)
  note k = it_ensure_keeps [OF sz ok e]
  then have ok': "vv_ok sz us" "it_ok us (i, j)" "it_bool us (i, j)" by blast+
  note seg = vv_ok_segments [OF ok']
  have i: "i < length us" "j < length (us ! i)" using seg by simp_all
  have r': "vs' = us[i := take j (us ! i) @ x # drop j (us ! i)]" "it' = (i, j)"
    using r e by (auto simp: it_insert_def)
  have "vv_ok sz vs'"
    using seg(1,2) set_cut [OF i(1)] k i(1) unfolding r'(1)
    by (intro vv_okI) (auto simp: set_update)
  moreover have "concat vs' = take (it_pos us (i, j)) (concat us) @ x # drop (it_pos us (i, j)) (concat us)"
    using i unfolding r'(1) concat_update [OF i(1)] concat_at [OF i(1)] by simp
  ultimately show ?thesis using k i r' by auto
qed

text \<open>Taking a whole segment out, and a part of one.\<close>

lemma drop_segment:
  assumes ok: "vv_ok sz vs" "[] \<notin> set vs" and i: "i < length vs"
  defines "us \<equiv> take i vs @ drop (Suc i) vs"
  shows "vv_ok sz us \<and> it_ok us (i, 0) \<and> it_pos us (i, 0) = it_pos vs (i, 0) \<and>
    concat us = take (it_pos vs (i, 0)) (concat vs) @ drop (it_pos vs (i, 0) + length (vs ! i)) (concat vs)"
proof -
  have "vv_ok sz us"
    using ok set_cut [OF i] unfolding us_def by (intro vv_okI) (auto simp: vv_ok_def)
  moreover have "i < length us \<Longrightarrow> 0 < length (us ! i)"
    using segment_nonempty [OF ok(1), of i] i unfolding us_def by (simp add: nth_append)
  then have "it_ok us (i, 0)" using i by (cases "i < length us") (auto simp: us_def)
  moreover have "it_pos us (i, 0) = it_pos vs (i, 0)" using i by (simp add: us_def)
  moreover have "concat us = take (it_pos vs (i, 0)) (concat vs) @ drop (it_pos vs (i, 0) + length (vs ! i)) (concat vs)"
    unfolding us_def concat_at [OF i] using i by simp
  ultimately show ?thesis by blast
qed

lemma cut_segment:
  assumes ok: "vv_ok sz vs" "[] \<notin> set vs" and i: "i < length vs" "j + n \<le> length (vs ! i)"
    and w: "w = take j (vs ! i) @ drop (j + n) (vs ! i)" "w \<noteq> []"
  shows "vv_ok sz (vs[i := w]) \<and>
    concat (vs[i := w]) = take (it_pos vs (i, j)) (concat vs) @ drop (it_pos vs (i, j) + n) (concat vs) \<and>
    (let it = if j < length w then (i, j) else (Suc i, 0)
     in it_ok (vs[i := w]) it \<and> it_pos (vs[i := w]) it = it_pos vs (i, j))"
proof -
  have "length w \<le> length (vs ! i)" using i w(1) by simp
  moreover have "length (vs ! i) \<le> sz" using ok(1) nth_mem [OF i(1)] unfolding vv_ok_def by blast
  ultimately have "length w \<le> sz" by linarith
  then have "vv_ok sz (vs[i := w])"
    using ok set_cut [OF i(1)] w(2) i(1) by (intro vv_okI) (auto simp: vv_ok_def set_update)
  moreover have "concat (vs[i := w]) = take (it_pos vs (i, j)) (concat vs) @ drop (it_pos vs (i, j) + n) (concat vs)"
    unfolding concat_update [OF i(1)] unfolding concat_at [OF i(1)] using i w(1) by simp
  moreover have "Suc i < length vs \<Longrightarrow> 0 < length (vs ! Suc i)" using segment_nonempty [OF ok(1), of i] by simp
  moreover have "\<not> j < length w \<Longrightarrow> length w = j" using i w(1) by auto
  ultimately show ?thesis using i(1) by (auto simp: Let_def take_Suc_conv_app_nth)
qed

lemma it_remove_list:
  assumes ok: "vv_ok sz vs" "it_ok vs it" "it_bool vs it" and r: "it_remove vs it = (vs', it')"
  shows "vv_ok sz vs' \<and> it_ok vs' it' \<and> it_pos vs' it' = it_pos vs it \<and>
    concat vs' = take (it_pos vs it) (concat vs) @ drop (Suc (it_pos vs it)) (concat vs)"
proof -
  obtain i j where it: "it = (i, j)" by (cases it)
  note seg = vv_ok_segments [OF ok]
  have i: "i < length vs" "j < length (vs ! i)" using seg it by simp_all
  let ?v = "take j (vs ! i) @ drop (Suc j) (vs ! i)"
  show ?thesis
  proof (cases "?v = []")
    case True
    then have "j = 0" "length (vs ! i) \<le> Suc 0" using i(2) by auto
    with i(2) have one: "j = 0" "length (vs ! i) = 1" by linarith+
    show ?thesis
    proof (cases "1 < length vs")
      case multi: True
      then have "vs' = take i vs @ drop (Suc i) vs" "it' = (i, 0)" using True r it by auto
      then show ?thesis using drop_segment [OF ok(1) seg(1) i(1)] it one by simp
    next
      case False
      then have "length vs = 1" using i(1) by linarith
      then have "vs = [vs ! i]" "i = 0" using i(1) by (auto simp: length_Suc_conv)
      then obtain x where "vs = [[x]]" using one by (metis One_nat_def length_0_conv length_Suc_conv)
      then show ?thesis using r it one \<open>i = 0\<close> by (auto simp: vv_ok_def)
    qed
  next
    case False
    have v: "vs' = vs[i := ?v]" "it' = (if j < length ?v then (i, j) else if Suc i \<noteq> length vs then (Suc i, 0) else (Suc i, j))"
      using False r it i(2) by (auto simp: Let_def split: if_splits)
    show ?thesis
      using cut_segment [OF ok(1) seg(1) i(1), of j 1 ?v] i False it v by (auto simp: Let_def split: if_splits)
  qed
qed

text \<open>\<open>cuts\<close>: \<open>n\<close> items behind position \<open>p\<close> are gone, and the iterator is still at \<open>p\<close>.\<close>

definition cuts :: "nat \<Rightarrow> 'a list list \<Rightarrow> nat \<Rightarrow> nat \<Rightarrow> 'a list list \<Rightarrow> position \<Rightarrow> bool" where
  "cuts sz us p n vs it \<longleftrightarrow> vv_ok sz vs \<and> it_ok vs it \<and> it_pos vs it = p \<and>
     concat vs = take p (concat us) @ drop (p + n) (concat us)"

lemma cutsD:
  assumes "cuts sz us p n vs it"
  shows "vv_ok sz vs" "it_ok vs it" "it_pos vs it = p"
  using assms by (simp_all add: cuts_def)

lemma cuts_trans:
  assumes "cuts sz us p a vs it" "p \<le> length (concat us)" "cuts sz vs p b ws it'"
  shows "cuts sz us p (a + b) ws it'"
proof -
  have "take p (concat vs) @ drop (p + b) (concat vs) = take p (concat us) @ drop (p + (a + b)) (concat us)"
    using assms(1,2) by (simp add: cuts_def add.commute add.left_commute)
  with assms(3) show ?thesis by (simp add: cuts_def)
qed

lemma it_ok_cases:
  "vv_ok sz vs \<Longrightarrow> it_ok vs (i, j) \<Longrightarrow>
    \<not> i < length vs \<or> (vs = [[]] \<and> i = 0 \<and> j = 0) \<or> (i < length vs \<and> [] \<notin> set vs \<and> j < length (vs ! i))"
  by (cases "vs = [[]]") (auto simp: vv_ok_def)

lemma it_remove_n_cuts:
  assumes "vv_ok sz vs" "it_ok vs (i, j)" "it_remove_n n vs i j = (vs', it')"
  shows "cuts sz vs (it_pos vs (i, j)) n vs' it'"
  using assms
proof (induction n vs i j arbitrary: vs' it' rule: it_remove_n.induct)
  case (1 n vs i j)
  let ?p = "it_pos vs (i, j)" and ?v = "vs ! i"
  have r: "it_remove_n n vs i j = (vs', it')" using "1.prems"(3) .
  note eq = it_remove_n.simps [of n vs i j]
  consider (stop) "n = 0 \<or> \<not> i < length vs" | (empty) "vs = [[]]" "0 < n" "i = 0" "j = 0"
    | (go) "\<not> (n = 0 \<or> \<not> i < length vs)" "[] \<notin> set vs" "j < length ?v"
    using it_ok_cases [OF "1.prems"(1,2)] by fast
  then show ?case
  proof cases
    case stop
    then show ?thesis using r eq "1.prems" by (auto simp: cuts_def)
  next
    case empty
    then show ?thesis using r by (auto simp: it_remove_n.simps [of n "[[]]" 0 0] vv_ok_def cuts_def)
  next
    case go
    then have i: "i < length vs" and n: "n \<noteq> 0" by auto
    have le: "?p \<le> length (concat vs)" using i go(3) by (simp add: concat_at)
    show ?thesis
    proof (cases "j = 0 \<and> length ?v \<le> n")
      case whole: True
      show ?thesis
      proof (cases "length vs = 1")
        case True
        then obtain v where "vs = [v]" by (metis length_0_conv length_Suc_conv One_nat_def)
        then show ?thesis using r eq whole i n by (auto simp: vv_ok_def cuts_def)
      next
        case False
        let ?us = "take i vs @ drop (Suc i) vs"
        have d: "cuts sz vs ?p (length ?v) ?us (i, 0)"
          using drop_segment [OF "1.prems"(1) go(2) i] whole unfolding cuts_def by blast
        have "it_remove_n (n - length ?v) ?us i 0 = (vs', it')" using r go(1) whole False eq by simp
        then have "cuts sz ?us ?p (n - length ?v) vs' it'"
          using "1.IH"(1) [OF go(1) whole False cutsD(1,2) [OF d]] unfolding cutsD(3) [OF d] by blast
        then show ?thesis using cuts_trans [OF d le, of "n - length ?v" vs' it'] whole by (simp del: it_pos.simps)
      qed
    next
      case part: False
      show ?thesis
      proof (cases "n < length ?v - j")
        case True
        let ?w = "take j ?v @ drop (j + n) ?v"
        have "(vs', it') = (vs[i := ?w], (i, j))" using r go(1) part True eq by (auto simp: Let_def)
        moreover have "j + n \<le> length ?v" "?w \<noteq> []" "j < length ?w" using True by auto
        ultimately show ?thesis
          using cut_segment [OF "1.prems"(1) go(2) i, of j n ?w] unfolding cuts_def Let_def by simp
      next
        case False
        let ?us = "vs[i := take j ?v]"
        have "take j ?v \<noteq> []" using part False go(3) by auto
        then have d: "cuts sz vs ?p (length ?v - j) ?us (Suc i, 0)"
          using cut_segment [OF "1.prems"(1) go(2) i, of j "length ?v - j" "take j ?v"] go(3)
          unfolding cuts_def Let_def by (auto simp del: it_ok.simps it_pos.simps)
        have "it_remove_n (n - (length ?v - j)) ?us (Suc i) 0 = (vs', it')"
          using r go(1) part False eq by (simp add: Let_def)
        then have "cuts sz ?us ?p (n - (length ?v - j)) vs' it'"
          using "1.IH"(2) [OF go(1) part refl False cutsD(1,2) [OF d]] unfolding cutsD(3) [OF d] by blast
        then show ?thesis using cuts_trans [OF d le, of "n - (length ?v - j)" vs' it'] False by (simp del: it_pos.simps)
      qed
    qed
  qed
qed

lemma it_remove_cuts:
  "vv_ok sz vs \<Longrightarrow> it_ok vs it \<Longrightarrow> it_bool vs it \<Longrightarrow> it_remove vs it = (vs', it') \<Longrightarrow>
    cuts sz vs (it_pos vs it) 1 vs' it'"
  using it_remove_list [of sz vs it vs' it'] by (simp add: cuts_def)

section \<open>The container as a list\<close>

lemma vv_count_concat: "vv_count vs = length (concat vs)"
  by (simp add: vv_count_def length_concat)

lemma vv_nth_concat:
  assumes "vv_ok sz vs"
  shows "vv_nth vs p = (if p < length (concat vs) then Some (concat vs ! p) else None)"
proof -
  have at: "it_new_at vs p = it_at vs it_begin p" by (simp add: it_new_at_def it_at_def it_begin_def)
  note k = it_at_pos [OF assms, of it_begin p]
  show ?thesis
    using k it_bool_pos [of vs "it_at vs it_begin p"] it_item_pos [of vs "it_at vs it_begin p"]
    by (auto simp: vv_nth_def at Let_def min_def simp del: it_bool.simps it_ok.simps it_pos.simps split: if_splits)
qed

lemma vv_front_concat: "vv_ok sz vs \<Longrightarrow> concat vs \<noteq> [] \<Longrightarrow> vv_front vs = hd (concat vs)"
  by (cases vs) (auto simp: vv_front_def vv_ok_def)

lemma vv_back_concat: "vv_ok sz vs \<Longrightarrow> concat vs \<noteq> [] \<Longrightarrow> vv_back vs = last (concat vs)"
  by (cases vs rule: rev_cases) (auto simp: vv_back_def vv_ok_def)

lemma vv_push_back_concat:
  assumes "0 < sz" "vv_ok sz vs"
  shows "vv_ok sz (vv_push_back sz vs x) \<and> concat (vv_push_back sz vs x) = concat vs @ [x]"
proof (cases "vs = [] \<or> vs = [[]] \<or> sz \<le> length (last vs)")
  case True
  then show ?thesis using assms by (auto simp: vv_push_back_def vv_ensure_def vv_ok_def)
next
  case False
  then obtain us u where "vs = us @ [u]" by (metis append_butlast_last_id)
  then show ?thesis using assms False by (auto simp: vv_push_back_def vv_ensure_def vv_ok_def)
qed

lemma vv_add_concat:
  "vv_add vs other = (vs', other') \<Longrightarrow> concat vs' = concat vs @ concat other \<and> other' = []"
  by (auto simp: vv_add_def)

lemma vv_split_concat:
  assumes "vv_split k vs to = (vs', to')"
  shows "concat vs' @ drop (length (concat to)) (concat to') = concat vs \<and>
    take (length (concat to)) (concat to') = concat to \<and> length vs' = min k (length vs)"
proof -
  have "concat (take k vs) @ concat (drop k vs) = concat vs" by (simp flip: concat_append)
  with assms show ?thesis by (auto simp: vv_split_def min.commute)
qed

lemma vv_split_ok:
  "vv_ok sz vs \<Longrightarrow> vv_ok sz to \<Longrightarrow> [] \<notin> set to \<Longrightarrow> [] \<notin> set vs \<Longrightarrow>
    vv_split k vs to = (vs', to') \<Longrightarrow> vv_ok sz vs' \<and> vv_ok sz to'"
  by (auto simp: vv_split_def vv_ok_def dest!: in_set_takeD in_set_dropD)

section \<open>The iterator as a cursor on a list\<close>

text \<open>
  What the loops of the container need of an iterator: a state \<open>'c\<close> is the container together with
  a position in its items; at the position an item can be read, passed, removed, or inserted before.
\<close>

locale cursor =
  fixes items :: "'c \<Rightarrow> 'a list" and pos :: "'c \<Rightarrow> nat" and ok :: "'c \<Rightarrow> bool"
    and at_item :: "'c \<Rightarrow> bool" and item :: "'c \<Rightarrow> 'a" and step :: "'c \<Rightarrow> 'c" and erase :: "'c \<Rightarrow> 'c"
    and put :: "'a \<Rightarrow> 'c \<Rightarrow> 'c"
  assumes pos_le: "ok c \<Longrightarrow> pos c \<le> length (items c)"
    and at_item_iff: "ok c \<Longrightarrow> at_item c \<longleftrightarrow> pos c < length (items c)"
    and item_nth: "ok c \<Longrightarrow> at_item c \<Longrightarrow> item c = items c ! pos c"
    and step: "ok c \<Longrightarrow> at_item c \<Longrightarrow> ok (step c) \<and> items (step c) = items c \<and> pos (step c) = Suc (pos c)"
    and erase: "ok c \<Longrightarrow> at_item c \<Longrightarrow> ok (erase c) \<and> pos (erase c) = pos c \<and>
      items (erase c) = take (pos c) (items c) @ drop (Suc (pos c)) (items c)"
    and put: "ok c \<Longrightarrow> at_item c \<Longrightarrow> ok (put x c) \<and> pos (put x c) = pos c \<and>
      items (put x c) = take (pos c) (items c) @ x # drop (pos c) (items c)"

text \<open>
  The shape of those loops: the item at the position decides, with the loop's own state, whether the
  loop stops (\<open>None\<close>), or whether the item is removed or passed. \<open>sweep\<close> is the loop over a cursor,
  bounded by \<open>fuel\<close>, and \<open>sweep_list\<close> the recursion over the items behind the position.
\<close>

fun sweep :: "nat \<Rightarrow> ('c \<Rightarrow> bool) \<Rightarrow> ('c \<Rightarrow> 'a) \<Rightarrow> ('c \<Rightarrow> 'c) \<Rightarrow> ('c \<Rightarrow> 'c) \<Rightarrow>
    ('s \<Rightarrow> 'a \<Rightarrow> (bool \<times> 's) option) \<Rightarrow> 's \<Rightarrow> 'c \<Rightarrow> ('s \<times> 'c) option" where
  "sweep 0 at_item item step erase f s c = None"
| "sweep (Suc fuel) at_item item step erase f s c =
     (if at_item c
      then case f s (item c) of
          None \<Rightarrow> Some (s, c)
        | Some (gone, s) \<Rightarrow> sweep fuel at_item item step erase f s (if gone then erase c else step c)
      else Some (s, c))"

fun sweep_list :: "('s \<Rightarrow> 'a \<Rightarrow> (bool \<times> 's) option) \<Rightarrow> 's \<Rightarrow> 'a list \<Rightarrow> 's \<times> 'a list \<times> 'a list" where
  "sweep_list f s [] = (s, [], [])"
| "sweep_list f s (x # xs) =
     (case f s x of
        None \<Rightarrow> (s, [], x # xs)
      | Some (gone, s) \<Rightarrow>
          (let (s, kept, rest) = sweep_list f s xs in (s, if gone then kept else x # kept, rest)))"

context cursor
begin

lemma next_item: "ok c \<Longrightarrow> at_item c \<Longrightarrow> drop (pos c) (items c) = item c # drop (Suc (pos c)) (items c)"
  by (simp add: at_item_iff item_nth Cons_nth_drop_Suc)

lemma put_split: "ok c \<Longrightarrow> at_item c \<Longrightarrow>
    take (pos c) (items (put x c)) = take (pos c) (items c) \<and>
    drop (pos c) (items (put x c)) = x # drop (pos c) (items c)"
  using pos_le [of c] put [of c x] by simp

lemma sweep_refines:
  assumes "ok c" "length (items c) - pos c < fuel"
    and "sweep_list f s (drop (pos c) (items c)) = (s', kept, rest)"
  shows "\<exists>c'. sweep fuel at_item item step erase f s c = Some (s', c') \<and> ok c' \<and>
    items c' = take (pos c) (items c) @ kept @ rest \<and> pos c' = pos c + length kept"
  using assms
proof (induction fuel arbitrary: s c kept)
  case (Suc fuel)
  note ok = \<open>ok c\<close>
  show ?case
  proof (cases "at_item c")
    case False
    then have "drop (pos c) (items c) = []" using ok at_item_iff by simp
    then show ?thesis using Suc.prems False by auto
  next
    case at: True
    note d = next_item [OF ok at] and e = erase [OF ok at] and st = step [OF ok at]
    have less: "pos c < length (items c)" using ok at at_item_iff by simp
    show ?thesis
    proof (cases "f s (item c)")
      case None
      then show ?thesis using Suc.prems(1,3) at d append_take_drop_id [of "pos c" "items c"] by auto
    next
      case (Some r)
      obtain gone t where r: "r = (gone, t)" by (cases r)
      obtain s1 kept1 rest1 where l: "sweep_list f t (drop (Suc (pos c)) (items c)) = (s1, kept1, rest1)"
        by (metis prod.exhaust)
      have k: "s1 = s'" "kept = (if gone then kept1 else item c # kept1)" "rest1 = rest"
        using Suc.prems(3) d Some r l by auto
      show ?thesis
      proof (cases gone)
        case True
        have "drop (pos (erase c)) (items (erase c)) = drop (Suc (pos c)) (items c)" using e less by simp
        with Suc.IH [of "erase c" t kept1] l k e less Suc.prems(2) True at Some r
        show ?thesis by (auto simp: less_diff_conv)
      next
        case False
        have "take (Suc (pos c)) (items c) = take (pos c) (items c) @ [item c]"
          using ok at less by (simp add: item_nth take_Suc_conv_app_nth)
        with Suc.IH [of "step c" t kept1] l k st less Suc.prems(2) False at Some r
        show ?thesis by (auto simp: less_diff_conv)
      qed
    qed
  qed
qed simp

end

text \<open>The segmented container with its iterator, the sizes carried along.\<close>

type_synonym 'a segments = "nat \<times> nat \<times> 'a list list \<times> position"

fun seg_items :: "'a segments \<Rightarrow> 'a list" where "seg_items (sz, sp, vs, it) = concat vs"

fun seg_pos :: "'a segments \<Rightarrow> nat" where "seg_pos (sz, sp, vs, it) = it_pos vs it"

fun seg_ok :: "'a segments \<Rightarrow> bool" where
  "seg_ok (sz, sp, vs, it) \<longleftrightarrow> sizes_ok sz sp \<and> vv_ok sz vs \<and> it_ok vs it"

fun seg_at_item :: "'a segments \<Rightarrow> bool" where "seg_at_item (sz, sp, vs, it) = it_bool vs it"

fun seg_item :: "'a segments \<Rightarrow> 'a" where "seg_item (sz, sp, vs, it) = it_item vs it"

fun seg_step :: "'a segments \<Rightarrow> 'a segments" where
  "seg_step (sz, sp, vs, it) = (sz, sp, vs, it_inc vs it)"

fun seg_erase :: "'a segments \<Rightarrow> 'a segments" where
  "seg_erase (sz, sp, vs, it) = (sz, sp, it_remove vs it)"

fun seg_put :: "'a \<Rightarrow> 'a segments \<Rightarrow> 'a segments" where
  "seg_put x (sz, sp, vs, it) = (sz, sp, it_insert sz sp x vs it)"

interpretation segs: cursor seg_items seg_pos seg_ok seg_at_item seg_item seg_step seg_erase seg_put
proof
  fix c :: "'a segments" and x :: 'a
  obtain sz sp vs it where c: "c = (sz, sp, vs, it)" by (metis prod.exhaust)
  assume ok: "seg_ok c"
  then have o: "sizes_ok sz sp" "vv_ok sz vs" "it_ok vs it" using c by simp_all
  show "seg_pos c \<le> length (seg_items c)"
    using it_bool_pos [OF o(3)] it_end_pos [OF o(3)] c by (cases "it_bool vs it") auto
  show "seg_at_item c = (seg_pos c < length (seg_items c))"
    using it_bool_pos [OF o(3)] c by simp
  assume "seg_at_item c"
  then have at: "it_bool vs it" using c by simp
  show "seg_item c = seg_items c ! seg_pos c" using it_item_pos [OF o(3) at] c by simp
  show "seg_ok (seg_step c) \<and> seg_items (seg_step c) = seg_items c \<and> seg_pos (seg_step c) = Suc (seg_pos c)"
    using it_inc_pos [OF o(2,3) at] o c by simp
  obtain vs' it' where r: "it_remove vs it = (vs', it')" using prod.exhaust by blast
  show "seg_ok (seg_erase c) \<and> seg_pos (seg_erase c) = seg_pos c \<and>
      seg_items (seg_erase c) = take (seg_pos c) (seg_items c) @ drop (Suc (seg_pos c)) (seg_items c)"
    using it_remove_list [OF o(2,3) at r] r o c by simp
  obtain vs2 it2 where i: "it_insert sz sp x vs it = (vs2, it2)" using prod.exhaust by blast
  show "seg_ok (seg_put x c) \<and> seg_pos (seg_put x c) = seg_pos c \<and>
      seg_items (seg_put x c) = take (seg_pos c) (seg_items c) @ x # drop (seg_pos c) (seg_items c)"
    using it_insert_list [OF o at i] i o c by simp
qed

end
