(* ===== verification/Mutable_Segments.thy ===== *)
theory Mutable_Segments
  imports Mutable_Container Vectors_Vector
begin

text \<open>
  The loops of the cells container as they run on its segments: the iterator of
  src/src/cc/include/swcdb/core/VectorsVector.h is moved, the list recursion of
  \<open>Cells_Mutable\<close> is what they compute. \<open>_remove_overhead\<close> is the loop that the overwrite of a
  key and a change of \<open>max_revs\<close> share.
\<close>

section \<open>Removing overhead revisions\<close>

fun overhead_step :: "key \<Rightarrow> u32 \<times> mutable \<Rightarrow> cell \<Rightarrow> (bool \<times> u32 \<times> mutable) option" where
  "overhead_step k (revs, m) c =
     (if key_equal k (c_key c)
      then (if c_flag c = INSERT
            then (if m_max_revs m < revs + 1 then Some (True, revs + 1, m_remove m c)
                  else Some (False, revs + 1, m))
            else Some (False, revs, m))
      else None)"

definition remove_overhead_it ::
  "nat \<Rightarrow> key \<Rightarrow> u32 \<Rightarrow> mutable \<Rightarrow> cell segments \<Rightarrow> (mutable \<times> cell segments) option" where
  "remove_overhead_it fuel k revs m c =
     map_option (\<lambda>((revs, m), c). (m, c))
       (sweep fuel seg_at_item seg_item seg_step seg_erase (overhead_step k) (revs, m) c)"

lemma sweep_list_overhead:
  "\<exists>revs'. sweep_list (overhead_step k) (revs, m) cs =
    (case remove_overhead k revs m cs of (m', kept, rest) \<Rightarrow> ((revs', m'), kept, rest))"
proof (induction cs arbitrary: revs m)
  case (Cons c cs)
  consider (stop) "\<not> key_equal k (c_key c)"
    | (drop) "key_equal k (c_key c)" "c_flag c = INSERT" "m_max_revs m < revs + 1"
    | (keep) "key_equal k (c_key c)" "c_flag c = INSERT" "\<not> m_max_revs m < revs + 1"
    | (other) "key_equal k (c_key c)" "c_flag c \<noteq> INSERT" by blast
  then show ?case
  proof cases
    case stop then show ?thesis by simp
  next
    case drop
    then show ?thesis using Cons.IH [of "revs + 1" "m_remove m c"] by (auto split: prod.splits)
  next
    case keep
    then show ?thesis using Cons.IH [of "revs + 1" m] by (auto split: prod.splits)
  next
    case other
    then show ?thesis using Cons.IH [of revs m] by (auto split: prod.splits)
  qed
qed simp

text \<open>C32: On the segmented container the loop of \<open>_remove_overhead\<close> ends after at most one
  step for every item, and it does what the recursion over the cells behind the iterator says: the
  overhead revisions are gone from the container and its counters, the iterator stands behind the
  kept ones, and the container keeps its invariant.\<close>

theorem remove_overhead_on_segments:
  assumes "seg_ok c" "vv_count vs \<le> fuel" "c = (sz, sp, vs, it)"
    and "remove_overhead k revs m (drop (seg_pos c) (seg_items c)) = (m', kept, rest)"
  shows "\<exists>c'. remove_overhead_it (Suc fuel) k revs m c = Some (m', c') \<and> seg_ok c' \<and>
    seg_items c' = take (seg_pos c) (seg_items c) @ kept @ rest \<and> seg_pos c' = seg_pos c + length kept"
proof -
  let ?rest = "drop (seg_pos c) (seg_items c)"
  obtain revs' where l: "sweep_list (overhead_step k) (revs, m) (drop (seg_pos c) (seg_items c)) = ((revs', m'), kept, rest)"
    using sweep_list_overhead [of k revs m ?rest] unfolding assms(4) by auto
  have "length (seg_items c) - seg_pos c < Suc fuel" using assms(2) unfolding assms(3) by (simp add: vv_count_concat)
  from segs.sweep_refines [OF assms(1) this l] obtain c' where
    c: "sweep (Suc fuel) seg_at_item seg_item seg_step seg_erase (overhead_step k) (revs, m) c = Some ((revs', m'), c')"
      "seg_ok c'" "seg_items c' = take (seg_pos c) (seg_items c) @ kept @ rest" "seg_pos c' = seg_pos c + length kept"
    by blast
  then have "remove_overhead_it (Suc fuel) k revs m c = Some (m', c')"
    unfolding remove_overhead_it_def c(1) by simp
  with c(2-4) show ?thesis by blast
qed

text \<open>Two revisions of a key, of which one is allowed, across the segments.\<close>

theorem remove_overhead_on_segments_witness:
  "\<exists>m' c'. remove_overhead_it 4 (key_of True [[1]]) 0 (Mutable_new LEXIC 1 0 Col_PLAIN)
      (3, 1, [[plain_cell [[1]] [7] 6], [plain_cell [[1]] [8] 5, plain_cell [[2]] [] 5]], (0, 0)) = Some (m', c') \<and>
    seg_items c' = [plain_cell [[1]] [7] 6, plain_cell [[2]] [] 5] \<and> seg_pos c' = 1"
proof -
  let ?k = "key_of True [[1]]" and ?m = "Mutable_new LEXIC 1 0 Col_PLAIN"
  let ?a = "plain_cell [[1]] [7] 6" and ?b = "plain_cell [[1]] [8] 5" and ?d = "plain_cell [[2]] [] 5"
  let ?c = "(3, 1, [[?a], [?b, ?d]], (0, 0)) :: cell segments"
  have ok: "seg_ok ?c" by (simp add: sizes_ok_def vv_ok_def)
  have eqs: "key_equal ?k (c_key ?a)" "key_equal ?k (c_key ?b)" "\<not> key_equal ?k (c_key ?d)"
      "c_flag ?a = INSERT" "c_flag ?b = INSERT" "\<not> m_max_revs ?m < 0 + 1" "m_max_revs ?m < 0 + 1 + 1"
    by code_simp+
  have r: "remove_overhead ?k 0 ?m (drop (seg_pos ?c) (seg_items ?c)) = (m_remove ?m ?b, [?a], [?d])"
    using eqs by simp
  have "vv_count [[?a], [?b, ?d]] \<le> 3" by (simp add: vv_count_def)
  from remove_overhead_on_segments [OF ok this refl r] obtain c' where
    "remove_overhead_it (Suc 3) ?k 0 ?m ?c = Some (m_remove ?m ?b, c')"
    "seg_items c' = take (seg_pos ?c) (seg_items ?c) @ [?a] @ [?d]" "seg_pos c' = seg_pos ?c + length [?a]"
    by blast
  moreover have "Suc 3 = 4" "take (seg_pos ?c) (seg_items ?c) @ [?a] @ [?d] = [?a, ?d]" "seg_pos ?c + length [?a] = 1"
    by simp_all
  ultimately show ?thesis by metis
qed

text \<open>C25: On a vector of segments whose parts are filled as the code keeps them (\<open>seg_ok\<close>), with an iterator that stands at
  an item, \<open>insert\<close> and both \<open>remove\<close>s of the iterator are the operations of the flat list at that position: they
  keep the invariant, and the iterator stays at its position, on the new item or on the one that follows;
  \<open>push_back\<close> appends and keeps the segments in order, and indexing, \<open>front\<close> and \<open>back\<close> read the flat list.\<close>

theorem segments_are_a_list:
  assumes ok: "seg_ok (sz, sp, vs, it)" and at: "it_bool vs it"
  defines "p \<equiv> it_pos vs it"
  shows "seg_ok (seg_put x (sz, sp, vs, it)) \<and> seg_pos (seg_put x (sz, sp, vs, it)) = p \<and>
    seg_ok (seg_erase (sz, sp, vs, it)) \<and> seg_pos (seg_erase (sz, sp, vs, it)) = p \<and>
    seg_items (seg_put x (sz, sp, vs, it)) = take p (concat vs) @ x # drop p (concat vs) \<and>
    seg_items (seg_erase (sz, sp, vs, it)) = take p (concat vs) @ drop (Suc p) (concat vs) \<and>
    (case it of (i, j) \<Rightarrow> cuts sz vs p n (fst (it_remove_n n vs i j)) (snd (it_remove_n n vs i j))) \<and>
    vv_ok sz (vv_push_back sz vs x) \<and> concat (vv_push_back sz vs x) = concat vs @ [x] \<and>
    vv_nth vs k = (if k < vv_count vs then Some (concat vs ! k) else None) \<and>
    vv_front vs = hd (concat vs) \<and> vv_back vs = last (concat vs)"
proof -
  have o: "vv_ok sz vs" "it_ok vs it" "0 < sz" using ok by (auto simp: sizes_ok_def)
  have ne: "concat vs \<noteq> []" using it_bool_pos [OF o(2)] at by (metis not_less_zero list.size(3))
  have "seg_at_item (sz, sp, vs, it)" using at by simp
  note k = segs.put [OF ok this, of x] segs.erase [OF ok this]
  obtain i j where it: "it = (i, j)" by (cases it)
  obtain vs' it' where r: "it_remove_n n vs i j = (vs', it')" using prod.exhaust by blast
  have "cuts sz vs p n vs' it'" using it_remove_n_cuts [OF o(1) _ r] o(2) it p_def by blast
  then have "case it of (i, j) \<Rightarrow> cuts sz vs p n (fst (it_remove_n n vs i j)) (snd (it_remove_n n vs i j))"
    using it r by simp
  moreover have "seg_items (sz, sp, vs, it) = concat vs" "seg_pos (sz, sp, vs, it) = p" by (simp_all add: p_def)
  ultimately show ?thesis
    using k vv_push_back_concat [OF o(3,1), of x] vv_nth_concat [OF o(1), of k]
      vv_front_concat [OF o(1) ne] vv_back_concat [OF o(1) ne] unfolding vv_count_concat by presburger
qed

theorem segments_are_a_list_witness:
  "seg_items (seg_erase (3, 1, [[1, 2], [3::nat]], (1, 0))) = [1, 2] \<and>
    seg_items (seg_put 9 (3, 1, [[1, 2], [3::nat]], (1, 0))) = [1, 2, 9, 3] \<and>
    vv_nth [[1, 2], [3::nat]] 2 = Some 3"
  using segments_are_a_list [of 3 1 "[[1, 2], [3::nat]]" "(1, 0)" 9 1 2]
  by (simp add: sizes_ok_def vv_ok_def vv_count_def)

end
