(* ===== verification/Cells_Interval.thy ===== *)
theory Cells_Interval
  imports Cells_Cell Key_Comparator
begin

text \<open>
  What a block, a cell store or a range knows of its cells:
  src/src/cc/include/swcdb/db/Cells/Interval.h with its Interval.cc, and the timestamps of
  src/src/cc/include/swcdb/db/Cells/SpecsTimestamp.h and flags of SpecsFlags.h it shares with the
  scan specifications. A comparator is the byte it is stored in, so that a decoded one need not be
  an enumerator. Printing is left out.
\<close>

section \<open>Comparators as bytes\<close>

definition all_comps :: "comp list" where
  "all_comps = [NONE, PF, GT, GE, EQ, LE, LT, NE, RE, VGT, VGE, VLE, VLT, SBS, SPS, POSBS, POSPS,
     FOSBS, FOSPS, FIP, FI, COMP_OR]"

definition code_comp :: "byte \<Rightarrow> comp option" where
  "code_comp b = List.find (\<lambda>c. Comp_code c = b) all_comps"

lemma code_comp_code [simp]: "code_comp (Comp_code c) = Some c"
  by (cases c) (simp_all add: code_comp_def all_comps_def)

lemma Comp_code_inject: "Comp_code a = Comp_code b \<longleftrightarrow> a = b"
  by (metis code_comp_code option.inject)

section \<open>Timestamps\<close>

record timestamp =
  ts_value :: i64
  ts_comp :: byte
  ts_was_set :: bool

definition Timestamp_new :: timestamp where
  "Timestamp_new = \<lparr>ts_value = 0, ts_comp = Comp_code NONE, ts_was_set = False\<rparr>"

definition Timestamp_of :: "i64 \<Rightarrow> comp \<Rightarrow> timestamp" where
  "Timestamp_of v cp = \<lparr>ts_value = v, ts_comp = Comp_code cp, ts_was_set = True\<rparr>"

definition Timestamp_read :: "timestamp decoder" where
  "Timestamp_read = dbind decode_i8 (\<lambda>cp.
     if cp = Comp_code NONE then dret \<lparr>ts_value = 0, ts_comp = cp, ts_was_set = True\<rparr>
     else dbind decode_i64 (\<lambda>v. dret \<lparr>ts_value = v, ts_comp = cp, ts_was_set = True\<rparr>))"

definition timestamp_set :: "timestamp \<Rightarrow> i64 \<Rightarrow> byte \<Rightarrow> timestamp" where
  "timestamp_set t v cp = t\<lparr>ts_value := v, ts_comp := cp, ts_was_set := True\<rparr>"

definition timestamp_copy :: "timestamp \<Rightarrow> timestamp \<Rightarrow> timestamp" where
  "timestamp_copy t other = timestamp_set t (ts_value other) (ts_comp other)"

definition timestamp_free :: "timestamp \<Rightarrow> timestamp" where
  "timestamp_free t = t\<lparr>ts_value := 0, ts_comp := Comp_code NONE, ts_was_set := False\<rparr>"

definition timestamp_empty :: "timestamp \<Rightarrow> bool" where
  "timestamp_empty t \<longleftrightarrow> \<not> ts_was_set t"

definition timestamp_equal :: "timestamp \<Rightarrow> timestamp \<Rightarrow> bool" where
  "timestamp_equal t other \<longleftrightarrow> ts_value t = ts_value other \<and> ts_comp t = ts_comp other"

definition timestamp_encoded_length :: "timestamp \<Rightarrow> nat" where
  "timestamp_encoded_length t = 1 + (if ts_comp t \<noteq> Comp_code NONE then 8 else 0)"

definition timestamp_encode :: "timestamp \<Rightarrow> bytes" where
  "timestamp_encode t =
     encode_i8 (ts_comp t) @ (if ts_comp t \<noteq> Comp_code NONE then encode_i64 (ts_value t) else [])"

text \<open>Reading into a timestamp leaves its value as it is when there is no comparator.\<close>

definition timestamp_decode :: "timestamp \<Rightarrow> timestamp decoder" where
  "timestamp_decode t = dbind decode_i8 (\<lambda>cp.
     if cp \<noteq> Comp_code NONE
     then dbind decode_i64 (\<lambda>v. dret (t\<lparr>ts_comp := cp, ts_value := v\<rparr>))
     else dret (t\<lparr>ts_comp := cp\<rparr>))"

text \<open>A byte that is no enumerator takes the default of the switch.\<close>

definition timestamp_matching :: "timestamp \<Rightarrow> i64 \<Rightarrow> bool" where
  "timestamp_matching t other =
     (case code_comp (ts_comp t) of None \<Rightarrow> True | Some cp \<Rightarrow> is_matching_i64 cp (ts_value t) other)"

section \<open>Scan flags\<close>

record flags =
  f_limit :: u64
  f_offset :: u64
  f_max_versions :: u32
  f_max_buffer :: u32
  f_options :: byte
  f_was_set :: bool

definition LIMIT_BY_KEYS :: byte where "LIMIT_BY_KEYS = 0x01"
definition OFFSET_BY_KEYS :: byte where "OFFSET_BY_KEYS = 0x04"
definition ONLY_KEYS :: byte where "ONLY_KEYS = 0x08"
definition ONLY_DELETES :: byte where "ONLY_DELETES = 0x10"
definition MASK_ONLY_DELETES :: byte where "MASK_ONLY_DELETES = 0xff - ONLY_DELETES"

definition Flags_new :: flags where
  "Flags_new = \<lparr>f_limit = 0, f_offset = 0, f_max_versions = 0, f_max_buffer = 0, f_options = 0,
     f_was_set = False\<rparr>"

definition flags_decode :: "flags \<Rightarrow> flags decoder" where
  "flags_decode f = dbind decode_vi64 (\<lambda>limit. dbind decode_vi64 (\<lambda>offset.
     dbind decode_vi32 (\<lambda>versions. dbind decode_vi32 (\<lambda>buffer. dbind decode_i8 (\<lambda>options.
       dret (f\<lparr>f_limit := limit, f_offset := offset, f_max_versions := versions,
         f_max_buffer := buffer, f_options := options\<rparr>))))))"

definition Flags_read :: "flags decoder" where
  "Flags_read = flags_decode (Flags_new\<lparr>f_was_set := True\<rparr>)"

definition flags_copy :: "flags \<Rightarrow> flags \<Rightarrow> flags" where
  "flags_copy f other = f\<lparr>f_limit := f_limit other, f_offset := f_offset other,
     f_max_versions := f_max_versions other, f_max_buffer := f_max_buffer other,
     f_options := f_options other, f_was_set := f_was_set other\<rparr>"

definition is_only_keys :: "flags \<Rightarrow> bool" where
  "is_only_keys f \<longleftrightarrow> f_options f AND ONLY_KEYS \<noteq> 0"

definition is_only_deletes :: "flags \<Rightarrow> bool" where
  "is_only_deletes f \<longleftrightarrow> f_options f AND ONLY_DELETES \<noteq> 0"

definition set_only_keys :: "flags \<Rightarrow> flags" where
  "set_only_keys f = f\<lparr>f_options := f_options f OR ONLY_KEYS\<rparr>"

definition set_only_deletes :: "flags \<Rightarrow> flags" where
  "set_only_deletes f = f\<lparr>f_options := f_options f OR ONLY_DELETES\<rparr>"

definition clear_only_deletes :: "flags \<Rightarrow> flags" where
  "clear_only_deletes f = f\<lparr>f_options := f_options f AND MASK_ONLY_DELETES\<rparr>"

definition flags_equal :: "flags \<Rightarrow> flags \<Rightarrow> bool" where
  "flags_equal f other \<longleftrightarrow> f_limit f = f_limit other \<and> f_offset f = f_offset other \<and>
     f_max_versions f = f_max_versions other \<and> f_max_buffer f = f_max_buffer other \<and>
     f_options f = f_options other \<and> f_was_set f = f_was_set other"

definition flags_encoded_length :: "flags \<Rightarrow> nat" where
  "flags_encoded_length f = encoded_length_vi64 (f_limit f) + encoded_length_vi64 (f_offset f) +
     encoded_length_vi32 (f_max_versions f) + encoded_length_vi32 (f_max_buffer f) + 1"

definition flags_encode :: "flags \<Rightarrow> bytes" where
  "flags_encode f = vi64_out (f_limit f) @ vi64_out (f_offset f) @ vi32_out (f_max_versions f) @
     vi32_out (f_max_buffer f) @ encode_i8 (f_options f)"

section \<open>The interval\<close>

record interval =
  iv_seq :: KeySeq
  iv_begin :: key
  iv_end :: key
  iv_earliest :: timestamp
  iv_latest :: timestamp
  iv_min :: "bytes list"
  iv_max :: "bytes list"
  iv_was_set :: bool

definition Interval_new :: "KeySeq \<Rightarrow> interval" where
  "Interval_new s = \<lparr>iv_seq = s, iv_begin = Key_new, iv_end = Key_new, iv_earliest = Timestamp_new,
     iv_latest = Timestamp_new, iv_min = [], iv_max = [], iv_was_set = False\<rparr>"

definition Interval_read :: "KeySeq \<Rightarrow> interval decoder" where
  "Interval_read s = dbind (key_decode True) (\<lambda>b. dbind (key_decode True) (\<lambda>e.
     dbind Timestamp_read (\<lambda>ts1. dbind Timestamp_read (\<lambda>ts2.
       dbind keyvec_decode (\<lambda>mn. dbind keyvec_decode (\<lambda>mx.
         dret \<lparr>iv_seq = s, iv_begin = b, iv_end = e, iv_earliest = ts1, iv_latest = ts2,
           iv_min = mn, iv_max = mx, iv_was_set = True\<rparr>))))))"

definition Interval_copy :: "interval \<Rightarrow> interval" where
  "Interval_copy other = \<lparr>iv_seq = iv_seq other, iv_begin = key_copy (iv_begin other),
     iv_end = key_copy (iv_end other), iv_earliest = iv_earliest other, iv_latest = iv_latest other,
     iv_min = iv_min other, iv_max = iv_max other, iv_was_set = True\<rparr>"

definition set_key_begin :: "interval \<Rightarrow> key \<Rightarrow> interval" where
  "set_key_begin iv k = iv\<lparr>iv_begin := key_copy k, iv_was_set := True\<rparr>"

definition set_key_end :: "interval \<Rightarrow> key \<Rightarrow> interval" where
  "set_key_end iv k = iv\<lparr>iv_end := key_copy k, iv_was_set := True\<rparr>"

definition set_ts_earliest :: "interval \<Rightarrow> timestamp \<Rightarrow> interval" where
  "set_ts_earliest iv t = iv\<lparr>iv_earliest := timestamp_copy (iv_earliest iv) t, iv_was_set := True\<rparr>"

definition set_ts_latest :: "interval \<Rightarrow> timestamp \<Rightarrow> interval" where
  "set_ts_latest iv t = iv\<lparr>iv_latest := timestamp_copy (iv_latest iv) t, iv_was_set := True\<rparr>"

definition set_aligned_min :: "interval \<Rightarrow> bytes list \<Rightarrow> interval" where
  "set_aligned_min iv v = iv\<lparr>iv_min := v, iv_was_set := True\<rparr>"

definition set_aligned_max :: "interval \<Rightarrow> bytes list \<Rightarrow> interval" where
  "set_aligned_max iv v = iv\<lparr>iv_max := v, iv_was_set := True\<rparr>"

definition interval_copy :: "interval \<Rightarrow> interval \<Rightarrow> interval" where
  "interval_copy iv other =
     (let iv = set_key_begin iv (iv_begin other);
          iv = set_key_end iv (iv_end other);
          iv = set_ts_earliest iv (iv_earliest other);
          iv = set_ts_latest iv (iv_latest other);
          iv = set_aligned_min iv (iv_min other);
          iv = set_aligned_max iv (iv_max other)
      in iv\<lparr>iv_was_set := True\<rparr>)"

definition interval_free :: "interval \<Rightarrow> interval" where
  "interval_free iv = iv\<lparr>iv_begin := key_free (iv_begin iv), iv_end := key_free (iv_end iv),
     iv_earliest := timestamp_free (iv_earliest iv), iv_latest := timestamp_free (iv_latest iv),
     iv_was_set := False, iv_min := [], iv_max := []\<rparr>"

definition is_in_begin :: "interval \<Rightarrow> key \<Rightarrow> bool res" where
  "is_in_begin iv k =
     (if key_empty (iv_begin iv) then Inr True
      else if key_empty k then Inr False
      else res_bind (key_compare (iv_seq iv) (iv_begin iv) k) (\<lambda>cp. Inr (cp \<noteq> LT)))"

definition is_in_end :: "interval \<Rightarrow> key \<Rightarrow> bool res" where
  "is_in_end iv k =
     (if key_empty (iv_end iv) then Inr True
      else if key_empty k then Inr False
      else res_bind (key_compare (iv_seq iv) (iv_end iv) k) (\<lambda>cp. Inr (cp \<noteq> GT)))"

text \<open>Widening by a cell, its timestamp and its key.\<close>

definition expand_begin :: "interval \<Rightarrow> cell \<Rightarrow> interval res" where
  "expand_begin iv c = res_bind (is_in_begin iv (c_key c)) (\<lambda>inside.
     Inr ((if key_empty (iv_begin iv) \<or> \<not> inside then iv\<lparr>iv_begin := key_copy (c_key c)\<rparr> else iv)
       \<lparr>iv_was_set := True\<rparr>))"

definition expand_end :: "interval \<Rightarrow> cell \<Rightarrow> interval res" where
  "expand_end iv c = res_bind (is_in_end iv (c_key c)) (\<lambda>inside.
     Inr ((if key_empty (iv_end iv) \<or> \<not> inside then iv\<lparr>iv_end := key_copy (c_key c)\<rparr> else iv)
       \<lparr>iv_was_set := True\<rparr>))"

definition expand_ts :: "interval \<Rightarrow> i64 \<Rightarrow> interval" where
  "expand_ts iv ts =
     (let iv = (if timestamp_empty (iv_earliest iv) \<or> \<not> timestamp_matching (iv_earliest iv) ts
                then iv\<lparr>iv_earliest := timestamp_set (iv_earliest iv) ts (Comp_code GE)\<rparr> else iv);
          iv = (if timestamp_empty (iv_latest iv) \<or> \<not> timestamp_matching (iv_latest iv) ts
                then iv\<lparr>iv_latest := timestamp_set (iv_latest iv) ts (Comp_code LE)\<rparr> else iv)
      in iv\<lparr>iv_was_set := True\<rparr>)"

definition expand_cell :: "interval \<Rightarrow> cell \<Rightarrow> interval res" where
  "expand_cell iv c = res_bind (expand_begin iv c) (\<lambda>iv. res_bind (expand_end iv c) (\<lambda>iv.
     Inr (iv\<lparr>iv_was_set := True\<rparr>)))"

definition interval_align_key :: "interval \<Rightarrow> key \<Rightarrow> (interval \<times> bool) res" where
  "interval_align_key iv k = res_bind (key_align (iv_seq iv) k (iv_min iv) (iv_max iv))
     (\<lambda>(mn, mx, chg). Inr (iv\<lparr>iv_min := mn, iv_max := mx\<rparr>, chg))"

definition interval_align_vecs :: "interval \<Rightarrow> bytes list \<Rightarrow> bytes list \<Rightarrow> interval \<times> bool" where
  "interval_align_vecs iv mn mx =
     (let (mn, start) = keyvec_align (iv_seq iv) (iv_min iv) mn LT;
          (mx, finish) = keyvec_align (iv_seq iv) (iv_max iv) mx GT
      in (iv\<lparr>iv_min := mn, iv_max := mx\<rparr>, start \<or> finish))"

definition interval_align :: "interval \<Rightarrow> interval \<Rightarrow> interval \<times> bool" where
  "interval_align iv other = interval_align_vecs iv (iv_min other) (iv_max other)"

text \<open>Widening by another interval.\<close>

definition ts_widen_from :: "bool \<Rightarrow> timestamp \<Rightarrow> timestamp \<Rightarrow> bool" where
  "ts_widen_from initiated t other \<longleftrightarrow> \<not> initiated \<or>
     (\<not> timestamp_empty other \<and> ts_comp other = Comp_code NONE) \<or>
     \<not> timestamp_matching t (ts_value other)"

definition expand_interval :: "interval \<Rightarrow> interval \<Rightarrow> interval res" where
  "expand_interval iv other =
     (let initiated = iv_was_set iv in
      res_bind (if initiated then is_in_begin iv (iv_begin other) else Inr False) (\<lambda>inside.
      let iv = (if \<not> inside then set_key_begin iv (iv_begin other) else iv) in
      res_bind (if initiated then is_in_end iv (iv_end other) else Inr False) (\<lambda>inside.
      let iv = (if \<not> inside then set_key_end iv (iv_end other) else iv);
          iv = (if ts_widen_from initiated (iv_earliest iv) (iv_earliest other)
                then set_ts_earliest iv (iv_earliest other) else iv);
          iv = (if ts_widen_from initiated (iv_latest iv) (iv_latest other)
                then set_ts_latest iv (iv_latest other) else iv)
      in Inr iv)))"

definition interval_equal :: "interval \<Rightarrow> interval \<Rightarrow> bool" where
  "interval_equal iv other \<longleftrightarrow> iv_was_set iv = iv_was_set other \<and>
     key_equal (iv_begin iv) (iv_begin other) \<and> key_equal (iv_end iv) (iv_end other) \<and>
     timestamp_equal (iv_earliest iv) (iv_earliest other) \<and>
     timestamp_equal (iv_latest iv) (iv_latest other) \<and>
     iv_min iv = iv_min other \<and> iv_max iv = iv_max other"

definition interval_encoded_length :: "interval \<Rightarrow> nat" where
  "interval_encoded_length iv = unat (key_encoded_length (iv_begin iv)) +
     unat (key_encoded_length (iv_end iv)) + timestamp_encoded_length (iv_earliest iv) +
     timestamp_encoded_length (iv_latest iv) + unat (keyvec_encoded_length (iv_min iv)) +
     unat (keyvec_encoded_length (iv_max iv))"

definition interval_encode :: "interval \<Rightarrow> bytes" where
  "interval_encode iv = key_encode (iv_begin iv) @ key_encode (iv_end iv) @
     timestamp_encode (iv_earliest iv) @ timestamp_encode (iv_latest iv) @
     keyvec_encode (iv_min iv) @ keyvec_encode (iv_max iv)"

definition interval_decode :: "interval \<Rightarrow> bool \<Rightarrow> interval decoder" where
  "interval_decode iv owner = dbind (key_decode owner) (\<lambda>b. dbind (key_decode owner) (\<lambda>e.
     dbind (timestamp_decode (iv_earliest iv)) (\<lambda>ts1. dbind (timestamp_decode (iv_latest iv)) (\<lambda>ts2.
       dbind keyvec_decode (\<lambda>mn. dbind keyvec_decode (\<lambda>mx.
         dret (iv\<lparr>iv_begin := b, iv_end := e, iv_earliest := ts1, iv_latest := ts2,
           iv_min := mn, iv_max := mx, iv_was_set := True\<rparr>)))))))"

section \<open>The codecs\<close>

definition ts_view :: "timestamp \<Rightarrow> timestamp" where
  "ts_view t = t\<lparr>ts_value := if ts_comp t = Comp_code NONE then 0 else ts_value t, ts_was_set := True\<rparr>"

lemma decodes_codec: "codec enc dec len ok view \<Longrightarrow> ok x \<Longrightarrow> decodes dec (enc x) (view x)"
  by (rule codec.decodes_enc)

lemma codec_of_decodes:
  "(\<And>x. ok x \<Longrightarrow> length (enc x) = len x) \<Longrightarrow> (\<And>x. ok x \<Longrightarrow> decodes dec (enc x) (view x)) \<Longrightarrow>
    codec enc dec len ok view"
  by unfold_locales (metis decodesD)+

interpretation ts_codec: codec timestamp_encode Timestamp_read timestamp_encoded_length "\<lambda>_. True" ts_view
proof (rule codec_of_decodes)
  fix t :: timestamp
  show "length (timestamp_encode t) = timestamp_encoded_length t"
    by (simp add: timestamp_encode_def timestamp_encoded_length_def encode_i8_def encode_i64_def)
  have none: "decodes Timestamp_read (encode_i8 (Comp_code NONE) @ []) (ts_view t)"
    if "ts_comp t = Comp_code NONE"
  proof -
    have "ts_view t = \<lparr>ts_value = 0, ts_comp = Comp_code NONE, ts_was_set = True\<rparr>" using that by (simp add: ts_view_def)
    then show ?thesis unfolding Timestamp_read_def by (intro decodes_dbind [OF decodes_i8]) (simp add: decodes_dret)
  qed
  have some: "decodes Timestamp_read (encode_i8 (ts_comp t) @ encode_i64 (ts_value t)) (ts_view t)"
    if "ts_comp t \<noteq> Comp_code NONE"
  proof -
    have "ts_view t = \<lparr>ts_value = ts_value t, ts_comp = ts_comp t, ts_was_set = True\<rparr>"
      using that by (cases t) (simp add: ts_view_def)
    then show ?thesis
      using decodes_dbind_dret [OF decodes_i64, of "\<lambda>v. \<lparr>ts_value = v, ts_comp = ts_comp t, ts_was_set = True\<rparr>" "ts_value t"] that
      unfolding Timestamp_read_def by (intro decodes_dbind [OF decodes_i8]) simp
  qed
  show "decodes Timestamp_read (timestamp_encode t) (ts_view t)"
    using none some by (auto simp: timestamp_encode_def)
qed

interpretation flags_codec: codec_pos flags_encode Flags_read flags_encoded_length "\<lambda>_. True"
  "\<lambda>f. f\<lparr>f_was_set := True\<rparr>"
proof (intro codec_pos.intro codec_of_decodes codec_pos_axioms.intro)
  fix f :: flags
  show "length (flags_encode f) = flags_encoded_length f"
    by (simp add: flags_encode_def flags_encoded_length_def encode_i8_def)
  show "0 < flags_encoded_length f" by (simp add: flags_encoded_length_def)
  have options: "decodes (dbind decode_i8 (\<lambda>options. dret
      (Flags_new\<lparr>f_was_set := True, f_limit := f_limit f, f_offset := f_offset f, f_max_versions := f_max_versions f,
         f_max_buffer := f_max_buffer f, f_options := options\<rparr>))) (encode_i8 (f_options f)) (f\<lparr>f_was_set := True\<rparr>)"
    using decodes_dbind_dret [OF decodes_i8, of "\<lambda>b. f\<lparr>f_was_set := True, f_options := b\<rparr>" "f_options f"]
    by (cases f) (simp add: Flags_new_def)
  show "decodes Flags_read (flags_encode f) (f\<lparr>f_was_set := True\<rparr>)"
    unfolding Flags_read_def flags_decode_def flags_encode_def
    by (intro decodes_dbind [OF vi64.decodes_enc [OF TrueI]] decodes_dbind [OF vi32.decodes_enc [OF TrueI]])
      (rule options)
qed

text \<open>A reader owns its keys, and a timestamp without comparator has no value.\<close>

definition interval_view :: "interval \<Rightarrow> interval" where
  "interval_view iv = iv\<lparr>iv_begin := (iv_begin iv)\<lparr>key_own := True\<rparr>, iv_end := (iv_end iv)\<lparr>key_own := True\<rparr>,
     iv_earliest := ts_view (iv_earliest iv), iv_latest := ts_view (iv_latest iv), iv_was_set := True\<rparr>"

definition interval_fits :: "interval \<Rightarrow> bool" where
  "interval_fits iv \<longleftrightarrow> key_rep (iv_begin iv) \<and> key_rep (iv_end iv) \<and>
     keyvec_fits (iv_min iv) \<and> keyvec_fits (iv_max iv)"

lemma length_key_encode: "key_rep k \<Longrightarrow> length (key_encode k) = unat (key_encoded_length k)"
  using key_codec.enc_len by (auto elim!: key_repE)

interpretation interval_codec: codec interval_encode "Interval_read s" interval_encoded_length
  "\<lambda>iv. interval_fits iv \<and> iv_seq iv = s" interval_view for s
proof (rule codec_of_decodes)
  fix iv assume ok: "interval_fits iv \<and> iv_seq iv = s"
  then have k: "key_rep (iv_begin iv)" "key_rep (iv_end iv)" and v: "keyvec_fits (iv_min iv)" "keyvec_fits (iv_max iv)"
    by (simp_all add: interval_fits_def)
  show "length (interval_encode iv) = interval_encoded_length iv"
    using k v by (simp add: length_key_encode interval_encode_def interval_encoded_length_def ts_codec.enc_len keyvec_codec.enc_len)
  let ?g = "\<lambda>mx. \<lparr>iv_seq = s, iv_begin = (iv_begin iv)\<lparr>key_own := True\<rparr>, iv_end = (iv_end iv)\<lparr>key_own := True\<rparr>,
      iv_earliest = ts_view (iv_earliest iv), iv_latest = ts_view (iv_latest iv), iv_min = iv_min iv,
      iv_max = mx, iv_was_set = True\<rparr>"
  have mx: "decodes (dbind keyvec_decode (\<lambda>mx. dret (?g mx))) (keyvec_encode (iv_max iv)) (?g (iv_max iv))"
    by (rule decodes_dbind_dret [OF keyvec_codec.decodes_enc [OF v(2)]])
  have view: "interval_view iv = \<lparr>iv_seq = s, iv_begin = (iv_begin iv)\<lparr>key_own := True\<rparr>, iv_end = (iv_end iv)\<lparr>key_own := True\<rparr>,
      iv_earliest = ts_view (iv_earliest iv), iv_latest = ts_view (iv_latest iv), iv_min = iv_min iv,
      iv_max = iv_max iv, iv_was_set = True\<rparr>"
    using ok by (simp add: interval_view_def)
  show "decodes (Interval_read s) (interval_encode iv) (interval_view iv)"
    unfolding Interval_read_def interval_encode_def view
    by (intro decodes_dbind [OF decodes_key [OF k(1)]] decodes_dbind [OF decodes_key [OF k(2)]]
        decodes_dbind [OF ts_codec.decodes_enc [OF TrueI]] decodes_dbind [OF keyvec_codec.decodes_enc [OF v(1)]])
      (rule mx)
qed

text \<open>An interval is written in its announced length, and read back as the same interval, but
  for what is not written: a reader owns the keys and takes the interval and its timestamps for set.\<close>

lemma interval_roundtrip:
  assumes "interval_fits iv" and "interval_encoded_length iv \<le> unat n"
  shows "length (interval_encode iv) = interval_encoded_length iv \<and>
    Interval_read (iv_seq iv) \<lparr>mem = interval_encode iv @ rest, remain = n\<rparr> =
      Inr (interval_view iv, \<lparr>mem = rest, remain = n - of_nat (interval_encoded_length iv)\<rparr>)"
  using interval_codec.enc_len interval_codec.dec_enc assms by blast

section \<open>What widening keeps\<close>

text \<open>
  An interval that is built from cells: its keys are keys of cells, its timestamps are unset or
  bounds. \<open>holds\<close>: a key and a timestamp are inside, with a begin and an end that are there;
  \<open>in_box\<close>: every fraction of a key is between the aligned ones.
\<close>

definition iv_ok :: "interval \<Rightarrow> bool" where
  "iv_ok iv \<longleftrightarrow> iv_seq iv \<noteq> UNKNOWN \<and> key_rep (iv_begin iv) \<and> key_rep (iv_end iv) \<and>
     (ts_was_set (iv_earliest iv) \<longrightarrow> ts_comp (iv_earliest iv) = Comp_code GE) \<and>
     (ts_was_set (iv_latest iv) \<longrightarrow> ts_comp (iv_latest iv) = Comp_code LE)"

definition from_begin :: "interval \<Rightarrow> key \<Rightarrow> bool" where
  "from_begin iv k \<longleftrightarrow> \<not> key_empty (iv_begin iv) \<and> key_cmp (iv_seq iv) (iv_begin iv) k \<noteq> LT"

definition to_end :: "interval \<Rightarrow> key \<Rightarrow> bool" where
  "to_end iv k \<longleftrightarrow> \<not> key_empty (iv_end iv) \<and> key_cmp (iv_seq iv) (iv_end iv) k \<noteq> GT"

definition in_time :: "interval \<Rightarrow> i64 \<Rightarrow> bool" where
  "in_time iv ts \<longleftrightarrow> ts_was_set (iv_earliest iv) \<and> sint (ts_value (iv_earliest iv)) \<le> sint ts \<and>
     ts_was_set (iv_latest iv) \<and> sint ts \<le> sint (ts_value (iv_latest iv))"

definition in_box :: "interval \<Rightarrow> key \<Rightarrow> bool" where
  "in_box iv k \<longleftrightarrow> (\<forall>own fs i. fits fs \<longrightarrow> k = key_of own fs \<longrightarrow> i < length fs \<longrightarrow>
     i < length (iv_min iv) \<and> i < length (iv_max iv) \<and>
     seq_condition (iv_seq iv) (iv_min iv ! i) (fs ! i) \<noteq> LT \<and>
     seq_condition (iv_seq iv) (iv_max iv ! i) (fs ! i) \<noteq> GT)"

lemma key_copy_rep [simp]: "key_rep k \<Longrightarrow> key_rep (key_copy k)"
  by (auto elim!: key_repE simp: key_copy_of)

lemma key_copy_bytes: "key_rep k \<Longrightarrow> same_key (key_copy k) k"
  by (auto elim!: key_repE simp: key_copy_of same_key_of)

lemma key_copy_empty: "key_rep k \<Longrightarrow> key_empty (key_copy k) = key_empty k"
  by (auto elim!: key_repE simp: key_copy_of key_empty_def)

lemma Interval_new_ok: "s \<noteq> UNKNOWN \<Longrightarrow> iv_ok (Interval_new s)"
  using key_rep_of [of "[]" False]
  by (simp add: iv_ok_def Interval_new_def Timestamp_new_def Key_new_def key_of_def)

lemma key_cmp_copy:
  assumes s: "s \<noteq> UNKNOWN" and k: "key_rep k" and x: "key_rep x"
  shows "key_cmp s (key_copy k) x = key_cmp s k x"
  using assms by (auto elim!: key_repE simp: key_copy_of)

text \<open>With the key copied in when the cell is outside, it is inside, and so is what was.\<close>

lemma expand_begin_holds:
  assumes iv: "iv_ok iv" and c: "key_rep (c_key c)" "\<not> key_empty (c_key c)"
  shows "\<exists>iv'. expand_begin iv c = Inr iv' \<and> iv_ok iv' \<and> from_begin iv' (c_key c) \<and>
    (\<forall>k. key_rep k \<longrightarrow> from_begin iv k \<longrightarrow> from_begin iv' k) \<and>
    iv' = iv\<lparr>iv_begin := iv_begin iv', iv_was_set := True\<rparr> \<and>
    (iv_begin iv' = iv_begin iv \<or> iv_begin iv' = key_copy (c_key c))"
proof -
  let ?s = "iv_seq iv" and ?b = "iv_begin iv" and ?k = "c_key c"
  have s: "?s \<noteq> UNKNOWN" and b: "key_rep ?b" using iv by (simp_all add: iv_ok_def)
  note o = key_order [OF s]
  have copy: "key_cmp ?s (key_copy ?k) k \<noteq> LT" if "key_rep k" "key_cmp ?s ?b k \<noteq> LT" "key_cmp ?s ?b ?k = LT" for k
  proof -
    have "key_cmp ?s ?k ?b \<noteq> LT" using comp_order.cmp_swapD [OF o b c(1)] that(3) by simp
    then show ?thesis
      using comp_order.not_LT_trans [OF o c(1) b that(1)] that key_cmp_copy [OF s c(1) that(1)] by simp
  qed
  have self: "key_cmp ?s (key_copy ?k) ?k \<noteq> LT"
    using key_cmp_copy [OF s c(1) c(1)] comp_order.cmp_refl [OF o c(1)] by simp
  show ?thesis
    using iv c copy self key_compare_Inr [OF b c(1)] key_copy_empty [OF c(1)]
    by (auto simp: expand_begin_def is_in_begin_def from_begin_def iv_ok_def)
qed

lemma expand_end_holds:
  assumes iv: "iv_ok iv" and c: "key_rep (c_key c)" "\<not> key_empty (c_key c)"
  shows "\<exists>iv'. expand_end iv c = Inr iv' \<and> iv_ok iv' \<and> to_end iv' (c_key c) \<and>
    (\<forall>k. key_rep k \<longrightarrow> to_end iv k \<longrightarrow> to_end iv' k) \<and>
    iv' = iv\<lparr>iv_end := iv_end iv', iv_was_set := True\<rparr> \<and>
    (iv_end iv' = iv_end iv \<or> iv_end iv' = key_copy (c_key c))"
proof -
  let ?s = "iv_seq iv" and ?b = "iv_end iv" and ?k = "c_key c"
  have s: "?s \<noteq> UNKNOWN" and b: "key_rep ?b" using iv by (simp_all add: iv_ok_def)
  note o = key_order [OF s]
  have flip: "key_cmp ?s x y \<noteq> GT \<longleftrightarrow> key_cmp ?s y x \<noteq> LT" if "key_rep x" "key_rep y" for x y
    using comp_order.cmp_swap [OF o that] by simp
  have copy: "key_cmp ?s (key_copy ?k) k \<noteq> GT" if "key_rep k" "key_cmp ?s ?b k \<noteq> GT" "key_cmp ?s ?b ?k = GT" for k
  proof -
    have "key_cmp ?s k ?k \<noteq> LT"
      using comp_order.not_LT_trans [OF o that(1) b c(1)] that flip [OF b that(1)] by simp
    then show ?thesis using flip [OF c(1) that(1)] key_cmp_copy [OF s c(1) that(1)] by simp
  qed
  have self: "key_cmp ?s (key_copy ?k) ?k \<noteq> GT"
    using key_cmp_copy [OF s c(1) c(1)] comp_order.cmp_refl [OF o c(1)] by simp
  show ?thesis
    using iv c copy self key_compare_Inr [OF b c(1)] key_copy_empty [OF c(1)]
    by (auto simp: expand_end_def is_in_end_def to_end_def iv_ok_def)
qed

lemma expand_ts_holds:
  assumes iv: "iv_ok iv"
  shows "iv_ok (expand_ts iv ts) \<and> in_time (expand_ts iv ts) ts \<and>
    (\<forall>t. in_time iv t \<longrightarrow> in_time (expand_ts iv ts) t) \<and>
    expand_ts iv ts = iv\<lparr>iv_earliest := iv_earliest (expand_ts iv ts), iv_latest := iv_latest (expand_ts iv ts),
      iv_was_set := True\<rparr>"
  using iv by (auto simp: expand_ts_def iv_ok_def in_time_def timestamp_empty_def timestamp_set_def
      timestamp_matching_def ge_i64_def le_i64_def Let_def simp del: Comp_code.simps)

lemma interval_align_key_holds:
  assumes iv: "iv_ok iv" and k: "key_rep k"
  shows "\<exists>iv' chg. interval_align_key iv k = Inr (iv', chg) \<and> iv_ok iv' \<and> in_box iv' k \<and>
    (\<forall>k'. in_box iv k' \<longrightarrow> in_box iv' k') \<and>
    iv' = iv\<lparr>iv_min := iv_min iv', iv_max := iv_max iv'\<rparr>"
proof -
  let ?s = "iv_seq iv" and ?c = "seq_condition (iv_seq iv)"
  have s: "?s \<noteq> UNKNOWN" using iv by (simp add: iv_ok_def)
  obtain own fs where k: "fits fs" "k = key_of own fs" using k by (rule key_repE)
  obtain mn mx chg where a: "key_align ?s k (iv_min iv) (iv_max iv) = Inr (mn, mx, chg)"
    and len: "length mn = max (length fs) (length (iv_min iv))" "length mx = max (length fs) (length (iv_max iv))"
    and box: "\<forall>i < length fs. ?c (mn ! i) (fs ! i) \<noteq> LT \<and> ?c (mx ! i) (fs ! i) \<noteq> GT"
    and wide: "\<forall>i < length (iv_min iv). ?c (mn ! i) (iv_min iv ! i) \<noteq> LT"
      "\<forall>i < length (iv_max iv). ?c (mx ! i) (iv_max iv ! i) \<noteq> GT"
    using key_align_box [OF s k(1), of own "iv_min iv" "iv_max iv"] k(2) by blast
  let ?iv = "iv\<lparr>iv_min := mn, iv_max := mx\<rparr>"
  note o = seq_condition_order [OF s]
  have up: "?c a c \<noteq> LT" if "?c a b \<noteq> LT" "?c b c \<noteq> LT" for a b c
    using comp_order.not_LT_trans [OF o TrueI TrueI TrueI that] .
  have flip: "?c a b \<noteq> GT \<longleftrightarrow> ?c b a \<noteq> LT" for a b using comp_order.cmp_swap [OF o TrueI TrueI] by simp
  have same: "gs = fs" if "fits gs" "k = key_of own' gs" for own' gs
  proof -
    have "same_key (key_of own' gs) (key_of own fs)" by (metis that(2) k(2) same_key_def)
    then show ?thesis using same_key_of [OF that(1) k(1)] by blast
  qed
  have "in_box ?iv k"
    unfolding in_box_def
  proof (intro allI impI)
    fix own' gs i assume "fits gs" "k = key_of own' gs" "i < length gs"
    then show "i < length (iv_min ?iv) \<and> i < length (iv_max ?iv) \<and>
        seq_condition (iv_seq ?iv) (iv_min ?iv ! i) (gs ! i) \<noteq> LT \<and>
        seq_condition (iv_seq ?iv) (iv_max ?iv ! i) (gs ! i) \<noteq> GT"
      using same box len by auto
  qed
  moreover have "in_box ?iv k'" if b: "in_box iv k'" for k'
    unfolding in_box_def
  proof (intro allI impI)
    fix own' gs i assume g: "fits gs" "k' = key_of own' gs" "i < length gs"
    then have old: "i < length (iv_min iv)" "i < length (iv_max iv)" "?c (iv_min iv ! i) (gs ! i) \<noteq> LT"
        "?c (iv_max iv ! i) (gs ! i) \<noteq> GT" using b unfolding in_box_def by blast+
    have "?c (mn ! i) (iv_min iv ! i) \<noteq> LT" using wide(1) old(1) by blast
    then have "?c (mn ! i) (gs ! i) \<noteq> LT" using up old(3) by blast
    moreover have "?c (iv_max iv ! i) (mx ! i) \<noteq> LT" using wide(2) old(2) flip by blast
    moreover have "?c (gs ! i) (iv_max iv ! i) \<noteq> LT" using old(4) flip by blast
    ultimately have "?c (mn ! i) (gs ! i) \<noteq> LT" "?c (mx ! i) (gs ! i) \<noteq> GT" using up flip by blast+
    then show "i < length (iv_min ?iv) \<and> i < length (iv_max ?iv) \<and>
        seq_condition (iv_seq ?iv) (iv_min ?iv ! i) (gs ! i) \<noteq> LT \<and>
        seq_condition (iv_seq ?iv) (iv_max ?iv ! i) (gs ! i) \<noteq> GT" using old(1,2) len by (simp add: less_max_iff_disj)
  qed
  ultimately show ?thesis using a iv by (auto simp: interval_align_key_def iv_ok_def)
qed

text \<open>C29: Widening an interval by a cell, its timestamp and its key returns; then the cell is inside
  in key, time and box, everything that was inside still is, and the bounds are those of before or
  the cell's own. Cells have a key with a fraction, as an empty key means no bound.\<close>

theorem expanding_holds_cells:
  assumes "iv_ok iv" and "key_rep (c_key c)" and "\<not> key_empty (c_key c)"
  shows "\<exists>iv1 iv2 iv3 chg. expand_cell iv c = Inr iv1 \<and> iv2 = expand_ts iv1 (c_timestamp c) \<and>
    interval_align_key iv2 (c_key c) = Inr (iv3, chg) \<and> iv_ok iv3 \<and>
    from_begin iv3 (c_key c) \<and> to_end iv3 (c_key c) \<and> in_time iv3 (c_timestamp c) \<and> in_box iv3 (c_key c) \<and>
    (\<forall>k. key_rep k \<longrightarrow> (from_begin iv k \<longrightarrow> from_begin iv3 k) \<and> (to_end iv k \<longrightarrow> to_end iv3 k) \<and>
       (in_box iv k \<longrightarrow> in_box iv3 k)) \<and>
    (\<forall>t. in_time iv t \<longrightarrow> in_time iv3 t) \<and>
    iv_begin iv3 \<in> {iv_begin iv, key_copy (c_key c)} \<and> iv_end iv3 \<in> {iv_end iv, key_copy (c_key c)}"
proof -
  obtain a where a: "expand_begin iv c = Inr a" "iv_ok a" "from_begin a (c_key c)"
    "\<forall>k. key_rep k \<longrightarrow> from_begin iv k \<longrightarrow> from_begin a k"
    "a = iv\<lparr>iv_begin := iv_begin a, iv_was_set := True\<rparr>" "iv_begin a \<in> {iv_begin iv, key_copy (c_key c)}"
    using expand_begin_holds [OF assms] by blast
  obtain b where b: "expand_end a c = Inr b" "iv_ok b" "to_end b (c_key c)"
    "\<forall>k. key_rep k \<longrightarrow> to_end a k \<longrightarrow> to_end b k"
    "b = a\<lparr>iv_end := iv_end b, iv_was_set := True\<rparr>" "iv_end b \<in> {iv_end a, key_copy (c_key c)}"
    using expand_end_holds [OF a(2) assms(2,3)] by blast
  have same: "b\<lparr>iv_was_set := True\<rparr> = b" by (subst (2) b(5), subst b(5)) simp
  define d where "d = expand_ts b (c_timestamp c)"
  note d = expand_ts_holds [OF b(2), of "c_timestamp c", folded d_def]
  obtain e chg where e: "interval_align_key d (c_key c) = Inr (e, chg)" "iv_ok e" "in_box e (c_key c)"
    "\<forall>k. in_box d k \<longrightarrow> in_box e k" "e = d\<lparr>iv_min := iv_min e, iv_max := iv_max e\<rparr>"
    using interval_align_key_holds [OF conjunct1 [OF d] assms(2)] by blast
  have ea: "iv_seq a = iv_seq iv" "iv_end a = iv_end iv" "iv_earliest a = iv_earliest iv"
    "iv_latest a = iv_latest iv" "iv_min a = iv_min iv" "iv_max a = iv_max iv"
    by (subst a(5), simp)+
  have eb: "iv_seq b = iv_seq iv" "iv_begin b = iv_begin a" "iv_earliest b = iv_earliest iv"
    "iv_latest b = iv_latest iv" "iv_min b = iv_min iv" "iv_max b = iv_max iv"
    by (subst b(5), simp add: ea)+
  note de = conjunct2 [OF conjunct2 [OF conjunct2 [OF d]]]
  have ed: "iv_seq d = iv_seq iv" "iv_begin d = iv_begin a" "iv_end d = iv_end b" "iv_min d = iv_min iv" "iv_max d = iv_max iv"
    by (subst de, simp add: eb)+
  have ee: "iv_seq e = iv_seq iv" "iv_begin e = iv_begin a" "iv_end e = iv_end b"
    "iv_earliest e = iv_earliest d" "iv_latest e = iv_latest d"
    by (subst e(5), simp add: ed)+
  have fb: "from_begin e k = from_begin a k" "to_end e k = to_end b k" "to_end a k = to_end iv k"
    "in_box d k = in_box iv k" "in_time e t = in_time d t" "in_time b t = in_time iv t" for k t
    unfolding from_begin_def to_end_def in_box_def in_time_def by (simp_all only: ea eb ed ee)
  have "expand_cell iv c = Inr b" using a(1) b(1) same by (simp add: expand_cell_def)
  moreover have "\<forall>k. key_rep k \<longrightarrow> (from_begin iv k \<longrightarrow> from_begin e k) \<and> (to_end iv k \<longrightarrow> to_end e k) \<and>
       (in_box iv k \<longrightarrow> in_box e k)"
    using a(4) b(4) e(4) unfolding fb by blast
  moreover have "\<forall>t. in_time iv t \<longrightarrow> in_time e t" "in_time e (c_timestamp c)"
    using d unfolding fb by blast+
  moreover have "from_begin e (c_key c)" "to_end e (c_key c)" using a(3) b(3) unfolding fb by blast+
  moreover have "iv_begin e \<in> {iv_begin iv, key_copy (c_key c)}" "iv_end e \<in> {iv_end iv, key_copy (c_key c)}"
    using a(6) b(6) unfolding ee ea by blast+
  ultimately show ?thesis using e(1-3) d_def by blast
qed

section \<open>Joining intervals\<close>

lemma is_in_begin_eq: "iv_ok iv \<Longrightarrow> key_rep k \<Longrightarrow> \<not> key_empty k \<Longrightarrow>
    is_in_begin iv k = Inr (key_empty (iv_begin iv) \<or> key_cmp (iv_seq iv) (iv_begin iv) k \<noteq> LT)"
  by (simp add: is_in_begin_def iv_ok_def key_compare_Inr)

lemma is_in_end_eq: "iv_ok iv \<Longrightarrow> key_rep k \<Longrightarrow> \<not> key_empty k \<Longrightarrow>
    is_in_end iv k = Inr (key_empty (iv_end iv) \<or> key_cmp (iv_seq iv) (iv_end iv) k \<noteq> GT)"
  by (simp add: is_in_end_def iv_ok_def key_compare_Inr)

text \<open>The two keys of a joined interval: the own one when the other's is inside, else the other's.\<close>

lemma join_begin:
  assumes iv: "iv_ok iv" and other: "iv_ok other" "iv_seq other = iv_seq iv"
  shows "\<exists>inside. is_in_begin iv (iv_begin other) = Inr inside \<and>
    (\<forall>k. key_rep k \<longrightarrow> \<not> key_empty k \<longrightarrow> is_in_begin iv k = Inr True \<or> is_in_begin other k = Inr True \<longrightarrow>
       is_in_begin (if \<not> inside then set_key_begin iv (iv_begin other) else iv) k = Inr True)"
proof -
  let ?s = "iv_seq iv" and ?b = "iv_begin iv" and ?o = "iv_begin other"
  have s: "?s \<noteq> UNKNOWN" and b: "key_rep ?b" "key_rep ?o" using iv other by (simp_all add: iv_ok_def)
  note o = key_order [OF s]
  obtain inside where i: "is_in_begin iv ?o = Inr inside"
    "inside \<longleftrightarrow> key_empty ?b \<or> (\<not> key_empty ?o \<and> key_cmp ?s ?b ?o \<noteq> LT)"
    using b key_compare_Inr [OF b, of ?s] by (auto simp: is_in_begin_def)
  have ok': "iv_ok (set_key_begin iv ?o)" using iv b by (simp add: iv_ok_def set_key_begin_def)
  have "is_in_begin (if \<not> inside then set_key_begin iv ?o else iv) k = Inr True"
    if k: "key_rep k" "\<not> key_empty k" and h: "is_in_begin iv k = Inr True \<or> is_in_begin other k = Inr True" for k
  proof (cases inside)
    case True
    then show ?thesis
      using h i(2) comp_order.not_LT_trans [OF o b k(1)]
      by (auto simp: is_in_begin_eq [OF iv k] is_in_begin_eq [OF other(1) k] other(2))
  next
    case False
    have "key_cmp ?s ?o ?b \<noteq> LT" if "key_cmp ?s ?b ?o = LT"
      using comp_order.cmp_swapD [OF o b that] by simp
    moreover have "is_in_begin (set_key_begin iv ?o) k = Inr (key_empty ?o \<or> key_cmp ?s ?o k \<noteq> LT)"
      using is_in_begin_eq [OF ok' k] key_cmp_copy [OF s b(2) k(1)] key_copy_empty [OF b(2)]
      by (simp add: set_key_begin_def)
    ultimately show ?thesis
      using False h i(2) comp_order.not_LT_trans [OF o b(2,1) k(1)]
      by (auto simp: is_in_begin_eq [OF iv k] is_in_begin_eq [OF other(1) k] other(2))
  qed
  with i(1) show ?thesis by blast
qed

lemma join_end:
  assumes iv: "iv_ok iv" and other: "iv_ok other" "iv_seq other = iv_seq iv"
  shows "\<exists>inside. is_in_end iv (iv_end other) = Inr inside \<and>
    (\<forall>k. key_rep k \<longrightarrow> \<not> key_empty k \<longrightarrow> is_in_end iv k = Inr True \<or> is_in_end other k = Inr True \<longrightarrow>
       is_in_end (if \<not> inside then set_key_end iv (iv_end other) else iv) k = Inr True)"
proof -
  let ?s = "iv_seq iv" and ?b = "iv_end iv" and ?o = "iv_end other"
  have s: "?s \<noteq> UNKNOWN" and b: "key_rep ?b" "key_rep ?o" using iv other by (simp_all add: iv_ok_def)
  note o = key_order [OF s]
  have flip: "key_cmp ?s x y \<noteq> GT \<longleftrightarrow> key_cmp ?s y x \<noteq> LT" if "key_rep x" "key_rep y" for x y
    using comp_order.cmp_swap [OF o that] by simp
  have trans: "key_cmp ?s x z \<noteq> GT" if "key_rep x" "key_rep y" "key_rep z" "key_cmp ?s x y \<noteq> GT" "key_cmp ?s y z \<noteq> GT" for x y z
    using comp_order.not_LT_trans [OF o that(3,2,1)] that flip by blast
  obtain inside where i: "is_in_end iv ?o = Inr inside"
    "inside \<longleftrightarrow> key_empty ?b \<or> (\<not> key_empty ?o \<and> key_cmp ?s ?b ?o \<noteq> GT)"
    using b key_compare_Inr [OF b, of ?s] by (auto simp: is_in_end_def)
  have ok': "iv_ok (set_key_end iv ?o)" using iv b by (simp add: iv_ok_def set_key_end_def)
  have "is_in_end (if \<not> inside then set_key_end iv ?o else iv) k = Inr True"
    if k: "key_rep k" "\<not> key_empty k" and h: "is_in_end iv k = Inr True \<or> is_in_end other k = Inr True" for k
  proof (cases inside)
    case True
    then show ?thesis
      using h i(2) trans [OF b k(1)]
      by (auto simp: is_in_end_eq [OF iv k] is_in_end_eq [OF other(1) k] other(2))
  next
    case False
    have "key_cmp ?s ?o ?b \<noteq> GT" if "key_cmp ?s ?b ?o = GT"
      using comp_order.cmp_swap [OF o b] that by simp
    moreover have "is_in_end (set_key_end iv ?o) k = Inr (key_empty ?o \<or> key_cmp ?s ?o k \<noteq> GT)"
      using is_in_end_eq [OF ok' k] key_cmp_copy [OF s b(2) k(1)] key_copy_empty [OF b(2)]
      by (simp add: set_key_end_def)
    ultimately show ?thesis
      using False h i(2) trans [OF b(2,1) k(1)]
      by (auto simp: is_in_end_eq [OF iv k] is_in_end_eq [OF other(1) k] other(2))
  qed
  with i(1) show ?thesis by blast
qed

text \<open>C40: Joining another interval returns; a key that was inside either is inside the result, and so
  is a timestamp, when the timestamps of both are set.\<close>

theorem joining_holds_both:
  assumes iv: "iv_ok iv" "iv_was_set iv" and other: "iv_ok other" "iv_seq other = iv_seq iv"
  shows "\<exists>iv'. expand_interval iv other = Inr iv' \<and>
    (\<forall>k. key_rep k \<longrightarrow> \<not> key_empty k \<longrightarrow>
       (is_in_begin iv k = Inr True \<or> is_in_begin other k = Inr True \<longrightarrow> is_in_begin iv' k = Inr True) \<and>
       (is_in_end iv k = Inr True \<or> is_in_end other k = Inr True \<longrightarrow> is_in_end iv' k = Inr True)) \<and>
    (\<forall>t1 t2 t. in_time iv t1 \<longrightarrow> in_time other t2 \<longrightarrow> in_time iv t \<or> in_time other t \<longrightarrow> in_time iv' t)"
proof -
  obtain ib where b: "is_in_begin iv (iv_begin other) = Inr ib"
    "\<And>k. key_rep k \<Longrightarrow> \<not> key_empty k \<Longrightarrow> is_in_begin iv k = Inr True \<or> is_in_begin other k = Inr True \<Longrightarrow>
       is_in_begin (if \<not> ib then set_key_begin iv (iv_begin other) else iv) k = Inr True"
    using join_begin [OF iv(1) other] by blast
  obtain ie where e: "is_in_end iv (iv_end other) = Inr ie"
    "\<And>k. key_rep k \<Longrightarrow> \<not> key_empty k \<Longrightarrow> is_in_end iv k = Inr True \<or> is_in_end other k = Inr True \<Longrightarrow>
       is_in_end (if \<not> ie then set_key_end iv (iv_end other) else iv) k = Inr True"
    using join_end [OF iv(1) other] by blast
  let ?a = "if \<not> ib then set_key_begin iv (iv_begin other) else iv"
  let ?b = "if \<not> ie then set_key_end ?a (iv_end other) else ?a"
  let ?c = "if ts_widen_from True (iv_earliest ?b) (iv_earliest other) then set_ts_earliest ?b (iv_earliest other) else ?b"
  let ?d = "if ts_widen_from True (iv_latest ?c) (iv_latest other) then set_ts_latest ?c (iv_latest other) else ?c"
  have "is_in_end ?a k = is_in_end iv k" for k by (simp add: is_in_end_def set_key_begin_def)
  then have exp: "expand_interval iv other = Inr ?d" using iv(2) b(1) e(1) by (simp add: expand_interval_def Let_def)
  have hb: "is_in_begin ?d k = is_in_begin ?a k" for k
    by (simp add: is_in_begin_def set_key_end_def set_ts_earliest_def set_ts_latest_def)
  have he: "is_in_end ?d k = is_in_end (if \<not> ie then set_key_end iv (iv_end other) else iv) k" for k
    by (simp add: is_in_end_def set_key_begin_def set_key_end_def set_ts_earliest_def set_ts_latest_def)
  have ht: "in_time ?d t" if "in_time iv t1" "in_time other t2" "in_time iv t \<or> in_time other t" for t t1 t2
    using that iv(1) other(1)
    by (auto simp: in_time_def iv_ok_def ts_widen_from_def timestamp_matching_def timestamp_empty_def
        timestamp_copy_def timestamp_set_def set_ts_earliest_def set_ts_latest_def set_key_begin_def set_key_end_def
        ge_i64_def le_i64_def Comp_code_inject simp del: Comp_code.simps)
  obtain d where "expand_interval iv other = Inr d" "\<And>k. is_in_begin d k = is_in_begin ?a k"
    "\<And>k. is_in_end d k = is_in_end (if \<not> ie then set_key_end iv (iv_end other) else iv) k"
    "\<And>t1 t2 t. in_time iv t1 \<Longrightarrow> in_time other t2 \<Longrightarrow> in_time iv t \<or> in_time other t \<Longrightarrow> in_time d t"
    using that [OF exp hb he ht] .
  then show ?thesis using b(2) e(2) by (intro exI [of _ d]) metis
qed

section \<open>Examples\<close>

text \<open>An interval of one cell, for the examples.\<close>

definition one_cell :: "bytes list \<Rightarrow> i64 \<Rightarrow> cell" where
  "one_cell fs ts = Cell_new\<lparr>c_key := key_of True fs, c_timestamp := ts\<rparr>"

definition around :: "bytes list \<Rightarrow> i64 \<Rightarrow> interval" where
  "around fs ts = (Interval_new LEXIC)\<lparr>iv_begin := key_of True fs, iv_end := key_of True fs,
     iv_earliest := Timestamp_of ts GE, iv_latest := Timestamp_of ts LE, iv_min := fs, iv_max := fs,
     iv_was_set := True\<rparr>"

lemma around_ok: "fits fs \<Longrightarrow> iv_ok (around fs ts)"
  by (simp add: around_def iv_ok_def Interval_new_def Timestamp_of_def)

lemma fits_byte: "fits [[b]]"
  by (simp add: fits_def encoded_length_vi24_def max_vb_defs)

lemma interval_roundtrip_witness:
  "\<exists>r. Interval_read LEXIC \<lparr>mem = interval_encode (around [[5]] 7) @ [1], remain = 100\<rparr>
    = Inr (interval_view (around [[5]] 7), r) \<and> mem r = [1]"
proof -
  have f: "interval_fits (around [[5]] 7)"
    by (simp add: interval_fits_def around_def fits_byte keyvec_fits_def encoded_length_vi32_def max_vb_defs)
  have "interval_encoded_length (around [[5]] 7) \<le> unat (100 :: u64)" by code_simp
  from interval_roundtrip [OF f this, of "[1]"] show ?thesis by (simp add: around_def Interval_new_def)
qed

theorem expanding_holds_cells_witness:
  "\<exists>iv1 iv3 chg. expand_cell (around [[5]] 7) (one_cell [[3]] 9) = Inr iv1 \<and>
    interval_align_key (expand_ts iv1 9) (key_of True [[3]]) = Inr (iv3, chg) \<and>
    from_begin iv3 (key_of True [[3]]) \<and> in_time iv3 9"
proof -
  have c: "key_rep (c_key (one_cell [[3]] 9))" "\<not> key_empty (c_key (one_cell [[3]] 9))"
    by (simp_all add: one_cell_def fits_byte key_empty_def)
  have "c_key (one_cell [[3]] 9) = key_of True [[3]]" "c_timestamp (one_cell [[3]] 9) = 9"
    by (simp_all add: one_cell_def)
  with expanding_holds_cells [OF around_ok [OF fits_byte] c, of 5 7] show ?thesis by auto
qed

theorem joining_holds_both_witness:
  "\<exists>iv'. expand_interval (around [[5]] 7) (around [[3]] 9) = Inr iv' \<and>
    (\<forall>t1 t2 t. in_time (around [[5]] 7) t1 \<longrightarrow> in_time (around [[3]] 9) t2 \<longrightarrow>
       in_time (around [[5]] 7) t \<or> in_time (around [[3]] 9) t \<longrightarrow> in_time iv' t)"
proof -
  have "iv_was_set (around [[5]] 7)" "iv_seq (around [[3]] 9) = iv_seq (around [[5]] 7)"
    by (simp_all add: around_def Interval_new_def)
  from joining_holds_both [OF around_ok [OF fits_byte] this(1) around_ok [OF fits_byte] this(2)]
  show ?thesis by blast
qed

text \<open>An other interval with no times yet is taken by the value 0 they are initialized with: the
  bounds stay when 0 is inside and are dropped when it is not.\<close>

lemma joining_unset_times:
  "\<exists>a b. expand_interval (around [[5]] (-7)) (Interval_new LEXIC) = Inr a \<and>
    expand_interval (around [[5]] 7) (Interval_new LEXIC) = Inr b \<and>
    ts_comp (iv_earliest a) = Comp_code GE \<and> ts_comp (iv_earliest b) = Comp_code NONE"
  by (simp add: expand_interval_def around_def Interval_new_def is_in_begin_def is_in_end_def key_empty_def
      Key_new_def key_of_def Timestamp_of_def Timestamp_new_def ts_widen_from_def timestamp_empty_def
      timestamp_matching_def code_comp_def all_comps_def ge_i64_def le_i64_def set_key_begin_def set_key_end_def
      set_ts_earliest_def set_ts_latest_def timestamp_copy_def timestamp_set_def Let_def)

end
