(* ===== verification/Specs_Key.thy ===== *)
theory Specs_Key
  imports Cells_Interval
begin

text \<open>
  What a scan asks of a key: src/src/cc/include/swcdb/db/Cells/SpecsKey.h with SpecsKey.cc and
  SpecsKeyIntervals.h with SpecsKeyIntervals.cc. A key specification is a list of fractions, each a
  comparator and a text, and is matched fraction by fraction with an encoded key; a scan has a list
  of pairs of them. RE2 is the argument \<open>rx\<close> of the matching; the compiled expression is kept by
  the code and changes no answer. Printing is left out.
\<close>

section \<open>Fractions\<close>

record spec_fraction =
  sf_text :: bytes
  sf_comp :: byte

definition Fraction_new :: spec_fraction where
  "Fraction_new = \<lparr>sf_text = [], sf_comp = Comp_code NONE\<rparr>"

definition sf_equal :: "spec_fraction \<Rightarrow> spec_fraction \<Rightarrow> bool" where
  "sf_equal f other \<longleftrightarrow> sf_comp other = sf_comp f \<and> length (sf_text f) = length (sf_text other) \<and>
     mem_eq (sf_text f) (sf_text other) (length (sf_text f))"

definition sf_encoded_length :: "spec_fraction \<Rightarrow> u32" where
  "sf_encoded_length f = of_nat (1 + encoded_length_vi32 (of_nat (length (sf_text f))) + length (sf_text f))"

definition sf_encode :: "spec_fraction \<Rightarrow> bytes" where
  "sf_encode f = encode_i8 (sf_comp f) @ vi32_out (of_nat (length (sf_text f))) @ sf_text f"

text \<open>The text is read through the pointer, its length is taken off afterwards.\<close>

definition sf_decode :: "spec_fraction decoder" where
  "sf_decode = dbind decode_i8 (\<lambda>cp. dbind decode_vi32 (\<lambda>len.
     if len \<noteq> 0
     then dbind (read_raw (unat len)) (\<lambda>t r.
       Inr (\<lparr>sf_text = t, sf_comp = cp\<rparr>, r\<lparr>remain := remain r - ucast len\<rparr>))
     else dret \<lparr>sf_text = [], sf_comp = cp\<rparr>))"

definition sf_matching :: "(bytes \<Rightarrow> bytes \<Rightarrow> bool) \<Rightarrow> KeySeq \<Rightarrow> spec_fraction \<Rightarrow> bytes \<Rightarrow> bool" where
  "sf_matching rx s f data =
     (case code_comp (sf_comp f) of
        None \<Rightarrow> True
      | Some cp \<Rightarrow>
          if cp = FIP \<or> cp = FI then True
          else if cp = RE then re rx (sf_text f) data
          else seq_is_matching rx s cp (sf_text f) data)"

section \<open>Keys\<close>

type_synonym spec_key = "spec_fraction list"

definition sk_equal :: "spec_key \<Rightarrow> spec_key \<Rightarrow> bool" where
  "sk_equal k other \<longleftrightarrow> length k = length other \<and> list_all2 sf_equal k other"

fun sk_set_loop :: "nat \<Rightarrow> byte \<Rightarrow> bytes \<Rightarrow> spec_key res" where
  "sk_set_loop 0 cp p = Inr []"
| "sk_set_loop (Suc n) cp p = res_bind (decode_vi32_ptr p) (\<lambda>(len, p).
     if unat len \<le> length p
     then res_bind (sk_set_loop n cp (drop (unat len) p)) (\<lambda>fs.
       Inr (\<lparr>sf_text = take (unat len) p, sf_comp = cp\<rparr> # fs))
     else Inl Undefined_Behaviour)"

definition sk_set :: "key \<Rightarrow> byte \<Rightarrow> spec_key res" where
  "sk_set k cp = sk_set_loop (unat (key_count k)) cp (key_bytes k)"

definition sk_set_comp :: "spec_key \<Rightarrow> int \<Rightarrow> byte \<Rightarrow> spec_key res" where
  "sk_set_comp k idx cp =
     (if k = [] then Inr k
      else if 0 \<le> idx \<and> nat idx < length k then Inr (k[nat idx := (k ! nat idx)\<lparr>sf_comp := cp\<rparr>])
      else Inl Undefined_Behaviour)"

definition sk_add :: "spec_key \<Rightarrow> bytes \<Rightarrow> byte \<Rightarrow> spec_key" where
  "sk_add k t cp = k @ [\<lparr>sf_text = t, sf_comp = cp\<rparr>]"

text \<open>The vector appends when the position is at or behind its end.\<close>

definition sk_insert :: "spec_key \<Rightarrow> nat \<Rightarrow> bytes \<Rightarrow> byte \<Rightarrow> spec_key" where
  "sk_insert k idx t cp =
     (if length k \<le> idx then k @ [\<lparr>sf_text = t, sf_comp = cp\<rparr>]
      else take idx k @ \<lparr>sf_text = t, sf_comp = cp\<rparr> # drop idx k)"

definition sk_get :: "spec_key \<Rightarrow> key \<Rightarrow> key res" where
  "sk_get k ck = key_add_all (key_free ck) (map sf_text k)"

definition sk_remove :: "spec_key \<Rightarrow> nat \<Rightarrow> bool \<Rightarrow> spec_key res" where
  "sk_remove k idx recursive =
     (if recursive
      then (if idx \<le> length k then Inr (take idx k) else Inl Undefined_Behaviour)
      else if idx < length k then Inr (take idx k @ drop (Suc idx) k) else Inl Undefined_Behaviour)"

definition sk_encoded_length :: "spec_key \<Rightarrow> u32" where
  "sk_encoded_length k = of_nat (encoded_length_vi32 (of_nat (length k))) + sum_list (map sf_encoded_length k)"

definition sk_encode :: "spec_key \<Rightarrow> bytes" where
  "sk_encode k = vi32_out (of_nat (length k)) @ concat (map sf_encode k)"

definition sk_decode :: "spec_key decoder" where
  "sk_decode = dbind decode_vi32 (\<lambda>n. decode_n (unat n) sf_decode)"

text \<open>The fractions both have are matched one by one; then the last comparator of the
  specification says what becomes of a different number of fractions.\<close>

fun sk_matching_loop ::
  "(bytes \<Rightarrow> bytes \<Rightarrow> bool) \<Rightarrow> KeySeq \<Rightarrow> spec_key \<Rightarrow> nat \<Rightarrow> bytes \<Rightarrow> bool res" where
  "sk_matching_loop rx s (f # fs) (Suc c) p = res_bind (next_fraction p) (\<lambda>(data, p).
     if \<not> sf_matching rx s f data then Inr False else sk_matching_loop rx s fs c p)"
| "sk_matching_loop rx s fs c p = Inr True"

definition sk_count_matching :: "spec_key \<Rightarrow> nat \<Rightarrow> bool" where
  "sk_count_matching k n \<longleftrightarrow> length k = n \<or>
     (case code_comp (sf_comp (last k)) of
        Some FIP \<Rightarrow> length k \<le> n + 1
      | Some FI \<Rightarrow> length k \<le> n
      | Some NONE \<Rightarrow> True
      | _ \<Rightarrow> False)"

definition sk_matching :: "(bytes \<Rightarrow> bytes \<Rightarrow> bool) \<Rightarrow> KeySeq \<Rightarrow> spec_key \<Rightarrow> key \<Rightarrow> bool res" where
  "sk_matching rx s k ck =
     (if s = UNKNOWN then Inr False
      else if k = [] then Inr True
      else res_bind (sk_matching_loop rx s k (unat (key_count ck)) (key_bytes ck))
        (\<lambda>ok. Inr (ok \<and> sk_count_matching k (unat (key_count ck)))))"

section \<open>Pairs of keys\<close>

record key_interval =
  ki_start :: spec_key
  ki_finish :: spec_key

definition ki_encoded_length :: "key_interval \<Rightarrow> nat" where
  "ki_encoded_length i = unat (sk_encoded_length (ki_start i)) + unat (sk_encoded_length (ki_finish i))"

definition ki_encode :: "key_interval \<Rightarrow> bytes" where
  "ki_encode i = sk_encode (ki_start i) @ sk_encode (ki_finish i)"

definition ki_decode :: "key_interval decoder" where
  "ki_decode = dbind sk_decode (\<lambda>a. dbind sk_decode (\<lambda>b. dret \<lparr>ki_start = a, ki_finish = b\<rparr>))"

text \<open>Equality goes over the common positions only when the numbers are the same.\<close>

definition kis_equal :: "key_interval list \<Rightarrow> key_interval list \<Rightarrow> bool" where
  "kis_equal is other =
     (if length is = length other
      then list_all2 (\<lambda>a b. sk_equal (ki_start a) (ki_start b) \<and> sk_equal (ki_finish a) (ki_finish b)) is other
      else True)"

fun kis_matching_loop ::
  "(bytes \<Rightarrow> bytes \<Rightarrow> bool) \<Rightarrow> KeySeq \<Rightarrow> key_interval list \<Rightarrow> key \<Rightarrow> bool res" where
  "kis_matching_loop rx s [] ck = Inr True"
| "kis_matching_loop rx s (i # is) ck = res_bind (sk_matching rx s (ki_start i) ck) (\<lambda>a.
     if \<not> a then Inr False
     else res_bind (sk_matching rx s (ki_finish i) ck) (\<lambda>b.
       if \<not> b then Inr False else kis_matching_loop rx s is ck))"

definition kis_matching ::
  "(bytes \<Rightarrow> bytes \<Rightarrow> bool) \<Rightarrow> KeySeq \<Rightarrow> key_interval list \<Rightarrow> key \<Rightarrow> bool res" where
  "kis_matching rx s is ck =
     (if is = [] then Inr True else if s = UNKNOWN then Inr False else kis_matching_loop rx s is ck)"

fun kis_matching_start ::
  "(bytes \<Rightarrow> bytes \<Rightarrow> bool) \<Rightarrow> KeySeq \<Rightarrow> key_interval list \<Rightarrow> key \<Rightarrow> bool res" where
  "kis_matching_start rx s [] ck = Inr (s \<noteq> UNKNOWN)"
| "kis_matching_start rx s (i # is) ck =
     (if s = UNKNOWN then Inr False
      else res_bind (sk_matching rx s (ki_start i) ck) (\<lambda>a.
        if \<not> a then Inr False else kis_matching_start rx s is ck))"

definition kis_encoded_length :: "key_interval list \<Rightarrow> nat" where
  "kis_encoded_length is = encoded_length_vi64 (of_nat (length is)) + sum_list (map ki_encoded_length is)"

definition kis_encode :: "key_interval list \<Rightarrow> bytes" where
  "kis_encode is = vi64_out (of_nat (length is)) @ concat (map ki_encode is)"

definition kis_decode :: "key_interval list decoder" where
  "kis_decode = dbind decode_vi64 (\<lambda>n. decode_n (unat n) ki_decode)"


section \<open>Matching is on the fractions\<close>

fun fractions_match :: "(bytes \<Rightarrow> bytes \<Rightarrow> bool) \<Rightarrow> KeySeq \<Rightarrow> spec_key \<Rightarrow> bytes list \<Rightarrow> bool" where
  "fractions_match rx s (f # k) (g # gs) \<longleftrightarrow> sf_matching rx s f g \<and> fractions_match rx s k gs"
| "fractions_match rx s k gs \<longleftrightarrow> True"

definition key_matches :: "(bytes \<Rightarrow> bytes \<Rightarrow> bool) \<Rightarrow> KeySeq \<Rightarrow> spec_key \<Rightarrow> bytes list \<Rightarrow> bool" where
  "key_matches rx s k gs \<longleftrightarrow> k = [] \<or> (fractions_match rx s k gs \<and> sk_count_matching k (length gs))"

lemma sk_matching_loop_of:
  "fits gs \<Longrightarrow> sk_matching_loop rx s k (length gs) (enc_fractions gs) = Inr (fractions_match rx s k gs)"
proof (induction k arbitrary: gs)
  case (Cons f k)
  show ?case
  proof (cases gs)
    case (Cons g gs')
    with Cons.prems have "fits gs'" "length g < 2 ^ 24" by (auto dest: fits_Cons)
    then show ?thesis using Cons.IH [of gs'] by (simp add: Cons next_enc_fraction)
  qed simp
qed simp

lemma sk_matching_of:
  "fits gs \<Longrightarrow> s \<noteq> UNKNOWN \<Longrightarrow> sk_matching rx s k (key_of own gs) = Inr (key_matches rx s k gs)"
  using sk_matching_loop_of [of gs rx s k] fits_bounds(1) [of gs]
  by (simp add: sk_matching_def key_matches_def)

lemma kis_matching_of:
  assumes "fits gs" and "s \<noteq> UNKNOWN"
  shows "kis_matching rx s is (key_of own gs) =
    Inr (\<forall>i \<in> set is. key_matches rx s (ki_start i) gs \<and> key_matches rx s (ki_finish i) gs)"
proof -
  have "kis_matching_loop rx s is (key_of own gs) =
    Inr (\<forall>i \<in> set is. key_matches rx s (ki_start i) gs \<and> key_matches rx s (ki_finish i) gs)"
    using assms by (induction "is") (auto simp: sk_matching_of)
  then show ?thesis using assms(2) by (simp add: kis_matching_def)
qed

lemma kis_matching_start_of:
  "fits gs \<Longrightarrow> s \<noteq> UNKNOWN \<Longrightarrow> kis_matching_start rx s is (key_of own gs) =
    Inr (\<forall>i \<in> set is. key_matches rx s (ki_start i) gs)"
  by (induction "is") (auto simp: sk_matching_of)

lemma fractions_match_nth:
  "fractions_match rx s k gs \<Longrightarrow> i < length k \<Longrightarrow> i < length gs \<Longrightarrow> sf_matching rx s (k ! i) (gs ! i)"
proof (induction k arbitrary: gs i)
  case (Cons f k)
  then show ?case by (cases gs; cases i) auto
qed simp

lemma fractions_match_iff:
  "fractions_match rx s k gs \<longleftrightarrow> (\<forall>i < min (length k) (length gs). sf_matching rx s (k ! i) (gs ! i))"
proof (induction k arbitrary: gs)
  case (Cons f k)
  show ?case
  proof (cases gs)
    case (Cons g gs')
    then show ?thesis using Cons.IH [of gs'] by (auto simp: all_conj_distrib less_Suc_eq_0_disj)
  qed simp
qed simp

section \<open>A specification of one key\<close>

lemma SWC_ENCODE_VI_more:
  "SWC_ENCODE_VI k v = Inr bs \<Longrightarrow> SWC_ENCODE_VI (Suc k) v = Inr bs"
proof (induction k arbitrary: v bs)
  case 0
  then show ?case by (auto split: if_splits)
next
  case (Suc k)
  show ?case
  proof (cases "v \<le> MAX_V1B")
    case True
    then show ?thesis using Suc.prems by simp
  next
    case False
    then obtain cs where cs: "SWC_ENCODE_VI k (drop_bit 7 v) = Inr cs"
      using Suc.prems by (cases "SWC_ENCODE_VI k (drop_bit 7 v)") auto
    then show ?thesis using Suc.prems False Suc.IH [OF cs] by simp
  qed
qed

lemma ucast24:
  fixes v :: u24
  shows "unat (ucast v :: u32) = unat v" and "(ucast (ucast v :: u32) :: byte) = ucast v"
proof -
  have "unat v < 2 ^ 32" using unsigned_less [of v, where ?'a = nat] by simp
  then show "unat (ucast v :: u32) = unat v" by (simp add: unsigned_ucast_eq take_bit_nat_eq_self)
  show "(ucast (ucast v :: u32) :: byte) = ucast v"
    by (rule bit_word_eqI) (auto simp: bit_ucast_iff)
qed

lemma SWC_ENCODE_VI_ucast:
  fixes v :: u24
  shows "SWC_ENCODE_VI k (ucast v :: u32) = SWC_ENCODE_VI k v"
proof (induction k arbitrary: v)
  case 0
  show ?case by (simp add: not_le_MAX_V1B ucast24)
next
  case (Suc k)
  have "drop_bit 7 (ucast v :: u32) = ucast (drop_bit 7 v)"
    by (rule bit_word_eqI) (auto simp: bit_drop_bit_eq bit_ucast_iff dest: bit_imp_le_length)
  moreover have "(ucast (ucast v OR 0x80 :: u32) :: byte) = ucast (v OR 0x80)"
    by (rule bit_word_eqI) (auto simp: bit_ucast_iff bit_or_iff)
  ultimately show ?case using Suc.IH [of "drop_bit 7 v"]
    by (simp add: not_le_MAX_V1B ucast24)
qed

lemma vi24_is_vi32: "vi24_out v = vi32_out (ucast v)"
proof -
  have "SWC_ENCODE_VI 3 v = Inr (vi24_out v)" using encode_vi24_out [of v] by (simp only: encode_vi24_def)
  then have "SWC_ENCODE_VI 3 (ucast v :: u32) = Inr (vi24_out v)" by (simp only: SWC_ENCODE_VI_ucast)
  then have "SWC_ENCODE_VI (Suc 3) (ucast v :: u32) = Inr (vi24_out v)" by (rule SWC_ENCODE_VI_more)
  then show ?thesis using encode_vi32_out [of "ucast v"] by (simp add: encode_vi32_def)
qed

lemma decode_vi32_ptr_out: "decode_vi32_ptr (vi32_out v @ p) = Inr (v, p)"
proof -
  have "encoded_length_vi32 v \<le> unat (5 :: u64)" by (simp add: encoded_length_vi32_def)
  from vi32.dec_enc [OF _ this] show ?thesis by (simp add: decode_vi32_ptr_def)
qed

lemma decode_fraction32:
  "length f < 2 ^ 24 \<Longrightarrow> decode_vi32_ptr (enc_fraction f @ p) = Inr (of_nat (length f), f @ p)"
  using decode_vi32_ptr_out [of "of_nat (length f)" "f @ p"]
  by (simp add: enc_fraction_def vi24_is_vi32 ucast_of_nat24)

lemma sk_set_of:
  assumes "fits fs"
  shows "sk_set (key_of own fs) cp = Inr (map (\<lambda>f. \<lparr>sf_text = f, sf_comp = cp\<rparr>) fs)"
proof -
  have "sk_set_loop (length fs) cp (enc_fractions fs) = Inr (map (\<lambda>f. \<lparr>sf_text = f, sf_comp = cp\<rparr>) fs)"
    using assms
  proof (induction fs)
    case (Cons f fs)
    then have "fits fs" and f: "length f < 2 ^ 24" using fits_Cons by blast+
    moreover have "unat (of_nat (length f) :: u32) = length f" using f by simp
    ultimately show ?case using Cons.IH decode_fraction32 [OF f, of "enc_fractions fs"] by simp
  qed simp
  then show ?thesis using fits_bounds(1) [OF assms] by (simp add: sk_set_def)
qed

lemma sf_matching_EQ [simp]:
  "s \<noteq> UNKNOWN \<Longrightarrow> sf_matching rx s \<lparr>sf_text = t, sf_comp = Comp_code EQ\<rparr> g \<longleftrightarrow> t = g"
  by (cases s) (auto simp: sf_matching_def simp del: Comp_code.simps)

lemma fractions_match_EQ:
  "s \<noteq> UNKNOWN \<Longrightarrow> length fs = length gs \<Longrightarrow>
    fractions_match rx s (map (\<lambda>f. \<lparr>sf_text = f, sf_comp = Comp_code EQ\<rparr>) fs) gs \<longleftrightarrow> fs = gs"
proof (induction fs arbitrary: gs)
  case (Cons f fs)
  then show ?case by (cases gs) (auto simp del: Comp_code.simps)
qed simp

text \<open>A specification taken from a key with the comparator for equality matches that key and no
  other, in every key sequence; with no fractions it matches every key.\<close>

lemma key_spec_of_key:
  assumes "fits fs" and "fits gs" and "s \<noteq> UNKNOWN"
  shows "\<exists>k. sk_set (key_of own fs) (Comp_code EQ) = Inr k \<and>
    sk_matching rx s k (key_of own' gs) = Inr (fs = [] \<or> fs = gs)"
proof -
  let ?k = "map (\<lambda>f. \<lparr>sf_text = f, sf_comp = Comp_code EQ\<rparr>) fs"
  have "last ?k = \<lparr>sf_text = last fs, sf_comp = Comp_code EQ\<rparr>" if "fs \<noteq> []"
    using that by (simp add: last_map del: Comp_code.simps)
  then have "sk_count_matching ?k (length gs) \<longleftrightarrow> length fs = length gs" if "fs \<noteq> []"
    using that by (simp add: sk_count_matching_def del: Comp_code.simps)
  then have "key_matches rx s ?k gs \<longleftrightarrow> fs = [] \<or> fs = gs"
    using fractions_match_EQ [OF assms(3), of fs gs rx] by (auto simp: key_matches_def)
  then show ?thesis using sk_set_of [OF assms(1)] sk_matching_of [OF assms(2,3)] by simp
qed

lemma key_spec_of_key_witness:
  "\<exists>k. sk_set (key_of True [[1], [2]]) (Comp_code EQ) = Inr k
    \<and> sk_matching (\<lambda>_ _. False) FC_LEXIC k (key_of True [[1], [2], []]) = Inr False"
proof -
  have f: "fits [[1], [2]]" "fits [[1], [2], []]"
    by (simp_all add: fits_def encoded_length_vi24_def max_vb_defs)
  show ?thesis
    using key_spec_of_key [OF f, of FC_LEXIC True "\<lambda>_ _. False" True] by (simp del: Comp_code.simps)
qed

section \<open>The codecs\<close>

lemma decodes_text:
  assumes "k = length t" and "m = of_nat (length t)"
  shows "decodes (\<lambda>r. dbind (read_raw k) (\<lambda>t r. Inr (g t, r\<lparr>remain := remain r - m\<rparr>)) r) t (g t)"
  using assms by (simp add: decodes_def dbind_def)

definition sf_ok :: "spec_fraction \<Rightarrow> bool" where
  "sf_ok f \<longleftrightarrow> length (sf_encode f) < 2 ^ 32"

definition sk_ok :: "spec_key \<Rightarrow> bool" where
  "sk_ok k \<longleftrightarrow> length (sk_encode k) < 2 ^ 32"

lemma sf_encoded_length_is: "sf_encoded_length f = of_nat (length (sf_encode f))"
  by (simp add: sf_encoded_length_def sf_encode_def encode_i8_def)

lemma sk_encoded_length_is: "sk_encoded_length k = of_nat (length (sk_encode k))"
proof -
  have "sum_list (map sf_encoded_length k) = of_nat (length (concat (map sf_encode k)))"
    by (induction k) (simp_all add: sf_encoded_length_is)
  then show ?thesis by (simp add: sk_encoded_length_def sk_encode_def)
qed

lemma decodes_sf: "sf_ok f \<Longrightarrow> decodes sf_decode (sf_encode f) f"
proof -
  assume "sf_ok f"
  then have small: "length (sf_text f) < 2 ^ 32" by (simp add: sf_ok_def sf_encode_def)
  have f: "\<lparr>sf_text = sf_text f, sf_comp = sf_comp f\<rparr> = f" by simp
  show ?thesis
  proof (cases "sf_text f = []")
    case True
    then have "f = \<lparr>sf_text = [], sf_comp = sf_comp f\<rparr>" by (cases f) simp
    then have "decodes (dret \<lparr>sf_text = [], sf_comp = sf_comp f\<rparr>) [] f" using decodes_dret by metis
    then show ?thesis using True unfolding sf_decode_def sf_encode_def
      by (intro decodes_dbind [OF decodes_i8] decodes_dbind [OF vi32.decodes_enc [OF TrueI]]) simp
  next
    case False
    have "decodes (\<lambda>r. dbind (read_raw (unat (of_nat (length (sf_text f)) :: u32))) (\<lambda>t r.
        Inr (\<lparr>sf_text = t, sf_comp = sf_comp f\<rparr>,
          r\<lparr>remain := remain r - ucast (of_nat (length (sf_text f)) :: u32)\<rparr>)) r) (sf_text f)
        (\<lparr>sf_text = sf_text f, sf_comp = sf_comp f\<rparr>)"
      using small ucast_size64 [OF small] by (intro decodes_text) simp_all
    moreover have "(of_nat (length (sf_text f)) :: u32) \<noteq> 0" using False small of_nat32_eq_0 by auto
    ultimately show ?thesis unfolding sf_decode_def sf_encode_def f
      by (intro decodes_dbind [OF decodes_i8] decodes_dbind [OF vi32.decodes_enc [OF TrueI]]) simp
  qed
qed


lemma sk_ok_parts:
  assumes "sk_ok k"
  shows "length k < 2 ^ 32" and "f \<in> set k \<Longrightarrow> sf_ok f"
proof -
  have "length k \<le> length (concat (map sf_encode k))"
    by (induction k) (simp_all add: sf_encode_def encode_i8_def)
  then show "length k < 2 ^ 32" using assms by (simp add: sk_ok_def sk_encode_def)
  assume "f \<in> set k"
  then have "length (sf_encode f) \<le> sum_list (map (\<lambda>f. length (sf_encode f)) k)"
    by (intro member_le_sum_list) auto
  then show "sf_ok f" using assms by (simp add: sk_ok_def sf_ok_def sk_encode_def length_concat comp_def)
qed

lemma decodes_sk: "sk_ok k \<Longrightarrow> decodes sk_decode (sk_encode k) k"
proof -
  assume k: "sk_ok k"
  have "decodes (decode_n (length k) sf_decode) (concat (map sf_encode k)) k"
    using decodes_decode_n [of k sf_decode sf_encode "\<lambda>f. f"] decodes_sf sk_ok_parts(2) [OF k] by simp
  moreover have "unat (of_nat (length k) :: u32) = length k" using sk_ok_parts(1) [OF k] by simp
  ultimately show ?thesis unfolding sk_decode_def sk_encode_def
    by (intro decodes_dbind [OF vi32.decodes_enc [OF TrueI]]) simp
qed

interpretation spec_key_codec: codec_pos sk_encode sk_decode "\<lambda>k. unat (sk_encoded_length k)" sk_ok "\<lambda>k. k"
proof (intro codec_pos.intro codec_of_decodes codec_pos_axioms.intro)
  fix k assume k: "sk_ok k"
  then show len: "length (sk_encode k) = unat (sk_encoded_length k)"
    by (simp add: sk_encoded_length_is sk_ok_def)
  have "0 < length (sk_encode k)" using encoded_length_vi32_pos by (simp add: sk_encode_def)
  then show "0 < unat (sk_encoded_length k)" by (simp add: len)
qed (rule decodes_sk)

definition ki_ok :: "key_interval \<Rightarrow> bool" where
  "ki_ok i \<longleftrightarrow> sk_ok (ki_start i) \<and> sk_ok (ki_finish i)"

interpretation key_interval_codec: codec_pos ki_encode ki_decode ki_encoded_length ki_ok "\<lambda>i. i"
proof (intro codec_pos.intro codec_of_decodes codec_pos_axioms.intro)
  fix i assume i: "ki_ok i"
  then show "length (ki_encode i) = ki_encoded_length i"
    by (simp add: ki_encode_def ki_encoded_length_def ki_ok_def spec_key_codec.enc_len)
  show "0 < ki_encoded_length i"
    using i spec_key_codec.len_pos by (simp add: ki_encoded_length_def ki_ok_def)
  have "decodes (dbind sk_decode (\<lambda>b. dret \<lparr>ki_start = ki_start i, ki_finish = b\<rparr>)) (sk_encode (ki_finish i)) i"
    using i decodes_dbind_dret [OF decodes_sk, of "ki_finish i" "\<lambda>b. \<lparr>ki_start = ki_start i, ki_finish = b\<rparr>"]
    by (cases i) (simp add: ki_ok_def)
  then show "decodes ki_decode (ki_encode i) i"
    using i unfolding ki_decode_def ki_encode_def ki_ok_def by (intro decodes_dbind [OF decodes_sk]) auto
qed

definition kis_ok :: "key_interval list \<Rightarrow> bool" where
  "kis_ok is \<longleftrightarrow> length is < 2 ^ 64 \<and> list_all ki_ok is"

interpretation key_intervals_codec: codec_pos kis_encode kis_decode kis_encoded_length kis_ok "\<lambda>is. is"
proof (intro codec_pos.intro codec_of_decodes codec_pos_axioms.intro)
  fix "is" assume ok: "kis_ok is"
  then have oks: "\<And>i. i \<in> set is \<Longrightarrow> ki_ok i" by (simp add: kis_ok_def list_all_iff)
  have "length (concat (map ki_encode is)) = sum_list (map ki_encoded_length is)"
    using oks by (induction "is") (simp_all add: key_interval_codec.enc_len)
  then show "length (kis_encode is) = kis_encoded_length is"
    by (simp add: kis_encode_def kis_encoded_length_def)
  show "0 < kis_encoded_length is" by (simp add: kis_encoded_length_def encoded_length_vi64_def)
  have "decodes (decode_n (length is) ki_decode) (concat (map ki_encode is)) is"
    using decodes_decode_n [of "is" ki_decode ki_encode "\<lambda>i. i"] key_interval_codec.decodes_enc [OF oks] by simp
  moreover have "unat (of_nat (length is) :: u64) = length is" using ok by (simp add: kis_ok_def unat_of_nat64)
  ultimately show "decodes kis_decode (kis_encode is) is" unfolding kis_decode_def kis_encode_def
    by (intro decodes_dbind [OF vi64.decodes_enc [OF TrueI]]) simp
qed

section \<open>Equality\<close>

lemma sf_equal_iff: "sf_equal f other \<longleftrightarrow> f = other"
  using mem_eq_full [of "sf_text f" "sf_text other"]
  by (auto simp: sf_equal_def intro: spec_fraction.equality)

lemma sk_equal_iff: "sk_equal k other \<longleftrightarrow> k = other"
proof -
  have "sf_equal = (=)" by (simp add: fun_eq_iff sf_equal_iff)
  then show ?thesis by (auto simp: sk_equal_def list.rel_eq)
qed

lemma ki_eq_iff: "ki_start (a :: key_interval) = ki_start b \<and> ki_finish a = ki_finish b \<longleftrightarrow> a = b"
  by (cases a; cases b) auto

text \<open>Lists of intervals of different lengths are equal for the code.\<close>

lemma kis_equal_iff: "kis_equal is other \<longleftrightarrow> is = other \<or> length is \<noteq> length other"
proof -
  have "(\<lambda>(a :: key_interval) (b :: key_interval). sk_equal (ki_start a) (ki_start b) \<and> sk_equal (ki_finish a) (ki_finish b)) = (=)"
    by (simp add: fun_eq_iff sk_equal_iff ki_eq_iff)
  then show ?thesis by (auto simp: kis_equal_def list.rel_eq)
qed


end
