(* ===== verification/Serial_Fields.thy ===== *)
theory Serial_Fields
  imports Specs_Key
begin

text \<open>
  Values of serial columns: src/src/cc/include/swcdb/db/Cells/CellValueSerialField.h and
  CellValueSerialFields.h with CellValueSerialField.cc and CellValueSerialFields.cc. A value is a
  sequence of fields, each a type, a number and an encoding of its own; the buffer of a list field
  is again a sequence of encodings. A buffer is its bytes, whether it is owned or not. A \<open>long
  double\<close> is its 16 bytes. Printing is left out, and so are the updates of fields
  (CellValueSerialFieldUpdate.h).
\<close>

section \<open>Fields\<close>

definition T_UNKNOWN :: byte where "T_UNKNOWN = 0x00"
definition T_INT64 :: byte where "T_INT64 = 0x01"
definition T_DOUBLE :: byte where "T_DOUBLE = 0x02"
definition T_BYTES :: byte where "T_BYTES = 0x03"
definition T_KEY :: byte where "T_KEY = 0x04"
definition T_LIST_INT64 :: byte where "T_LIST_INT64 = 0x05"
definition T_LIST_BYTES :: byte where "T_LIST_BYTES = 0x06"

lemmas serial_types = T_UNKNOWN_def T_INT64_def T_DOUBLE_def T_BYTES_def T_KEY_def
  T_LIST_INT64_def T_LIST_BYTES_def

datatype field =
    Field_INT64 u24 i64
  | Field_DOUBLE u24 "128 word"
  | Field_BYTES u24 bytes
  | Field_KEY u24 key
  | Field_LIST_INT64 u24 bytes
  | Field_LIST_BYTES u24 bytes

fun field_type :: "field \<Rightarrow> byte" where
  "field_type (Field_INT64 fid v) = T_INT64"
| "field_type (Field_DOUBLE fid d) = T_DOUBLE"
| "field_type (Field_BYTES fid b) = T_BYTES"
| "field_type (Field_KEY fid k) = T_KEY"
| "field_type (Field_LIST_INT64 fid b) = T_LIST_INT64"
| "field_type (Field_LIST_BYTES fid b) = T_LIST_BYTES"

fun field_id :: "field \<Rightarrow> u24" where
  "field_id (Field_INT64 fid v) = fid"
| "field_id (Field_DOUBLE fid d) = fid"
| "field_id (Field_BYTES fid b) = fid"
| "field_id (Field_KEY fid k) = fid"
| "field_id (Field_LIST_INT64 fid b) = fid"
| "field_id (Field_LIST_BYTES fid b) = fid"

definition field_head_length :: "u24 \<Rightarrow> nat" where
  "field_head_length fid = 1 + encoded_length_vi24 fid"

definition field_head :: "byte \<Rightarrow> u24 \<Rightarrow> bytes" where
  "field_head t fid = encode_i8 t @ vi24_out fid"

fun field_encoded_length :: "field \<Rightarrow> nat" where
  "field_encoded_length (Field_INT64 fid v) = field_head_length fid + encoded_length_vi64 v"
| "field_encoded_length (Field_DOUBLE fid d) = field_head_length fid + encoded_length_double"
| "field_encoded_length (Field_BYTES fid b) =
     field_head_length fid + unat (encoded_length_bytes (of_nat (length b)))"
| "field_encoded_length (Field_KEY fid k) = field_head_length fid + unat (key_encoded_length k)"
| "field_encoded_length (Field_LIST_INT64 fid b) =
     field_head_length fid + unat (encoded_length_bytes (of_nat (length b)))"
| "field_encoded_length (Field_LIST_BYTES fid b) =
     field_head_length fid + unat (encoded_length_bytes (of_nat (length b)))"

fun field_encode :: "field \<Rightarrow> bytes" where
  "field_encode (Field_INT64 fid v) = field_head T_INT64 fid @ vi64_out v"
| "field_encode (Field_DOUBLE fid d) = field_head T_DOUBLE fid @ encode_double d"
| "field_encode (Field_BYTES fid b) = field_head T_BYTES fid @ bytes_out b"
| "field_encode (Field_KEY fid k) = field_head T_KEY fid @ key_encode k"
| "field_encode (Field_LIST_INT64 fid b) = field_head T_LIST_INT64 fid @ bytes_out b"
| "field_encode (Field_LIST_BYTES fid b) = field_head T_LIST_BYTES fid @ bytes_out b"

text \<open>The constructors that read, called when the type has been read.\<close>

definition Field_INT64_read :: "field decoder" where
  "Field_INT64_read = dbind decode_vi24 (\<lambda>fid. dbind decode_vi64 (\<lambda>v. dret (Field_INT64 fid v)))"

definition Field_DOUBLE_read :: "field decoder" where
  "Field_DOUBLE_read = dbind decode_vi24 (\<lambda>fid. dbind decode_double (\<lambda>d. dret (Field_DOUBLE fid d)))"

definition Field_BYTES_read :: "field decoder" where
  "Field_BYTES_read = dbind decode_vi24 (\<lambda>fid. dbind decode_bytes (\<lambda>b. dret (Field_BYTES fid b)))"

definition Field_KEY_read :: "bool \<Rightarrow> field decoder" where
  "Field_KEY_read owner = dbind decode_vi24 (\<lambda>fid. dbind (key_decode owner) (\<lambda>k. dret (Field_KEY fid k)))"

definition Field_LIST_INT64_read :: "field decoder" where
  "Field_LIST_INT64_read =
     dbind decode_vi24 (\<lambda>fid. dbind decode_bytes (\<lambda>b. dret (Field_LIST_INT64 fid b)))"

definition Field_LIST_BYTES_read :: "field decoder" where
  "Field_LIST_BYTES_read =
     dbind decode_vi24 (\<lambda>fid. dbind decode_bytes (\<lambda>b. dret (Field_LIST_BYTES fid b)))"

text \<open>\<open>read_type\<close> and the constructor of the type; nothing more is read for an unknown one.\<close>

definition read_field :: "bool \<Rightarrow> field option decoder" where
  "read_field owner = dbind decode_i8 (\<lambda>t.
     if t = T_INT64 then dbind Field_INT64_read (\<lambda>f. dret (Some f))
     else if t = T_DOUBLE then dbind Field_DOUBLE_read (\<lambda>f. dret (Some f))
     else if t = T_BYTES then dbind Field_BYTES_read (\<lambda>f. dret (Some f))
     else if t = T_KEY then dbind (Field_KEY_read owner) (\<lambda>f. dret (Some f))
     else if t = T_LIST_INT64 then dbind Field_LIST_INT64_read (\<lambda>f. dret (Some f))
     else if t = T_LIST_BYTES then dbind Field_LIST_BYTES_read (\<lambda>f. dret (Some f))
     else dret None)"

section \<open>What a loop reads\<close>

text \<open>
  The loops \<open>while(remain)\<close> over a buffer decode one item after the other and may stop at any of
  them. A feed is what the calls give in turn: nothing more when nothing remains, the error of a
  call that throws, or an item and what follows. The fuel is the number of bytes, as every item has
  one.
\<close>

datatype 'v feed = Done | Broken err | Next 'v "'v feed"

fun feed_from :: "nat \<Rightarrow> 'v decoder \<Rightarrow> reader \<Rightarrow> 'v feed" where
  "feed_from 0 dec r = (if remain r = 0 then Done else Broken Undefined_Behaviour)"
| "feed_from (Suc n) dec r =
     (if remain r = 0 then Done
      else (case dec r of Inl e \<Rightarrow> Broken e | Inr (v, r') \<Rightarrow> Next v (feed_from n dec r')))"

definition feed_of :: "'v decoder \<Rightarrow> bytes \<Rightarrow> 'v feed" where
  "feed_of dec b = feed_from (length b) dec \<lparr>mem = b, remain = of_nat (length b)\<rparr>"

fun feed_all :: "'v feed \<Rightarrow> 'v list res" where
  "feed_all Done = Inr []"
| "feed_all (Broken e) = Inl e"
| "feed_all (Next v f) = res_bind (feed_all f) (\<lambda>vs. Inr (v # vs))"

section \<open>List fields\<close>

text \<open>The buffer is allocated for the sum of the lengths, which is of 32 bits, and then filled: what goes beyond it is
  undefined.\<close>

definition filled :: "nat \<Rightarrow> bytes \<Rightarrow> bytes res" where
  "filled sz out = (if sz < length out then Inl Undefined_Behaviour else Inr out)"

definition items_i64_size :: "i64 list \<Rightarrow> u32" where
  "items_i64_size items = of_nat (sum_list (map encoded_length_vi64 items))"

definition items_bytes_size :: "bytes list \<Rightarrow> u32" where
  "items_bytes_size items = of_nat (sum_list (map (\<lambda>v. unat (encoded_length_bytes (of_nat (length v)))) items))"

definition list_i64_set_from :: "i64 list \<Rightarrow> bytes res" where
  "list_i64_set_from items = filled (unat (items_i64_size items)) (concat (map vi64_out items))"

definition list_i64_convert_to :: "bytes \<Rightarrow> i64 list res" where
  "list_i64_convert_to b = feed_all (feed_of decode_vi64 b)"

definition list_bytes_set_from :: "bytes list \<Rightarrow> bytes res" where
  "list_bytes_set_from items = filled (unat (items_bytes_size items)) (concat (map bytes_out items))"

definition list_bytes_convert_to :: "bytes \<Rightarrow> bytes list res" where
  "list_bytes_convert_to b = feed_all (feed_of decode_bytes b)"

text \<open>Reading all but \<open>amt\<close> items from position \<open>pos\<close>, with the number of all of them.\<close>

fun convert_less :: "'v feed \<Rightarrow> u32 \<Rightarrow> u32 \<Rightarrow> u32 \<Rightarrow> ('v list \<times> u32) res" where
  "convert_less Done n pos amt = Inr ([], n)"
| "convert_less (Broken e) n pos amt = Inl e"
| "convert_less (Next v f) n pos amt =
     (if amt = 0 \<or> n < pos
      then res_bind (convert_less f (n + 1) pos amt) (\<lambda>(vs, n). Inr (v # vs, n))
      else convert_less f (n + 1) pos (amt - 1))"

definition list_i64_convert_less_to :: "bytes \<Rightarrow> u32 \<Rightarrow> u32 \<Rightarrow> (i64 list \<times> u32) res" where
  "list_i64_convert_less_to b pos amt = convert_less (feed_of decode_vi64 b) 0 pos amt"

definition list_bytes_convert_less_to :: "bytes \<Rightarrow> u32 \<Rightarrow> u32 \<Rightarrow> (bytes list \<times> u32) res" where
  "list_bytes_convert_less_to b pos amt = convert_less (feed_of decode_bytes b) 0 pos amt"

section \<open>The writer\<close>

record fields_writer =
  fw_buffer :: bytes
  fw_index :: u24

definition FieldsWriter_new :: fields_writer where
  "FieldsWriter_new = \<lparr>fw_buffer = [], fw_index = 0\<rparr>"

text \<open>Room is ensured for what a field announces; writing more is undefined.\<close>

definition fw_put :: "nat \<Rightarrow> bytes \<Rightarrow> fields_writer \<Rightarrow> fields_writer res" where
  "fw_put n out w = res_bind (filled n out) (\<lambda>out. Inr (w\<lparr>fw_buffer := fw_buffer w @ out\<rparr>))"

definition fw_add :: "field \<Rightarrow> fields_writer \<Rightarrow> fields_writer res" where
  "fw_add f w = fw_put (field_encoded_length f) (field_encode f) w"

text \<open>The overloads for lists write the items behind the head, without a buffer in between.\<close>

definition fw_add_list_i64 :: "u24 \<Rightarrow> i64 list \<Rightarrow> fields_writer \<Rightarrow> fields_writer res" where
  "fw_add_list_i64 fid items w = (let sz = (ucast (items_i64_size items) :: u64) in
     fw_put (field_head_length fid + unat (encoded_length_bytes sz))
       (field_head T_LIST_INT64 fid @ vi64_out sz @ concat (map vi64_out items)) w)"

definition fw_add_list_bytes :: "u24 \<Rightarrow> bytes list \<Rightarrow> fields_writer \<Rightarrow> fields_writer res" where
  "fw_add_list_bytes fid items w = (let sz = (ucast (items_bytes_size items) :: u64) in
     fw_put (field_head_length fid + unat (encoded_length_bytes sz))
       (field_head T_LIST_BYTES fid @ vi64_out sz @ concat (map bytes_out items)) w)"

text \<open>The overloads without a number give the next one.\<close>

definition fw_add_next :: "(u24 \<Rightarrow> fields_writer \<Rightarrow> fields_writer res) \<Rightarrow> fields_writer \<Rightarrow> fields_writer res" where
  "fw_add_next add w = add (fw_index w) (w\<lparr>fw_index := fw_index w + 1\<rparr>)"

section \<open>Reading what was written\<close>

definition field_ok :: "field \<Rightarrow> bool" where
  "field_ok f \<longleftrightarrow> (case f of
     Field_BYTES fid b \<Rightarrow> length b < 2 ^ 63
   | Field_KEY fid k \<Rightarrow> key_rep k
   | Field_LIST_INT64 fid b \<Rightarrow> length b < 2 ^ 63
   | Field_LIST_BYTES fid b \<Rightarrow> length b < 2 ^ 63
   | _ \<Rightarrow> True)"

fun field_view :: "bool \<Rightarrow> field \<Rightarrow> field" where
  "field_view owner (Field_KEY fid k) = Field_KEY fid (k\<lparr>key_own := owner\<rparr>)"
| "field_view owner f = f"

lemma encoded_length_vi64_le: "encoded_length_vi64 v \<le> 10"
  by (simp add: encoded_length_vi64_def)

lemma unat_encoded_length_bytes:
  assumes "length b < 2 ^ 63"
  shows "unat (encoded_length_bytes (of_nat (length b))) = length (bytes_out b)"
proof -
  let ?k = "encoded_length_vi64 (of_nat (length b))"
  have "?k + length b < 2 ^ 64" using assms encoded_length_vi64_le [of "of_nat (length b)"] by simp
  then have "unat (of_nat (?k + length b) :: u64) = ?k + length b" by (rule unat_of_nat64)
  then show ?thesis by (simp add: encoded_length_bytes_def bytes_out_eq)
qed

lemma decodes_double: "decodes decode_double (encode_double d) d"
  unfolding decodes_def
proof (intro allI impI)
  fix n :: u64 and rest assume "length (encode_double d) \<le> unat n"
  then show "decode_double \<lparr>mem = encode_double d @ rest, remain = n\<rparr>
      = Inr (d, \<lparr>mem = rest, remain = n - of_nat (length (encode_double d))\<rparr>)"
    using decode_le [of 16 n d rest]
    by (simp add: encode_double_def decode_double_def encoded_length_double_def)
qed

lemma decodes_bytes: "length b < 2 ^ 63 \<Longrightarrow> decodes decode_bytes (bytes_out b) b"
  by (rule byte_string.decodes_enc) simp

lemma decodes_field_read:
  assumes "decodes dec bs v"
  shows "decodes (dbind (dbind decode_vi24 (\<lambda>fid. dbind dec (\<lambda>v. dret (c fid v)))) (\<lambda>f. dret (Some f)))
    (vi24_out fid @ bs) (Some (c fid v))"
  by (intro decodes_dbind_dret [where g = Some] decodes_dbind [OF vi24.decodes_enc [OF TrueI]]
      decodes_dbind_dret [where g = "c fid"] assms)

lemma decodes_field: "field_ok f \<Longrightarrow> decodes (read_field owner) (field_encode f) (Some (field_view owner f))"
proof -
  assume ok: "field_ok f"
  have head: "decodes (read_field owner) (field_head t fid @ bs) v"
    if "decodes (if t = T_INT64 then dbind Field_INT64_read (\<lambda>f. dret (Some f))
     else if t = T_DOUBLE then dbind Field_DOUBLE_read (\<lambda>f. dret (Some f))
     else if t = T_BYTES then dbind Field_BYTES_read (\<lambda>f. dret (Some f))
     else if t = T_KEY then dbind (Field_KEY_read owner) (\<lambda>f. dret (Some f))
     else if t = T_LIST_INT64 then dbind Field_LIST_INT64_read (\<lambda>f. dret (Some f))
     else if t = T_LIST_BYTES then dbind Field_LIST_BYTES_read (\<lambda>f. dret (Some f))
     else dret None) (vi24_out fid @ bs) v" for t fid bs v
    unfolding read_field_def field_head_def append_assoc using that by (rule decodes_dbind [OF decodes_i8])
  note reads = Field_INT64_read_def Field_DOUBLE_read_def Field_BYTES_read_def Field_KEY_read_def
    Field_LIST_INT64_read_def Field_LIST_BYTES_read_def
  show ?thesis
    using ok
    by (cases f)
      (auto simp: serial_types reads field_ok_def intro!: head decodes_field_read decodes_double
        decodes_bytes decodes_key vi64.decodes_enc)
qed

lemma length_field_encode: "field_ok f \<Longrightarrow> length (field_encode f) = field_encoded_length f"
  by (cases f)
    (auto simp: field_ok_def field_head_def field_head_length_def encode_i8_def encode_double_def
      unat_encoded_length_bytes length_key_encode)

interpretation field_codec: codec_pos field_encode "read_field owner" field_encoded_length field_ok
  "\<lambda>f. Some (field_view owner f)" for owner
proof (intro codec_pos.intro codec_of_decodes codec_pos_axioms.intro)
  fix f show "0 < field_encoded_length f" by (cases f) (simp_all add: field_head_length_def)
qed (simp_all add: length_field_encode decodes_field)

text \<open>The feed of a buffer of encodings.\<close>

definition feed_list :: "'v list \<Rightarrow> 'v feed" where
  "feed_list vs = foldr Next vs Done"

lemma feed_list_simps [simp]: "feed_list [] = Done" "feed_list (v # vs) = Next v (feed_list vs)"
  by (simp_all add: feed_list_def)

lemma feed_all_list [simp]: "feed_all (feed_list vs) = Inr vs"
  by (induction vs) auto

context codec_pos
begin

lemma feed_from_concat:
  assumes "\<forall>x \<in> set xs. ok x" and "unat n = length (concat (map enc xs))" and "length xs \<le> fuel"
  shows "feed_from fuel dec \<lparr>mem = concat (map enc xs) @ rest, remain = n\<rparr> = feed_list (map view xs)"
  using assms
proof (induction xs arbitrary: n fuel)
  case Nil
  then have "n = 0" by (simp add: unat_eq_zero)
  then show ?case by (cases fuel) auto
next
  case (Cons x xs)
  then obtain f where f: "fuel = Suc f" by (cases fuel) auto
  from Cons.prems have x: "ok x" by simp
  then have le: "len x \<le> unat n" using Cons.prems(2) by (simp add: enc_len)
  from x have "0 < len x" by (rule len_pos)
  with le have "n \<noteq> 0" by auto
  have "unat (n - of_nat (len x)) = length (concat (map enc xs))"
    using Cons.prems(2) x le by (simp add: unat_sub_of_nat enc_len)
  then have "feed_from f dec \<lparr>mem = concat (map enc xs) @ rest, remain = n - of_nat (len x)\<rparr>
      = feed_list (map view xs)"
    using Cons.prems f by (intro Cons.IH) auto
  then show ?case
    using f \<open>n \<noteq> 0\<close> dec_enc [OF x le, of "concat (map enc xs) @ rest"] by simp
qed

lemma feed_of_concat:
  assumes "\<forall>x \<in> set xs. ok x" and "length (concat (map enc xs)) < 2 ^ 64"
  shows "feed_of dec (concat (map enc xs)) = feed_list (map view xs)"
proof -
  have "length xs \<le> length (concat (map enc xs))"
    using assms(1)
  proof (induction xs)
    case (Cons x xs)
    then show ?case using len_pos [of x] enc_len [of x] by simp
  qed simp
  then show ?thesis
    using feed_from_concat [OF assms(1), of _ _ "[]"] unat_of_nat64 [OF assms(2)] by (simp add: feed_of_def)
qed

end

section \<open>The loops end\<close>

text \<open>A decoder that takes at least one byte: the fuel of a feed is never used up.\<close>

definition eats :: "'v decoder \<Rightarrow> bool" where
  "eats dec \<longleftrightarrow> (\<forall>r v r'. reader_ok r \<longrightarrow> dec r = Inr (v, r') \<longrightarrow>
     reader_ok r' \<and> unat (remain r') < unat (remain r))"

lemma eats_i8: "eats decode_i8"
  unfolding eats_def
proof (intro allI impI)
  fix r v r' assume ok: "reader_ok r" and d: "decode_i8 r = Inr (v, r')"
  then obtain b m where m: "mem r = b # m"
    by (cases "mem r"; cases r) (auto simp: decode_i8_empty reader_ok_def unat_eq_zero decode_i8_def decode_needed_one_def dbind_def split: if_splits)
  have n: "remain r \<noteq> 0" using d by (auto simp: decode_i8_def decode_needed_one_def dbind_def)
  then have "unat (remain r - 1) = unat (remain r) - 1" by (simp add: unat_minus_one)
  moreover have "0 < unat (remain r)" using n by (simp add: unat_gt_0)
  moreover have "r' = \<lparr>mem = m, remain = remain r - 1\<rparr>"
    using d n m decode_i8_Cons [of "remain r" b m] by (cases r) auto
  ultimately show "reader_ok r' \<and> unat (remain r') < unat (remain r)"
    using ok m by (auto simp: reader_ok_def)
qed

lemma eats_dbind:
  assumes m: "eats m" and f: "\<And>x. safe_dec (f x)"
  shows "eats (dbind m f)"
  unfolding eats_def
proof (intro allI impI)
  fix r v r'' assume ok: "reader_ok r" and "dbind m f r = Inr (v, r'')"
  then obtain x r' where 1: "m r = Inr (x, r')" and 2: "f x r' = Inr (v, r'')" by (auto elim: dbind_InrE)
  then have r': "reader_ok r'" and less: "unat (remain r') < unat (remain r)" using m ok by (auto simp: eats_def)
  have c: "consumes r' r''" using safe_decD(2) [OF f r' 2] .
  then have "unat (remain r'') \<le> unat (remain r')" by (auto simp: consumes_def)
  then show "reader_ok r'' \<and> unat (remain r'') < unat (remain r)" using less consumes_ok [OF c r'] by simp
qed

lemma eats_vi: "eats (SWC_DECODE_VI (Suc k) s n)"
  unfolding SWC_DECODE_VI_Suc by (intro eats_dbind eats_i8) (auto simp: Let_def)

lemma eats_items: "eats decode_vi64" "eats decode_bytes"
proof -
  show vi: "eats decode_vi64" using eats_vi [of 9 0 0] unfolding decode_vi64_def numeral_Suc_steps .
  show "eats decode_bytes" unfolding decode_bytes_def by (intro eats_dbind vi safe_needed_read) simp
qed

lemma feed_fuel:
  "eats dec \<Longrightarrow> reader_ok r \<Longrightarrow> unat (remain r) \<le> n \<Longrightarrow> unat (remain r) \<le> m \<Longrightarrow>
    feed_from n dec r = feed_from m dec r"
proof (induction n arbitrary: r m)
  case 0
  then have "remain r = 0" by (simp add: unat_eq_zero)
  then show ?case by (cases m) auto
next
  case (Suc n)
  show ?case
  proof (cases "remain r = 0")
    case True
    then show ?thesis by (cases m) auto
  next
    case False
    then have "0 < unat (remain r)" by (simp add: unat_gt_0)
    then obtain m' where m: "m = Suc m'" using Suc.prems(4) by (cases m) auto
    show ?thesis
    proof (cases "dec r")
      case (Inr vr)
      then obtain v r' where d: "dec r = Inr (v, r')" by (cases vr) auto
      then have "reader_ok r'" "unat (remain r') < unat (remain r)"
        using Suc.prems(1,2) by (auto simp: eats_def)
      then have "feed_from n dec r' = feed_from m' dec r'"
        using Suc.prems m by (intro Suc.IH) auto
      then show ?thesis using d m False by simp
    qed (simp add: m False)
  qed
qed


section \<open>What the writer has written\<close>

text \<open>A use of the writer: calls with a number for the field or without, for a single value or for a list.\<close>

datatype content = Single "u24 \<Rightarrow> field" | I64_list "i64 list" | Bytes_list "bytes list"

fun fw_content :: "content \<Rightarrow> u24 \<Rightarrow> fields_writer \<Rightarrow> fields_writer res" where
  "fw_content (Single c) fid w = fw_add (c fid) w"
| "fw_content (I64_list is) fid w = fw_add_list_i64 fid is w"
| "fw_content (Bytes_list bs) fid w = fw_add_list_bytes fid bs w"

fun fw_call :: "u24 option \<times> content \<Rightarrow> fields_writer \<Rightarrow> fields_writer res" where
  "fw_call (Some fid, c) w = fw_content c fid w"
| "fw_call (None, c) w = fw_add_next (fw_content c) w"

fun fw_calls :: "(u24 option \<times> content) list \<Rightarrow> fields_writer \<Rightarrow> fields_writer res" where
  "fw_calls [] w = Inr w"
| "fw_calls (c # cs) w = res_bind (fw_call c w) (fw_calls cs)"

text \<open>The fields it stands for; the number of a field without one is how many such there were before.\<close>

fun content_field :: "content \<Rightarrow> u24 \<Rightarrow> field" where
  "content_field (Single c) fid = c fid"
| "content_field (I64_list is) fid = Field_LIST_INT64 fid (concat (map vi64_out is))"
| "content_field (Bytes_list bs) fid = Field_LIST_BYTES fid (concat (map bytes_out bs))"

fun fields_of :: "(u24 option \<times> content) list \<Rightarrow> u24 \<Rightarrow> field list" where
  "fields_of [] i = []"
| "fields_of ((Some fid, c) # cs) i = content_field c fid # fields_of cs i"
| "fields_of ((None, c) # cs) i = content_field c i # fields_of cs (i + 1)"

fun content_ok :: "content \<Rightarrow> bool" where
  "content_ok (Single c) \<longleftrightarrow> (\<forall>fid. field_ok (c fid))"
| "content_ok (I64_list is) \<longleftrightarrow> length (concat (map vi64_out is)) < 2 ^ 32"
| "content_ok (Bytes_list bs) \<longleftrightarrow> length (concat (map bytes_out bs)) < 2 ^ 32"

lemma items_sizes:
  "length (concat (map vi64_out is)) < 2 ^ 32 \<Longrightarrow> unat (items_i64_size is) = length (concat (map vi64_out is))"
  "length (concat (map bytes_out bs)) < 2 ^ 32 \<Longrightarrow> unat (items_bytes_size bs) = length (concat (map bytes_out bs))"
proof -
  have "sum_list (map encoded_length_vi64 is) = length (concat (map vi64_out is))" by (induction "is") simp_all
  then show "length (concat (map vi64_out is)) < 2 ^ 32 \<Longrightarrow> unat (items_i64_size is) = length (concat (map vi64_out is))"
    unfolding items_i64_size_def by (metis unat_of_nat32)
  assume l: "length (concat (map bytes_out bs)) < 2 ^ 32"
  then have "sum_list (map (\<lambda>v. unat (encoded_length_bytes (of_nat (length v)))) bs) = length (concat (map bytes_out bs))"
  proof (induction bs)
    case (Cons b bs)
    then have "length b < 2 ^ 63" by (simp add: bytes_out_eq)
    then show ?case using Cons by (simp add: unat_encoded_length_bytes)
  qed simp
  then show "unat (items_bytes_size bs) = length (concat (map bytes_out bs))"
    unfolding items_bytes_size_def using l by (metis unat_of_nat32)
qed

lemma list_set_from:
  "length (concat (map vi64_out is)) < 2 ^ 32 \<Longrightarrow> list_i64_set_from is = Inr (concat (map vi64_out is))"
  "length (concat (map bytes_out bs)) < 2 ^ 32 \<Longrightarrow> list_bytes_set_from bs = Inr (concat (map bytes_out bs))"
  using items_sizes by (simp_all add: list_i64_set_from_def list_bytes_set_from_def filled_def)

lemma fw_put_ok: "length out = n \<Longrightarrow> fw_put n out w = Inr (w\<lparr>fw_buffer := fw_buffer w @ out\<rparr>)"
  by (simp add: fw_put_def filled_def)

lemma fw_list_ok:
  assumes "unat sz = length out" and "length out < 2 ^ 32"
  shows "fw_put (field_head_length fid + unat (encoded_length_bytes (ucast (sz :: u32)))) (field_head t fid @ vi64_out (ucast sz) @ out) w =
    Inr (w\<lparr>fw_buffer := fw_buffer w @ field_head t fid @ bytes_out out\<rparr>)"
proof -
  have "unat (ucast sz :: u64) = length out" using assms(1) by (simp add: unat_ucast_up)
  then have sz: "(ucast sz :: u64) = of_nat (length out)" 
    using assms(2) by (simp add: word_unat_eq_iff unat_of_nat64)
  have "unat (encoded_length_bytes (of_nat (length out))) = length (bytes_out out)" using assms(2) by (intro unat_encoded_length_bytes) simp
  then have "length (field_head t fid @ bytes_out out) = field_head_length fid + unat (encoded_length_bytes (of_nat (length out)))"
    by (simp add: field_head_def field_head_length_def encode_i8_def)
  from fw_put_ok [OF this, of w] show ?thesis unfolding sz by (simp add: bytes_out_eq)
qed

lemma fw_content_writes:
  assumes "content_ok c"
  shows "field_ok (content_field c fid) \<and>
    fw_content c fid w = Inr (w\<lparr>fw_buffer := fw_buffer w @ field_encode (content_field c fid)\<rparr>)"
proof (cases c)
  case (Single f)
  then have "field_ok (f fid)" using assms by simp
  then show ?thesis using Single fw_put_ok [OF length_field_encode] by (simp add: fw_add_def)
next
  case (I64_list "is")
  then show ?thesis using assms fw_list_ok [OF items_sizes(1)]
    by (simp add: fw_add_list_i64_def Let_def field_ok_def)
next
  case (Bytes_list bs)
  then show ?thesis using assms fw_list_ok [OF items_sizes(2)]
    by (simp add: fw_add_list_bytes_def Let_def field_ok_def)
qed

lemma fw_calls_write:
  assumes "list_all (content_ok \<circ> snd) cs"
  shows "list_all field_ok (fields_of cs (fw_index w)) \<and>
    (\<exists>w'. fw_calls cs w = Inr w' \<and> fw_buffer w' = fw_buffer w @ concat (map field_encode (fields_of cs (fw_index w))))"
  using assms
proof (induction cs arbitrary: w)
  case (Cons c cs)
  obtain n ct where c: "c = (n, ct)" by force
  have ok: "content_ok ct" "list_all (content_ok \<circ> snd) cs" using Cons.prems c by (simp_all add: comp_def)
  show ?case
  proof (cases n)
    case None
    let ?w = "w\<lparr>fw_index := fw_index w + 1, fw_buffer := fw_buffer w @ field_encode (content_field ct (fw_index w))\<rparr>"
    have "fw_call c w = Inr ?w" using fw_content_writes [OF ok(1)] by (simp add: c None fw_add_next_def)
    then show ?thesis using Cons.IH [OF ok(2), of ?w] fw_content_writes [OF ok(1), of "fw_index w" w] by (simp add: c None)
  next
    case (Some fid)
    let ?w = "w\<lparr>fw_buffer := fw_buffer w @ field_encode (content_field ct fid)\<rparr>"
    have "fw_call c w = Inr ?w" using fw_content_writes [OF ok(1)] by (simp add: c Some)
    then show ?thesis using Cons.IH [OF ok(2), of ?w] fw_content_writes [OF ok(1), of fid w] by (simp add: c Some)
  qed
qed simp

text \<open>C35: What the writer of serial fields has written - by calls with a number for the field or without, for single
  values that can be encoded (\<open>field_ok\<close>) and for lists whose items take less than four gigabytes, in all less
  than \<open>2\<^sup>63\<close> bytes - is read back field by field, with what was
  given and the numbers counted up, in the announced length; the buffers of list fields, when they have such a
  size, give back their items; and the loops over such buffers end on any input: more fuel than the number of
  bytes changes nothing.\<close>

theorem serial_fields_roundtrip:
  assumes "list_all (content_ok \<circ> snd) cs" and "sum_list (map field_encoded_length (fields_of cs 0)) < 2 ^ 63"
    and "length (concat (map bytes_out bs)) < 2 ^ 32" and "length (concat (map vi64_out is)) < 2 ^ 32"
  shows "(\<exists>w. fw_calls cs FieldsWriter_new = Inr w \<and>
      length (fw_buffer w) = sum_list (map field_encoded_length (fields_of cs 0)) \<and>
      feed_all (feed_of (read_field owner) (fw_buffer w)) = Inr (map (\<lambda>f. Some (field_view owner f)) (fields_of cs 0))) \<and>
    res_bind (list_i64_set_from is) list_i64_convert_to = Inr is \<and>
    res_bind (list_bytes_set_from bs) list_bytes_convert_to = Inr bs \<and>
    (length buf \<le> n \<longrightarrow> length buf < 2 ^ 64 \<longrightarrow>
      feed_from n decode_vi64 \<lparr>mem = buf, remain = of_nat (length buf)\<rparr> = feed_of decode_vi64 buf \<and>
      feed_from n decode_bytes \<lparr>mem = buf, remain = of_nat (length buf)\<rparr> = feed_of decode_bytes buf)"
proof (intro conjI)
  let ?fs = "fields_of cs 0"
  obtain w where w: "fw_calls cs FieldsWriter_new = Inr w" "fw_buffer w = concat (map field_encode ?fs)" and "list_all field_ok ?fs"
    using fw_calls_write [OF assms(1), of FieldsWriter_new] by (auto simp: FieldsWriter_new_def)
  then have ok: "\<forall>f \<in> set ?fs. field_ok f" by (simp add: list_all_iff)
  then have len: "length (concat (map field_encode ?fs)) = sum_list (map field_encoded_length ?fs)"
    by (induction ?fs) (simp_all add: length_field_encode length_concat comp_def cong: map_cong)
  then have "feed_all (feed_of (read_field owner) (concat (map field_encode ?fs))) = Inr (map (\<lambda>f. Some (field_view owner f)) ?fs)"
    using field_codec.feed_of_concat [OF ok, of owner] assms(2) by simp
  then show "\<exists>w. fw_calls cs FieldsWriter_new = Inr w \<and>
      length (fw_buffer w) = sum_list (map field_encoded_length ?fs) \<and>
      feed_all (feed_of (read_field owner) (fw_buffer w)) = Inr (map (\<lambda>f. Some (field_view owner f)) ?fs)"
    using w len by auto
  show "res_bind (list_i64_set_from is) list_i64_convert_to = Inr is"
    using vi64.feed_of_concat [of "is"] assms(4) by (simp add: list_i64_convert_to_def list_set_from)
  have "length b < 2 ^ 64" if "b \<in> set bs" for b
  proof -
    have "length (bytes_out b) \<le> sum_list (map (\<lambda>b. length (bytes_out b)) bs)"
      using that by (intro member_le_sum_list) auto
    then show ?thesis using assms(3) by (simp add: length_concat comp_def bytes_out_eq)
  qed
  then show "res_bind (list_bytes_set_from bs) list_bytes_convert_to = Inr bs"
    using byte_string.feed_of_concat [of bs] assms(3) by (simp add: list_bytes_convert_to_def list_set_from)
  show "length buf \<le> n \<longrightarrow> length buf < 2 ^ 64 \<longrightarrow>
      feed_from n decode_vi64 \<lparr>mem = buf, remain = of_nat (length buf)\<rparr> = feed_of decode_vi64 buf \<and>
      feed_from n decode_bytes \<lparr>mem = buf, remain = of_nat (length buf)\<rparr> = feed_of decode_bytes buf"
    unfolding feed_of_def
    by (intro impI conjI feed_fuel eats_items) (simp_all add: reader_ok_def unat_of_nat64)
qed

theorem serial_fields_roundtrip_witness:
  "\<exists>w. fw_calls [(None, Single (\<lambda>fid. Field_INT64 fid 5)), (None, Bytes_list [[1], [2, 3]])] FieldsWriter_new = Inr w \<and>
     feed_all (feed_of (read_field True) (fw_buffer w)) =
       Inr [Some (Field_INT64 0 5), Some (Field_LIST_BYTES 1 (concat (map bytes_out [[1], [2, 3]])))]"
proof -
  let ?b = "concat (map bytes_out [[1], [2, 3]])"
  let ?cs = "[(None, Single (\<lambda>fid. Field_INT64 fid 5)), (None, Bytes_list [[1], [2, 3]])]"
  have b: "length ?b \<le> 23"
    using encoded_length_vi64_le [of 1] encoded_length_vi64_le [of 2] by (simp add: bytes_out_eq)
  have "unat (encoded_length_bytes (of_nat (length ?b))) = length (bytes_out ?b)" using b by (intro unat_encoded_length_bytes) simp
  then have "sum_list (map field_encoded_length (fields_of ?cs 0)) < 2 ^ 63"
    using b encoded_length_vi64_le [of 5] encoded_length_vi64_le [of "of_nat (length ?b)"]
      encoded_length_vi24_range(2) [of 0] encoded_length_vi24_range(2) [of 1]
    by (simp add: field_head_length_def bytes_out_eq)
  moreover have "list_all (content_ok \<circ> snd) ?cs" using b by (simp add: field_ok_def)
  ultimately show ?thesis using serial_fields_roundtrip [of ?cs "[]" "[]" True "[]" 0] by auto
qed

end
