(* ===== verification/Specs_Serial.thy ===== *)
theory Specs_Serial
  imports Serial_Fields "HOL-Library.Sublist"
begin

text \<open>
  What a scan asks of a value of a serial column: src/src/cc/include/swcdb/db/Cells/
  SpecsValueSerialFields.h with SpecsValueSerialFields.cc. A specification is a sequence of fields;
  each is compared with the field of the same type and number in the value. The conditions of list
  fields are loops over the items of the specification and of the value; they are the same for
  integers and for byte strings, and one definition here, over the matching \<open>m\<close> of two items. The
  comparisons of \<open>long double\<close> are the processor's: \<open>ld\<close>. The vectors \<open>_found\<close> and \<open>_fields_ptr\<close>
  are written before they are read in every call and are local here. Printing is left out.
\<close>

section \<open>Comparing long doubles\<close>

text \<open>The template of core/Comparators.h at \<open>long double\<close>.\<close>

record ld =
  ld_less :: "128 word \<Rightarrow> 128 word \<Rightarrow> bool"
  ld_equal :: "128 word \<Rightarrow> 128 word \<Rightarrow> bool"
  ld_fmod_is_0 :: "128 word \<Rightarrow> 128 word \<Rightarrow> bool"
  ld_is_0 :: "128 word \<Rightarrow> bool"

definition sbs_double :: "ld \<Rightarrow> 128 word \<Rightarrow> 128 word \<Rightarrow> bool" where
  "sbs_double ld p1 p2 \<longleftrightarrow> ld_is_0 ld p1 \<or> ld_fmod_is_0 ld p2 p1"

fun is_matching_double :: "ld \<Rightarrow> comp \<Rightarrow> 128 word \<Rightarrow> 128 word \<Rightarrow> bool" where
  "is_matching_double ld GT p1 p2 = ld_less ld p1 p2"
| "is_matching_double ld GE p1 p2 = (ld_less ld p1 p2 \<or> ld_equal ld p1 p2)"
| "is_matching_double ld EQ p1 p2 = ld_equal ld p1 p2"
| "is_matching_double ld LE p1 p2 = (ld_less ld p2 p1 \<or> ld_equal ld p1 p2)"
| "is_matching_double ld LT p1 p2 = ld_less ld p2 p1"
| "is_matching_double ld NE p1 p2 = (\<not> ld_equal ld p1 p2)"
| "is_matching_double ld SBS p1 p2 = sbs_double ld p1 p2"
| "is_matching_double ld SPS p1 p2 = sbs_double ld p2 p1"
| "is_matching_double ld FOSBS p1 p2 = False"
| "is_matching_double ld FOSPS p1 p2 = False"
| "is_matching_double ld _ p1 p2 = True"

text \<open>A comparator byte that is no enumerator takes the default of the switch.\<close>

definition matching_double :: "ld \<Rightarrow> byte \<Rightarrow> 128 word \<Rightarrow> 128 word \<Rightarrow> bool" where
  "matching_double ld cp p1 p2 =
     (case code_comp cp of None \<Rightarrow> True | Some c \<Rightarrow> is_matching_double ld c p1 p2)"

definition matching_i64 :: "byte \<Rightarrow> i64 \<Rightarrow> i64 \<Rightarrow> bool" where
  "matching_i64 cp p1 p2 = (case code_comp cp of None \<Rightarrow> True | Some c \<Rightarrow> is_matching_i64 c p1 p2)"

definition matching_bytes :: "(bytes \<Rightarrow> bytes \<Rightarrow> bool) \<Rightarrow> byte \<Rightarrow> bytes \<Rightarrow> bytes \<Rightarrow> bool" where
  "matching_bytes rx cp p1 p2 =
     (case code_comp cp of None \<Rightarrow> True | Some c \<Rightarrow> is_matching_extended rx c p1 p2)"

section \<open>The conditions of list fields\<close>

text \<open>The loop that compares items in turn until one does not match or one side is at its end, with
  what is left of both.\<close>

fun lm_prefix :: "('i \<Rightarrow> 'v \<Rightarrow> bool) \<Rightarrow> 'i list \<Rightarrow> 'v feed \<Rightarrow> ('i list \<times> 'v feed) res" where
  "lm_prefix m (i # is) (Next v f) = (if \<not> m i v then Inr (i # is, f) else lm_prefix m is f)"
| "lm_prefix m (i # is) (Broken e) = Inl e"
| "lm_prefix m is f = Inr (is, f)"

text \<open>\<open>SBS\<close> and \<open>SPS\<close>: the first item not found yet that matches the value is marked.\<close>

fun lm_find :: "('i \<Rightarrow> 'v \<Rightarrow> bool) \<Rightarrow> (bool \<times> 'i) list \<Rightarrow> 'v \<Rightarrow> (bool \<times> 'i) list option" where
  "lm_find m [] v = None"
| "lm_find m ((found, i) # is) v =
     (if \<not> found \<and> m i v then Some ((True, i) # is) else map_option ((#) (found, i)) (lm_find m is v))"

fun lm_sbs :: "('i \<Rightarrow> 'v \<Rightarrow> bool) \<Rightarrow> nat \<Rightarrow> (bool \<times> 'i) list \<Rightarrow> 'v feed \<Rightarrow> bool res" where
  "lm_sbs m cnt is Done = Inr False"
| "lm_sbs m cnt is (Broken e) = Inl e"
| "lm_sbs m cnt is (Next v f) =
     (case lm_find m is v of
        None \<Rightarrow> lm_sbs m cnt is f
      | Some is' \<Rightarrow> if cnt - 1 = 0 then Inr True else lm_sbs m (cnt - 1) is' f)"

fun lm_sps :: "('i \<Rightarrow> 'v \<Rightarrow> bool) \<Rightarrow> (bool \<times> 'i) list \<Rightarrow> 'v feed \<Rightarrow> bool res" where
  "lm_sps m is Done = Inr True"
| "lm_sps m is (Broken e) = Inl e"
| "lm_sps m is (Next v f) =
     (case lm_find m is v of None \<Rightarrow> Inr False | Some is' \<Rightarrow> lm_sps m is' f)"

fun lm_posbs :: "('i \<Rightarrow> 'v \<Rightarrow> bool) \<Rightarrow> 'i list \<Rightarrow> 'v feed \<Rightarrow> bool res" where
  "lm_posbs m [] f = Inr True"
| "lm_posbs m (i # is) Done = Inr False"
| "lm_posbs m (i # is) (Broken e) = Inl e"
| "lm_posbs m (i # is) (Next v f) = (if m i v then lm_posbs m is f else lm_posbs m (i # is) f)"

fun lm_fosbs :: "('i \<Rightarrow> 'v \<Rightarrow> bool) \<Rightarrow> bool \<Rightarrow> 'i list \<Rightarrow> 'v feed \<Rightarrow> bool res" where
  "lm_fosbs m start [] f = Inr True"
| "lm_fosbs m start (i # is) Done = Inr False"
| "lm_fosbs m start (i # is) (Broken e) = Inl e"
| "lm_fosbs m start (i # is) (Next v f) =
     (if m i v then lm_fosbs m True is f
      else if start then Inr False else lm_fosbs m start (i # is) f)"

text \<open>\<open>POSPS\<close>: any of the items left may match, the position moves by one all the same.\<close>

fun lm_posps :: "('i \<Rightarrow> 'v \<Rightarrow> bool) \<Rightarrow> 'i list \<Rightarrow> 'v feed \<Rightarrow> bool res" where
  "lm_posps m [] f = Inr (f = Done)"
| "lm_posps m (i # is) Done = Inr True"
| "lm_posps m (i # is) (Broken e) = Inl e"
| "lm_posps m (i # is) (Next v f) =
     (if list_ex (\<lambda>i. m i v) (i # is) then lm_posps m is f else Inr False)"

text \<open>\<open>FOSPS\<close>: once one has matched the next has to be the very next.\<close>

fun lm_next :: "('i \<Rightarrow> 'v \<Rightarrow> bool) \<Rightarrow> bool \<Rightarrow> 'i list \<Rightarrow> 'v \<Rightarrow> 'i list option" where
  "lm_next m start [] v = None"
| "lm_next m start (i # is) v =
     (if m i v then Some is else if start then None else lm_next m start is v)"

fun lm_fosps :: "('i \<Rightarrow> 'v \<Rightarrow> bool) \<Rightarrow> bool \<Rightarrow> 'i list \<Rightarrow> 'v feed \<Rightarrow> bool res" where
  "lm_fosps m start is Done = Inr True"
| "lm_fosps m start [] f = Inr False"
| "lm_fosps m start (i # is) (Broken e) = Inl e"
| "lm_fosps m start (i # is) (Next v f) =
     (case lm_next m start (i # is) v of None \<Rightarrow> Inr False | Some is' \<Rightarrow> lm_fosps m True is' f)"

definition list_matching :: "('i \<Rightarrow> 'v \<Rightarrow> bool) \<Rightarrow> byte \<Rightarrow> 'i list \<Rightarrow> 'v feed \<Rightarrow> bool res" where
  "list_matching m cp items f =
     (case code_comp cp of
        None \<Rightarrow> Inr False
      | Some c \<Rightarrow>
          if c = NE then
            res_bind (lm_prefix m items f) (\<lambda>(is, f). Inr (f \<noteq> Done \<or> is \<noteq> []))
          else if c = GT \<or> c = LT \<or> c = GE \<or> c = LE \<or> c = EQ then
            res_bind (lm_prefix m items f) (\<lambda>(is, f). Inr
              (if f \<noteq> Done then is = [] \<and> (c = GT \<or> c = GE)
               else if is = [] then c = EQ \<or> c = LE \<or> c = GE else c = LT \<or> c = LE))
          else if c = SBS then
            (if items = [] then Inr True else if f = Done then Inr False
             else lm_sbs m (length items) (map (Pair False) items) f)
          else if c = SPS then
            (if f = Done then Inr True else if items = [] then Inr False
             else lm_sps m (map (Pair False) items) f)
          else if c = POSBS then lm_posbs m items f
          else if c = FOSBS then lm_fosbs m False items f
          else if c = POSPS then lm_posps m items f
          else if c = FOSPS then lm_fosps m False items f
          else Inr False)"

section \<open>Fields of a specification\<close>

datatype spec_field =
    SF_INT64 u24 byte i64
  | SF_DOUBLE u24 byte "128 word"
  | SF_BYTES u24 byte bytes
  | SF_KEY u24 byte spec_key
  | SF_LIST_INT64 u24 byte "(byte \<times> i64) list"
  | SF_LIST_BYTES u24 byte "(byte \<times> bytes) list"

fun spec_type :: "spec_field \<Rightarrow> byte" where
  "spec_type (SF_INT64 fid cp v) = T_INT64"
| "spec_type (SF_DOUBLE fid cp d) = T_DOUBLE"
| "spec_type (SF_BYTES fid cp b) = T_BYTES"
| "spec_type (SF_KEY fid s k) = T_KEY"
| "spec_type (SF_LIST_INT64 fid cp is) = T_LIST_INT64"
| "spec_type (SF_LIST_BYTES fid cp is) = T_LIST_BYTES"

fun spec_fid :: "spec_field \<Rightarrow> u24" where
  "spec_fid (SF_INT64 fid cp v) = fid"
| "spec_fid (SF_DOUBLE fid cp d) = fid"
| "spec_fid (SF_BYTES fid cp b) = fid"
| "spec_fid (SF_KEY fid s k) = fid"
| "spec_fid (SF_LIST_INT64 fid cp is) = fid"
| "spec_fid (SF_LIST_BYTES fid cp is) = fid"

text \<open>The buffer of the items of a list field.\<close>

definition item_i64 :: "byte \<times> i64 \<Rightarrow> bytes" where
  "item_i64 i = encode_i8 (fst i) @ vi64_out (snd i)"

definition item_bytes :: "byte \<times> bytes \<Rightarrow> bytes" where
  "item_bytes i = encode_i8 (fst i) @ bytes_out (snd i)"

definition items_i64_length :: "(byte \<times> i64) list \<Rightarrow> nat" where
  "items_i64_length is = length is + sum_list (map (\<lambda>i. encoded_length_vi64 (snd i)) is)"

definition items_bytes_length :: "(byte \<times> bytes) list \<Rightarrow> nat" where
  "items_bytes_length is =
     length is + sum_list (map (\<lambda>i. unat (encoded_length_bytes (of_nat (length (snd i))))) is)"

fun spec_encoded_length :: "spec_field \<Rightarrow> nat" where
  "spec_encoded_length (SF_INT64 fid cp v) = field_head_length fid + 1 + encoded_length_vi64 v"
| "spec_encoded_length (SF_DOUBLE fid cp d) = field_head_length fid + 1 + encoded_length_double"
| "spec_encoded_length (SF_BYTES fid cp b) =
     field_head_length fid + 1 + unat (encoded_length_bytes (of_nat (length b)))"
| "spec_encoded_length (SF_KEY fid s k) = field_head_length fid + 1 + unat (sk_encoded_length k)"
| "spec_encoded_length (SF_LIST_INT64 fid cp is) =
     field_head_length fid + 1 + unat (encoded_length_bytes (of_nat (items_i64_length is)))"
| "spec_encoded_length (SF_LIST_BYTES fid cp is) =
     field_head_length fid + 1 + unat (encoded_length_bytes (of_nat (items_bytes_length is)))"

fun spec_encode :: "spec_field \<Rightarrow> bytes" where
  "spec_encode (SF_INT64 fid cp v) = field_head T_INT64 fid @ encode_i8 cp @ vi64_out v"
| "spec_encode (SF_DOUBLE fid cp d) = field_head T_DOUBLE fid @ encode_i8 cp @ encode_double d"
| "spec_encode (SF_BYTES fid cp b) = field_head T_BYTES fid @ encode_i8 cp @ bytes_out b"
| "spec_encode (SF_KEY fid s k) = field_head T_KEY fid @ encode_i8 s @ sk_encode k"
| "spec_encode (SF_LIST_INT64 fid cp is) =
     field_head T_LIST_INT64 fid @ encode_i8 cp @ bytes_out (concat (map item_i64 is))"
| "spec_encode (SF_LIST_BYTES fid cp is) =
     field_head T_LIST_BYTES fid @ encode_i8 cp @ bytes_out (concat (map item_bytes is))"

definition SF_INT64_read :: "spec_field decoder" where
  "SF_INT64_read = dbind decode_vi24 (\<lambda>fid. dbind decode_i8 (\<lambda>cp. dbind decode_vi64 (\<lambda>v.
     dret (SF_INT64 fid cp v))))"

definition SF_DOUBLE_read :: "spec_field decoder" where
  "SF_DOUBLE_read = dbind decode_vi24 (\<lambda>fid. dbind decode_i8 (\<lambda>cp. dbind decode_double (\<lambda>d.
     dret (SF_DOUBLE fid cp d))))"

definition SF_BYTES_read :: "spec_field decoder" where
  "SF_BYTES_read = dbind decode_vi24 (\<lambda>fid. dbind decode_i8 (\<lambda>cp. dbind decode_bytes (\<lambda>b.
     dret (SF_BYTES fid cp b))))"

definition SF_KEY_read :: "spec_field decoder" where
  "SF_KEY_read = dbind decode_vi24 (\<lambda>fid. dbind decode_i8 (\<lambda>s. dbind sk_decode (\<lambda>k.
     dret (SF_KEY fid s k))))"

definition read_item_i64 :: "(byte \<times> i64) decoder" where
  "read_item_i64 = dbind decode_i8 (\<lambda>cp. dbind decode_vi64 (\<lambda>v. dret (cp, v)))"

definition read_item_bytes :: "(byte \<times> bytes) decoder" where
  "read_item_bytes = dbind decode_i8 (\<lambda>cp. dbind decode_bytes (\<lambda>b. dret (cp, b)))"

definition SF_LIST_INT64_read :: "spec_field decoder" where
  "SF_LIST_INT64_read = dbind decode_vi24 (\<lambda>fid. dbind decode_i8 (\<lambda>cp. dbind decode_bytes (\<lambda>b r.
     res_bind (feed_all (feed_of read_item_i64 b)) (\<lambda>is. Inr (SF_LIST_INT64 fid cp is, r)))))"

definition SF_LIST_BYTES_read :: "spec_field decoder" where
  "SF_LIST_BYTES_read = dbind decode_vi24 (\<lambda>fid. dbind decode_i8 (\<lambda>cp. dbind decode_bytes (\<lambda>b r.
     res_bind (feed_all (feed_of read_item_bytes b)) (\<lambda>is. Inr (SF_LIST_BYTES fid cp is, r)))))"

definition read_spec_field :: "spec_field option decoder" where
  "read_spec_field = dbind decode_i8 (\<lambda>t.
     if t = T_INT64 then dbind SF_INT64_read (\<lambda>f. dret (Some f))
     else if t = T_DOUBLE then dbind SF_DOUBLE_read (\<lambda>f. dret (Some f))
     else if t = T_BYTES then dbind SF_BYTES_read (\<lambda>f. dret (Some f))
     else if t = T_KEY then dbind SF_KEY_read (\<lambda>f. dret (Some f))
     else if t = T_LIST_INT64 then dbind SF_LIST_INT64_read (\<lambda>f. dret (Some f))
     else if t = T_LIST_BYTES then dbind SF_LIST_BYTES_read (\<lambda>f. dret (Some f))
     else dret None)"

text \<open>A byte of an unknown type is passed over, and the next one is a type again.\<close>

definition Fields_read :: "bytes \<Rightarrow> spec_field list res" where
  "Fields_read b = res_bind (feed_all (feed_of read_spec_field b)) (\<lambda>fs. Inr (List.map_filter (\<lambda>f. f) fs))"

definition fields_encoded_length :: "spec_field list \<Rightarrow> nat" where
  "fields_encoded_length fs = sum_list (map spec_encoded_length fs)"

definition fields_encode :: "spec_field list \<Rightarrow> bytes" where
  "fields_encode fs = concat (map spec_encode fs)"

definition has_field_id :: "spec_field list \<Rightarrow> u24 \<Rightarrow> bool" where
  "has_field_id fs fid \<longleftrightarrow> list_ex (\<lambda>f. spec_fid f = fid) fs"

definition fields_add :: "spec_field list \<Rightarrow> spec_field \<Rightarrow> spec_field list" where
  "fields_add fs f = fs @ [f]"

section \<open>Matching\<close>

definition code_seq :: "byte \<Rightarrow> KeySeq" where
  "code_seq b = (if b = 1 then LEXIC else if b = 2 then VOLUME else if b = 3 then FC_LEXIC
     else if b = 4 then FC_VOLUME else UNKNOWN)"

text \<open>What a field is compared with depends on its type; the callers have compared the types.\<close>

fun field_matching :: "(bytes \<Rightarrow> bytes \<Rightarrow> bool) \<Rightarrow> ld \<Rightarrow> spec_field \<Rightarrow> field \<Rightarrow> bool res" where
  "field_matching rx ld (SF_INT64 fid cp v) (Field_INT64 _ w) = Inr (matching_i64 cp v w)"
| "field_matching rx ld (SF_DOUBLE fid cp v) (Field_DOUBLE _ w) = Inr (matching_double ld cp v w)"
| "field_matching rx ld (SF_BYTES fid cp v) (Field_BYTES _ w) = Inr (matching_bytes rx cp v w)"
| "field_matching rx ld (SF_KEY fid s k) (Field_KEY _ w) = sk_matching rx (code_seq s) k w"
| "field_matching rx ld (SF_LIST_INT64 fid cp is) (Field_LIST_INT64 _ b) =
     list_matching (\<lambda>i v. matching_i64 (fst i) (snd i) v) cp is (feed_of decode_vi64 b)"
| "field_matching rx ld (SF_LIST_BYTES fid cp is) (Field_LIST_BYTES _ b) =
     list_matching (\<lambda>i v. matching_bytes rx (fst i) (snd i) v) cp is (feed_of decode_bytes b)"
| "field_matching rx ld _ _ = Inl Undefined_Behaviour"

text \<open>The fields of the specification that have not been met yet: one that is met has to match, and is
  taken out; the flag (\<open>more\<close>) says whether others are left.\<close>

fun match_pending :: "(bytes \<Rightarrow> bytes \<Rightarrow> bool) \<Rightarrow> ld \<Rightarrow> field \<Rightarrow> spec_field option list \<Rightarrow>
    (spec_field option list \<times> bool) option res" where
  "match_pending rx ld v [] = Inr (Some ([], False))"
| "match_pending rx ld v (None # ps) =
     res_bind (match_pending rx ld v ps) (\<lambda>r. Inr (map_option (\<lambda>(ps, rest). (None # ps, rest)) r))"
| "match_pending rx ld v (Some sf # ps) =
     (if spec_type sf = field_type v \<and> field_id v = spec_fid sf
      then res_bind (field_matching rx ld sf v) (\<lambda>ok. if \<not> ok then Inr None
        else res_bind (match_pending rx ld v ps) (\<lambda>r. Inr (map_option (\<lambda>(ps, rest). (None # ps, rest)) r)))
      else res_bind (match_pending rx ld v ps) (\<lambda>r. Inr (map_option (\<lambda>(ps, rest). (Some sf # ps, True)) r)))"

fun fields_matching_loop :: "(bytes \<Rightarrow> bytes \<Rightarrow> bool) \<Rightarrow> ld \<Rightarrow> spec_field option list \<Rightarrow>
    field option feed \<Rightarrow> bool res" where
  "fields_matching_loop rx ld ps Done = Inr False"
| "fields_matching_loop rx ld ps (Broken e) = Inl e"
| "fields_matching_loop rx ld ps (Next None f) = Inr False"
| "fields_matching_loop rx ld ps (Next (Some v) f) = res_bind (match_pending rx ld v ps) (\<lambda>r.
     case r of
       None \<Rightarrow> Inr False
     | Some (ps, rest) \<Rightarrow> if \<not> rest then Inr True else fields_matching_loop rx ld ps f)"

definition fields_matching :: "(bytes \<Rightarrow> bytes \<Rightarrow> bool) \<Rightarrow> ld \<Rightarrow> libs \<Rightarrow> spec_field list \<Rightarrow> cell \<Rightarrow> bool res" where
  "fields_matching rx ld lb fs c = res_bind (get_value lb c) (\<lambda>(enc, v).
     if v = [] then Inr False
     else fields_matching_loop rx ld (map Some fs) (feed_of (read_field False) v))"

fun match_any :: "(bytes \<Rightarrow> bytes \<Rightarrow> bool) \<Rightarrow> ld \<Rightarrow> field \<Rightarrow> spec_field list \<Rightarrow> bool res" where
  "match_any rx ld v [] = Inr False"
| "match_any rx ld v (sf # fs) =
     (if spec_type sf = field_type v \<and> field_id v = spec_fid sf
      then res_bind (field_matching rx ld sf v) (\<lambda>ok. if ok then Inr True else match_any rx ld v fs)
      else match_any rx ld v fs)"

fun fields_matching_or_loop :: "(bytes \<Rightarrow> bytes \<Rightarrow> bool) \<Rightarrow> ld \<Rightarrow> spec_field list \<Rightarrow>
    field option feed \<Rightarrow> bool res" where
  "fields_matching_or_loop rx ld fs Done = Inr False"
| "fields_matching_or_loop rx ld fs (Broken e) = Inl e"
| "fields_matching_or_loop rx ld fs (Next None f) = fields_matching_or_loop rx ld fs f"
| "fields_matching_or_loop rx ld fs (Next (Some v) f) = res_bind (match_any rx ld v fs) (\<lambda>ok.
     if ok then Inr True else fields_matching_or_loop rx ld fs f)"

definition fields_matching_or :: "(bytes \<Rightarrow> bytes \<Rightarrow> bool) \<Rightarrow> ld \<Rightarrow> libs \<Rightarrow> spec_field list \<Rightarrow> cell \<Rightarrow> bool res" where
  "fields_matching_or rx ld lb fs c = res_bind (get_value lb c) (\<lambda>(enc, v).
     if v = [] then Inr False
     else fields_matching_or_loop rx ld fs (feed_of (read_field False) v))"


section \<open>The codec\<close>

interpretation item_i64_codec: codec_pos item_i64 read_item_i64 "\<lambda>i. 1 + encoded_length_vi64 (snd i)" "\<lambda>_. True" "\<lambda>i. i"
proof (intro codec_pos.intro codec_of_decodes codec_pos_axioms.intro)
  fix i :: "byte \<times> i64"
  show "length (item_i64 i) = 1 + encoded_length_vi64 (snd i)" by (simp add: item_i64_def encode_i8_def)
  have "decodes (dbind decode_vi64 (\<lambda>v. dret (fst i, v))) (vi64_out (snd i)) (fst i, snd i)"
    by (intro decodes_dbind_dret [where g = "Pair (fst i)"] vi64.decodes_enc TrueI)
  then show "decodes read_item_i64 (item_i64 i) i"
    unfolding read_item_i64_def item_i64_def by (intro decodes_dbind [OF decodes_i8]) simp
qed simp

interpretation item_bytes_codec: codec_pos item_bytes read_item_bytes "\<lambda>i. 1 + length (bytes_out (snd i))"
  "\<lambda>i. length (snd i) < 2 ^ 63" "\<lambda>i. i"
proof (intro codec_pos.intro codec_of_decodes codec_pos_axioms.intro)
  fix i :: "byte \<times> bytes"
  show "length (item_bytes i) = 1 + length (bytes_out (snd i))" by (simp add: item_bytes_def encode_i8_def)
  assume "length (snd i) < 2 ^ 63"
  then have "decodes (dbind decode_bytes (\<lambda>v. dret (fst i, v))) (bytes_out (snd i)) (fst i, snd i)"
    by (intro decodes_dbind_dret [where g = "Pair (fst i)"] decodes_bytes)
  then show "decodes read_item_bytes (item_bytes i) i"
    unfolding read_item_bytes_def item_bytes_def by (intro decodes_dbind [OF decodes_i8]) simp
qed simp

definition spec_field_ok :: "spec_field \<Rightarrow> bool" where
  "spec_field_ok f \<longleftrightarrow> (case f of
     SF_BYTES fid cp b \<Rightarrow> length b < 2 ^ 63
   | SF_KEY fid s k \<Rightarrow> sk_ok k
   | SF_LIST_INT64 fid cp is \<Rightarrow> length (concat (map item_i64 is)) < 2 ^ 63
   | SF_LIST_BYTES fid cp is \<Rightarrow> length (concat (map item_bytes is)) < 2 ^ 63
   | _ \<Rightarrow> True)"

lemma items_lengths:
  "items_i64_length is = length (concat (map item_i64 is))"
  "length (concat (map item_bytes js)) < 2 ^ 63 \<Longrightarrow> items_bytes_length js = length (concat (map item_bytes js))"
proof -
  show "items_i64_length is = length (concat (map item_i64 is))"
    by (induction "is") (simp_all add: items_i64_length_def item_i64_def encode_i8_def)
  show "items_bytes_length js = length (concat (map item_bytes js))" if "length (concat (map item_bytes js)) < 2 ^ 63"
    using that
  proof (induction js)
    case (Cons j js)
    then have "unat (encoded_length_bytes (of_nat (length (snd j)))) = length (bytes_out (snd j))"
      by (intro unat_encoded_length_bytes) (simp add: item_bytes_def bytes_out_eq)
    then show ?case using Cons by (simp add: items_bytes_length_def item_bytes_def encode_i8_def)
  qed (simp add: items_bytes_length_def)
qed

lemma length_spec_encode: "spec_field_ok f \<Longrightarrow> length (spec_encode f) = spec_encoded_length f"
  by (cases f)
    (auto simp: spec_field_ok_def field_head_def field_head_length_def encode_i8_def encode_double_def
      unat_encoded_length_bytes items_lengths spec_key_codec.enc_len simp del: length_concat)

lemma feed_items:
  "length (concat (map item_i64 is)) < 2 ^ 63 \<Longrightarrow> feed_of read_item_i64 (concat (map item_i64 is)) = feed_list is"
  "length (concat (map item_bytes js)) < 2 ^ 63 \<Longrightarrow> feed_of read_item_bytes (concat (map item_bytes js)) = feed_list js"
proof -
  show "length (concat (map item_i64 is)) < 2 ^ 63 \<Longrightarrow> feed_of read_item_i64 (concat (map item_i64 is)) = feed_list is"
    using item_i64_codec.feed_of_concat [of "is"] by simp
  assume len: "length (concat (map item_bytes js)) < 2 ^ 63"
  have "length (snd j) < 2 ^ 63" if "j \<in> set js" for j
  proof -
    have "length (item_bytes j) \<le> sum_list (map (\<lambda>j. length (item_bytes j)) js)"
      using that by (intro member_le_sum_list) auto
    then show ?thesis using len by (simp add: length_concat comp_def item_bytes_def bytes_out_eq)
  qed
  then show "feed_of read_item_bytes (concat (map item_bytes js)) = feed_list js"
    using item_bytes_codec.feed_of_concat [of js] len by simp
qed

lemma decodes_spec_read:
  assumes "decodes dec bs v"
  shows "decodes (dbind (dbind decode_vi24 (\<lambda>fid. dbind decode_i8 (\<lambda>cp. dbind dec (\<lambda>v. dret (c fid cp v)))))
      (\<lambda>f. dret (Some f))) (vi24_out fid @ encode_i8 cp @ bs) (Some (c fid cp v))"
  by (intro decodes_dbind_dret [where g = Some] decodes_dbind [OF vi24.decodes_enc [OF TrueI]]
      decodes_dbind [OF decodes_i8] decodes_dbind_dret [where g = "c fid cp"] assms)

lemma decodes_spec_items:
  assumes "length b < 2 ^ 63" and "feed_of dec b = feed_list is"
  shows "decodes (dbind (dbind decode_vi24 (\<lambda>fid. dbind decode_i8 (\<lambda>cp. dbind decode_bytes (\<lambda>b r.
      res_bind (feed_all (feed_of dec b)) (\<lambda>is. Inr (c fid cp is, r))))))
      (\<lambda>f. dret (Some f))) (vi24_out fid @ encode_i8 cp @ bytes_out b) (Some (c fid cp is))"
proof (intro decodes_dbind_dret [where g = Some] decodes_dbind [OF vi24.decodes_enc [OF TrueI]]
      decodes_dbind [OF decodes_i8])
  have "decodes (\<lambda>r. res_bind (feed_all (feed_of dec b)) (\<lambda>is. Inr (c fid cp is, r))) [] (c fid cp is)"
    using assms(2) by (simp add: decodes_def)
  then show "decodes (dbind decode_bytes (\<lambda>b r. res_bind (feed_all (feed_of dec b)) (\<lambda>is. Inr (c fid cp is, r))))
      (bytes_out b) (c fid cp is)"
    using decodes_dbind [OF decodes_bytes [OF assms(1)]] by fastforce
qed

lemma decodes_spec_field: "spec_field_ok f \<Longrightarrow> decodes read_spec_field (spec_encode f) (Some f)"
proof -
  assume ok: "spec_field_ok f"
  have head: "decodes read_spec_field (field_head t fid @ bs) v"
    if "decodes (if t = T_INT64 then dbind SF_INT64_read (\<lambda>f. dret (Some f))
     else if t = T_DOUBLE then dbind SF_DOUBLE_read (\<lambda>f. dret (Some f))
     else if t = T_BYTES then dbind SF_BYTES_read (\<lambda>f. dret (Some f))
     else if t = T_KEY then dbind SF_KEY_read (\<lambda>f. dret (Some f))
     else if t = T_LIST_INT64 then dbind SF_LIST_INT64_read (\<lambda>f. dret (Some f))
     else if t = T_LIST_BYTES then dbind SF_LIST_BYTES_read (\<lambda>f. dret (Some f))
     else dret None) (vi24_out fid @ bs) v" for t fid bs v
    unfolding read_spec_field_def field_head_def append_assoc using that by (rule decodes_dbind [OF decodes_i8])
  note reads = SF_INT64_read_def SF_DOUBLE_read_def SF_BYTES_read_def SF_KEY_read_def
    SF_LIST_INT64_read_def SF_LIST_BYTES_read_def
  show ?thesis
    using ok
    by (cases f)
      (auto simp: serial_types reads spec_field_ok_def simp del: length_concat
        intro!: head decodes_spec_read decodes_spec_items decodes_double feed_items
        decodes_bytes decodes_sk vi64.decodes_enc)
qed

interpretation spec_field_codec: codec_pos spec_encode read_spec_field spec_encoded_length spec_field_ok Some
proof (intro codec_pos.intro codec_of_decodes codec_pos_axioms.intro)
  fix f show "0 < spec_encoded_length f" by (cases f) (simp_all add: field_head_length_def)
qed (simp_all add: length_spec_encode decodes_spec_field)

lemma map_filter_Some: "List.map_filter (\<lambda>f. f) (map Some fs) = fs"
  by (induction fs) (simp_all add: List.map_filter_simps)

lemma Fields_read_encode:
  assumes "list_all spec_field_ok fs" and "length (fields_encode fs) < 2 ^ 64"
  shows "Fields_read (fields_encode fs) = Inr fs"
  using spec_field_codec.feed_of_concat [of fs] assms
  by (simp add: Fields_read_def fields_encode_def list_all_iff map_filter_Some)


section \<open>What the conditions of lists mean\<close>

text \<open>How many items match in turn.\<close>

fun agree :: "('i \<Rightarrow> 'v \<Rightarrow> bool) \<Rightarrow> 'i list \<Rightarrow> 'v list \<Rightarrow> bool" where
  "agree m (i # is) (v # vs) \<longleftrightarrow> m i v \<and> agree m is vs"
| "agree m is vs \<longleftrightarrow> True"

lemma agree_all2: "length is = length vs \<Longrightarrow> agree m is vs \<longleftrightarrow> list_all2 m is vs"
  by (induction m "is" vs rule: agree.induct) auto

lemma lm_prefix_list:
  "\<exists>is' f. lm_prefix m is (feed_list vs) = Inr (is', f) \<and>
    (agree m is vs \<longrightarrow> is' = drop (length vs) is \<and> f = feed_list (drop (length is) vs)) \<and>
    (\<not> agree m is vs \<longrightarrow> is' \<noteq> [])"
proof (induction "is" arbitrary: vs)
  case (Cons i "is")
  show ?case
  proof (cases vs)
    case (Cons v vs')
    then show ?thesis using Cons.IH [of vs'] by (auto simp: feed_list_def)
  qed simp
qed simp

lemma feed_list_Done: "feed_list vs = Done \<longleftrightarrow> vs = []" "Done = feed_list vs \<longleftrightarrow> vs = []"
  by (cases vs; simp)+

lemma list_matching_prefix:
  shows "list_matching m (Comp_code EQ) is (feed_list vs) = Inr (list_all2 m is vs)"
    and "list_matching m (Comp_code NE) is (feed_list vs) = Inr (\<not> list_all2 m is vs)"
    and "list_matching m (Comp_code GE) is (feed_list vs) = Inr (length is \<le> length vs \<and> agree m is vs)"
    and "list_matching m (Comp_code GT) is (feed_list vs) = Inr (length is < length vs \<and> agree m is vs)"
proof -
  obtain is' f where p: "lm_prefix m is (feed_list vs) = Inr (is', f)"
    and y: "agree m is vs \<Longrightarrow> is' = drop (length vs) is \<and> f = feed_list (drop (length is) vs)"
    and n: "\<not> agree m is vs \<Longrightarrow> is' \<noteq> []"
    using lm_prefix_list by blast
  have all2: "list_all2 m is vs \<longleftrightarrow> length is = length vs \<and> agree m is vs"
    using agree_all2 list_all2_lengthD by blast
  note defs = list_matching_def p code_comp_code res_bind_simps all2 feed_list_Done
  show "list_matching m (Comp_code EQ) is (feed_list vs) = Inr (list_all2 m is vs)"
    using y n by (cases "agree m is vs") (auto simp: defs simp del: Comp_code.simps)
  show "list_matching m (Comp_code NE) is (feed_list vs) = Inr (\<not> list_all2 m is vs)"
    using y n by (cases "agree m is vs") (auto simp: defs simp del: Comp_code.simps)
  show "list_matching m (Comp_code GE) is (feed_list vs) = Inr (length is \<le> length vs \<and> agree m is vs)"
    using y n by (cases "agree m is vs") (auto simp: defs simp del: Comp_code.simps)
  show "list_matching m (Comp_code GT) is (feed_list vs) = Inr (length is < length vs \<and> agree m is vs)"
    using y n by (cases "agree m is vs") (auto simp: defs simp del: Comp_code.simps)
qed

lemma list_matching_posbs:
  "list_matching m (Comp_code POSBS) is (feed_list vs) = Inr (list_emb m is vs)"
proof -
  have "lm_posbs m is (feed_list vs) = Inr (list_emb m is vs)"
  proof (induction vs arbitrary: "is")
    case Nil
    then show ?case by (cases "is") auto
  next
    case (Cons v vs)
    then show ?case by (cases "is") (auto simp: list_emb_Cons2)
  qed
  then show ?thesis by (simp add: list_matching_def del: Comp_code.simps)
qed


lemma lm_prefix_stops:
  "\<not> agree m is vs \<Longrightarrow> \<exists>is' f. lm_prefix m is (feed_list vs) = Inr (is', f) \<and> is' \<noteq> [] \<and>
    (f = Done \<longleftrightarrow> length vs \<le> length is \<and> agree m is (butlast vs))"
proof (induction m "is" vs rule: agree.induct)
  case (1 m i "is" v vs)
  show ?case
  proof (cases "m i v")
    case True
    then have "vs \<noteq> []" using 1(2) by auto
    then show ?thesis using 1 True by auto
  next
    case False
    then show ?thesis by (cases "vs = []") (auto simp: feed_list_Done)
  qed
qed auto

lemma agree_butlast: "agree m is vs \<Longrightarrow> agree m is (butlast vs)"
  by (induction m "is" vs rule: agree.induct) auto

lemma list_matching_upto:
  shows "list_matching m (Comp_code LE) is (feed_list vs) = Inr (length vs \<le> length is \<and> agree m is (butlast vs))"
    and "list_matching m (Comp_code LT) is (feed_list vs) =
      Inr (length vs \<le> length is \<and> agree m is (butlast vs) \<and> \<not> list_all2 m is vs)"
proof -
  have all2: "list_all2 m is vs \<longleftrightarrow> length is = length vs \<and> agree m is vs" using agree_all2 list_all2_lengthD by blast
  note defs = list_matching_def code_comp_code res_bind_simps all2 feed_list_Done
  have "lm_prefix m is (feed_list vs) = Inr (drop (length vs) is, feed_list (drop (length is) vs))" if "agree m is vs"
    using lm_prefix_list [of m "is" vs] that by auto
  note y = this
  show "list_matching m (Comp_code LE) is (feed_list vs) = Inr (length vs \<le> length is \<and> agree m is (butlast vs))"
    using y lm_prefix_stops [of m "is" vs] agree_butlast [of m "is" vs]
    by (cases "agree m is vs") (auto simp: defs simp del: Comp_code.simps)
  show "list_matching m (Comp_code LT) is (feed_list vs) =
      Inr (length vs \<le> length is \<and> agree m is (butlast vs) \<and> \<not> list_all2 m is vs)"
    using y lm_prefix_stops [of m "is" vs] agree_butlast [of m "is" vs]
    by (cases "agree m is vs") (auto simp: defs simp del: Comp_code.simps)
qed

text \<open>In one piece, from the first item or value that matches.\<close>

lemma lm_fosbs_started: "lm_fosbs m True is (feed_list vs) = Inr (length is \<le> length vs \<and> list_all2 m is (take (length is) vs))"
proof (induction "is" arbitrary: vs)
  case (Cons i "is")
  then show ?case by (cases vs) auto
qed simp

definition from_first :: "('a \<Rightarrow> bool) \<Rightarrow> 'a list \<Rightarrow> 'a list" where
  "from_first P xs = dropWhile (\<lambda>x. \<not> P x) xs"

lemma lm_fosbs_is: "lm_fosbs m False is (feed_list vs) = Inr (is = [] \<or>
    (let ws = from_first (m (hd is)) vs in length is \<le> length ws \<and> list_all2 m is (take (length is) ws)))"
proof (cases "is")
  case (Cons i js)
  show ?thesis unfolding Cons
    by (induction vs) (simp_all add: from_first_def lm_fosbs_started Let_def)
qed simp

lemma lm_posps_is: "lm_posps m is (feed_list vs) =
    Inr (length vs \<le> length is \<and> (\<forall>k < length vs. \<exists>i \<in> set (drop k is). m i (vs ! k)))"
proof (induction vs arbitrary: "is")
  case Nil
  then show ?case by (cases "is") auto
next
  case (Cons v vs)
  show ?case
  proof (cases "is")
    case (Cons i js)
    show ?thesis unfolding Cons using Cons.IH [of js]
      by (auto simp: All_less_Suc2 list_ex_iff)
  qed (simp add: feed_list_Done)
qed

lemma lm_fosps_started: "lm_fosps m True is (feed_list vs) = Inr (length vs \<le> length is \<and> list_all2 m (take (length vs) is) vs)"
proof (induction vs arbitrary: "is")
  case (Cons v vs)
  then show ?case by (cases "is") auto
qed simp

lemma lm_next_first: "lm_next m False is v = (case from_first (\<lambda>i. m i v) is of [] \<Rightarrow> None | i # js \<Rightarrow> Some js)"
  by (induction "is") (auto simp: from_first_def)

lemma lm_fosps_is: "lm_fosps m False is (feed_list vs) = Inr (vs = [] \<or>
    (let js = from_first (\<lambda>i. m i (hd vs)) is in length vs \<le> length js \<and> list_all2 m (take (length vs) js) vs))"
proof (cases vs)
  case (Cons v ws)
  show ?thesis
  proof (cases "is")
    case Nil
    then show ?thesis by (simp add: Cons from_first_def)
  next
    case (Cons i js)
    have "m (hd (from_first (\<lambda>i. m i v) is)) v" if "from_first (\<lambda>i. m i v) is \<noteq> []"
      using hd_dropWhile [of "\<lambda>i. \<not> m i v" "is"] that by (simp add: from_first_def)
    then show ?thesis using lm_next_first [of m "is" v] unfolding \<open>vs = v # ws\<close> Cons
      by (cases "from_first (\<lambda>i. m i v) (i # js)") (simp_all add: lm_fosps_started Let_def del: lm_next.simps)
  qed
qed simp

text \<open>Each item a value of its own, found greedily.\<close>

definition unfound :: "(bool \<times> 'i) list \<Rightarrow> 'i list" where
  "unfound ps = map snd (filter (\<lambda>p. \<not> fst p) ps)"

lemma unfound_simps [simp]: "unfound [] = []" "unfound ((b, i) # ps) = (if b then unfound ps else i # unfound ps)"
  "unfound (map (Pair False) is) = is"
  by (simp_all add: unfound_def comp_def filter_map)

lemma lm_find_takes: "lm_find m ps v = Some ps' \<Longrightarrow> \<exists>i. m i v \<and> mset (unfound ps) = add_mset i (mset (unfound ps'))"
proof (induction ps arbitrary: ps')
  case (Cons p ps)
  obtain b i where p: "p = (b, i)" by force
  show ?case
  proof (cases "\<not> b \<and> m i v")
    case True
    then show ?thesis using Cons.prems by (auto simp: p)
  next
    case False
    then obtain qs where "lm_find m ps v = Some qs" "ps' = (b, i) # qs" using Cons.prems by (auto simp: p)
    then show ?thesis using Cons.IH [of qs] by (auto simp: p add_mset_commute)
  qed
qed simp

lemma lm_sbs_finds: "lm_sbs m (length (unfound ps)) ps (feed_list vs) = Inr True \<Longrightarrow>
    \<exists>js ws. mset js = mset (unfound ps) \<and> mset ws \<subseteq># mset vs \<and> list_all2 m js ws"
proof (induction vs arbitrary: ps)
  case (Cons v vs)
  show ?case
  proof (cases "lm_find m ps v")
    case None
    then obtain js ws where j: "mset js = mset (unfound ps)" "mset ws \<subseteq># mset vs" "list_all2 m js ws"
      using Cons.prems Cons.IH [of ps] by auto
    have "mset vs \<subseteq># mset (v # vs)" by simp
    then have "mset ws \<subseteq># mset (v # vs)" by (rule subset_mset.order_trans [OF j(2)])
    then show ?thesis using j(1,3) by blast
  next
    case (Some qs)
    from lm_find_takes [OF this] obtain i where i: "m i v" "mset (unfound ps) = add_mset i (mset (unfound qs))" by (elim exE conjE)
    from arg_cong [OF i(2), of size] have n: "length (unfound ps) = Suc (length (unfound qs))"
      by (simp only: size_mset size_add_mset)
    have "\<exists>js ws. mset js = mset (unfound qs) \<and> mset ws \<subseteq># mset vs \<and> list_all2 m js ws"
    proof (cases "length (unfound qs) = 0")
      case True
      then have "mset [] = mset (unfound qs) \<and> mset [] \<subseteq># mset vs \<and> list_all2 m [] []" by simp
      then show ?thesis by blast
    next
      case False
      then show ?thesis using Cons.prems Cons.IH [of qs] Some n by simp
    qed
    then obtain js ws where "mset js = mset (unfound qs)" "mset ws \<subseteq># mset vs" "list_all2 m js ws" by blast
    then have "mset (i # js) = mset (unfound ps) \<and> mset (v # ws) \<subseteq># mset (v # vs) \<and> list_all2 m (i # js) (v # ws)"
      using i by simp
    then show ?thesis by blast
  qed
qed simp

lemma lm_sps_finds: "lm_sps m ps (feed_list vs) = Inr True \<Longrightarrow>
    \<exists>js. mset js \<subseteq># mset (unfound ps) \<and> list_all2 m js vs"
proof (induction vs arbitrary: ps)
  case Nil
  have "mset [] \<subseteq># mset (unfound ps) \<and> list_all2 m [] []" by simp
  then show ?case by blast
next
  case (Cons v vs)
  then obtain qs where q: "lm_find m ps v = Some qs" "lm_sps m qs (feed_list vs) = Inr True" by (auto split: option.splits)
  from lm_find_takes [OF q(1)] obtain i where i: "m i v" "mset (unfound ps) = add_mset i (mset (unfound qs))"
    by (elim exE conjE)
  from Cons.IH [OF q(2)] obtain js where "mset js \<subseteq># mset (unfound qs)" "list_all2 m js vs" by (elim exE conjE)
  then have "mset (i # js) \<subseteq># mset (unfound ps) \<and> list_all2 m (i # js) (v # vs)" using i by simp
  then show ?case by blast
qed

lemma list_matching_sets:
  "list_matching m (Comp_code SBS) is (feed_list vs) = Inr True \<Longrightarrow> \<exists>ws. mset ws \<subseteq># mset vs \<and> list_all2 m is ws"
  "list_matching m (Comp_code SPS) is (feed_list vs) = Inr True \<Longrightarrow> \<exists>js. mset js \<subseteq># mset is \<and> list_all2 m js vs"
proof -
  assume "list_matching m (Comp_code SBS) is (feed_list vs) = Inr True"
  then have "is = [] \<or> lm_sbs m (length (unfound (map (Pair False) is))) (map (Pair False) is) (feed_list vs) = Inr True"
    by (auto simp: list_matching_def split: if_splits simp del: Comp_code.simps)
  then show "\<exists>ws. mset ws \<subseteq># mset vs \<and> list_all2 m is ws"
  proof
    assume "is = []"
    then have "mset [] \<subseteq># mset vs \<and> list_all2 m is []" by simp
    then show ?thesis by blast
  next
    assume "lm_sbs m (length (unfound (map (Pair False) is))) (map (Pair False) is) (feed_list vs) = Inr True"
    from lm_sbs_finds [OF this] obtain js ws where j: "mset js = mset is" "mset ws \<subseteq># mset vs" "list_all2 m js ws" by auto
    from list_all2_reorder_left_invariance [OF j(3) j(1) [symmetric]]
    obtain us where "list_all2 m is us" "mset us = mset ws" by blast
    then have "mset us \<subseteq># mset vs \<and> list_all2 m is us" using j(2) by simp
    then show ?thesis by blast
  qed
next
  assume "list_matching m (Comp_code SPS) is (feed_list vs) = Inr True"
  then have "vs = [] \<or> lm_sps m (map (Pair False) is) (feed_list vs) = Inr True"
    by (auto simp: list_matching_def feed_list_Done split: if_splits simp del: Comp_code.simps)
  then show "\<exists>js. mset js \<subseteq># mset is \<and> list_all2 m js vs"
    using lm_sps_finds [of m "map (Pair False) is" vs] lm_sps_finds [of m "map (Pair False) is" "[]"] by auto
qed

text \<open>C36: What each condition on a list field accepts, of items in the specification and values in the list. \<open>EQ\<close> and \<open>NE\<close>:
  that all items match in turn, or not; \<open>GE\<close> and \<open>GT\<close>: that the items match the first values, with more values for
  \<open>GT\<close>; \<open>LE\<close> and \<open>LT\<close>: that there are no more values than items and all but the last value match in turn - the last
  one need not -, and for \<open>LT\<close> that it is not \<open>EQ\<close>; \<open>POSBS\<close>: that the items match a subsequence of the values;
  \<open>FOSBS\<close>: a contiguous run from the first value that the first item matches; \<open>FOSPS\<close>: the values a run of items from
  the first one that matches the first value; \<open>POSPS\<close>: that each value matches some item from its own position on,
  even the same one as another value. \<open>SBS\<close> and \<open>SPS\<close> accept only when each item has a value of its own, or each value
  an item. The buffers the set operations make are such lists.\<close>

theorem list_conditions:
  assumes "list_i64_set_from xs = Inr b" and "list_bytes_set_from ys = Inr c"
  shows "list_matching m (Comp_code EQ) is (feed_list vs) = Inr (list_all2 m is vs) \<and>
    list_matching m (Comp_code NE) is (feed_list vs) = Inr (\<not> list_all2 m is vs) \<and>
    list_matching m (Comp_code GE) is (feed_list vs) =
      Inr (length is \<le> length vs \<and> list_all2 m is (take (length is) vs)) \<and>
    list_matching m (Comp_code GT) is (feed_list vs) =
      Inr (length is < length vs \<and> list_all2 m is (take (length is) vs)) \<and>
    list_matching m (Comp_code LE) is (feed_list vs) =
      Inr (length vs \<le> length is \<and> list_all2 m (take (length vs - 1) is) (butlast vs)) \<and>
    list_matching m (Comp_code LT) is (feed_list vs) =
      Inr (length vs \<le> length is \<and> list_all2 m (take (length vs - 1) is) (butlast vs) \<and> \<not> list_all2 m is vs) \<and>
    list_matching m (Comp_code POSBS) is (feed_list vs) = Inr (list_emb m is vs) \<and>
    list_matching m (Comp_code FOSBS) is (feed_list vs) = Inr (is = [] \<or>
      (let ws = from_first (m (hd is)) vs in length is \<le> length ws \<and> list_all2 m is (take (length is) ws))) \<and>
    list_matching m (Comp_code POSPS) is (feed_list vs) =
      Inr (length vs \<le> length is \<and> (\<forall>k < length vs. \<exists>i \<in> set (drop k is). m i (vs ! k))) \<and>
    list_matching m (Comp_code FOSPS) is (feed_list vs) = Inr (vs = [] \<or>
      (let js = from_first (\<lambda>i. m i (hd vs)) is in length vs \<le> length js \<and> list_all2 m (take (length vs) js) vs)) \<and>
    (list_matching m (Comp_code SBS) is (feed_list vs) = Inr True \<longrightarrow> (\<exists>ws. mset ws \<subseteq># mset vs \<and> list_all2 m is ws)) \<and>
    (list_matching m (Comp_code SPS) is (feed_list vs) = Inr True \<longrightarrow> (\<exists>js. mset js \<subseteq># mset is \<and> list_all2 m js vs)) \<and>
    feed_of decode_vi64 b = feed_list xs \<and> feed_of decode_bytes c = feed_list ys"
proof -
  have agree: "agree m is vs \<longleftrightarrow> agree m is (take (length is) vs)"
    by (induction m "is" vs rule: agree.induct) auto
  have ge: "length is \<le> length vs \<and> agree m is vs \<longleftrightarrow> length is \<le> length vs \<and> list_all2 m is (take (length is) vs)"
    using agree agree_all2 [of "is" "take (length is) vs" m] by auto
  then have gt: "length is < length vs \<and> agree m is vs \<longleftrightarrow> length is < length vs \<and> list_all2 m is (take (length is) vs)" by auto
  have agree': "agree m js ws \<longleftrightarrow> agree m (take (length ws) js) ws" for js ws
    by (induction m js ws rule: agree.induct) auto
  have le: "length vs \<le> length is \<and> agree m is (butlast vs) \<longleftrightarrow>
      length vs \<le> length is \<and> list_all2 m (take (length vs - 1) is) (butlast vs)"
    using agree_all2 [of "take (length vs - 1) is" "butlast vs" m] agree' [of "is" "butlast vs"] by auto
  have pieces: "list_matching m (Comp_code FOSBS) is (feed_list vs) = lm_fosbs m False is (feed_list vs)"
    "list_matching m (Comp_code POSPS) is (feed_list vs) = lm_posps m is (feed_list vs)"
    "list_matching m (Comp_code FOSPS) is (feed_list vs) = lm_fosps m False is (feed_list vs)"
    by (simp_all add: list_matching_def del: Comp_code.simps)
  have b: "b = concat (map vi64_out xs)" "length b < 2 ^ 64" and c: "c = concat (map bytes_out ys)" "length c < 2 ^ 64"
    using assms unsigned_less [of "items_i64_size xs", where ?'a = nat] unsigned_less [of "items_bytes_size ys", where ?'a = nat]
    by (auto simp: list_i64_set_from_def list_bytes_set_from_def filled_def split: if_splits)
  have "length y < 2 ^ 64" if "y \<in> set ys" for y
  proof -
    have "length (bytes_out y) \<le> sum_list (map (\<lambda>b. length (bytes_out b)) ys)"
      using that by (intro member_le_sum_list) auto
    then show ?thesis using c by (simp add: length_concat comp_def bytes_out_eq)
  qed
  then have feeds: "feed_of decode_vi64 b = feed_list xs" "feed_of decode_bytes c = feed_list ys"
    using vi64.feed_of_concat [of xs] byte_string.feed_of_concat [of ys] b c by auto
  show ?thesis
    unfolding list_matching_prefix list_matching_upto list_matching_posbs pieces lm_fosbs_is lm_posps_is lm_fosps_is ge gt
    using le feeds list_matching_sets [of m "is" vs] by auto
qed

theorem list_conditions_witness:
  "\<exists>b. list_i64_set_from [1, 2, 3] = Inr b \<and> list_matching (=) (Comp_code POSBS) [1 :: i64, 3] (feed_of decode_vi64 b) = Inr True"
proof -
  have "length (concat (map vi64_out [1, 2, 3])) < 2 ^ 32"
    using encoded_length_vi64_le [of 1] encoded_length_vi64_le [of 2] encoded_length_vi64_le [of 3] by simp
  then have b: "list_i64_set_from [1, 2, 3] = Inr (concat (map vi64_out [1, 2, 3]))" by (rule list_set_from)
  have "list_bytes_set_from [] = Inr []" using list_set_from(2) [of "[]"] by simp
  from list_conditions [OF b this, of "(=)" "[1, 3 :: i64]" "[1, 2, 3]"] show ?thesis
    unfolding b by (auto simp del: Comp_code.simps)
qed

text \<open>Conditions on lists miss their meaning in three places: \<open>LE\<close> and \<open>LT\<close> accept a list that
  differs in its last value, as the loop cannot tell a mismatch there from the end; \<open>POSPS\<close> accepts two values that
  both are the last item; and \<open>SBS\<close> gives an item to the first value that matches and then finds
  none for another, although there is a way to give each item a value of its own.\<close>

lemma list_conditions_miss:
  "list_matching (\<lambda>i. matching_i64 (fst i) (snd i)) (Comp_code LE) [(Comp_code EQ, 1)] (feed_list [2]) = Inr True \<and>
   list_matching (\<lambda>i. matching_i64 (fst i) (snd i)) (Comp_code LT) [(Comp_code EQ, 1)] (feed_list [2]) = Inr True \<and>
   list_matching (\<lambda>i. matching_i64 (fst i) (snd i)) (Comp_code POSPS) [(Comp_code EQ, 1), (Comp_code EQ, 2)]
     (feed_list [2, 2]) = Inr True \<and>
   list_matching (\<lambda>i. matching_i64 (fst i) (snd i)) (Comp_code SBS) [(Comp_code GE, 1), (Comp_code EQ, 1)]
     (feed_list [1, 2]) = Inr False \<and>
   list_matching (\<lambda>i. matching_i64 (fst i) (snd i)) (Comp_code SBS) [(Comp_code GE, 1), (Comp_code EQ, 1)]
     (feed_list [2, 1]) = Inr True"
proof -
  have m: "matching_i64 (Comp_code EQ) v w \<longleftrightarrow> v = w" "matching_i64 (Comp_code GE) v w \<longleftrightarrow> sint v \<le> sint w" for v w
    by (simp_all add: matching_i64_def eq_i64_def ge_i64_def del: Comp_code.simps)
  show ?thesis by (simp add: list_matching_def m del: Comp_code.simps)
qed

section \<open>What matching a value means\<close>

definition same_tag :: "spec_field \<Rightarrow> field \<Rightarrow> bool" where
  "same_tag sf v \<longleftrightarrow> spec_type sf = field_type v \<and> field_id v = spec_fid sf"

definition tag :: "field \<Rightarrow> byte \<times> u24" where
  "tag v = (field_type v, field_id v)"

definition pending :: "field \<Rightarrow> spec_field option list \<Rightarrow> spec_field option list" where
  "pending v ps = map (\<lambda>p. case p of Some sf \<Rightarrow> if same_tag sf v then None else p | None \<Rightarrow> None) ps"

lemma match_pending_is:
  assumes "\<And>sf. Some sf \<in> set ps \<Longrightarrow> same_tag sf v \<Longrightarrow> field_matching rx ld sf v = Inr (mt sf v)"
  shows "match_pending rx ld v ps = Inr
    (if \<forall>sf. Some sf \<in> set ps \<longrightarrow> same_tag sf v \<longrightarrow> mt sf v
     then Some (pending v ps, \<exists>sf. Some sf \<in> set (pending v ps)) else None)"
  using assms
proof (induction ps)
  case (Cons p ps)
  then have IH: "match_pending rx ld v ps = Inr
    (if \<forall>sf. Some sf \<in> set ps \<longrightarrow> same_tag sf v \<longrightarrow> mt sf v
     then Some (pending v ps, \<exists>sf. Some sf \<in> set (pending v ps)) else None)" by simp
  show ?case
  proof (cases p)
    case None
    then show ?thesis using IH by (auto simp: pending_def)
  next
    case (Some sf)
    show ?thesis
    proof (cases "same_tag sf v")
      case True
      then have m: "field_matching rx ld sf v = Inr (mt sf v)" using Cons.prems Some by simp
      have t: "spec_type sf = field_type v \<and> field_id v = spec_fid sf" using True by (simp add: same_tag_def)
      show ?thesis
        by (cases "mt sf v") (auto simp: Some m t True IH pending_def)
    next
      case False
      then show ?thesis unfolding Some same_tag_def [symmetric] match_pending.simps
        by (auto simp: IH pending_def)
    qed
  qed
qed (simp add: pending_def)

lemma pending_iff: "Some sf \<in> set (pending v ps) \<longleftrightarrow> Some sf \<in> set ps \<and> \<not> same_tag sf v"
proof
  show "Some sf \<in> set (pending v ps) \<Longrightarrow> Some sf \<in> set ps \<and> \<not> same_tag sf v"
    by (auto simp: pending_def split: option.splits if_splits)
  assume *: "Some sf \<in> set ps \<and> \<not> same_tag sf v"
  then show "Some sf \<in> set (pending v ps)"
    unfolding pending_def set_map by (intro image_eqI [of _ _ "Some sf"]) auto
qed

lemma same_tag_eq: "same_tag sf v \<Longrightarrow> tag v = tag w \<longleftrightarrow> same_tag sf w"
  by (auto simp: same_tag_def tag_def)

lemma fields_matching_loop_is:
  assumes "\<And>sf v. Some sf \<in> set ps \<Longrightarrow> v \<in> set vs \<Longrightarrow> same_tag sf v \<Longrightarrow> field_matching rx ld sf v = Inr (mt sf v)"
    and "distinct (map tag vs)"
  shows "fields_matching_loop rx ld ps (feed_list (map Some vs)) =
    Inr (vs \<noteq> [] \<and> (\<forall>sf. Some sf \<in> set ps \<longrightarrow> (\<exists>v \<in> set vs. same_tag sf v \<and> mt sf v)))"
  using assms
proof (induction vs arbitrary: ps)
  case (Cons v vs)
  have p: "match_pending rx ld v ps = Inr
    (if \<forall>sf. Some sf \<in> set ps \<longrightarrow> same_tag sf v \<longrightarrow> mt sf v
     then Some (pending v ps, \<exists>sf. Some sf \<in> set (pending v ps)) else None)"
    using Cons.prems(1) by (intro match_pending_is) simp
  have other: "\<not> same_tag sf w" if "same_tag sf v" "w \<in> set vs" for sf w
    using that Cons.prems(2) same_tag_eq [OF that(1), of w] by (auto simp: image_iff)
  show ?case
  proof (cases "\<forall>sf. Some sf \<in> set ps \<longrightarrow> same_tag sf v \<longrightarrow> mt sf v")
    case False
    then obtain sf where sf: "Some sf \<in> set ps" "same_tag sf v" "\<not> mt sf v" by blast
    then have "\<not> (\<exists>w \<in> set (v # vs). same_tag sf w \<and> mt sf w)" using other by auto
    moreover have "match_pending rx ld v ps = Inr None" using p False by simp
    ultimately show ?thesis using sf(1) by (auto simp: feed_list_def)
  next
    case True
    have IH: "fields_matching_loop rx ld (pending v ps) (feed_list (map Some vs)) =
      Inr (vs \<noteq> [] \<and> (\<forall>sf. Some sf \<in> set (pending v ps) \<longrightarrow> (\<exists>v \<in> set vs. same_tag sf v \<and> mt sf v)))"
      using Cons.prems by (intro Cons.IH) (auto simp: pending_iff)
    show ?thesis
    proof (cases "\<exists>sf. Some sf \<in> set (pending v ps)")
      case False
      then have "fields_matching_loop rx ld ps (feed_list (map Some (v # vs))) = Inr True"
        using True p by simp
      moreover have "\<forall>sf. Some sf \<in> set ps \<longrightarrow> same_tag sf v \<and> mt sf v" using False True by (auto simp: pending_iff)
      ultimately show ?thesis by simp
    next
      case rest: True
      then have "fields_matching_loop rx ld ps (feed_list (map Some (v # vs))) =
          fields_matching_loop rx ld (pending v ps) (feed_list (map Some vs))"
        using True p by simp
      also note IH
      also have "vs \<noteq> [] \<and> (\<forall>sf. Some sf \<in> set (pending v ps) \<longrightarrow> (\<exists>v \<in> set vs. same_tag sf v \<and> mt sf v)) \<longleftrightarrow>
          (\<forall>sf. Some sf \<in> set ps \<longrightarrow> (\<exists>w \<in> set (v # vs). same_tag sf w \<and> mt sf w))"
        using rest True by (fastforce simp: pending_iff)
      finally show ?thesis by simp
    qed
  qed
qed simp

lemma match_any_is:
  "(\<And>sf. sf \<in> set fs \<Longrightarrow> same_tag sf v \<Longrightarrow> field_matching rx ld sf v = Inr (mt sf v)) \<Longrightarrow>
    match_any rx ld v fs = Inr (\<exists>sf \<in> set fs. same_tag sf v \<and> mt sf v)"
  by (induction fs) (auto simp: same_tag_def)

lemma fields_matching_or_loop_is:
  "(\<And>sf v. sf \<in> set fs \<Longrightarrow> v \<in> set vs \<Longrightarrow> same_tag sf v \<Longrightarrow> field_matching rx ld sf v = Inr (mt sf v)) \<Longrightarrow>
    fields_matching_or_loop rx ld fs (feed_list (map Some vs)) =
      Inr (\<exists>v \<in> set vs. \<exists>sf \<in> set fs. same_tag sf v \<and> mt sf v)"
  by (induction vs) (auto simp: match_any_is)

end
