(* ===== verification/Specs_Value.thy ===== *)
theory Specs_Value
  imports Specs_Serial
begin

text \<open>
  What a scan asks of values: src/src/cc/include/swcdb/db/Cells/SpecsValue.h with SpecsValue.cc, and
  SpecsValues.h with SpecsValues.cc. A condition on a value is a comparator and bytes; what the
  bytes are depends on the type of the column. The bytes are those of \<open>size\<close>, whoever owns them; the
  matcher the code keeps is made of the bytes and is not state here. Printing is left out.
\<close>

section \<open>Text to a number\<close>

text \<open>
  \<open>strtoll(data, .., 0)\<close> of the C library on bytes without a terminating zero: white space, a sign, the
  base by its prefix, and digits up to the first byte that is none, which has to be read; the
  result is cut to the range. Reading past the bytes is undefined.
\<close>

definition is_space :: "byte \<Rightarrow> bool" where
  "is_space c \<longleftrightarrow> c = 32 \<or> (9 \<le> c \<and> c \<le> 13)"

definition digit_value :: "byte \<Rightarrow> nat" where
  "digit_value c =
     (if 48 \<le> c \<and> c \<le> 57 then unat c - 48
      else if 97 \<le> c \<and> c \<le> 122 then unat c - 87
      else if 65 \<le> c \<and> c \<le> 90 then unat c - 55
      else 36)"

fun strtoll_digits :: "nat \<Rightarrow> int \<Rightarrow> bytes \<Rightarrow> int res" where
  "strtoll_digits base acc [] = Inl Undefined_Behaviour"
| "strtoll_digits base acc (c # cs) =
     (if digit_value c < base then strtoll_digits base (acc * int base + int (digit_value c)) cs
      else Inr acc)"

definition strtoll_unsigned :: "bytes \<Rightarrow> int res" where
  "strtoll_unsigned p =
     (case p of
        [] \<Rightarrow> Inl Undefined_Behaviour
      | c # cs \<Rightarrow>
          if c \<noteq> 48 then strtoll_digits 10 0 p
          else (case cs of
              [] \<Rightarrow> Inl Undefined_Behaviour
            | x # ds \<Rightarrow>
                if x \<noteq> 120 \<and> x \<noteq> 88 then strtoll_digits 8 0 cs
                else (case ds of
                    [] \<Rightarrow> Inl Undefined_Behaviour
                  | d # _ \<Rightarrow> if digit_value d < 16 then strtoll_digits 16 0 ds else Inr 0)))"

definition clamp_i64 :: "int \<Rightarrow> int" where
  "clamp_i64 v = max (- (2 ^ 63)) (min (2 ^ 63 - 1) v)"

definition strtoll :: "bytes \<Rightarrow> i64 res" where
  "strtoll p =
     (case dropWhile is_space p of
        [] \<Rightarrow> Inl Undefined_Behaviour
      | c # cs \<Rightarrow> res_bind
          (if c = 45 then res_bind (strtoll_unsigned cs) (\<lambda>v. Inr (- v))
           else if c = 43 then strtoll_unsigned cs else strtoll_unsigned (c # cs))
          (\<lambda>v. Inr (word_of_int (clamp_i64 v))))"

section \<open>One condition\<close>

record spec_value =
  sv_comp :: byte
  sv_data :: bytes

definition Value_new :: "byte \<Rightarrow> spec_value" where
  "Value_new cp = \<lparr>sv_comp = cp, sv_data = []\<rparr>"

definition sv_set :: "spec_value \<Rightarrow> bytes \<Rightarrow> byte \<Rightarrow> spec_value" where
  "sv_set v data cp = v\<lparr>sv_comp := cp, sv_data := data\<rparr>"

definition sv_set_counter :: "spec_value \<Rightarrow> i64 \<Rightarrow> byte \<Rightarrow> spec_value" where
  "sv_set_counter v n cp = sv_set v (vi64_out n) cp"

definition sv_copy :: "spec_value \<Rightarrow> spec_value \<Rightarrow> spec_value" where
  "sv_copy v other = sv_set v (sv_data other) (sv_comp other)"

text \<open>Moving leaves an empty condition behind.\<close>

definition sv_move :: "spec_value \<Rightarrow> spec_value \<times> spec_value" where
  "sv_move other = (other, Value_new (Comp_code NONE))"

definition sv_free :: "spec_value \<Rightarrow> spec_value" where
  "sv_free v = v\<lparr>sv_data := []\<rparr>"

definition sv_empty :: "spec_value \<Rightarrow> bool" where
  "sv_empty v \<longleftrightarrow> sv_comp v = Comp_code NONE"

definition sv_equal :: "spec_value \<Rightarrow> spec_value \<Rightarrow> bool" where
  "sv_equal v other \<longleftrightarrow> length (sv_data v) = length (sv_data other) \<and>
     mem_eq (sv_data v) (sv_data other) (length (sv_data v))"

definition sv_encoded_length :: "spec_value \<Rightarrow> nat" where
  "sv_encoded_length v = 1 + (if sv_comp v \<noteq> Comp_code NONE
     then encoded_length_vi32 (of_nat (length (sv_data v))) + length (sv_data v) else 0)"

definition sv_encode :: "spec_value \<Rightarrow> bytes" where
  "sv_encode v = encode_i8 (sv_comp v) @ (if sv_comp v \<noteq> Comp_code NONE
     then vi32_out (of_nat (length (sv_data v))) @ sv_data v else [])"

text \<open>The bytes are read through the pointer, their number is taken off afterwards.\<close>

definition Value_read :: "spec_value decoder" where
  "Value_read = dbind decode_i8 (\<lambda>cp.
     if cp = Comp_code NONE then dret \<lparr>sv_comp = cp, sv_data = []\<rparr>
     else dbind decode_vi32 (\<lambda>size. dbind (read_raw (unat size)) (\<lambda>data r.
       Inr (\<lparr>sv_comp = cp, sv_data = data\<rparr>, r\<lparr>remain := remain r - ucast size\<rparr>))))"

definition sv_decode :: "spec_value \<Rightarrow> spec_value decoder" where
  "sv_decode v = dbind decode_i8 (\<lambda>cp.
     let v = (sv_free v)\<lparr>sv_comp := cp\<rparr> in
     if cp \<noteq> Comp_code NONE
     then dbind decode_vi32 (\<lambda>size.
       if size \<noteq> 0
       then dbind (read_raw (unat size)) (\<lambda>data r.
         Inr (v\<lparr>sv_data := data\<rparr>, r\<lparr>remain := remain r - ucast size\<rparr>))
       else dret v)
     else dret v)"

definition is_matching_plain :: "(bytes \<Rightarrow> bytes \<Rightarrow> bool) \<Rightarrow> libs \<Rightarrow> spec_value \<Rightarrow> cell \<Rightarrow> bool res" where
  "is_matching_plain rx lb v c =
     (if sv_empty v then Inr True
      else res_bind (get_value lb c) (\<lambda>(enc, data). Inr
        (if sv_comp v = Comp_code RE then re rx (sv_data v) data
         else matching_bytes rx (sv_comp v) (sv_data v) data)))"

definition is_matching_serial ::
  "(bytes \<Rightarrow> bytes \<Rightarrow> bool) \<Rightarrow> ld \<Rightarrow> libs \<Rightarrow> spec_value \<Rightarrow> cell \<Rightarrow> bool res" where
  "is_matching_serial rx ld lb v c =
     (if sv_empty v then Inr True
      else res_bind (Fields_read (sv_data v)) (\<lambda>fs.
        if sv_comp v = Comp_code EQ then fields_matching rx ld lb fs c
        else if sv_comp v = Comp_code COMP_OR then fields_matching_or rx ld lb fs c
        else Inr (sv_comp v = Comp_code NE)))"

definition is_matching_counter :: "spec_value \<Rightarrow> cell \<Rightarrow> bool res" where
  "is_matching_counter v c =
     (if sv_empty v then Inr True
      else res_bind (strtoll (sv_data v)) (\<lambda>n. res_bind (get_counter c) (\<lambda>m.
        Inr (matching_i64 (sv_comp v) n m))))"

definition value_matching :: "(bytes \<Rightarrow> bytes \<Rightarrow> bool) \<Rightarrow> ld \<Rightarrow> libs \<Rightarrow> column_type \<Rightarrow> spec_value \<Rightarrow> cell \<Rightarrow> bool res" where
  "value_matching rx ld lb typ v c =
     (if typ = Col_PLAIN then is_matching_plain rx lb v c
      else if typ = Col_SERIAL then is_matching_serial rx ld lb v c
      else if is_counter typ then is_matching_counter v c
      else Inr False)"

section \<open>All conditions\<close>

record spec_values =
  svs_values :: "spec_value list"
  svs_type :: column_type

definition Values_new :: "column_type \<Rightarrow> spec_values" where
  "Values_new typ = \<lparr>svs_values = [], svs_type = typ\<rparr>"

definition svs_copy :: "spec_values \<Rightarrow> spec_values \<Rightarrow> spec_values" where
  "svs_copy vs other = vs\<lparr>svs_values := svs_values other, svs_type := svs_type other\<rparr>"

definition svs_add :: "spec_values \<Rightarrow> spec_value \<Rightarrow> spec_values" where
  "svs_add vs v = vs\<lparr>svs_values := svs_values vs @ [v]\<rparr>"

definition svs_equal :: "spec_values \<Rightarrow> spec_values \<Rightarrow> bool" where
  "svs_equal vs other =
     (if svs_type vs = svs_type other \<and> length (svs_values vs) = length (svs_values other)
      then list_all2 sv_equal (svs_values vs) (svs_values other) else True)"

fun all_matching :: "(spec_value \<Rightarrow> cell \<Rightarrow> bool res) \<Rightarrow> spec_value list \<Rightarrow> cell \<Rightarrow> bool res" where
  "all_matching m [] c = Inr True"
| "all_matching m (v # vs) c = res_bind (m v c) (\<lambda>ok. if \<not> ok then Inr False else all_matching m vs c)"

definition values_matching :: "(bytes \<Rightarrow> bytes \<Rightarrow> bool) \<Rightarrow> ld \<Rightarrow> libs \<Rightarrow> spec_values \<Rightarrow> cell \<Rightarrow> bool res" where
  "values_matching rx ld lb vs c =
     (if svs_values vs = [] then Inr True
      else if svs_type vs = Col_PLAIN then all_matching (is_matching_plain rx lb) (svs_values vs) c
      else if svs_type vs = Col_SERIAL then all_matching (is_matching_serial rx ld lb) (svs_values vs) c
      else if is_counter (svs_type vs) then all_matching is_matching_counter (svs_values vs) c
      else Inr False)"

text \<open>Conditions without a comparator are not written.\<close>

definition written :: "spec_values \<Rightarrow> spec_value list" where
  "written vs = filter (\<lambda>v. sv_comp v \<noteq> Comp_code NONE) (svs_values vs)"

definition svs_encoded_length :: "spec_values \<Rightarrow> nat" where
  "svs_encoded_length vs =
     encoded_length_vi64 (of_nat (length (written vs))) + sum_list (map sv_encoded_length (written vs))"

definition svs_encode :: "spec_values \<Rightarrow> bytes" where
  "svs_encode vs = vi64_out (of_nat (length (written vs))) @ concat (map sv_encode (written vs))"

definition svs_decode :: "spec_values \<Rightarrow> spec_values decoder" where
  "svs_decode vs = dbind decode_vi64 (\<lambda>sz. dbind (decode_n (unat sz) Value_read) (\<lambda>xs.
     dret (vs\<lparr>svs_values := xs\<rparr>)))"

text \<open>Reading into new conditions: the type of the column is the first of the enumeration.\<close>

definition Values_read :: "spec_values decoder" where
  "Values_read = svs_decode (Values_new Col_UNKNOWN)"

section \<open>The codec\<close>

definition sv_ok :: "spec_value \<Rightarrow> bool" where
  "sv_ok v \<longleftrightarrow> length (sv_data v) < 2 ^ 32"

definition sv_view :: "spec_value \<Rightarrow> spec_value" where
  "sv_view v = (if sv_comp v = Comp_code NONE then v\<lparr>sv_data := []\<rparr> else v)"

interpretation spec_value_codec: codec_pos sv_encode Value_read sv_encoded_length sv_ok sv_view
proof (intro codec_pos.intro codec_of_decodes codec_pos_axioms.intro)
  fix v
  show "length (sv_encode v) = sv_encoded_length v"
    by (simp add: sv_encode_def sv_encoded_length_def encode_i8_def)
  show "0 < sv_encoded_length v" by (simp add: sv_encoded_length_def)
  assume ok: "sv_ok v"
  show "decodes Value_read (sv_encode v) (sv_view v)"
  proof (cases "sv_comp v = Comp_code NONE")
    case True
    have "decodes Value_read (encode_i8 (sv_comp v) @ []) \<lparr>sv_comp = sv_comp v, sv_data = []\<rparr>"
      unfolding Value_read_def using True by (intro decodes_dbind [OF decodes_i8]) (simp add: decodes_dret)
    moreover have "sv_view v = \<lparr>sv_comp = sv_comp v, sv_data = []\<rparr>" using True by (cases v) (simp add: sv_view_def)
    ultimately show ?thesis using True by (simp add: sv_encode_def)
  next
    case False
    have len: "length (sv_data v) < 2 ^ 32" using ok by (simp add: sv_ok_def)
    have "decodes (\<lambda>r. dbind (read_raw (unat (of_nat (length (sv_data v)) :: u32))) (\<lambda>data r.
        Inr (\<lparr>sv_comp = sv_comp v, sv_data = data\<rparr>, r\<lparr>remain := remain r - ucast (of_nat (length (sv_data v)) :: u32)\<rparr>)) r)
        (sv_data v) \<lparr>sv_comp = sv_comp v, sv_data = sv_data v\<rparr>"
      using len ucast_size64 [OF len] by (intro decodes_text) simp_all
    then have "decodes Value_read (encode_i8 (sv_comp v) @ vi32_out (of_nat (length (sv_data v))) @ sv_data v)
        \<lparr>sv_comp = sv_comp v, sv_data = sv_data v\<rparr>"
      unfolding Value_read_def using False
      by (intro decodes_dbind [OF decodes_i8]) (simp, intro decodes_dbind [OF vi32.decodes_enc [OF TrueI]])
    then show ?thesis using False by (cases v) (simp add: sv_encode_def sv_view_def)
  qed
qed

lemma sv_view_written: "v \<in> set (written vs) \<Longrightarrow> sv_view v = v"
  by (simp add: written_def sv_view_def)

definition svs_ok :: "spec_values \<Rightarrow> bool" where
  "svs_ok vs \<longleftrightarrow> length (svs_values vs) < 2 ^ 64 \<and> list_all sv_ok (svs_values vs)"

definition svs_view :: "spec_values \<Rightarrow> spec_values \<Rightarrow> spec_values" where
  "svs_view into vs = into\<lparr>svs_values := written vs\<rparr>"

interpretation spec_values_codec: codec_pos svs_encode "svs_decode into" svs_encoded_length svs_ok "svs_view into" for into
proof (intro codec_pos.intro codec_of_decodes codec_pos_axioms.intro)
  fix vs assume ok: "svs_ok vs"
  then have oks: "\<And>v. v \<in> set (written vs) \<Longrightarrow> sv_ok v"
    by (simp add: svs_ok_def list_all_iff written_def)
  have "length (concat (map sv_encode (written vs))) = sum_list (map sv_encoded_length (written vs))"
    using oks by (induction "written vs") (simp_all add: length_concat comp_def spec_value_codec.enc_len cong: map_cong)
  then show "length (svs_encode vs) = svs_encoded_length vs"
    by (simp add: svs_encode_def svs_encoded_length_def)
  show "0 < svs_encoded_length vs" by (simp add: svs_encoded_length_def encoded_length_vi64_def)
  have "length (written vs) \<le> length (svs_values vs)" by (simp add: written_def)
  then have n: "unat (of_nat (length (written vs)) :: u64) = length (written vs)"
    using ok by (intro unat_of_nat64) (simp add: svs_ok_def)
  have "map sv_view (written vs) = written vs" using sv_view_written by (simp add: map_idI)
  then have "decodes (decode_n (length (written vs)) Value_read) (concat (map sv_encode (written vs))) (written vs)"
    using decodes_decode_n [of "written vs" Value_read sv_encode sv_view] spec_value_codec.decodes_enc [OF oks] by simp
  then show "decodes (svs_decode into) (svs_encode vs) (svs_view into vs)"
    unfolding svs_decode_def svs_encode_def svs_view_def
    by (intro decodes_dbind [OF vi64.decodes_enc [OF TrueI]])
      (simp add: n, intro decodes_dbind_dret [where g = "\<lambda>xs. into\<lparr>svs_values := xs\<rparr>"])
qed


section \<open>Properties\<close>

text \<open>C37: A serial column: on a value that is an encoding of fields with no type and number twice, a
  condition with the encoding of fields is, for \<open>EQ\<close>, that the value has for every field of the
  condition one of the same type and number that matches it; for \<open>OR\<close>, that there is such a field
  for one of them; an empty value has none.\<close>

theorem serial_conditions:
  assumes "list_all spec_field_ok fs" and "length (fields_encode fs) < 2 ^ 64"
    and "list_all field_ok vs" and "length (concat (map field_encode vs)) < 2 ^ 64"
    and "distinct (map tag vs)"
    and "get_value lb c = Inr (enc, concat (map field_encode vs))"
    and "\<forall>sf \<in> set fs. \<forall>v \<in> set vs. same_tag sf v \<longrightarrow>
      field_matching rx ld sf (field_view False v) = Inr (mt sf v)"
  shows "is_matching_serial rx ld lb \<lparr>sv_comp = Comp_code EQ, sv_data = fields_encode fs\<rparr> c =
      Inr (vs \<noteq> [] \<and> (\<forall>sf \<in> set fs. \<exists>v \<in> set vs. same_tag sf v \<and> mt sf v)) \<and>
    is_matching_serial rx ld lb \<lparr>sv_comp = Comp_code COMP_OR, sv_data = fields_encode fs\<rparr> c =
      Inr (\<exists>sf \<in> set fs. \<exists>v \<in> set vs. same_tag sf v \<and> mt sf v)"
proof -
  let ?vs = "map (field_view False) vs"
  define mv where "mv sf w = (\<exists>v. w = field_view False v \<and> mt sf v \<and> v \<in> set vs)" for sf w
  have tag_view: "tag (field_view False v) = tag v" for v by (cases v) (simp_all add: tag_def)
  then have same_view: "same_tag sf (field_view False v) \<longleftrightarrow> same_tag sf v" for sf v
    by (auto simp: same_tag_def tag_def)
  have inj: "v = w" if "v \<in> set vs" "w \<in> set vs" "field_view False v = field_view False w" for v w
  proof -
    have "tag v = tag w" using that(3) tag_view by metis
    then show ?thesis using that assms(5) by (auto simp: distinct_map inj_on_def)
  qed
  have fm: "field_matching rx ld sf w = Inr (mv sf w)"
    if sf: "sf \<in> set fs" and w: "w \<in> set ?vs" and same: "same_tag sf w" for sf w
  proof -
    obtain v where v: "v \<in> set vs" "w = field_view False v" using w by auto
    then have "mv sf w \<longleftrightarrow> mt sf v" using inj by (auto simp: mv_def)
    then show ?thesis using assms(7) sf same v same_view by auto
  qed
  have mv_mt: "same_tag sf (field_view False v) \<and> mv sf (field_view False v) \<longleftrightarrow> same_tag sf v \<and> mt sf v"
    if "v \<in> set vs" for sf v using that inj same_view by (auto simp: mv_def)
  have feed: "feed_of (read_field False) (concat (map field_encode vs)) = feed_list (map Some ?vs)"
    using field_codec.feed_of_concat [of vs False] assms(3,4) by (simp add: list_all_iff comp_def)
  have spec: "Fields_read (fields_encode fs) = Inr fs" by (rule Fields_read_encode [OF assms(1,2)])
  have nil: "concat (map field_encode vs) = [] \<longleftrightarrow> vs = []"
    using field_codec.len_pos field_codec.enc_len assms(3) by (cases vs) (auto, force)
  have "distinct (map tag ?vs)" using assms(5) by (simp add: comp_def tag_view)
  then have "fields_matching_loop rx ld (map Some fs) (feed_list (map Some ?vs)) =
      Inr (?vs \<noteq> [] \<and> (\<forall>sf. Some sf \<in> set (map Some fs) \<longrightarrow> (\<exists>v \<in> set ?vs. same_tag sf v \<and> mv sf v)))"
    by (intro fields_matching_loop_is) (auto simp: fm)
  also have "\<dots> = Inr (vs \<noteq> [] \<and> (\<forall>sf \<in> set fs. \<exists>v \<in> set vs. same_tag sf v \<and> mt sf v))"
    using mv_mt by auto
  finally have 1: "fields_matching rx ld lb fs c = Inr (vs \<noteq> [] \<and> (\<forall>sf \<in> set fs. \<exists>v \<in> set vs. same_tag sf v \<and> mt sf v))"
    using assms(6) feed nil by (auto simp: fields_matching_def)
  have "fields_matching_or_loop rx ld fs (feed_list (map Some ?vs)) =
      Inr (\<exists>v \<in> set ?vs. \<exists>sf \<in> set fs. same_tag sf v \<and> mv sf v)"
    by (intro fields_matching_or_loop_is) (auto simp: fm)
  also have "\<dots> = Inr (\<exists>sf \<in> set fs. \<exists>v \<in> set vs. same_tag sf v \<and> mt sf v)" using mv_mt by auto
  finally have 2: "fields_matching_or rx ld lb fs c = Inr (\<exists>sf \<in> set fs. \<exists>v \<in> set vs. same_tag sf v \<and> mt sf v)"
    using assms(6) feed nil by (auto simp: fields_matching_or_def)
  show ?thesis using 1 2 spec
    by (simp add: is_matching_serial_def sv_empty_def Comp_code_inject del: Comp_code.simps)
qed

theorem serial_conditions_witness:
  "\<forall>ld lb. \<exists>c. is_matching_serial (\<lambda>_ _. False) ld lb
     \<lparr>sv_comp = Comp_code EQ, sv_data = fields_encode [SF_INT64 0 (Comp_code EQ) 5]\<rparr> c = Inr True"
proof (intro allI)
  fix ld lb
  let ?f = "Field_INT64 0 5" and ?sf = "SF_INT64 0 (Comp_code EQ) 5"
  define bs where "bs = concat (map field_encode [?f])"
  define c where "c = Cell_new\<lparr>c_vlen := of_nat (length bs), c_value := bs\<rparr>"
  have len: "length bs < 2 ^ 32" "length (fields_encode [?sf]) < 2 ^ 64"
    using encoded_length_vi64_le [of 5] encoded_length_vi24_range(2) [of 0]
    by (simp_all add: bs_def fields_encode_def field_head_def encode_i8_def del: Comp_code.simps)
  have "get_value lb c = Inr (0, concat (map field_encode [?f]))"
    using len(1) unfolding bs_def [symmetric]
    by (simp add: get_value_def c_def have_encoder_def Cell_new_def has_bit_def)
  from serial_conditions [OF _ len(2) _ _ _ this, of "\<lambda>_ _. False" ld "\<lambda>_ _. True"]
  have "is_matching_serial (\<lambda>_ _. False) ld lb \<lparr>sv_comp = Comp_code EQ, sv_data = fields_encode [?sf]\<rparr> c = Inr True"
    using len(1)
    by (simp add: spec_field_ok_def field_ok_def bs_def matching_i64_def eq_i64_def same_tag_def del: Comp_code.simps)
  then show "\<exists>c. is_matching_serial (\<lambda>_ _. False) ld lb \<lparr>sv_comp = Comp_code EQ, sv_data = fields_encode [?sf]\<rparr> c = Inr True"
    by blast
qed

lemma strtoll_digits_past: "list_all (\<lambda>c. digit_value c < base) p \<Longrightarrow> strtoll_digits base acc p = Inl Undefined_Behaviour"
  by (induction p arbitrary: acc) auto

text \<open>Conditions on counters: a condition that is the decimal text of a number is read past its
  end by \<open>strtoll\<close>, as nothing ends it; and one that \<open>set_counter\<close> made is the encoding of a number but is
  read as text, so that the condition to be equal to 5 accepts a counter of 0 and refuses one of 5.\<close>

lemma counter_conditions_misread:
  assumes "list_all (\<lambda>d. 49 \<le> d \<and> d \<le> 57) ds"
  shows "is_matching_counter \<lparr>sv_comp = Comp_code EQ, sv_data = ds\<rparr> c = Inl Undefined_Behaviour \<and>
    (get_counter c = Inr n \<longrightarrow>
      is_matching_counter (sv_set_counter (Value_new 0) 5 (Comp_code EQ)) c = Inr (n = 0))"
proof -
  have d: "\<not> is_space c \<and> c \<noteq> 45 \<and> c \<noteq> 43 \<and> c \<noteq> 48 \<and> digit_value c < 10" if "49 \<le> c \<and> c \<le> 57" for c :: byte
  proof -
    have u: "49 \<le> unat c" "unat c \<le> 57" using that by (simp_all add: word_le_nat_alt)
    then have "c \<noteq> 45" "c \<noteq> 43" "c \<noteq> 48" "c \<noteq> 32" by auto
    then show ?thesis using u by (auto simp: is_space_def digit_value_def word_le_nat_alt)
  qed
  have "strtoll ds = Inl Undefined_Behaviour"
  proof (cases ds)
    case (Cons x xs)
    then have x: "49 \<le> x \<and> x \<le> 57" and all: "list_all (\<lambda>c. digit_value c < 10) ds"
      using assms d by (auto simp: list_all_iff)
    have "dropWhile is_space ds = ds" using d [OF x] Cons by simp
    moreover have "strtoll_unsigned ds = Inl Undefined_Behaviour"
      using strtoll_digits_past [OF all, of 0] d [OF x] by (simp add: strtoll_unsigned_def Cons)
    ultimately show ?thesis using d [OF x] Cons by (simp add: strtoll_def)
  qed (simp add: strtoll_def)
  moreover have "strtoll (vi64_out 5) = Inr 0"
  proof -
    have "vi64_out 5 = [5]" by code_simp
    then show ?thesis by (simp add: strtoll_def strtoll_unsigned_def is_space_def digit_value_def clamp_i64_def)
  qed
  ultimately show ?thesis
    by (simp add: is_matching_counter_def sv_empty_def sv_set_counter_def sv_set_def matching_i64_def
        eq_i64_def Comp_code_inject eq_commute [of 0] del: Comp_code.simps)
qed

lemma counter_conditions_misread_witness:
  "is_matching_counter \<lparr>sv_comp = Comp_code EQ, sv_data = [53]\<rparr> Cell_new = Inl Undefined_Behaviour"
proof -
  have "list_all (\<lambda>d. 49 \<le> d \<and> d \<le> 57) [53 :: byte]" by simp
  from counter_conditions_misread [OF this, of Cell_new 0] show ?thesis by blast
qed

end
