(* ===== verification/Specs_Interval.thy ===== *)
theory Specs_Interval
  imports Specs_Value
begin

text \<open>
  What a scan asks of cells: src/src/cc/include/swcdb/db/Cells/SpecsInterval.h with
  SpecsInterval.cc, and the updates a scan may carry, SpecsUpdateOp.h and SpecsIntervalUpdate.h. A
  scan has a range of keys, conditions on keys, values and times, a cell to go on behind and
  options. Moving is copying here, and printing and memory sizes are left out.
\<close>

section \<open>Updates\<close>

definition OP_REPLACE :: byte where "OP_REPLACE = 0x00"
definition OP_APPEND :: byte where "OP_APPEND = 0x01"
definition OP_PREPEND :: byte where "OP_PREPEND = 0x02"
definition OP_INSERT :: byte where "OP_INSERT = 0x03"
definition OP_OVERWRITE :: byte where "OP_OVERWRITE = 0x04"
definition OP_SERIAL :: byte where "OP_SERIAL = 0x05"

record update_op =
  uo_op :: byte
  uo_pos :: u32

definition UpdateOP_new :: update_op where
  "UpdateOP_new = \<lparr>uo_op = OP_REPLACE, uo_pos = 0\<rparr>"

definition op_has_pos :: "byte \<Rightarrow> bool" where
  "op_has_pos x \<longleftrightarrow> x = OP_INSERT \<or> x = OP_OVERWRITE"

definition UpdateOP_read :: "update_op decoder" where
  "UpdateOP_read = dbind decode_i8 (\<lambda>x.
     if op_has_pos x then dbind decode_vi32 (\<lambda>pos. dret \<lparr>uo_op = x, uo_pos = pos\<rparr>)
     else dret \<lparr>uo_op = x, uo_pos = 0\<rparr>)"

definition uo_encoded_length :: "update_op \<Rightarrow> nat" where
  "uo_encoded_length u = 1 + (if op_has_pos (uo_op u) then encoded_length_vi32 (uo_pos u) else 0)"

definition uo_encode :: "update_op \<Rightarrow> bytes" where
  "uo_encode u = encode_i8 (uo_op u) @ (if op_has_pos (uo_op u) then vi32_out (uo_pos u) else [])"

definition uo_equal :: "update_op \<Rightarrow> update_op \<Rightarrow> bool" where
  "uo_equal u other \<longleftrightarrow> uo_op u = uo_op other \<and> uo_pos u = uo_pos other"

record interval_update =
  iu_operation :: update_op
  iu_encoder :: byte
  iu_timestamp :: i64
  iu_value :: bytes

definition IntervalUpdate_new :: "byte \<Rightarrow> i64 \<Rightarrow> interval_update" where
  "IntervalUpdate_new enc ts =
     \<lparr>iu_operation = UpdateOP_new, iu_encoder = enc, iu_timestamp = ts, iu_value = []\<rparr>"

text \<open>The length is kept in 32 bits.\<close>

definition IntervalUpdate_read :: "interval_update decoder" where
  "IntervalUpdate_read = dbind UpdateOP_read (\<lambda>u. dbind decode_i8 (\<lambda>enc. dbind decode_vi64 (\<lambda>ts.
     dbind decode_bytes (\<lambda>b. dret \<lparr>iu_operation = u, iu_encoder = enc, iu_timestamp = ts,
       iu_value = take (unat (of_nat (length b) :: u32)) b\<rparr>))))"

definition IntervalUpdate_of_cell :: "libs \<Rightarrow> cell \<Rightarrow> interval_update res" where
  "IntervalUpdate_of_cell lb c = res_bind (get_value lb c) (\<lambda>(enc, v).
     Inr \<lparr>iu_operation = UpdateOP_new, iu_encoder = enc, iu_timestamp = c_timestamp c, iu_value = v\<rparr>)"

definition iu_free :: "interval_update \<Rightarrow> interval_update" where
  "iu_free u = u\<lparr>iu_value := []\<rparr>"

definition iu_set :: "interval_update \<Rightarrow> byte \<Rightarrow> bytes \<Rightarrow> i64 \<Rightarrow> interval_update" where
  "iu_set u enc v ts = u\<lparr>iu_operation := UpdateOP_new, iu_encoder := enc, iu_timestamp := ts, iu_value := v\<rparr>"

definition iu_set_op :: "interval_update \<Rightarrow> update_op \<Rightarrow> interval_update" where
  "iu_set_op u x = u\<lparr>iu_operation := x\<rparr>"

definition iu_equal :: "interval_update \<Rightarrow> interval_update \<Rightarrow> bool" where
  "iu_equal u other \<longleftrightarrow> iu_encoder u = iu_encoder other \<and> iu_timestamp u = iu_timestamp other \<and>
     length (iu_value u) = length (iu_value other) \<and> uo_equal (iu_operation u) (iu_operation other) \<and>
     mem_eq (iu_value u) (iu_value other) (length (iu_value u))"

definition iu_encoded_length :: "interval_update \<Rightarrow> nat" where
  "iu_encoded_length u = uo_encoded_length (iu_operation u) + 1 + encoded_length_vi64 (iu_timestamp u) +
     unat (encoded_length_bytes (of_nat (length (iu_value u))))"

definition iu_encode :: "interval_update \<Rightarrow> bytes" where
  "iu_encode u = uo_encode (iu_operation u) @ encode_i8 (iu_encoder u) @ vi64_out (iu_timestamp u) @
     bytes_out (iu_value u)"

section \<open>The specification of a scan\<close>

abbreviation "OPT_KEY_EQUAL \<equiv> (0x01 :: byte)"
abbreviation "OPT_RANGE_END_REST \<equiv> (0x02 :: byte)"
abbreviation "OPT_UPDATING \<equiv> (0x04 :: byte)"
abbreviation "OPT_DELETING \<equiv> (0x08 :: byte)"

record scan_interval =
  si_begin :: key
  si_end :: key
  si_keys :: "key_interval list"
  si_values :: spec_values
  si_ts_start :: timestamp
  si_ts_finish :: timestamp
  si_flags :: flags
  si_offset_key :: key
  si_offset_rev :: i64
  si_options :: byte
  si_updating :: "interval_update option"

definition Scan_new :: "column_type \<Rightarrow> scan_interval" where
  "Scan_new typ = \<lparr>si_begin = Key_new, si_end = Key_new, si_keys = [], si_values = Values_new typ,
     si_ts_start = Timestamp_new, si_ts_finish = Timestamp_new, si_flags = Flags_new,
     si_offset_key = Key_new, si_offset_rev = 0, si_options = 0, si_updating = None\<rparr>"

definition Scan_range :: "key \<Rightarrow> key \<Rightarrow> scan_interval" where
  "Scan_range b e = (Scan_new Col_UNKNOWN)\<lparr>si_begin := key_copy b, si_end := key_copy e\<rparr>"

definition has_opt :: "byte \<Rightarrow> scan_interval \<Rightarrow> bool" where
  "has_opt x si \<longleftrightarrow> si_options si AND x \<noteq> 0"

definition set_opt :: "byte \<Rightarrow> scan_interval \<Rightarrow> scan_interval" where
  "set_opt x si = si\<lparr>si_options := si_options si OR x\<rparr>"

text \<open>Reading an update clears the flag for deletes only.\<close>

definition scan_read_update :: "scan_interval \<Rightarrow> scan_interval decoder" where
  "scan_read_update si = (if has_opt OPT_UPDATING si
     then dbind IntervalUpdate_read (\<lambda>u.
       dret (si\<lparr>si_updating := Some u, si_flags := clear_only_deletes (si_flags si)\<rparr>))
     else dret (si\<lparr>si_updating := None\<rparr>))"

definition Scan_read :: "scan_interval decoder" where
  "Scan_read = dbind (key_decode True) (\<lambda>b. dbind (key_decode True) (\<lambda>e. dbind kis_decode (\<lambda>ks.
     dbind Values_read (\<lambda>vs. dbind Timestamp_read (\<lambda>t1. dbind Timestamp_read (\<lambda>t2. dbind Flags_read (\<lambda>f.
     dbind (key_decode True) (\<lambda>k. dbind decode_vi64 (\<lambda>rv. dbind decode_i8 (\<lambda>opt.
       scan_read_update \<lparr>si_begin = b, si_end = e, si_keys = ks, si_values = vs, si_ts_start = t1,
         si_ts_finish = t2, si_flags = f, si_offset_key = k, si_offset_rev = rv, si_options = opt,
         si_updating = None\<rparr>))))))))))"

definition Scan_copy :: "scan_interval \<Rightarrow> scan_interval" where
  "Scan_copy other = other\<lparr>si_begin := key_copy (si_begin other), si_end := key_copy (si_end other),
     si_offset_key := key_copy (si_offset_key other)\<rparr>"

definition scan_copy :: "scan_interval \<Rightarrow> scan_interval \<Rightarrow> scan_interval" where
  "scan_copy si other = \<lparr>si_begin = key_copy (si_begin other), si_end = key_copy (si_end other),
     si_keys = si_keys other, si_values = svs_copy (si_values si) (si_values other),
     si_ts_start = timestamp_copy (si_ts_start si) (si_ts_start other),
     si_ts_finish = timestamp_copy (si_ts_finish si) (si_ts_finish other),
     si_flags = flags_copy (si_flags si) (si_flags other),
     si_offset_key = key_copy (si_offset_key other), si_offset_rev = si_offset_rev other,
     si_options = si_options other, si_updating = si_updating other\<rparr>"

text \<open>Times, flags, the revision to go on behind and options stay.\<close>

definition scan_free :: "scan_interval \<Rightarrow> scan_interval" where
  "scan_free si = si\<lparr>si_begin := key_free (si_begin si), si_end := key_free (si_end si), si_keys := [],
     si_values := (si_values si)\<lparr>svs_values := []\<rparr>, si_offset_key := key_free (si_offset_key si),
     si_updating := None\<rparr>"

definition is_updating :: "scan_interval \<Rightarrow> bool" where
  "is_updating si \<longleftrightarrow> si_updating si \<noteq> None"

definition scan_equal :: "scan_interval \<Rightarrow> scan_interval \<Rightarrow> bool" where
  "scan_equal si other \<longleftrightarrow> timestamp_equal (si_ts_start si) (si_ts_start other) \<and>
     timestamp_equal (si_ts_finish si) (si_ts_finish other) \<and> flags_equal (si_flags si) (si_flags other) \<and>
     si_options si = si_options other \<and> key_equal (si_begin si) (si_begin other) \<and>
     key_equal (si_end si) (si_end other) \<and> kis_equal (si_keys si) (si_keys other) \<and>
     svs_equal (si_values si) (si_values other) \<and> key_equal (si_offset_key si) (si_offset_key other) \<and>
     si_offset_rev si = si_offset_rev other \<and>
     (case (si_updating si, si_updating other) of
        (None, None) \<Rightarrow> True | (Some u, Some v) \<Rightarrow> iu_equal u v | _ \<Rightarrow> False)"

definition scan_encoded_length :: "scan_interval \<Rightarrow> nat" where
  "scan_encoded_length si = unat (key_encoded_length (si_begin si)) + unat (key_encoded_length (si_end si)) +
     kis_encoded_length (si_keys si) + svs_encoded_length (si_values si) +
     timestamp_encoded_length (si_ts_start si) + timestamp_encoded_length (si_ts_finish si) +
     flags_encoded_length (si_flags si) + unat (key_encoded_length (si_offset_key si)) +
     encoded_length_vi64 (si_offset_rev si) + 1 +
     (case si_updating si of None \<Rightarrow> 0 | Some u \<Rightarrow> iu_encoded_length u)"

definition scan_encode :: "scan_interval \<Rightarrow> bytes" where
  "scan_encode si = key_encode (si_begin si) @ key_encode (si_end si) @ kis_encode (si_keys si) @
     svs_encode (si_values si) @ timestamp_encode (si_ts_start si) @ timestamp_encode (si_ts_finish si) @
     flags_encode (si_flags si) @ key_encode (si_offset_key si) @ vi64_out (si_offset_rev si) @
     (case si_updating si of
        None \<Rightarrow> encode_i8 (si_options si)
      | Some u \<Rightarrow> encode_i8 (si_options si OR OPT_UPDATING) @ iu_encode u)"

definition scan_decode :: "scan_interval \<Rightarrow> bool \<Rightarrow> scan_interval decoder" where
  "scan_decode si owner = dbind (key_decode owner) (\<lambda>b. dbind (key_decode owner) (\<lambda>e. dbind kis_decode (\<lambda>ks.
     dbind (svs_decode (si_values si)) (\<lambda>vs. dbind (timestamp_decode (si_ts_start si)) (\<lambda>t1.
     dbind (timestamp_decode (si_ts_finish si)) (\<lambda>t2. dbind (flags_decode (si_flags si)) (\<lambda>f.
     dbind (key_decode owner) (\<lambda>k. dbind decode_vi64 (\<lambda>rv. dbind decode_i8 (\<lambda>opt.
       scan_read_update \<lparr>si_begin = b, si_end = e, si_keys = ks, si_values = vs, si_ts_start = t1,
         si_ts_finish = t2, si_flags = f, si_offset_key = k, si_offset_rev = rv, si_options = opt,
         si_updating = si_updating si\<rparr>))))))))))"

section \<open>Matching\<close>

text \<open>Going on behind a cell: by its revision for the same key.\<close>

definition matching_rev :: "scan_interval \<Rightarrow> i64 \<Rightarrow> bool \<Rightarrow> bool" where
  "matching_rev si ts desc \<longleftrightarrow>
     (if desc then sint (si_offset_rev si) > sint ts else sint (si_offset_rev si) < sint ts)"

definition matching_offset :: "KeySeq \<Rightarrow> scan_interval \<Rightarrow> key \<Rightarrow> i64 \<Rightarrow> bool \<Rightarrow> bool res" where
  "matching_offset s si k ts desc =
     (if key_empty (si_offset_key si) then Inr True
      else res_bind (key_compare s (si_offset_key si) k) (\<lambda>cp. Inr
        (if cp = LT then False else if cp = EQ then matching_rev si ts desc else True)))"

definition is_matching_begin :: "KeySeq \<Rightarrow> scan_interval \<Rightarrow> key \<Rightarrow> bool res" where
  "is_matching_begin s si k =
     (if key_empty (si_begin si) then Inr True
      else case s of
        LEXIC \<Rightarrow> res_bind (compare_opt_lexic (si_begin si) k (key_count (si_begin si)) True) (\<lambda>cp. Inr (cp \<noteq> LT))
      | VOLUME \<Rightarrow> res_bind (compare_opt_volume (si_begin si) k (key_count (si_begin si)) True) (\<lambda>cp. Inr (cp \<noteq> LT))
      | FC_LEXIC \<Rightarrow> res_bind (compare_opt_fc_lexic (si_begin si) k (key_count k) True) (\<lambda>cp. Inr (cp \<noteq> LT))
      | FC_VOLUME \<Rightarrow> res_bind (compare_opt_fc_volume (si_begin si) k (key_count k) True) (\<lambda>cp. Inr (cp \<noteq> LT))
      | UNKNOWN \<Rightarrow> Inr True)"

definition end_count :: "scan_interval \<Rightarrow> key \<Rightarrow> u24" where
  "end_count si k = (if has_opt OPT_RANGE_END_REST si \<and> \<not> has_opt OPT_KEY_EQUAL si
     then key_count (si_end si) else key_count k)"

definition end_by_count :: "scan_interval \<Rightarrow> key \<Rightarrow> bool" where
  "end_by_count si k = (if has_opt OPT_KEY_EQUAL si then key_count k < key_count (si_end si)
     else has_opt OPT_RANGE_END_REST si)"

definition is_matching_end :: "KeySeq \<Rightarrow> scan_interval \<Rightarrow> key \<Rightarrow> bool res" where
  "is_matching_end s si k =
     (if key_empty (si_end si) then Inr True
      else case s of
        LEXIC \<Rightarrow> res_bind (compare_opt_lexic (si_end si) k (end_count si k) True) (\<lambda>cp. Inr (cp \<noteq> GT))
      | VOLUME \<Rightarrow> res_bind (compare_opt_volume (si_end si) k (end_count si k) True) (\<lambda>cp. Inr (cp \<noteq> GT))
      | FC_LEXIC \<Rightarrow> if end_by_count si k then Inr True
          else res_bind (compare_opt_fc_lexic (si_end si) k (end_count si k) True) (\<lambda>cp. Inr (cp \<noteq> GT))
      | FC_VOLUME \<Rightarrow> if end_by_count si k then Inr True
          else res_bind (compare_opt_fc_volume (si_end si) k (end_count si k) True) (\<lambda>cp. Inr (cp \<noteq> GT))
      | UNKNOWN \<Rightarrow> Inr True)"

text \<open>Whether cells behind \<open>prev\<close> may still be wanted.\<close>

definition is_in_previous :: "KeySeq \<Rightarrow> scan_interval \<Rightarrow> key \<Rightarrow> bool res" where
  "is_in_previous s si prev =
     (let e = si_end si;
          rest = has_opt OPT_RANGE_END_REST si;
          n = (if rest then key_count e else key_count prev);
          m = (if has_opt OPT_KEY_EQUAL si then key_count e else key_count prev)
      in if key_empty e then Inr True
      else case s of
        LEXIC \<Rightarrow> res_bind (compare_opt_lexic e prev n True) (\<lambda>cp. Inr (cp \<noteq> GT))
      | VOLUME \<Rightarrow> res_bind (compare_opt_volume e prev n True) (\<lambda>cp. Inr (cp \<noteq> GT))
      | FC_LEXIC \<Rightarrow>
          if rest then (if key_count prev \<ge> key_count e then Inr True
            else res_bind (compare_opt_lexic e prev (key_count e) True) (\<lambda>cp. Inr (cp \<noteq> GT)))
          else res_bind (compare_opt_fc_lexic e prev m True) (\<lambda>cp. Inr (cp \<noteq> GT))
      | FC_VOLUME \<Rightarrow>
          if rest then (if key_count prev \<ge> key_count e then Inr True
            else res_bind (compare_opt_volume e prev (key_count e) True) (\<lambda>cp. Inr (cp \<noteq> GT)))
          else res_bind (compare_opt_fc_volume e prev m True) (\<lambda>cp. Inr (cp \<noteq> GT))
      | UNKNOWN \<Rightarrow> Inr True)"

text \<open>A cell against all of it, in the order of the code; \<open>stop\<close> is set only by the end of the range.\<close>

definition scan_matching :: "(bytes \<Rightarrow> bytes \<Rightarrow> bool) \<Rightarrow> ld \<Rightarrow> libs \<Rightarrow> KeySeq \<Rightarrow> scan_interval \<Rightarrow> cell \<Rightarrow>
    bool \<Rightarrow> (bool \<times> bool) res" where
  "scan_matching rx ld lb s si c stop =
     res_bind (matching_offset s si (c_key c) (c_timestamp c) (is_time_order_desc c)) (\<lambda>ok.
       if \<not> ok \<or> \<not> timestamp_matching (si_ts_start si) (c_timestamp c) \<or>
          \<not> timestamp_matching (si_ts_finish si) (c_timestamp c) then Inr (False, stop)
       else res_bind (is_matching_begin s si (c_key c)) (\<lambda>ok. if \<not> ok then Inr (False, stop)
       else res_bind (is_matching_end s si (c_key c)) (\<lambda>ok. if \<not> ok then Inr (False, True)
       else res_bind (kis_matching rx s (si_keys si) (c_key c)) (\<lambda>ok. if \<not> ok then Inr (False, False)
       else res_bind (values_matching rx ld lb (si_values si) c) (\<lambda>ok. Inr (ok, False))))))"

section \<open>A range of keys out of conditions\<close>

text \<open>Whether the text of a fraction with a comparator bounds the keys at the wanted end.\<close>

definition bounds_key :: "bool \<Rightarrow> byte \<Rightarrow> bool" where
  "bounds_key ending cp =
     (case code_comp cp of
        Some EQ \<Rightarrow> True
      | Some LE \<Rightarrow> ending | Some LT \<Rightarrow> ending
      | Some PF \<Rightarrow> \<not> ending | Some GT \<Rightarrow> \<not> ending | Some GE \<Rightarrow> \<not> ending
      | Some FIP \<Rightarrow> \<not> ending | Some FI \<Rightarrow> \<not> ending
      | _ \<Rightarrow> False)"

text \<open>A key specification gives its texts to the positions that have none; \<open>found\<close> tells that one has got
  a text. The positions are as many as the longest specification has fractions.\<close>

fun fill_key :: "bool \<Rightarrow> spec_key \<Rightarrow> bytes list \<Rightarrow> bool \<Rightarrow> bytes list \<times> bool" where
  "fill_key ending (f # fs) (r # rs) found =
     (if r \<noteq> [] \<or> sf_text f = [] \<or> \<not> bounds_key ending (sf_comp f)
      then (let (rs, found) = fill_key ending fs rs found in (r # rs, found))
      else (let (rs, found) = fill_key ending fs rs True in (sf_text f # rs, found)))"
| "fill_key ending fs rs found = (rs, found)"

definition fill_range :: "bool \<Rightarrow> bool \<Rightarrow> key_interval list \<Rightarrow> bytes list \<times> bool \<Rightarrow> bytes list \<times> bool" where
  "fill_range ending initial is =
     fold (\<lambda>i (rs, found). fill_key ending (if ending = initial then ki_finish i else ki_start i) rs found) is"

definition range_size :: "key_interval list \<Rightarrow> nat" where
  "range_size is = fold (\<lambda>i sz. max (max sz (length (ki_start i))) (length (ki_finish i))) is 0"

text \<open>The fractions that are added: without stepping those before the first without text, else all up to the
  last one with text, and one more empty one for an end that is not followed by a rest.\<close>

definition last_filled :: "bytes list \<Rightarrow> nat" where
  "last_filled rs = length (dropWhile (\<lambda>r. r = []) (rev rs))"

definition possible_range :: "key_interval list \<Rightarrow> bool \<Rightarrow> bool \<Rightarrow> bool \<Rightarrow> bytes list" where
  "possible_range is ending rest no_stepping =
     (let rs = replicate (range_size is + (if ending \<and> \<not> rest then 1 else 0)) [];
          (rs, found) = fill_range ending False is (fill_range ending True is (rs, False))
      in if \<not> found then []
         else if no_stepping then takeWhile (\<lambda>r. r \<noteq> []) rs
         else take (last_filled rs + (if ending \<and> \<not> rest then 1 else 0)) rs)"

definition apply_possible_range :: "scan_interval \<Rightarrow> key \<Rightarrow> bool \<Rightarrow> bool \<Rightarrow> bool \<Rightarrow> key res" where
  "apply_possible_range si k ending rest no_stepping =
     key_add_all k (possible_range (si_keys si) ending rest no_stepping)"

definition apply_possible_range_pure :: "scan_interval \<Rightarrow> scan_interval res" where
  "apply_possible_range_pure si =
     (if si_keys si = [] then Inr si
      else res_bind (if key_empty (si_begin si)
          then res_bind (apply_possible_range si (si_begin si) False False True) (\<lambda>k. Inr (si\<lparr>si_begin := k\<rparr>))
          else Inr si) (\<lambda>si.
        if key_empty (si_end si)
        then res_bind (apply_possible_range si (si_end si) True True True) (\<lambda>k.
          let si = si\<lparr>si_end := k\<rparr>
          in Inr (if \<not> key_empty (si_end si) \<and> \<not> has_opt OPT_KEY_EQUAL si then set_opt OPT_RANGE_END_REST si else si))
        else Inr si))"

text \<open>Into keys of the caller; \<open>same\<close> tells that the key is the one of the range itself.\<close>

definition apply_possible_range_begin :: "scan_interval \<Rightarrow> bool \<Rightarrow> key \<Rightarrow> key res" where
  "apply_possible_range_begin si same k =
     (if \<not> key_empty (si_offset_key si) then Inr (key_copy (si_offset_key si))
      else if \<not> key_empty (si_begin si) then Inr (if same then k else key_copy (si_begin si))
      else if si_keys si \<noteq> [] then apply_possible_range si (key_free k) False False False
      else Inr k)"

text \<open>The flag of the caller, when there is one, is set when the end comes from conditions.\<close>

definition apply_possible_range_end :: "scan_interval \<Rightarrow> bool \<Rightarrow> key \<Rightarrow> bool option \<Rightarrow> (key \<times> bool option) res" where
  "apply_possible_range_end si same k restp =
     (if \<not> key_empty (si_end si) then Inr (if same then k else key_copy (si_end si), restp)
      else if si_keys si \<noteq> []
      then res_bind (apply_possible_range si (key_free k) True (restp \<noteq> None) False) (\<lambda>k.
        Inr (k, if restp \<noteq> None \<and> \<not> key_empty k then Some True else restp))
      else Inr (k, restp))"

section \<open>The codecs\<close>

definition uo_view :: "update_op \<Rightarrow> update_op" where
  "uo_view u = (if op_has_pos (uo_op u) then u else u\<lparr>uo_pos := 0\<rparr>)"

interpretation update_op_codec: codec_pos uo_encode UpdateOP_read uo_encoded_length "\<lambda>_. True" uo_view
proof (intro codec_pos.intro codec_of_decodes codec_pos_axioms.intro)
  fix u
  show "length (uo_encode u) = uo_encoded_length u" by (simp add: uo_encode_def uo_encoded_length_def encode_i8_def)
  show "0 < uo_encoded_length u" by (simp add: uo_encoded_length_def)
  show "decodes UpdateOP_read (uo_encode u) (uo_view u)"
  proof (cases "op_has_pos (uo_op u)")
    case True
    then have "decodes (dbind decode_vi32 (\<lambda>pos. dret \<lparr>uo_op = uo_op u, uo_pos = pos\<rparr>)) (vi32_out (uo_pos u)) (uo_view u)"
      using decodes_dbind_dret [OF vi32.decodes_enc [OF TrueI], of "\<lambda>pos. \<lparr>uo_op = uo_op u, uo_pos = pos\<rparr>" "uo_pos u"]
      by (cases u) (simp add: uo_view_def)
    with True show ?thesis unfolding UpdateOP_read_def uo_encode_def by (intro decodes_dbind [OF decodes_i8]) simp
  next
    case False
    then have "uo_view u = \<lparr>uo_op = uo_op u, uo_pos = 0\<rparr>" by (cases u) (simp add: uo_view_def)
    with False show ?thesis unfolding UpdateOP_read_def uo_encode_def
      by (intro decodes_dbind [OF decodes_i8]) (simp add: decodes_dret)
  qed
qed

definition iu_ok :: "interval_update \<Rightarrow> bool" where
  "iu_ok u \<longleftrightarrow> length (iu_value u) < 2 ^ 32"

definition iu_view :: "interval_update \<Rightarrow> interval_update" where
  "iu_view u = u\<lparr>iu_operation := uo_view (iu_operation u)\<rparr>"

interpretation interval_update_codec: codec_pos iu_encode IntervalUpdate_read iu_encoded_length iu_ok iu_view
proof (intro codec_pos.intro codec_of_decodes codec_pos_axioms.intro)
  fix u assume u: "iu_ok u"
  then have len: "length (iu_value u) < 2 ^ 32" by (simp add: iu_ok_def)
  show "length (iu_encode u) = iu_encoded_length u"
    using len by (simp add: iu_encode_def iu_encoded_length_def update_op_codec.enc_len encode_i8_def unat_encoded_length_bytes)
  show "0 < iu_encoded_length u" by (simp add: iu_encoded_length_def)
  let ?g = "\<lambda>b. \<lparr>iu_operation = uo_view (iu_operation u), iu_encoder = iu_encoder u, iu_timestamp = iu_timestamp u,
    iu_value = take (unat (of_nat (length b) :: u32)) b\<rparr>"
  have "?g (iu_value u) = iu_view u" using len by (cases u) (simp add: iu_view_def)
  then have "decodes (dbind decode_bytes (\<lambda>b. dret (?g b))) (bytes_out (iu_value u)) (iu_view u)"
    using decodes_dbind_dret [OF decodes_bytes, of "iu_value u" ?g] len by simp
  then show "decodes IntervalUpdate_read (iu_encode u) (iu_view u)"
    unfolding IntervalUpdate_read_def iu_encode_def
    by (intro decodes_dbind [OF update_op_codec.decodes_enc [OF TrueI]] decodes_dbind [OF decodes_i8]
        decodes_dbind [OF vi64.decodes_enc [OF TrueI]])
qed

definition scan_ok :: "scan_interval \<Rightarrow> bool" where
  "scan_ok si \<longleftrightarrow> key_rep (si_begin si) \<and> key_rep (si_end si) \<and> key_rep (si_offset_key si) \<and>
     kis_ok (si_keys si) \<and> svs_ok (si_values si) \<and>
     (case si_updating si of None \<Rightarrow> \<not> has_opt OPT_UPDATING si | Some u \<Rightarrow> iu_ok u)"

text \<open>What a reader gets: the keys are owned, the type of the column is not known, timestamps and flags count
  as set, and an update has its bit in the options and no flag for deletes only.\<close>

definition scan_view :: "scan_interval \<Rightarrow> scan_interval" where
  "scan_view si = \<lparr>si_begin = (si_begin si)\<lparr>key_own := True\<rparr>, si_end = (si_end si)\<lparr>key_own := True\<rparr>,
     si_keys = si_keys si, si_values = (Values_new Col_UNKNOWN)\<lparr>svs_values := written (si_values si)\<rparr>,
     si_ts_start = ts_view (si_ts_start si), si_ts_finish = ts_view (si_ts_finish si),
     si_flags = (let f = (si_flags si)\<lparr>f_was_set := True\<rparr>
       in if is_updating si then clear_only_deletes f else f),
     si_offset_key = (si_offset_key si)\<lparr>key_own := True\<rparr>, si_offset_rev = si_offset_rev si,
     si_options = (if is_updating si then si_options si OR OPT_UPDATING else si_options si),
     si_updating = map_option iu_view (si_updating si)\<rparr>"

lemma decodes_options:
  assumes "case si_updating si of None \<Rightarrow> \<not> has_opt OPT_UPDATING si | Some u \<Rightarrow> iu_ok u"
    and "\<And>opt. g opt = si'\<lparr>si_options := opt, si_updating := None\<rparr>"
  shows "decodes (dbind decode_i8 (\<lambda>opt. scan_read_update (g opt)))
    (case si_updating si of None \<Rightarrow> encode_i8 (si_options si) | Some u \<Rightarrow> encode_i8 (si_options si OR OPT_UPDATING) @ iu_encode u)
    (si'\<lparr>si_options := if is_updating si then si_options si OR OPT_UPDATING else si_options si,
      si_updating := map_option iu_view (si_updating si),
      si_flags := if is_updating si then clear_only_deletes (si_flags si') else si_flags si'\<rparr>)"
proof (cases "si_updating si")
  case None
  then have "scan_read_update (g (si_options si)) = dret (si'\<lparr>si_options := si_options si, si_updating := None\<rparr>)"
    using assms by (simp add: scan_read_update_def has_opt_def)
  then have "decodes (scan_read_update (g (si_options si))) [] (si'\<lparr>si_options := si_options si, si_updating := None\<rparr>)"
    by (simp add: decodes_dret)
  from decodes_dbind [where f = "\<lambda>opt. scan_read_update (g opt)", OF decodes_i8 this] show ?thesis using None by (simp add: is_updating_def)
next
  case (Some u)
  let ?o = "si_options si OR OPT_UPDATING"
  have "bit (?o AND 4) 2" by (simp add: bit_simps)
  then have "has_opt OPT_UPDATING (g ?o)" using assms(2) by (auto simp: has_opt_def)
  then have "decodes (scan_read_update (g ?o)) (iu_encode u) ((g ?o)\<lparr>si_updating := Some (iu_view u),
      si_flags := clear_only_deletes (si_flags (g ?o))\<rparr>)"
    using decodes_dbind_dret [OF interval_update_codec.decodes_enc, of u
      "\<lambda>u. (g ?o)\<lparr>si_updating := Some u, si_flags := clear_only_deletes (si_flags (g ?o))\<rparr>"] assms(1) Some
    by (simp add: scan_read_update_def)
  from decodes_dbind [where f = "\<lambda>opt. scan_read_update (g opt)", OF decodes_i8 this] show ?thesis using Some assms(2) by (simp add: is_updating_def)
qed

interpretation scan_codec: codec_pos scan_encode Scan_read scan_encoded_length scan_ok scan_view
proof (intro codec_pos.intro codec_of_decodes codec_pos_axioms.intro)
  fix si assume si: "scan_ok si"
  then have k: "key_rep (si_begin si)" "key_rep (si_end si)" "key_rep (si_offset_key si)"
    and ks: "kis_ok (si_keys si)" and vs: "svs_ok (si_values si)"
    and up: "case si_updating si of None \<Rightarrow> \<not> has_opt OPT_UPDATING si | Some u \<Rightarrow> iu_ok u" by (simp_all add: scan_ok_def)
  show "length (scan_encode si) = scan_encoded_length si"
    using k ks vs up by (cases "si_updating si") (simp_all add: scan_encode_def scan_encoded_length_def length_key_encode
      key_intervals_codec.enc_len spec_values_codec.enc_len ts_codec.enc_len flags_codec.enc_len
      interval_update_codec.enc_len encode_i8_def)
  show "0 < scan_encoded_length si" by (simp add: scan_encoded_length_def)
  let ?vs = "(Values_new Col_UNKNOWN)\<lparr>svs_values := written (si_values si)\<rparr>"
  have vals: "decodes Values_read (svs_encode (si_values si)) ?vs"
    using spec_values_codec.decodes_enc [OF vs, of "Values_new Col_UNKNOWN"]
    by (simp add: Values_read_def svs_view_def)
  let ?g = "\<lambda>opt. \<lparr>si_begin = (si_begin si)\<lparr>key_own := True\<rparr>, si_end = (si_end si)\<lparr>key_own := True\<rparr>,
     si_keys = si_keys si, si_values = ?vs, si_ts_start = ts_view (si_ts_start si),
     si_ts_finish = ts_view (si_ts_finish si), si_flags = (si_flags si)\<lparr>f_was_set := True\<rparr>,
     si_offset_key = (si_offset_key si)\<lparr>key_own := True\<rparr>, si_offset_rev = si_offset_rev si, si_options = opt,
     si_updating = None\<rparr>"
  have view: "scan_view si = (?g 0)\<lparr>si_options := if is_updating si then si_options si OR OPT_UPDATING else si_options si,
      si_updating := map_option iu_view (si_updating si),
      si_flags := if is_updating si then clear_only_deletes (si_flags (?g 0)) else si_flags (?g 0)\<rparr>"
    by (simp add: scan_view_def Let_def)
  show "decodes Scan_read (scan_encode si) (scan_view si)"
    unfolding Scan_read_def scan_encode_def view
    by (intro decodes_dbind [OF decodes_key [OF k(1)]] decodes_dbind [OF decodes_key [OF k(2)]]
        decodes_dbind [OF decodes_key [OF k(3)]] decodes_dbind [OF key_intervals_codec.decodes_enc [OF ks]]
        decodes_dbind [OF vals] decodes_dbind [OF ts_codec.decodes_enc [OF TrueI]]
        decodes_dbind [OF flags_codec.decodes_enc [OF TrueI]] decodes_dbind [OF vi64.decodes_enc [OF TrueI]]
        decodes_options [OF up]) simp
qed

section \<open>Properties\<close>

text \<open>C24: A scan specification is written in its announced length and read back: the keys, the conditions on
  keys, the conditions on values that have a comparator, times, flags, the cell to go on behind, options and
  the update, with an update and its bit in the options going together.\<close>

theorem scan_spec_roundtrip:
  assumes "scan_ok si" and "scan_encoded_length si \<le> unat n"
  shows "length (scan_encode si) = scan_encoded_length si \<and>
    Scan_read \<lparr>mem = scan_encode si @ rest, remain = n\<rparr> =
      Inr (scan_view si, \<lparr>mem = rest, remain = n - of_nat (scan_encoded_length si)\<rparr>)"
  using scan_codec.enc_len scan_codec.dec_enc assms by blast

definition updating_scan :: scan_interval where
  "updating_scan = (Scan_new Col_PLAIN)\<lparr>si_updating := Some (iu_set (IntervalUpdate_new 0 0) 0 [7] 5)\<rparr>"

theorem scan_spec_roundtrip_witness:
  "\<exists>si r. Scan_read \<lparr>mem = scan_encode updating_scan @ [9], remain = 100\<rparr> = Inr (si, r) \<and> mem r = [9] \<and>
    has_opt OPT_UPDATING si \<and> map_option iu_value (si_updating si) = Some [7]"
proof -
  have ok: "scan_ok updating_scan"
    using key_rep_of [of "[]" False]
    by (simp add: scan_ok_def updating_scan_def Scan_new_def kis_ok_def svs_ok_def iu_ok_def iu_set_def Values_new_def
      Key_new_def key_of_def)
  have "scan_encoded_length updating_scan \<le> unat (100 :: u64)" by code_simp
  from scan_spec_roundtrip [OF ok this, of "[9]"]
  have "Scan_read \<lparr>mem = scan_encode updating_scan @ [9], remain = 100\<rparr> =
      Inr (scan_view updating_scan, \<lparr>mem = [9], remain = 100 - of_nat (scan_encoded_length updating_scan)\<rparr>)" by blast
  then show ?thesis
    by (simp add: scan_view_def updating_scan_def is_updating_def iu_set_def iu_view_def has_opt_def Scan_new_def)
qed

text \<open>Freeing a scan leaves its options: the bit for an update that is gone is written without one, and reading
  goes on behind the end.\<close>

lemma freed_scan_unreadable:
  "Scan_read \<lparr>mem = scan_encode (scan_free (set_opt OPT_UPDATING updating_scan)), remain = of_nat (scan_encoded_length
     (scan_free (set_opt OPT_UPDATING updating_scan)))\<rparr> = Inl SERIALIZATION_INPUT_OVERRUN"
  by code_simp

end
