(* ===== verification/Specs_Range.thy ===== *)
theory Specs_Range
  imports Specs_Interval
begin

text \<open>
  What the range of keys of a scan does to its cells: the comparisons of a key with the begin and the end
  of the range as ones of lists of fractions; the range that is made out of conditions never
  excludes a key the conditions want; and the end of a range, once passed, stays passed in the
  orders that do not count fractions.
\<close>

section \<open>The ends of a range on fractions\<close>

definition upto_fc_compare :: "(bytes \<Rightarrow> bytes \<Rightarrow> comp) \<Rightarrow> bool \<Rightarrow> nat \<Rightarrow> bytes list \<Rightarrow> bytes list \<Rightarrow> comp" where
  "upto_fc_compare cond e k fs gs =
     (if length (take k fs) < length (take k gs) then GT
      else if length (take k gs) < length (take k fs) then LT
      else upto_compare cond e k fs gs)"

lemma compare_opt_fc_any:
  assumes "fits fs" and "fits gs"
  shows "compare_opt_fc cond (key_of o1 fs) (key_of o2 gs) mx e
    = Inr (upto_fc_compare cond e (if mx = 0 then max (length fs) (length gs) else unat mx) fs gs)"
  using fits_bounds(1) [OF assms(1)] fits_bounds(1) [OF assms(2)]
  by (auto simp: compare_opt_fc_def compare_opt_any [OF assms] upto_fc_compare_def word_less_nat_alt)

definition counts_first :: "KeySeq \<Rightarrow> bool" where
  "counts_first s \<longleftrightarrow> s = FC_LEXIC \<or> s = FC_VOLUME"

definition seq_upto :: "KeySeq \<Rightarrow> nat \<Rightarrow> bytes list \<Rightarrow> bytes list \<Rightarrow> comp" where
  "seq_upto s k fs gs =
     (if counts_first s then upto_fc_compare else upto_compare) (seq_condition s) True k fs gs"

definition begin_ok :: "KeySeq \<Rightarrow> bytes list \<Rightarrow> bytes list \<Rightarrow> bool" where
  "begin_ok s bs gs \<longleftrightarrow> bs = [] \<or>
     seq_upto s (if counts_first s \<and> gs \<noteq> [] then length gs else length bs) bs gs \<noteq> LT"

definition end_ok :: "KeySeq \<Rightarrow> bool \<Rightarrow> bool \<Rightarrow> bytes list \<Rightarrow> bytes list \<Rightarrow> bool" where
  "end_ok s rest same es gs \<longleftrightarrow> es = [] \<or>
     (counts_first s \<and> (if same then length gs < length es else rest)) \<or>
     seq_upto s (if rest \<and> \<not> same \<or> gs = [] then length es else length gs) es gs \<noteq> GT"

lemma seq_condition_funs [simp]:
  "seq_condition LEXIC = condition_lexic" "seq_condition FC_LEXIC = condition_lexic"
  "seq_condition VOLUME = condition_volume" "seq_condition FC_VOLUME = condition_volume"
  by (auto simp: fun_eq_iff)

lemma of_nat24_is_0: "fits fs \<Longrightarrow> (of_nat (length fs) :: u24) = 0 \<longleftrightarrow> fs = []"
  using of_nat24_eq_0 [of "length fs"] fits_bounds(1) [of fs] by simp

lemma unat24_length: "fits fs \<Longrightarrow> unat (of_nat (length fs) :: u24) = length fs"
  using fits_bounds(1) [of fs] by simp

lemma is_matching_begin_of:
  assumes "s \<noteq> UNKNOWN" and "si_begin si = key_of ob bs" and "fits bs" and "fits gs"
  shows "is_matching_begin s si (key_of og gs) = Inr (begin_ok s bs gs)"
  using assms(1)
  by (cases s) (auto simp: is_matching_begin_def assms(2) key_empty_def of_nat24_is_0 assms(3,4) begin_ok_def
    seq_upto_def counts_first_def compare_opt_lexic_def compare_opt_volume_def compare_opt_fc_lexic_def
    compare_opt_fc_volume_def compare_opt_any [OF assms(3,4)] compare_opt_fc_any [OF assms(3,4)]
    unat24_length)

lemma is_matching_end_of:
  assumes "s \<noteq> UNKNOWN" and "si_end si = key_of oe es" and "fits es" and "fits gs"
  shows "is_matching_end s si (key_of og gs) =
    Inr (end_ok s (has_opt OPT_RANGE_END_REST si) (has_opt OPT_KEY_EQUAL si) es gs)"
  using assms(1) fits_bounds(1) [OF assms(3)] fits_bounds(1) [OF assms(4)]
  by (cases s) (auto simp: is_matching_end_def assms(2) key_empty_def of_nat24_is_0 assms(3,4) end_ok_def
    seq_upto_def counts_first_def compare_opt_lexic_def compare_opt_volume_def compare_opt_fc_lexic_def
    compare_opt_fc_volume_def compare_opt_any [OF assms(3,4)] compare_opt_fc_any [OF assms(3,4)]
    unat24_length end_count_def end_by_count_def word_less_nat_alt)

section \<open>The range that conditions leave\<close>

definition keys_of :: "key_interval list \<Rightarrow> spec_key set" where
  "keys_of is = ki_start ` set is \<union> ki_finish ` set is"

definition texts_of :: "bool \<Rightarrow> spec_key set \<Rightarrow> bytes list \<Rightarrow> bool" where
  "texts_of ending K rs \<longleftrightarrow> (\<forall>i < length rs. rs ! i \<noteq> [] \<longrightarrow>
     (\<exists>k \<in> K. i < length k \<and> rs ! i = sf_text (k ! i) \<and> bounds_key ending (sf_comp (k ! i))))"

lemma fill_key_length [simp]: "length (fst (fill_key ending k rs found)) = length rs"
  by (induction ending k rs found rule: fill_key.induct) (simp_all add: Let_def split_beta)

lemma fill_key_nth:
  "i < length rs \<Longrightarrow> fst (fill_key ending k rs found) ! i =
    (if i < length k \<and> rs ! i = [] \<and> bounds_key ending (sf_comp (k ! i)) then sf_text (k ! i) else rs ! i)"
proof (induction ending k rs found arbitrary: i rule: fill_key.induct)
  case (1 ending f fs r rs found)
  show ?case
  proof (cases i)
    case 0
    then show ?thesis by (simp add: Let_def split_beta)
  next
    case (Suc j)
    with 1(3) have "j < length rs" by simp
    then show ?thesis using 1(1,2) [of j] Suc by (cases "r \<noteq> [] \<or> sf_text f = [] \<or> \<not> bounds_key ending (sf_comp f)") (simp_all add: Let_def split_beta)
  qed
qed simp_all

lemma fill_key_texts:
  assumes "texts_of ending K rs" and "k \<in> K"
  shows "texts_of ending K (fst (fill_key ending k rs found))"
  unfolding texts_of_def fill_key_length
proof (intro allI impI)
  fix i assume i: "i < length rs" and ne: "fst (fill_key ending k rs found) ! i \<noteq> []"
  show "\<exists>k' \<in> K. i < length k' \<and> fst (fill_key ending k rs found) ! i = sf_text (k' ! i) \<and>
    bounds_key ending (sf_comp (k' ! i))"
  proof (cases "i < length k \<and> rs ! i = [] \<and> bounds_key ending (sf_comp (k ! i))")
    case True
    then show ?thesis using fill_key_nth [OF i, of ending k found] assms(2) by (intro bexI [of _ k]) simp_all
  next
    case False
    then have "fst (fill_key ending k rs found) ! i = rs ! i" using fill_key_nth [OF i, of ending k found] by (simp only: if_False)
    then show ?thesis using ne i assms(1) by (simp add: texts_of_def)
  qed
qed

lemma fill_range_Cons:
  "fill_range ending initial (i # is) p =
    fill_range ending initial is (fill_key ending (if ending = initial then ki_finish i else ki_start i) (fst p) (snd p))"
  by (simp add: fill_range_def split_beta)

lemma fill_range_texts:
  assumes "texts_of ending (keys_of I) (fst p)"
  shows "set is \<subseteq> set I \<Longrightarrow> texts_of ending (keys_of I) (fst (fill_range ending initial is p))"
  using assms
proof (induction "is" arbitrary: p)
  case Nil
  then show ?case by (simp add: fill_range_def)
next
  case (Cons i "is")
  have "(if ending = initial then ki_finish i else ki_start i) \<in> keys_of I"
    using Cons.prems(1) by (auto simp: keys_of_def)
  from fill_key_texts [OF Cons.prems(2) this, of "snd p"] show ?case
    using Cons.IH Cons.prems(1) by (simp add: fill_range_Cons)
qed

lemma possible_range_texts:
  assumes "i < length (possible_range is ending rest True)"
  shows "\<exists>k \<in> keys_of is. i < length k \<and> possible_range is ending rest True ! i = sf_text (k ! i) \<and>
    bounds_key ending (sf_comp (k ! i)) \<and> sf_text (k ! i) \<noteq> []"
proof -
  define z where "z = (replicate (range_size is + (if ending \<and> \<not> rest then 1 else 0)) [] :: bytes list, False)"
  define p where "p = fill_range ending False is (fill_range ending True is z)"
  have "texts_of ending (keys_of is) (fst z)" by (simp add: texts_of_def z_def)
  then have rs: "texts_of ending (keys_of is) (fst p)"
    unfolding p_def by (intro fill_range_texts) simp_all
  have pr: "possible_range is ending rest True = (if \<not> snd p then [] else takeWhile (\<lambda>r. r \<noteq> []) (fst p))"
    unfolding possible_range_def Let_def p_def z_def by (simp add: split_beta)
  with assms have i: "i < length (takeWhile (\<lambda>r. r \<noteq> []) (fst p))" by (auto split: if_splits)
  then have ne: "fst p ! i \<noteq> []" using nth_mem [OF i] takeWhile_nth [OF i] set_takeWhileD by metis
  have "i < length (fst p)" using i length_takeWhile_le less_le_trans by blast
  moreover have "possible_range is ending rest True ! i = fst p ! i"
    using i assms pr takeWhile_nth [OF i] by (auto split: if_splits)
  ultimately show ?thesis using rs ne unfolding texts_of_def by metis
qed

section \<open>Conditions stay inside their range\<close>

lemma prefix_not_before: "prefix a b \<Longrightarrow> condition_lexic a b \<noteq> LT" "prefix a b \<Longrightarrow> condition_volume a b \<noteq> LT"
proof -
  show "prefix a b \<Longrightarrow> condition_lexic a b \<noteq> LT"
  proof (induction a arbitrary: b)
    case Nil
    then show ?case by (cases b) (simp_all add: condition_lexic_iff)
  next
    case (Cons x a)
    then obtain c where b: "b = x # c" "prefix a c" by (cases b) auto
    then show ?case using Cons.IH [OF b(2)] by (auto simp: condition_lexic_iff split: if_splits)
  qed
  show "prefix a b \<Longrightarrow> condition_volume a b \<noteq> LT"
    by (auto simp: condition_volume_iff prefix_def)
qed

text \<open>What a matching fraction says of the order, for the comparators that give an end of the range.\<close>

lemma bound_of_match:
  assumes "s \<noteq> UNKNOWN" and "sf_matching rx s f g" and "bounds_key ending (sf_comp f)"
    and "code_comp (sf_comp f) \<notin> {Some FI, Some FIP}"
  shows "seq_condition s (sf_text f) g \<noteq> (if ending then GT else LT)"
proof -
  obtain cp where cp: "code_comp (sf_comp f) = Some cp"
    using assms(3) by (cases "code_comp (sf_comp f)") (auto simp: bounds_key_def)
  then have m: "seq_is_matching rx s cp (sf_text f) g"
    and side: "cp = EQ \<or> (ending \<and> cp \<in> {LE, LT}) \<or> (\<not> ending \<and> cp \<in> {PF, GT, GE})"
    using assms(2-4) by (cases cp; auto simp: sf_matching_def bounds_key_def)+
  show ?thesis using assms(1) m side
    by (cases s) (auto simp: lexic_sides volume_sides pf_iff eq_iff prefix_not_before condition_refl)
qed

lemma first_diff_side:
  assumes "d \<noteq> EQ" and "\<And>i. i < length fs \<Longrightarrow> i < length gs \<Longrightarrow> cond (fs ! i) (gs ! i) \<noteq> d"
  shows "first_diff cond e fs gs \<noteq> Some d"
  using assms(2)
proof (induction cond e fs gs rule: first_diff.induct)
  case (1 cond e f fs g gs)
  have "cond f g \<noteq> d" using 1(2) [of 0] by simp
  moreover have "first_diff cond e fs gs \<noteq> Some d" if "cond f g = EQ" "\<not> (f = [] \<and> e)"
    using that 1(1) 1(2) [of "Suc i" for i] by simp
  ultimately show ?case using assms(1) by auto
qed simp_all

lemma seq_upto_not_LT:
  assumes "\<And>i. i < length fs \<Longrightarrow> i < length gs \<Longrightarrow> seq_condition s (fs ! i) (gs ! i) \<noteq> LT"
    and "length fs \<le> length gs"
  shows "seq_upto s k fs gs \<noteq> LT"
proof -
  have "first_diff (seq_condition s) True (take k fs) (take k gs) \<noteq> Some LT"
    using assms(1) by (intro first_diff_side) auto
  then show ?thesis using assms(2)
    by (auto simp: seq_upto_def upto_fc_compare_def upto_compare_def split: option.split)
qed

lemma seq_upto_not_GT:
  assumes "\<And>i. i < length fs \<Longrightarrow> i < length gs \<Longrightarrow> seq_condition s (fs ! i) (gs ! i) \<noteq> GT"
    and "\<not> counts_first s"
  shows "seq_upto s (length fs) fs gs \<noteq> GT"
proof -
  have "first_diff (seq_condition s) True (take (length fs) fs) (take (length fs) gs) \<noteq> Some GT"
    using assms(1) by (intro first_diff_side) auto
  then show ?thesis using assms(2) by (auto simp: seq_upto_def upto_compare_def split: option.split)
qed

text \<open>Conditions whose texts may bound keys: what the comparators \<open>FI\<close> and \<open>FIP\<close> carry is not compared with
  anything, so it is to be empty, and the last comparator is not \<open>NONE\<close>, which matches keys with any
  number of fractions.\<close>

definition bounding :: "spec_key \<Rightarrow> bool" where
  "bounding k \<longleftrightarrow> (\<forall>f \<in> set k. code_comp (sf_comp f) \<in> {Some FI, Some FIP} \<longrightarrow> sf_text f = []) \<and>
     (k \<noteq> [] \<longrightarrow> code_comp (sf_comp (last k)) \<noteq> Some NONE)"

lemma bounding_length:
  assumes "bounding k" and "key_matches rx s k gs" and "i < length k" and "sf_text (k ! i) \<noteq> []"
  shows "i < length gs"
proof -
  have k: "k \<noteq> []" using assms(3) by auto
  have "code_comp (sf_comp (k ! i)) \<noteq> Some FIP" using assms nth_mem unfolding bounding_def by blast
  then have "i < length k - 1" if "code_comp (sf_comp (last k)) = Some FIP"
    using that k assms(3) by (metis One_nat_def Suc_lessI Suc_pred last_conv_nth length_greater_0_conv diff_Suc_1 not_less_eq)
  moreover have "length k = length gs \<or> code_comp (sf_comp (last k)) = Some FIP \<and> length k \<le> length gs + 1 \<or> length k \<le> length gs"
    using assms(1,2) k by (auto simp: key_matches_def sk_count_matching_def bounding_def split: option.splits comp.splits)
  ultimately show ?thesis using assms(3) by auto
qed

lemma possible_range_bounds:
  assumes "s \<noteq> UNKNOWN" and "\<forall>k \<in> keys_of is. bounding k \<and> key_matches rx s k gs"
  shows "length (possible_range is False False True) \<le> length gs"
    and "i < length (possible_range is ending rest True) \<Longrightarrow> i < length gs \<Longrightarrow>
      seq_condition s (possible_range is ending rest True ! i) (gs ! i) \<noteq> (if ending then GT else LT)"
proof -
  have less: "i < length gs" if len: "i < length (possible_range is ending rest True)" for i ending rest
    using possible_range_texts [OF len] bounding_length assms(2) by blast
  then show "length (possible_range is False False True) \<le> length gs"
    using not_less by blast
  assume i: "i < length (possible_range is ending rest True)" "i < length gs"
  then obtain k where k: "k \<in> keys_of is" "i < length k" "possible_range is ending rest True ! i = sf_text (k ! i)"
      "bounds_key ending (sf_comp (k ! i))" "sf_text (k ! i) \<noteq> []"
    using possible_range_texts by blast
  then have "sf_matching rx s (k ! i) (gs ! i)"
    using assms(2) i(2) fractions_match_nth [of rx s k gs i] by (auto simp: key_matches_def)
  moreover have "code_comp (sf_comp (k ! i)) \<notin> {Some FI, Some FIP}"
    using k assms(2) nth_mem [of i k] unfolding bounding_def by blast
  ultimately show "seq_condition s (possible_range is ending rest True ! i) (gs ! i) \<noteq> (if ending then GT else LT)"
    using bound_of_match [OF assms(1) _ k(4)] k(3) by metis
qed

lemma begin_ok_possible:
  assumes "s \<noteq> UNKNOWN" and "\<forall>k \<in> keys_of is. bounding k \<and> key_matches rx s k gs"
  shows "begin_ok s (possible_range is False False True) gs"
  unfolding begin_ok_def
  by (intro disjI2 seq_upto_not_LT possible_range_bounds(1) [OF assms])
    (use possible_range_bounds(2) [OF assms, where ending = False] in simp)

lemma end_ok_possible:
  assumes "s \<noteq> UNKNOWN" and "\<forall>k \<in> keys_of is. bounding k \<and> key_matches rx s k gs"
  shows "end_ok s True False (possible_range is True True True) gs"
proof (cases "counts_first s")
  case False
  then have "seq_upto s (length (possible_range is True True True)) (possible_range is True True True) gs \<noteq> GT"
    using possible_range_bounds(2) [OF assms, where ending = True] by (intro seq_upto_not_GT) simp_all
  then show ?thesis by (simp add: end_ok_def)
qed (simp add: end_ok_def)

section \<open>The end of a range stays passed\<close>

text \<open>A key beyond the end: it is behind the first fraction that differs, or, when the end is not
  followed by a rest, it goes on where the end is over.\<close>

fun past_end :: "(bytes \<Rightarrow> bytes \<Rightarrow> comp) \<Rightarrow> bool \<Rightarrow> bytes list \<Rightarrow> bytes list \<Rightarrow> bool" where
  "past_end cond ext es [] = False"
| "past_end cond ext [] (g # gs) = ext"
| "past_end cond ext (e # es) (g # gs) =
     (e \<noteq> [] \<and> (cond e g = GT \<or> cond e g = EQ \<and> past_end cond ext es gs))"

lemma upto_compare_rec:
  "upto_compare cond e (Suc k) (f # fs) (g # gs) =
    (if f = [] \<and> e then EQ else if cond f g \<noteq> EQ then cond f g else upto_compare cond e k fs gs)"
  "upto_compare cond e k fs [] \<noteq> GT"
  "upto_compare cond e (Suc k) [] (g # gs) = GT"
  "upto_compare cond e 0 fs gs = EQ"
  by (auto simp: upto_compare_def)

lemma upto_past_rest: "upto_compare cond True (length es) es gs = GT \<longleftrightarrow> past_end cond False es gs"
  by (induction cond False es gs rule: past_end.induct) (auto simp: upto_compare_rec)

lemma upto_past: "upto_compare cond True (length gs) es gs = GT \<longleftrightarrow> past_end cond True es gs"
  by (induction cond True es gs rule: past_end.induct) (auto simp: upto_compare_rec)

lemma past_end_later:
  "comp_order cond (\<lambda>_. True) (=) \<Longrightarrow> past_end cond ext es gs \<Longrightarrow> frac_compare cond gs hs = GT \<Longrightarrow>
    past_end cond ext es hs"
proof (induction cond ext es gs arbitrary: hs rule: past_end.induct)
  case (2 cond ext g gs)
  then show ?case by (cases hs) auto
next
  case (3 cond ext e es g gs)
  then obtain h hs' where hs: "hs = h # hs'" by (cases hs) auto
  note order = comp_order.cmp_trans [OF 3(2) TrueI TrueI TrueI] comp_order.cmp_same [OF 3(2) TrueI TrueI]
  show ?case
  proof (cases "cond g h = EQ")
    case True
    then have "g = h" using order(2) by blast
    then show ?thesis using 3 hs True by auto
  next
    case False
    then have "cond g h = GT" using 3(4) hs by simp
    then have "cond e h = GT" using 3(3) order [of e g] by auto
    then show ?thesis using 3(3) hs by simp
  qed
qed simp

lemma end_ok_past:
  assumes "s \<noteq> UNKNOWN" and "\<not> counts_first s"
  shows "end_ok s rest same es gs \<longleftrightarrow> es = [] \<or> \<not> past_end (seq_condition s) (\<not> (rest \<and> \<not> same)) es gs"
proof (cases "gs = []")
  case True
  then show ?thesis using assms(2) by (simp add: end_ok_def seq_upto_def upto_compare_rec)
next
  case False
  then show ?thesis
    using assms(2) upto_past_rest [of "seq_condition s" es gs] upto_past [of "seq_condition s" gs es]
    by (auto simp: end_ok_def seq_upto_def)
qed

lemma seq_compare_cases:
  "s \<noteq> UNKNOWN \<Longrightarrow> seq_compare s fs gs = (if counts_first s then fc_compare else frac_compare) (seq_condition s) fs gs"
  by (cases s) (simp_all add: counts_first_def)

lemma end_ok_later:
  assumes "s \<noteq> UNKNOWN" and "seq_compare s gs hs = GT" and "\<not> end_ok s rest same es gs"
    and "\<not> counts_first s \<or> rest \<or> same \<or> length es \<le> length gs"
  shows "\<not> end_ok s rest same es hs"
proof (cases "counts_first s")
  case False
  then show ?thesis
    using assms past_end_later [OF seq_condition_order [OF assms(1)]] seq_compare_cases [OF assms(1), of gs hs]
    by (auto simp: end_ok_past)
next
  case True
  let ?c = "seq_condition s"
  have gs: "length es \<le> length gs" "es \<noteq> []" "\<not> (rest \<and> \<not> same)"
    using assms(3,4) True by (auto simp: end_ok_def split: if_splits)
  have fc: "length gs < length hs \<or> (length gs = length hs \<and> frac_compare ?c gs hs = GT)"
    using assms(2) True seq_compare_cases [OF assms(1), of gs hs] by (auto simp: fc_compare_def split: if_splits)
  have limit: "end_ok s rest same es ks \<longleftrightarrow> length es = length ks \<and> \<not> past_end ?c True es ks"
    if "length es \<le> length ks" for ks
    using that gs True upto_past [of ?c ks es]
    by (auto simp: end_ok_def seq_upto_def upto_fc_compare_def)
  show ?thesis
    using fc assms(3) gs limit [of gs] limit [of hs] past_end_later [OF seq_condition_order [OF assms(1)], of True es gs hs]
    by auto
qed

section \<open>Properties\<close>

lemma has_opt_set [simp]:
  "has_opt OPT_RANGE_END_REST (set_opt OPT_RANGE_END_REST si)"
  "has_opt OPT_KEY_EQUAL (set_opt OPT_RANGE_END_REST si) \<longleftrightarrow> has_opt OPT_KEY_EQUAL si"
proof -
  have "bit (si_options si OR 2 AND 2) 1" by (simp add: bit_simps)
  then show "has_opt OPT_RANGE_END_REST (set_opt OPT_RANGE_END_REST si)"
    by (auto simp: has_opt_def set_opt_def)
  have "(si_options si OR 2) AND 1 = si_options si AND 1"
    by (rule bit_word_eqI) (auto simp: bit_simps)
  then show "has_opt OPT_KEY_EQUAL (set_opt OPT_RANGE_END_REST si) \<longleftrightarrow> has_opt OPT_KEY_EQUAL si"
    by (simp add: has_opt_def set_opt_def)
qed

lemma key_add_all_exists:
  "fits fs \<Longrightarrow> fits gs \<Longrightarrow> key_empty (key_of own fs) \<Longrightarrow> \<exists>o1. key_add_all (key_of own fs) gs = Inr (key_of o1 gs)"
  by (auto simp: key_add_all_of key_empty_def of_nat24_is_0)

lemma possible_range_Nil [simp]: "possible_range [] ending rest ns = []"
  by (simp add: possible_range_def fill_range_def range_size_def)

text \<open>What the completion of a range by its conditions leaves.\<close>

lemma apply_pure_is:
  assumes "si_begin si = key_of ob bs" and "si_end si = key_of oe es" and "fits bs" and "fits es"
    and "fits (possible_range (si_keys si) False False True)" and "fits (possible_range (si_keys si) True True True)"
  defines "bs' \<equiv> (if bs = [] then possible_range (si_keys si) False False True else bs)"
  defines "es' \<equiv> (if es = [] then possible_range (si_keys si) True True True else es)"
  shows "\<exists>o1 o2. apply_possible_range_pure si = Inr (let si = si\<lparr>si_begin := key_of o1 bs', si_end := key_of o2 es'\<rparr>
    in if es = [] \<and> es' \<noteq> [] \<and> \<not> has_opt OPT_KEY_EQUAL si then set_opt OPT_RANGE_END_REST si else si)"
proof (cases "si_keys si = []")
  case True
  have "bs' = bs" "es' = es" by (simp_all add: bs'_def es'_def True)
  moreover have "si = si\<lparr>si_begin := key_of ob bs, si_end := key_of oe es\<rparr>" using assms(1,2) by (cases si) simp
  ultimately have "apply_possible_range_pure si = Inr (let si = si\<lparr>si_begin := key_of ob bs', si_end := key_of oe es'\<rparr>
      in if es = [] \<and> es' \<noteq> [] \<and> \<not> has_opt OPT_KEY_EQUAL si then set_opt OPT_RANGE_END_REST si else si)"
    by (auto simp: apply_possible_range_pure_def True)
  then show ?thesis by blast
next
  case False
  have e: "key_empty (key_of x fs) \<longleftrightarrow> fs = []" if "fits fs" for x fs
    using that by (simp add: key_empty_def of_nat24_is_0)
  obtain o1 where o1: "(if key_empty (si_begin si)
      then res_bind (apply_possible_range si (si_begin si) False False True) (\<lambda>k. Inr (si\<lparr>si_begin := k\<rparr>)) else Inr si) =
      Inr (si\<lparr>si_begin := key_of o1 bs'\<rparr>)"
  proof (cases "bs = []")
    case True
    obtain o1 where "key_add_all (key_of ob bs) bs' = Inr (key_of o1 bs')"
      using key_add_all_exists [OF assms(3), of bs' ob] assms(5) e [OF assms(3)] True by (auto simp: bs'_def)
    then show ?thesis using that [of o1] True assms(1) e [OF assms(3)] by (simp add: apply_possible_range_def bs'_def)
  next
    case False
    have "si = si\<lparr>si_begin := key_of ob bs\<rparr>" using assms(1) by (cases si) simp
    then show ?thesis using that [of ob] False assms(1) e [OF assms(3)] by (simp add: bs'_def)
  qed
  show ?thesis
  proof (cases "es = []")
    case True
    obtain o2 where "key_add_all (key_of oe es) es' = Inr (key_of o2 es')"
      using key_add_all_exists [OF assms(4), of es' oe] assms(6) e [OF assms(4)] True by (auto simp: es'_def)
    then have "apply_possible_range_pure si = Inr (let si = si\<lparr>si_begin := key_of o1 bs', si_end := key_of o2 es'\<rparr>
        in if es = [] \<and> es' \<noteq> [] \<and> \<not> has_opt OPT_KEY_EQUAL si then set_opt OPT_RANGE_END_REST si else si)"
      unfolding apply_possible_range_pure_def o1
      using True False assms(2,6) e [OF assms(4)] e [OF assms(6)]
      by (simp add: apply_possible_range_def es'_def Let_def has_opt_def)
    then show ?thesis by blast
  next
    case es: False
    have "si\<lparr>si_begin := key_of o1 bs'\<rparr> = si\<lparr>si_begin := key_of o1 bs', si_end := key_of oe es\<rparr>" using assms(2) by (cases si) simp
    then have "apply_possible_range_pure si = Inr (let si = si\<lparr>si_begin := key_of o1 bs', si_end := key_of oe es'\<rparr>
        in if es = [] \<and> es' \<noteq> [] \<and> \<not> has_opt OPT_KEY_EQUAL si then set_opt OPT_RANGE_END_REST si else si)"
      unfolding apply_possible_range_pure_def o1
      using es False assms(2) e [OF assms(4)] by (simp add: es'_def)
    then show ?thesis by blast
  qed
qed

lemma apply_pure_parts:
  assumes "si_begin si = key_of ob bs" and "si_end si = key_of oe es" and "fits bs" and "fits es"
    and "fits (possible_range (si_keys si) False False True)" and "fits (possible_range (si_keys si) True True True)"
    and "apply_possible_range_pure si = Inr si'"
  defines "es' \<equiv> (if es = [] then possible_range (si_keys si) True True True else es)"
  shows "\<exists>o1. si_begin si' = key_of o1 (if bs = [] then possible_range (si_keys si) False False True else bs)"
    and "\<exists>o1. si_end si' = key_of o1 es'"
    and "has_opt OPT_KEY_EQUAL si' \<longleftrightarrow> has_opt OPT_KEY_EQUAL si"
    and "es = [] \<Longrightarrow> es' \<noteq> [] \<Longrightarrow> \<not> has_opt OPT_KEY_EQUAL si \<Longrightarrow> has_opt OPT_RANGE_END_REST si'"
    and "es \<noteq> [] \<Longrightarrow> has_opt OPT_RANGE_END_REST si' \<longleftrightarrow> has_opt OPT_RANGE_END_REST si"
    and "si_keys si' = si_keys si" and "si_values si' = si_values si"
    and "si_ts_start si' = si_ts_start si" and "si_ts_finish si' = si_ts_finish si"
    and "si_offset_key si' = si_offset_key si" and "si_offset_rev si' = si_offset_rev si"
proof -
  have opt [simp]: "has_opt x (si\<lparr>si_begin := a\<rparr>) = has_opt x si" "has_opt x (si\<lparr>si_end := a\<rparr>) = has_opt x si"
    for x a and si :: scan_interval by (simp_all add: has_opt_def)
  have set_opt [simp]: "si_begin (set_opt x si) = si_begin si" "si_end (set_opt x si) = si_end si"
    "si_keys (set_opt x si) = si_keys si" "si_values (set_opt x si) = si_values si"
    "si_ts_start (set_opt x si) = si_ts_start si" "si_ts_finish (set_opt x si) = si_ts_finish si"
    "si_offset_key (set_opt x si) = si_offset_key si" "si_offset_rev (set_opt x si) = si_offset_rev si"
    for x and si :: scan_interval by (simp_all add: set_opt_def)
  obtain o1 o2 where si': "si' =
      (let si = si\<lparr>si_begin := key_of o1 (if bs = [] then possible_range (si_keys si) False False True else bs),
        si_end := key_of o2 es'\<rparr>
      in if es = [] \<and> es' \<noteq> [] \<and> \<not> has_opt OPT_KEY_EQUAL si then set_opt OPT_RANGE_END_REST si else si)"
    using apply_pure_is [OF assms(1-6), unfolded assms(7) sum.inject, folded es'_def] by (elim exE) (rule that)
  show "\<exists>o1. si_begin si' = key_of o1 (if bs = [] then possible_range (si_keys si) False False True else bs)"
    "\<exists>o1. si_end si' = key_of o1 es'" "has_opt OPT_KEY_EQUAL si' \<longleftrightarrow> has_opt OPT_KEY_EQUAL si"
    "si_keys si' = si_keys si" "si_values si' = si_values si" "si_ts_start si' = si_ts_start si"
    "si_ts_finish si' = si_ts_finish si" "si_offset_key si' = si_offset_key si" "si_offset_rev si' = si_offset_rev si"
    "es \<noteq> [] \<Longrightarrow> has_opt OPT_RANGE_END_REST si' \<longleftrightarrow> has_opt OPT_RANGE_END_REST si"
    "es = [] \<Longrightarrow> es' \<noteq> [] \<Longrightarrow> \<not> has_opt OPT_KEY_EQUAL si \<Longrightarrow> has_opt OPT_RANGE_END_REST si'"
    unfolding si' Let_def by (simp_all, blast+)
qed

lemma scan_matching_more:
  assumes "si_keys si' = si_keys si" and "si_values si' = si_values si"
    and "si_ts_start si' = si_ts_start si" and "si_ts_finish si' = si_ts_finish si"
    and "si_offset_key si' = si_offset_key si" and "si_offset_rev si' = si_offset_rev si"
    and "is_matching_begin s si (c_key c) = Inr b0" and "is_matching_end s si (c_key c) = Inr e0"
    and "is_matching_begin s si' (c_key c) = Inr b1" and "is_matching_end s si' (c_key c) = Inr e1"
    and "kis_matching rx s (si_keys si) (c_key c) = Inr k"
    and "k \<Longrightarrow> b1 = b0 \<and> e1 = e0"
    and "scan_matching rx ld lb s si c stop = Inr (m, st)"
  shows "\<exists>st'. scan_matching rx ld lb s si' c stop = Inr (m, st')"
proof -
  have "matching_offset s si' (c_key c) (c_timestamp c) (is_time_order_desc c) =
      matching_offset s si (c_key c) (c_timestamp c) (is_time_order_desc c)"
  proof -
    have "matching_rev si' = matching_rev si" using assms(6) by (simp add: fun_eq_iff matching_rev_def)
    then show ?thesis by (simp only: matching_offset_def assms(5))
  qed
  then show ?thesis
    using assms(1-4,7-13) unfolding scan_matching_def
    by (auto split: sum.splits if_splits simp: res_bind_def)
qed

lemma timestamp_matching_new: "timestamp_matching Timestamp_new t"
  by (simp add: timestamp_matching_def Timestamp_new_def del: Comp_code.simps)

lemmas scan_new_parts = timestamp_matching_new scan_matching_def matching_offset_def is_matching_begin_def
  values_matching_def Scan_new_def Values_new_def key_empty_def Key_new_def

lemma scan_matching_only_end:
  "si = (Scan_new typ)\<lparr>si_end := k\<rparr> \<Longrightarrow> is_matching_end s si (c_key c) = Inr b \<Longrightarrow>
    scan_matching rx ld lb s si c stop = Inr (b, \<not> b)"
  by (simp add: scan_new_parts kis_matching_def)

lemma scan_matching_only_keys:
  "kis_matching rx s is (c_key c) = Inr b \<Longrightarrow>
    scan_matching rx ld lb s ((Scan_new typ)\<lparr>si_keys := is\<rparr>) c stop = Inr (b, False)"
  by (simp add: scan_new_parts is_matching_end_def)

text \<open>C23: Under four conditions completing the range of a scan by its conditions on keys changes no answer: whatever
  cell is asked for, it is selected by the completed scan exactly when it was by the given one, in
  every key sequence. The conditions are that the scan does not have the option for keys as long as its end
  (\<open>OPT_KEY_EQUAL\<close>); that the texts of its conditions may bound keys (\<open>bounding\<close>: those of \<open>FI\<close> and \<open>FIP\<close> are empty and
  the last comparator is not \<open>NONE\<close>); that the fractions of all keys, the completed ones included, fit into
  the size of a key; and that matching the cell with the given scan succeeds. Without \<open>bounding\<close> it fails,
  as \<open>possible_range_excludes\<close> below shows.\<close>

theorem possible_range_selects_same:
  assumes "s \<noteq> UNKNOWN" and "c_key c = key_of oc gs" and "fits gs"
    and "si_begin si = key_of ob bs" and "si_end si = key_of oe es" and "fits bs" and "fits es"
    and "fits (possible_range (si_keys si) False False True)" and "fits (possible_range (si_keys si) True True True)"
    and "\<forall>i \<in> set (si_keys si). bounding (ki_start i) \<and> bounding (ki_finish i)"
    and "\<not> has_opt OPT_KEY_EQUAL si"
    and "scan_matching rx ld lb s si c stop = Inr (selected, st)"
  shows "\<exists>si' st'. apply_possible_range_pure si = Inr si' \<and> scan_matching rx ld lb s si' c stop = Inr (selected, st')"
proof -
  let ?bs = "if bs = [] then possible_range (si_keys si) False False True else bs"
  let ?es = "if es = [] then possible_range (si_keys si) True True True else es"
  obtain si' where si': "apply_possible_range_pure si = Inr si'" using apply_pure_is [OF assms(4-9)] by (elim exE) simp
  note parts = apply_pure_parts [OF assms(4-9) si']
  have fits: "fits ?bs" "fits ?es" using assms(6-9) by simp_all
  obtain o1 o2 where o: "si_begin si' = key_of o1 ?bs" "si_end si' = key_of o2 ?es" using parts(1,2) by blast
  note kis = kis_matching_of [OF assms(3,1), of rx "si_keys si" oc]
  have same: "begin_ok s ?bs gs = begin_ok s bs gs \<and>
      end_ok s (has_opt OPT_RANGE_END_REST si') (has_opt OPT_KEY_EQUAL si') ?es gs =
      end_ok s (has_opt OPT_RANGE_END_REST si) (has_opt OPT_KEY_EQUAL si) es gs"
    if "\<forall>i \<in> set (si_keys si). key_matches rx s (ki_start i) gs \<and> key_matches rx s (ki_finish i) gs"
  proof -
    have "\<forall>k \<in> keys_of (si_keys si). bounding k \<and> key_matches rx s k gs"
      using that assms(10) by (auto simp: keys_of_def)
    note ok = begin_ok_possible [OF assms(1) this] end_ok_possible [OF assms(1) this]
    have "begin_ok s [] gs" "end_ok s rest same [] gs" for rest same by (simp_all add: begin_ok_def end_ok_def)
    then show ?thesis using ok parts(3,4,5) assms(11) by (cases "bs = []"; cases "es = []"; cases "?es = []") auto
  qed
  have "\<exists>st'. scan_matching rx ld lb s si' c stop = Inr (selected, st')"
    by (rule scan_matching_more [OF parts(6-11), of s c, unfolded assms(2), OF
      is_matching_begin_of [OF assms(1,4,6,3)] is_matching_end_of [OF assms(1,5,7,3)]
      is_matching_begin_of [OF assms(1) o(1) fits(1) assms(3)]
      is_matching_end_of [OF assms(1) o(2) fits(2) assms(3)] kis same assms(12)])
  then show ?thesis using si' by blast
qed

theorem possible_range_selects_same_witness:
  "\<forall>rx ld lb. \<exists>si' st'. apply_possible_range_pure ((Scan_new Col_PLAIN)\<lparr>si_keys :=
       [\<lparr>ki_start = [\<lparr>sf_text = [97], sf_comp = Comp_code GE\<rparr>], ki_finish = [\<lparr>sf_text = [99], sf_comp = Comp_code LE\<rparr>]\<rparr>]\<rparr>) =
       Inr si' \<and>
     scan_matching rx ld lb LEXIC si' (Cell_new\<lparr>c_key := key_of True [[98]]\<rparr>) False = Inr (True, st')"
proof (intro allI)
  fix rx ld lb
  let ?i = "\<lparr>ki_start = [\<lparr>sf_text = [97], sf_comp = Comp_code GE\<rparr>], ki_finish = [\<lparr>sf_text = [99], sf_comp = Comp_code LE\<rparr>]\<rparr>"
  define si where "si = (Scan_new Col_PLAIN)\<lparr>si_keys := [?i]\<rparr>"
  have f: "fits [[98]]" "fits [[97]]" "fits [[99]]" "fits []"
    by (simp_all add: fits_def encoded_length_vi24_def max_vb_defs)
  have si: "si_begin si = key_of False []" "si_end si = key_of False []" "si_keys si = [?i]" "\<not> has_opt OPT_KEY_EQUAL si"
    by (simp_all add: si_def Scan_new_def Key_new_def key_of_def has_opt_def del: Comp_code.simps)
  have r: "possible_range [?i] False False True = [[97]]" "possible_range [?i] True True True = [[99]]"
    by (simp_all add: possible_range_def fill_range_def range_size_def bounds_key_def del: Comp_code.simps)
  have "kis_matching rx LEXIC [?i] (key_of True [[98]]) = Inr True"
    by (simp add: kis_matching_of [OF f(1)] key_matches_def sk_count_matching_def sf_matching_def lexic_sides
      condition_lexic_def del: Comp_code.simps)
  then have "scan_matching rx ld lb LEXIC si (Cell_new\<lparr>c_key := key_of True [[98]]\<rparr>) False = Inr (True, False)"
    unfolding si_def by (intro scan_matching_only_keys) simp
  moreover have "bounding (ki_start ?i) \<and> bounding (ki_finish ?i)"
    by (simp add: bounding_def del: Comp_code.simps)
  ultimately show "\<exists>si' st'. apply_possible_range_pure ((Scan_new Col_PLAIN)\<lparr>si_keys := [?i]\<rparr>) = Inr si' \<and>
      scan_matching rx ld lb LEXIC si' (Cell_new\<lparr>c_key := key_of True [[98]]\<rparr>) False = Inr (True, st')"
    using possible_range_selects_same [OF _ _ f(1) si(1,2) f(4,4) _ _ _ si(4), of LEXIC
      "Cell_new\<lparr>c_key := key_of True [[98]]\<rparr>" True rx ld lb False True False] si(3) r f
    unfolding si_def by (simp del: Comp_code.simps)
qed

definition any_value :: key_interval where
  "any_value = \<lparr>ki_start = [\<lparr>sf_text = [109], sf_comp = Comp_code FI\<rparr>], ki_finish = []\<rparr>"

definition open_end :: key_interval where
  "open_end = \<lparr>ki_start = [\<lparr>sf_text = [97], sf_comp = Comp_code EQ\<rparr>, \<lparr>sf_text = [98], sf_comp = Comp_code EQ\<rparr>,
     \<lparr>sf_text = [], sf_comp = Comp_code NONE\<rparr>], ki_finish = []\<rparr>"

text \<open>Conditions outside of that: a text that a fraction carries for any value is taken for the begin, so a key that
  meets all conditions is no longer selected; so is a key with fewer fractions than conditions of
  which the last asks for nothing.\<close>

lemma possible_range_excludes:
  "kis_matching rx LEXIC [any_value] (key_of True [[97]]) = Inr True \<and>
    res_bind (apply_possible_range_pure ((Scan_new Col_PLAIN)\<lparr>si_keys := [any_value]\<rparr>))
      (\<lambda>si. is_matching_begin LEXIC si (key_of True [[97]])) = Inr False \<and>
    kis_matching rx LEXIC [open_end] (key_of True [[97]]) = Inr True \<and>
    res_bind (apply_possible_range_pure ((Scan_new Col_PLAIN)\<lparr>si_keys := [open_end]\<rparr>))
      (\<lambda>si. is_matching_begin LEXIC si (key_of True [[97]])) = Inr False"
proof -
  have f: "fits [[97]]" "fits [[109]]" "fits [[97], [98]]" "fits []"
    by (simp_all add: fits_def encoded_length_vi24_def max_vb_defs)
  have new: "Key_new = key_of False []" by (simp add: Key_new_def key_of_def)
  have r: "possible_range [any_value] False False True = [[109]]" "possible_range [any_value] True True True = []"
    "possible_range [open_end] False False True = [[97], [98]]" "possible_range [open_end] True True True = [[97], [98]]"
    by (simp_all add: possible_range_def fill_range_def range_size_def any_value_def open_end_def bounds_key_def eval_nat_numeral
      del: Comp_code.simps)
  have first: "res_bind (apply_possible_range_pure ((Scan_new Col_PLAIN)\<lparr>si_keys := [i]\<rparr>))
      (\<lambda>si. is_matching_begin LEXIC si (key_of True [[97]])) =
      Inr (begin_ok LEXIC (possible_range [i] False False True) [[97]])"
    if fits: "fits (possible_range [i] False False True)" "fits (possible_range [i] True True True)" for i
  proof -
    let ?si = "(Scan_new Col_PLAIN)\<lparr>si_keys := [i]\<rparr>"
    have si: "si_begin ?si = key_of False []" "si_end ?si = key_of False []" "si_keys ?si = [i]"
      by (simp_all add: Scan_new_def new)
    have "fits (possible_range (si_keys ?si) False False True)" "fits (possible_range (si_keys ?si) True True True)"
      using fits by (simp_all only: si(3))
    note known = si(1,2) f(4,4) this
    obtain si' where si': "apply_possible_range_pure ?si = Inr si'" using apply_pure_is [OF known] by (elim exE) simp
    obtain o1 where "si_begin si' = key_of o1 (possible_range [i] False False True)"
      using apply_pure_parts(1) [OF known si'] si(3) by auto
    from is_matching_begin_of [OF _ this fits(1) f(1), of LEXIC] show ?thesis by (simp add: si')
  qed
  have "begin_ok LEXIC [[109]] [[97]] = False" "begin_ok LEXIC [[97], [98]] [[97]] = False"
    by (simp_all add: begin_ok_def counts_first_def seq_upto_def upto_compare_def condition_lexic_def)
  moreover have "kis_matching rx LEXIC [i] (key_of True [[97]]) = Inr True" if "i = any_value \<or> i = open_end" for i
    using that by (auto simp: kis_matching_of [OF f(1)] any_value_def open_end_def key_matches_def sk_count_matching_def
      sf_matching_def simp del: Comp_code.simps)
  ultimately show ?thesis using first [of any_value] first [of open_end] r f by simp
qed

text \<open>A key behind the end of the range ends the scan, and rightly so in the sequences that do not count
  fractions: no later key is inside again. In those that do it is so for an end with a rest or for keys
  as long as the end, and for any keys with at least as many fractions as the end.\<close>

lemma passed_end_stays_passed:
  assumes "s \<noteq> UNKNOWN" and "fits gs" and "fits hs" and "fits es" and "si_end si = key_of oe es"
    and "is_matching_end s si (key_of o1 gs) = Inr False"
    and "key_compare s (key_of o1 gs) (key_of o2 hs) = Inr GT"
    and "s = LEXIC \<or> s = VOLUME \<or> has_opt OPT_RANGE_END_REST si \<or> has_opt OPT_KEY_EQUAL si \<or> length es \<le> length gs"
  shows "is_matching_end s si (key_of o2 hs) = Inr False"
proof -
  have "seq_compare s gs hs = GT" using assms(7) key_compare_of [OF assms(2,3)] by simp
  moreover have "\<not> counts_first s" if "s = LEXIC \<or> s = VOLUME" using that by (auto simp: counts_first_def)
  ultimately show ?thesis
    using assms(6,8) end_ok_later [OF assms(1), of gs hs]
    by (auto simp: is_matching_end_of [OF assms(1,5,4,2)] is_matching_end_of [OF assms(1,5,4,3)])
qed

lemma passed_end_stays_passed_witness:
  "is_matching_end LEXIC ((Scan_new Col_PLAIN)\<lparr>si_end := key_of True [[98]]\<rparr>) (key_of True [[99], [97]]) = Inr False"
proof -
  have f: "fits [[99]]" "fits [[99], [97]]" "fits [[98]]" by (simp_all add: fits_def encoded_length_vi24_def max_vb_defs)
  let ?si = "(Scan_new Col_PLAIN)\<lparr>si_end := key_of True [[98]]\<rparr>"
  have "end_ok LEXIC False False [[98]] [[99]] = False"
    by (simp add: end_ok_def counts_first_def seq_upto_def upto_compare_def condition_lexic_def)
  then have "is_matching_end LEXIC ?si (key_of True [[99]]) = Inr False"
    using is_matching_end_of [OF _ _ f(3,1), of LEXIC ?si True True] by (simp add: has_opt_def Scan_new_def)
  moreover have "key_compare LEXIC (key_of True [[99]]) (key_of True [[99], [97]]) = Inr GT"
    using key_compare_of [OF f(1,2), of LEXIC] by (simp del: key_compare.simps)
  ultimately show ?thesis using passed_end_stays_passed [OF _ f, of LEXIC ?si True True True] by simp
qed

definition until_bc :: scan_interval where
  "until_bc = (Scan_new Col_PLAIN)\<lparr>si_end := key_of True [[98], [99]]\<rparr>"

text \<open>In a sequence that counts fractions first a key with fewer fractions than the end can be taken to be
  behind it: with the end \<open>[b, c]\<close> the key \<open>[c]\<close> comes before it in the sequence, yet fails and ends the scan,
  and the key \<open>[a, a]\<close> that follows and lies inside is never seen.\<close>

lemma fc_end_stops_early:
  "key_compare FC_LEXIC (key_of True [[99]]) (key_of True [[97], [97]]) = Inr GT \<and>
    key_compare FC_LEXIC (key_of True [[99]]) (si_end until_bc) = Inr GT \<and>
    scan_matching rx ld lb FC_LEXIC until_bc (Cell_new\<lparr>c_key := key_of True [[99]]\<rparr>) False = Inr (False, True) \<and>
    scan_matching rx ld lb FC_LEXIC until_bc (Cell_new\<lparr>c_key := key_of True [[97], [97]]\<rparr>) False = Inr (True, False)"
proof -
  have f: "fits [[99]]" "fits [[98], [99]]" "fits [[97], [97]]" "fits []"
    by (simp_all add: fits_def encoded_length_vi24_def max_vb_defs)
  have new: "Key_new = key_of False []" by (simp add: Key_new_def key_of_def)
  have si: "si_end until_bc = key_of True [[98], [99]]" "si_begin until_bc = key_of False []" by (simp_all add: until_bc_def Scan_new_def new)
  have opt: "\<not> has_opt x until_bc" for x by (simp add: has_opt_def until_bc_def Scan_new_def)
  have "end_ok FC_LEXIC False False [[98], [99]] [[99]] = False" "end_ok FC_LEXIC False False [[98], [99]] [[97], [97]] = True"
    by (simp_all add: end_ok_def counts_first_def seq_upto_def upto_fc_compare_def upto_compare_def condition_lexic_def)
  then have e: "is_matching_end FC_LEXIC until_bc (key_of True [[99]]) = Inr False"
    "is_matching_end FC_LEXIC until_bc (key_of True [[97], [97]]) = Inr True"
    using is_matching_end_of [OF _ si(1) f(2) f(1), of FC_LEXIC] is_matching_end_of [OF _ si(1) f(2) f(3), of FC_LEXIC] opt
    by simp_all
  have scan: "scan_matching rx ld lb FC_LEXIC until_bc (Cell_new\<lparr>c_key := k\<rparr>) stop = Inr (b, \<not> b)"
    if "is_matching_end FC_LEXIC until_bc k = Inr b" for k b stop
    using that by (intro scan_matching_only_end [where k = "key_of True [[98], [99]]"]) (simp_all add: until_bc_def)
  have "key_compare FC_LEXIC (key_of True [[99]]) (key_of True [[97], [97]]) = Inr GT"
    "key_compare FC_LEXIC (key_of True [[99]]) (key_of True [[98], [99]]) = Inr GT"
    using f by (simp_all add: key_compare_of fc_compare_def del: key_compare.simps)
  then show ?thesis using scan [OF e(1), of False] scan [OF e(2), of False] by (simp add: si del: key_compare.simps)
qed

end
