(* ===== verification/Mutable_Interval.thy ===== *)
theory Mutable_Interval
  imports Mutable_Container Cells_Interval
begin

text \<open>
  The container writes a block and widens the block's interval:
  \<open>Mutable::write_and_free\<close> with an \<open>Interval\<close>, src/src/cc/lib/swcdb/db/Cells/Mutable.cc. The
  timestamps and the box grow cell by cell, the begin and the end only by the first and the last
  cell that was written, which is enough as the container is sorted.
\<close>

fun write_interval_loop ::
  "i64 \<Rightarrow> u64 \<Rightarrow> nat \<Rightarrow> u32 \<Rightarrow> nat \<Rightarrow> u32 \<Rightarrow> interval \<Rightarrow> cell option \<Rightarrow> cell option \<Rightarrow> cell list \<Rightarrow>
    (bytes \<times> nat \<times> u32 \<times> interval \<times> cell option \<times> cell option) res" where
  "write_interval_loop now ttl threshold max_cells fill cnt iv first final [] =
     Inr ([], 0, cnt, iv, first, final)"
| "write_interval_loop now ttl threshold max_cells fill cnt iv first final (c # cs) =
     (if (threshold = 0 \<or> threshold > fill) \<and> (max_cells = 0 \<or> max_cells > cnt)
      then (if has_expired now c ttl
            then res_bind (write_interval_loop now ttl threshold max_cells fill cnt iv first final cs)
              (\<lambda>(outs, n, r). Inr (outs, Suc n, r))
            else let out = cell_write c False in
              res_bind (interval_align_key (expand_ts iv (c_timestamp c)) (c_key c)) (\<lambda>(iv, _).
              res_bind (write_interval_loop now ttl threshold max_cells (fill + length out) (cnt + 1) iv
                  (if first = None then Some c else first) (if first = None then final else Some c) cs)
                (\<lambda>(outs, n, r). Inr (out @ outs, Suc n, r))))
      else Inr ([], 0, cnt, iv, first, final))"

definition write_and_free_interval ::
  "i64 \<Rightarrow> mutable \<Rightarrow> nat \<Rightarrow> u32 \<Rightarrow> interval \<Rightarrow> nat \<Rightarrow> u32 \<Rightarrow> (mutable \<times> bytes \<times> u32 \<times> interval) res" where
  "write_and_free_interval now m fill cnt iv threshold max_cells =
     (if m_size m = 0 then Inr (m, [], cnt, iv)
      else res_bind (write_interval_loop now (m_ttl m) threshold max_cells fill cnt iv None None (m_cells m))
        (\<lambda>(out, n, cnt, iv, first, final).
           res_bind (case first of
               None \<Rightarrow> Inr iv
             | Some f \<Rightarrow> res_bind (expand_begin iv f)
                 (\<lambda>iv. expand_end iv (case final of None \<Rightarrow> f | Some l \<Rightarrow> l)))
             (\<lambda>iv. Inr (if m_size m = of_nat n then m_free m
                        else if n \<noteq> 0 then remove_range m 0 n else m, out, cnt, iv))))"

section \<open>The loop\<close>

abbreviation live_cells :: "i64 \<Rightarrow> u64 \<Rightarrow> cell list \<Rightarrow> cell list" where
  "live_cells now ttl cs \<equiv> filter (\<lambda>c. \<not> has_expired now c ttl) cs"

definition grown :: "interval \<Rightarrow> interval \<Rightarrow> cell list \<Rightarrow> bool" where
  "grown iv iv' cs \<longleftrightarrow> iv_ok iv' \<and> iv_seq iv' = iv_seq iv \<and> iv_begin iv' = iv_begin iv \<and> iv_end iv' = iv_end iv \<and>
     (\<forall>c \<in> set cs. in_time iv' (c_timestamp c) \<and> in_box iv' (c_key c)) \<and>
     (\<forall>t. in_time iv t \<longrightarrow> in_time iv' t) \<and> (\<forall>k. in_box iv k \<longrightarrow> in_box iv' k)"

lemma grown_refl: "iv_ok iv \<Longrightarrow> grown iv iv []"
  by (simp add: grown_def)

lemma grown_trans: "grown a b xs \<Longrightarrow> grown b c ys \<Longrightarrow> grown a c (xs @ ys)"
  by (auto simp: grown_def)

lemma grow_cell:
  assumes "iv_ok iv" "key_rep (c_key c)"
  shows "\<exists>iv' chg. interval_align_key (expand_ts iv (c_timestamp c)) (c_key c) = Inr (iv', chg) \<and> grown iv iv' [c]"
proof -
  define a where "a = expand_ts iv (c_timestamp c)"
  note a = expand_ts_holds [OF assms(1), of "c_timestamp c", folded a_def]
  obtain b chg where b: "interval_align_key a (c_key c) = Inr (b, chg)" "iv_ok b" "in_box b (c_key c)"
    "\<forall>k. in_box a k \<longrightarrow> in_box b k" "b = a\<lparr>iv_min := iv_min b, iv_max := iv_max b\<rparr>"
    using interval_align_key_holds [OF conjunct1 [OF a] assms(2)] by blast
  note de = conjunct2 [OF conjunct2 [OF conjunct2 [OF a]]]
  have ea: "iv_seq a = iv_seq iv" "iv_begin a = iv_begin iv" "iv_end a = iv_end iv" "iv_min a = iv_min iv" "iv_max a = iv_max iv"
    by (subst de, simp)+
  have eb: "iv_seq b = iv_seq iv" "iv_begin b = iv_begin iv" "iv_end b = iv_end iv"
    "iv_earliest b = iv_earliest a" "iv_latest b = iv_latest a"
    by (subst b(5), simp add: ea)+
  have "in_box a k = in_box iv k" "in_time b t = in_time a t" for k t
    unfolding in_box_def in_time_def by (simp_all only: ea eb)
  then have "grown iv b [c]" using a b eb unfolding grown_def by auto
  then show ?thesis using b(1) a_def by blast
qed

definition end_cell :: "cell option \<Rightarrow> cell option \<Rightarrow> cell option" where
  "end_cell first final = (case final of None \<Rightarrow> first | Some l \<Rightarrow> Some l)"

text \<open>What the loop gives back: \<open>l\<close> are the live ones of the \<open>n\<close> cells it went over.\<close>

definition loop_result ::
  "cell list \<Rightarrow> u32 \<Rightarrow> interval \<Rightarrow> cell option \<Rightarrow> cell option \<Rightarrow>
    bytes \<Rightarrow> u32 \<Rightarrow> interval \<Rightarrow> cell option \<Rightarrow> cell option \<Rightarrow> bool" where
  "loop_result l cnt iv first final out cnt' iv' first' final' \<longleftrightarrow>
     out = cells_out l \<and> cnt' = cnt + of_nat (length l) \<and> grown iv iv' l \<and>
     first' = (if first = None \<and> l \<noteq> [] then Some (hd l) else first) \<and>
     end_cell first' final' = (if l = [] then end_cell first final else Some (last l))"

lemma loop_result_Nil: "iv_ok iv \<Longrightarrow> loop_result [] cnt iv first final [] cnt iv first final"
  by (simp add: loop_result_def grown_refl)

lemma loop_result_Cons:
  assumes "grown iv iv1 [c]" "first = None \<longrightarrow> final = None"
    and "loop_result l (cnt + 1) iv1 (if first = None then Some c else first)
      (if first = None then final else Some c) out cnt' iv' first' final'"
  shows "loop_result (c # l) cnt iv first final (cell_write c False @ out) cnt' iv' first' final'"
proof -
  have "grown iv iv' (c # l)" using grown_trans [OF assms(1)] assms(3) by (auto simp: loop_result_def)
  then show ?thesis using assms(2,3) by (cases first) (auto simp: loop_result_def end_cell_def)
qed

lemma write_interval_loop_prefix:
  assumes "iv_ok iv" "\<forall>c \<in> set cs. key_rep (c_key c)" "first = None \<longrightarrow> final = None"
  shows "\<exists>out n cnt' iv' first' final'. write_interval_loop now ttl threshold max_cells fill cnt iv first final cs =
      Inr (out, n, cnt', iv', first', final') \<and> n \<le> length cs \<and>
    loop_result (live_cells now ttl (take n cs)) cnt iv first final out cnt' iv' first' final'"
  using assms
proof (induction cs arbitrary: fill cnt iv first final)
  case Nil
  then show ?case by (simp add: loop_result_Nil)
next
  case (Cons c cs)
  show ?case
  proof (cases "(threshold = 0 \<or> threshold > fill) \<and> (max_cells = 0 \<or> max_cells > cnt)")
    case False
    have "write_interval_loop now ttl threshold max_cells fill cnt iv first final (c # cs) = Inr ([], 0, cnt, iv, first, final)"
      unfolding write_interval_loop.simps if_not_P [OF False] ..
    moreover have "loop_result (live_cells now ttl (take 0 (c # cs))) cnt iv first final [] cnt iv first final"
      using loop_result_Nil [OF Cons.prems(1)] by simp
    ultimately show ?thesis by blast
  next
    case run: True
    note step = write_interval_loop.simps(2) [of now ttl threshold max_cells fill cnt iv first final c cs, unfolded if_P [OF run]]
    show ?thesis
    proof (cases "has_expired now c ttl")
      case True
      obtain out n cnt' iv' first' final' where
        w: "write_interval_loop now ttl threshold max_cells fill cnt iv first final cs = Inr (out, n, cnt', iv', first', final')"
          "n \<le> length cs" "loop_result (live_cells now ttl (take n cs)) cnt iv first final out cnt' iv' first' final'"
        using Cons.IH [of iv first final fill cnt] Cons.prems by auto
      have r: "loop_result (live_cells now ttl (take (Suc n) (c # cs))) cnt iv first final out cnt' iv' first' final'"
        using w(3) True by simp
      have l: "write_interval_loop now ttl threshold max_cells fill cnt iv first final (c # cs) =
          Inr (out, Suc n, cnt', iv', first', final')"
        unfolding step using True w(1) by simp
      have n: "Suc n \<le> length (c # cs)" using w(2) by simp
      show ?thesis by (rule exI)+ (rule conjI [OF l conjI [OF n r]])
    next
      case False
      obtain iv1 chg where a: "interval_align_key (expand_ts iv (c_timestamp c)) (c_key c) = Inr (iv1, chg)"
        "grown iv iv1 [c]" using grow_cell Cons.prems by (metis list.set_intros(1))
      let ?first = "if first = None then Some c else first" and ?final = "if first = None then final else Some c"
      let ?loop = "write_interval_loop now ttl threshold max_cells (fill + length (cell_write c False)) (cnt + 1) iv1 ?first ?final cs"
      have ok1: "iv_ok iv1" "\<forall>c \<in> set cs. key_rep (c_key c)" "?first = None \<longrightarrow> ?final = None"
        using a(2) Cons.prems by (auto simp: grown_def)
      obtain out n cnt' iv' first' final' where w: "?loop = Inr (out, n, cnt', iv', first', final')" "n \<le> length cs"
          "loop_result (live_cells now ttl (take n cs)) (cnt + 1) iv1 ?first ?final out cnt' iv' first' final'"
        using Cons.IH [where fill = "fill + length (cell_write c False)" and cnt = "cnt + 1", OF ok1] by blast
      have r: "loop_result (live_cells now ttl (take (Suc n) (c # cs))) cnt iv first final (cell_write c False @ out) cnt' iv' first' final'"
        using loop_result_Cons [OF a(2) Cons.prems(3) w(3)] False by simp
      have l: "write_interval_loop now ttl threshold max_cells fill cnt iv first final (c # cs) =
          Inr (cell_write c False @ out, Suc n, cnt', iv', first', final')"
        unfolding step using False a(1) w(1) by (simp add: Let_def)
      have n: "Suc n \<le> length (c # cs)" using w(2) by simp
      show ?thesis by (rule exI)+ (rule conjI [OF l conjI [OF n r]])
    qed
  qed
qed

section \<open>The block's interval holds its cells\<close>

lemma first_last_hold:
  assumes iv: "iv_ok iv" "iv_seq iv = s" and l: "cells_sorted s l" "\<forall>c \<in> set l. key_rep (c_key c)"
    and h: "l \<noteq> []" "from_begin iv (c_key (hd l))" "to_end iv (c_key (last l))" and c: "c \<in> set l"
  shows "from_begin iv (c_key c) \<and> to_end iv (c_key c)"
proof -
  have s: "s \<noteq> UNKNOWN" and rep: "key_rep (iv_begin iv)" "key_rep (iv_end iv)" using iv by (auto simp: iv_ok_def)
  note o = key_order [OF s]
  have k: "key_rep (c_key (hd l))" "key_rep (c_key (last l))" "key_rep (c_key c)" using l(2) h(1) c by auto
  obtain i where i: "i < length l" "c = l ! i" using c by (auto simp: in_set_conv_nth)
  have le: "cle s (l ! a) (l ! b)" if "a \<le> b" "b < length l" for a b
    using that l comp_order.cmp_refl [OF o, of "c_key (l ! a)"]
    by (cases "a = b") (auto simp: cells_sorted_def sorted_wrt_iff_nth_less cle_def)
  have "cle s (hd l) c" "cle s c (last l)" using le [of 0 i] le [of i "length l - 1"] i h(1)
    by (auto simp: hd_conv_nth last_conv_nth)
  then have "key_cmp s (c_key (hd l)) (c_key c) \<noteq> LT" "key_cmp s (c_key (last l)) (c_key c) \<noteq> GT"
    using comp_order.cmp_swap [OF o k(2,3)] by (auto simp: cle_def)
  moreover have "key_cmp s (iv_end iv) (c_key c) \<noteq> GT" if "key_cmp s (iv_end iv) (c_key (last l)) \<noteq> GT"
    using that comp_order.not_LT_trans [OF o k(3,2) rep(2)] comp_order.cmp_swap [OF o] rep(2) k \<open>cle s c (last l)\<close>
    by (auto simp: cle_def)
  ultimately show ?thesis
    using h(2,3) iv(2) comp_order.not_LT_trans [OF o rep(1) k(1,3)] by (auto simp: from_begin_def to_end_def)
qed

lemma begin_end_step:
  assumes iv: "iv_ok iv" and f: "key_rep (c_key f)" "\<not> key_empty (c_key f)" and l: "key_rep (c_key l)" "\<not> key_empty (c_key l)"
  shows "\<exists>iv'. res_bind (expand_begin iv f) (\<lambda>iv. expand_end iv l) = Inr iv' \<and> iv_ok iv' \<and>
    iv_seq iv' = iv_seq iv \<and> from_begin iv' (c_key f) \<and> to_end iv' (c_key l) \<and>
    (\<forall>t. in_time iv' t = in_time iv t) \<and> (\<forall>k. in_box iv' k = in_box iv k)"
proof -
  obtain a where a: "expand_begin iv f = Inr a" "iv_ok a" "from_begin a (c_key f)"
    "a = iv\<lparr>iv_begin := iv_begin a, iv_was_set := True\<rparr>"
    using expand_begin_holds [OF iv f] by blast
  obtain b where b: "expand_end a l = Inr b" "iv_ok b" "to_end b (c_key l)"
    "b = a\<lparr>iv_end := iv_end b, iv_was_set := True\<rparr>"
    using expand_end_holds [OF a(2) l] by blast
  have ea: "iv_seq a = iv_seq iv" "iv_earliest a = iv_earliest iv" "iv_latest a = iv_latest iv"
    "iv_min a = iv_min iv" "iv_max a = iv_max iv"
    by (subst a(4), simp)+
  have eb: "iv_seq b = iv_seq iv" "iv_begin b = iv_begin a" "iv_earliest b = iv_earliest iv" "iv_latest b = iv_latest iv"
    "iv_min b = iv_min iv" "iv_max b = iv_max iv"
    by (subst b(4), simp add: ea)+
  have "from_begin b k = from_begin a k" "in_time b t = in_time iv t" "in_box b k = in_box iv k" for k t
    unfolding from_begin_def in_time_def in_box_def by (simp_all only: ea eb)
  then show ?thesis using a(1,3) b(1-3) eb(1) by (intro exI [of _ b]) simp
qed

text \<open>C20: Writing a block out of a sorted container returns: what is written is the live cells of a
  prefix of the container, counted; the rest stays, sorted and with exact counters; and the block's
  interval then holds every cell that was written: its key between begin and end, its timestamp
  between earliest and latest, its fractions in the aligned box. Cells have a key with a fraction.\<close>

theorem block_interval_holds_cells:
  assumes m: "container_ok m" "length (m_cells m) < 2 ^ 64" "list_all (\<lambda>c. \<not> key_empty (c_key c)) (m_cells m)"
    and iv: "iv_ok iv" "iv_seq iv = m_seq m"
  shows "\<exists>m' out cnt' iv' n. write_and_free_interval now m fill cnt iv threshold max_cells = Inr (m', out, cnt', iv') \<and>
    n \<le> length (m_cells m) \<and> m_cells m' = drop n (m_cells m) \<and> container_ok m' \<and> iv_ok iv' \<and>
    (let l = live_cells now (m_ttl m) (take n (m_cells m)) in
      out = cells_out l \<and> cnt' = cnt + of_nat (length l) \<and>
      (\<forall>c \<in> set l. from_begin iv' (c_key c) \<and> to_end iv' (c_key c) \<and> in_time iv' (c_timestamp c) \<and> in_box iv' (c_key c)))"
proof (cases "m_size m = 0")
  case True
  then have "m_cells m = []"
    using m by (auto simp: container_ok_def word_of_nat_eq_0_iff nat_dvd_not_less)
  then show ?thesis using m iv True by (simp add: write_and_free_interval_def)
next
  case False
  have rep: "\<forall>c \<in> set (m_cells m). key_rep (c_key c)"
    using m(1) by (simp add: container_ok_def list_all_iff cell_ok_def)
  obtain out n cnt' iv1 f e where w: "write_interval_loop now (m_ttl m) threshold max_cells fill cnt iv None None (m_cells m) =
      Inr (out, n, cnt', iv1, f, e)" "n \<le> length (m_cells m)"
    and lr: "loop_result (live_cells now (m_ttl m) (take n (m_cells m))) cnt iv None None out cnt' iv1 f e"
    using write_interval_loop_prefix [OF iv(1) rep] by blast
  let ?l = "live_cells now (m_ttl m) (take n (m_cells m))"
  have l: "out = cells_out ?l" "cnt' = cnt + of_nat (length ?l)" "grown iv iv1 ?l"
    "f = (if ?l \<noteq> [] then Some (hd ?l) else None)" "?l \<noteq> [] \<Longrightarrow> end_cell f e = Some (last ?l)"
    using lr unfolding loop_result_def by auto
  let ?m = "if m_size m = of_nat n then m_free m else if n \<noteq> 0 then remove_range m 0 n else m"
  have "m_size m = of_nat n \<longleftrightarrow> n = length (m_cells m)"
    using m w(2) by (auto simp: container_ok_def word_unat_eq_iff)
  then have m': "m_cells ?m = drop n (m_cells m)" "container_ok ?m"
    using m(1) remove_range_first [OF m(1), of n] by (auto simp: container_ok_def m_free_def cells_sorted_def)
  have iv1: "iv_ok iv1" "iv_seq iv1 = m_seq m" using l(3) iv(2) by (simp_all add: grown_def)
  show ?thesis
  proof (cases "?l = []")
    case True
    then have "write_and_free_interval now m fill cnt iv threshold max_cells = Inr (?m, out, cnt', iv1)"
      using False w(1) l(4) by (simp add: write_and_free_interval_def)
    moreover have "\<forall>c \<in> set ?l. from_begin iv1 (c_key c) \<and> to_end iv1 (c_key c) \<and> in_time iv1 (c_timestamp c) \<and>
      in_box iv1 (c_key c)" unfolding True by simp
    ultimately show ?thesis using m' iv1(1) l(1,2) w(2) unfolding Let_def by blast
  next
    case ne: False
    have lm: "set ?l \<subseteq> set (m_cells m)" by (auto dest: in_set_takeD)
    then have keys: "\<forall>c \<in> set ?l. key_rep (c_key c) \<and> \<not> key_empty (c_key c)"
      using rep m(3) by (auto simp: list_all_iff)
    then have fl: "key_rep (c_key (hd ?l))" "\<not> key_empty (c_key (hd ?l))" "key_rep (c_key (last ?l))" "\<not> key_empty (c_key (last ?l))"
      using hd_in_set [OF ne] last_in_set [OF ne] by blast+
    obtain iv2 where b: "res_bind (expand_begin iv1 (hd ?l)) (\<lambda>iv. expand_end iv (last ?l)) = Inr iv2" "iv_ok iv2"
      "iv_seq iv2 = iv_seq iv1" "from_begin iv2 (c_key (hd ?l))" "to_end iv2 (c_key (last ?l))"
      "\<forall>t. in_time iv2 t = in_time iv1 t" "\<forall>k. in_box iv2 k = in_box iv1 k"
      using begin_end_step [OF iv1(1) fl] by blast
    have "(case e of None \<Rightarrow> hd ?l | Some x \<Rightarrow> x) = last ?l"
      using l(4,5) ne by (auto simp: end_cell_def split: option.splits)
    then have "write_and_free_interval now m fill cnt iv threshold max_cells = Inr (?m, out, cnt', iv2)"
      using False w(1) l(4) ne b(1) by (simp add: write_and_free_interval_def)
    moreover have "cells_sorted (m_seq m) ?l"
      using m(1) by (simp add: container_ok_def cells_sorted_def sorted_wrt_filter sorted_wrt_take)
    then have "\<forall>c \<in> set ?l. from_begin iv2 (c_key c) \<and> to_end iv2 (c_key c)"
      using first_last_hold [OF b(2) _ _ _ ne b(4,5)] b(3) iv1(2) keys by simp
    moreover have "\<forall>c \<in> set ?l. in_time iv2 (c_timestamp c) \<and> in_box iv2 (c_key c)"
      using l(3) b(6,7) by (simp add: grown_def)
    ultimately show ?thesis using m' b(2) l(1,2) w(2) unfolding Let_def by blast
  qed
qed

theorem block_interval_holds_cells_witness:
  "\<exists>m' out cnt' iv' n. write_and_free_interval 0 (replicated 3 1) 0 0 (Interval_new LEXIC) 0 2 = Inr (m', out, cnt', iv') \<and>
    n \<le> 3 \<and> m_cells m' = drop n (m_cells (replicated 3 1)) \<and>
    (\<forall>c \<in> set (live_cells 0 (m_ttl (replicated 3 1)) (take n (m_cells (replicated 3 1)))).
      from_begin iv' (c_key c) \<and> to_end iv' (c_key c))"
proof -
  have "list_all (\<lambda>c. \<not> key_empty (c_key c)) (m_cells (replicated 3 1))" "length (m_cells (replicated 3 1)) < 2 ^ 64"
    by (auto simp: list_all_iff plain_cell_def set_timestamp_with_rev_is_ts_def set_timestamp_def set_value_def
        cell_value_def key_empty_def Let_def)
  moreover have "iv_ok (Interval_new LEXIC)" by (rule Interval_new_ok) simp
  moreover have "iv_seq (Interval_new LEXIC) = m_seq (replicated 3 1)" by (simp add: Interval_new_def)
  ultimately obtain m' out cnt' iv' n where r: "write_and_free_interval 0 (replicated 3 1) 0 0 (Interval_new LEXIC) 0 2 = Inr (m', out, cnt', iv')"
    "n \<le> length (m_cells (replicated 3 1))" "m_cells m' = drop n (m_cells (replicated 3 1))"
    and l: "let l = live_cells 0 (m_ttl (replicated 3 1)) (take n (m_cells (replicated 3 1))) in
      out = cells_out l \<and> cnt' = 0 + of_nat (length l) \<and>
      (\<forall>c \<in> set l. from_begin iv' (c_key c) \<and> to_end iv' (c_key c) \<and> in_time iv' (c_timestamp c) \<and> in_box iv' (c_key c))"
    using block_interval_holds_cells [of "replicated 3 1" "Interval_new LEXIC" 0 0 0 0 2] replicated_ok by blast
  have "\<forall>c \<in> set (live_cells 0 (m_ttl (replicated 3 1)) (take n (m_cells (replicated 3 1)))).
      from_begin iv' (c_key c) \<and> to_end iv' (c_key c)"
    using l unfolding Let_def by blast
  with r(1,3) show ?thesis using r(2) by (intro exI conjI) simp_all
qed

end
