(* ===== verification/Mutable_Scan.thy ===== *)
theory Mutable_Scan
  imports Specs_Range Mutable_Interval
begin

text \<open>
  Scans over a container: src/src/cc/include/swcdb/db/Cells/ReqScan.h with ReqScan.cc, the scans of
  db/Cells/Mutable.cc, the cells of a result (db/Cells/Result.h with Result.cc), and the receiver that answers a
  select, src/src/cc/include/swcdb/ranger/callbacks/RangeQuerySelect.h. What a request does with a cell and
  how it selects are virtual functions, arguments here; the interface \<open>receiver\<close> is what a scan relies
  on. Times of the profile, logging and the sending of the response are left out.
\<close>

section \<open>Requests\<close>

record 'r req_scan =
  rq_spec :: scan_interval
  rq_only_keys :: bool
  rq_offset :: u64
  rq_cells_count :: u64
  rq_cells_bytes :: u64
  rq_skipped :: u64
  rq_state :: 'r

text \<open>The specification moved in, or copied.\<close>

definition ReqScan_of :: "scan_interval \<Rightarrow> 'r \<Rightarrow> 'r req_scan" where
  "ReqScan_of spec st = \<lparr>rq_spec = spec, rq_only_keys = is_only_keys (si_flags spec),
     rq_offset = f_offset (si_flags spec), rq_cells_count = 0, rq_cells_bytes = 0, rq_skipped = 0, rq_state = st\<rparr>"

definition ReqScan_copied :: "scan_interval \<Rightarrow> 'r \<Rightarrow> 'r req_scan" where
  "ReqScan_copied spec st = ReqScan_of (Scan_copy spec) st"

definition ReqScan_range :: "key \<Rightarrow> key \<Rightarrow> 'r \<Rightarrow> 'r req_scan" where
  "ReqScan_range b e st = \<lparr>rq_spec = Scan_range b e, rq_only_keys = False, rq_offset = 0, rq_cells_count = 0,
     rq_cells_bytes = 0, rq_skipped = 0, rq_state = st\<rparr>"

definition offset_adjusted :: "'r req_scan \<Rightarrow> 'r req_scan \<times> bool" where
  "offset_adjusted rq =
     (if rq_offset rq \<noteq> 0 then (rq\<lparr>rq_offset := rq_offset rq - 1\<rparr>, True) else (rq, False))"

definition profile_add_cell :: "u32 \<Rightarrow> 'r req_scan \<Rightarrow> 'r req_scan" where
  "profile_add_cell n rq = rq\<lparr>rq_cells_count := rq_cells_count rq + 1, rq_cells_bytes := rq_cells_bytes rq + ucast n\<rparr>"

definition skip_cell :: "'r req_scan \<Rightarrow> 'r req_scan" where
  "skip_cell rq = rq\<lparr>rq_skipped := rq_skipped rq + 1\<rparr>"

text \<open>The selector of a request that has none of its own.\<close>

definition selector :: "(bytes \<Rightarrow> bytes \<Rightarrow> bool) \<Rightarrow> ld \<Rightarrow> libs \<Rightarrow> KeySeq \<Rightarrow> 'r req_scan \<Rightarrow> cell \<Rightarrow> bool \<Rightarrow>
    (bool \<times> bool) res" where
  "selector rx ld lb s rq c stop = scan_matching rx ld lb s (rq_spec rq) c stop"

section \<open>The scans\<close>

text \<open>The place to start from.\<close>

definition get_specs :: "mutable \<Rightarrow> scan_interval \<Rightarrow> (nat \<times> nat) res option" where
  "get_specs m si =
     (if key_empty (si_offset_key si)
      then (if key_empty (si_begin si) then Some (Inr (0, 0)) else m_get m (si_begin si) 0)
      else m_get m (si_offset_key si) 0)"

definition passed_over :: "i64 \<Rightarrow> mutable \<Rightarrow> bool \<Rightarrow> cell \<Rightarrow> bool" where
  "passed_over now m only_deletes c \<longleftrightarrow>
     (if only_deletes then c_flag c = INSERT else c_flag c \<noteq> INSERT) \<or> has_expired now c (m_ttl m)"

fun scan_single_loop ::
  "i64 \<Rightarrow> mutable \<Rightarrow> ('r req_scan \<Rightarrow> cell \<Rightarrow> bool \<Rightarrow> (bool \<times> bool) res) \<Rightarrow> ('r req_scan \<Rightarrow> cell \<Rightarrow> 'r req_scan \<times> bool) \<Rightarrow>
    bool \<Rightarrow> bool \<Rightarrow> cell list \<Rightarrow> 'r req_scan \<Rightarrow> 'r req_scan res" where
  "scan_single_loop now m sel add od stop [] rq = Inr rq"
| "scan_single_loop now m sel add od stop (c # cs) rq =
     (if stop then Inr rq
      else if passed_over now m od c then scan_single_loop now m sel add od stop cs (skip_cell rq)
      else res_bind (sel rq c stop) (\<lambda>(ok, stop).
        if \<not> ok then scan_single_loop now m sel add od stop cs (skip_cell rq)
        else (let (rq, adjusted) = offset_adjusted rq
          in if adjusted then scan_single_loop now m sel add od stop cs (skip_cell rq)
             else (let (rq, more) = add rq c
               in if more then scan_single_loop now m sel add od stop cs rq else Inr rq))))"

definition scan_version_single where
  "scan_version_single now m sel add pos rq =
     scan_single_loop now m sel add (is_only_deletes (si_flags (rq_spec rq))) False (drop pos (m_cells m)) rq"

text \<open>With several versions: after the cell to go on behind, and no more versions of a key than wanted. \<open>chk\<close>
  is \<open>chk_align\<close>, \<open>last\<close> the key the versions of which are counted.\<close>

fun scan_multi_loop ::
  "i64 \<Rightarrow> mutable \<Rightarrow> ('r req_scan \<Rightarrow> cell \<Rightarrow> bool \<Rightarrow> (bool \<times> bool) res) \<Rightarrow> ('r req_scan \<Rightarrow> cell \<Rightarrow> 'r req_scan \<times> bool) \<Rightarrow>
    bool \<Rightarrow> bool \<Rightarrow> bool \<Rightarrow> u32 \<Rightarrow> key option \<Rightarrow> cell list \<Rightarrow> 'r req_scan \<Rightarrow> 'r req_scan res" where
  "scan_multi_loop now m sel add od stop chk rv last_key [] rq = Inr rq"
| "scan_multi_loop now m sel add od stop chk rv last_key (c # cs) rq =
     (if stop then Inr rq
      else if passed_over now m od c then scan_multi_loop now m sel add od stop chk rv last_key cs (skip_cell rq)
      else res_bind (if chk then key_compare (m_seq m) (si_offset_key (rq_spec rq)) (c_key c) else Inr GT) (\<lambda>cp.
        if chk \<and> cp = LT then scan_multi_loop now m sel add od stop chk rv last_key cs (skip_cell rq)
        else if chk \<and> cp = EQ \<and> \<not> matching_rev (rq_spec rq) (c_timestamp c) (is_time_order_desc c)
        then scan_multi_loop now m sel add od stop (rv - 1 \<noteq> 0) (rv - 1) (Some (c_key c)) cs (skip_cell rq)
        else res_bind (sel rq c stop) (\<lambda>(ok, stop).
          if \<not> ok then scan_multi_loop now m sel add od stop False rv last_key cs (skip_cell rq)
          else (let same = (case last_key of None \<Rightarrow> False | Some k \<Rightarrow> key_equal k (c_key c))
            in if same \<and> rv = 0 then scan_multi_loop now m sel add od stop False rv last_key cs (skip_cell rq)
               else (let rv = (if same then rv else f_max_versions (si_flags (rq_spec rq)));
                   last_key = (if same then last_key else Some (c_key c));
                   (rq, adjusted) = offset_adjusted rq
                 in if adjusted then scan_multi_loop now m sel add od stop False (rv - 1) last_key cs (skip_cell rq)
                    else (let (rq, more) = add rq c
                      in if more then scan_multi_loop now m sel add od stop False (rv - 1) last_key cs rq
                         else Inr rq))))))"

definition scan_version_multi where
  "scan_version_multi now m sel add pos rq =
     (let chk = \<not> key_empty (si_offset_key (rq_spec rq))
      in scan_multi_loop now m sel add (is_only_deletes (si_flags (rq_spec rq))) False chk
        (if chk then f_max_versions (si_flags (rq_spec rq)) else 0) None (drop pos (m_cells m)) rq)"

definition m_scan ::
  "i64 \<Rightarrow> mutable \<Rightarrow> ('r req_scan \<Rightarrow> cell \<Rightarrow> bool \<Rightarrow> (bool \<times> bool) res) \<Rightarrow> ('r req_scan \<Rightarrow> cell \<Rightarrow> 'r req_scan \<times> bool) \<Rightarrow>
    'r req_scan \<Rightarrow> 'r req_scan res option" where
  "m_scan now m sel add rq =
     (if m_size m = 0 then Some (Inr rq)
      else case get_specs m (rq_spec rq) of
          None \<Rightarrow> None
        | Some (Inl e) \<Rightarrow> Some (Inl e)
        | Some (Inr (pos, off)) \<Rightarrow>
            Some (if m_max_revs m = 1 then scan_version_single now m sel add pos rq
              else scan_version_multi now m sel add pos rq))"

section \<open>Results\<close>

record result =
  rs_cells :: "cell list"
  rs_bytes :: u64
  rs_ttl :: i64

definition Result_new :: "i64 \<Rightarrow> result" where
  "Result_new ttl = \<lparr>rs_cells = [], rs_bytes = 0, rs_ttl = ttl\<rparr>"

definition rs_free :: "result \<Rightarrow> result" where
  "rs_free r = r\<lparr>rs_cells := [], rs_bytes := 0\<rparr>"

text \<open>Taking over the cells of another result; the other is left without.\<close>

definition rs_take :: "result \<Rightarrow> result \<Rightarrow> result \<times> result" where
  "rs_take r other =
     (r\<lparr>rs_cells := rs_cells r @ rs_cells other,
        rs_bytes := if rs_cells r = [] then rs_bytes other else rs_bytes r + rs_bytes other\<rparr>,
      other\<lparr>rs_cells := [], rs_bytes := 0\<rparr>)"

definition rs_add :: "result \<Rightarrow> cell \<Rightarrow> bool \<Rightarrow> result" where
  "rs_add r c no_value =
     (let a = Cell_of_no_value c no_value
      in r\<lparr>rs_cells := rs_cells r @ [a], rs_bytes := rs_bytes r + of_nat (cell_encoded_length a False)\<rparr>)"

definition rs_add_buffer :: "result \<Rightarrow> bytes \<Rightarrow> u64 \<Rightarrow> (result \<times> nat) res option" where
  "rs_add_buffer r ptr len =
     map_option (\<lambda>cs. res_bind cs (\<lambda>cs.
       Inr (r\<lparr>rs_cells := rs_cells r @ cs, rs_bytes := rs_bytes r + len\<rparr>, length cs)))
       (read_while (length ptr) (cell_read True) \<lparr>mem = ptr, remain = len\<rparr>)"

definition rs_takeout :: "result \<Rightarrow> nat \<Rightarrow> (result \<times> cell) res" where
  "rs_takeout r i =
     (if i < length (rs_cells r)
      then Inr (r\<lparr>rs_cells := take i (rs_cells r) @ drop (Suc i) (rs_cells r),
          rs_bytes := rs_bytes r - of_nat (cell_encoded_length (rs_cells r ! i) False)\<rparr>, rs_cells r ! i)
      else Inl Undefined_Behaviour)"

definition rs_takeout_end :: "result \<Rightarrow> nat \<Rightarrow> (result \<times> cell) res" where
  "rs_takeout_end r i =
     (if i \<le> length (rs_cells r) then rs_takeout r (length (rs_cells r) - i) else Inl Undefined_Behaviour)"

definition rs_write :: "i64 \<Rightarrow> result \<Rightarrow> bytes" where
  "rs_write now r = concat (map (\<lambda>c. if has_expired now c (rs_ttl r) then [] else cell_write c False) (rs_cells r))"

text \<open>Writing cells out with their interval, by the same loop as the container; what was passed is freed, from
  the last one back to the first, which is undefined when none was passed.\<close>

definition rs_write_and_free ::
  "i64 \<Rightarrow> result \<Rightarrow> nat \<Rightarrow> u32 \<Rightarrow> interval \<Rightarrow> nat \<Rightarrow> u32 \<Rightarrow> (result \<times> bytes \<times> u32 \<times> interval) res" where
  "rs_write_and_free now r fill cnt iv threshold max_cells =
     (if rs_cells r = [] then Inr (r, [], cnt, iv)
      else res_bind (write_interval_loop now (rs_ttl r) threshold max_cells fill cnt iv None None (rs_cells r))
        (\<lambda>(out, n, cnt, iv, first, final).
           res_bind (case first of
               None \<Rightarrow> Inr iv
             | Some f \<Rightarrow> res_bind (expand_begin iv f)
                 (\<lambda>iv. expand_end iv (case final of None \<Rightarrow> f | Some l \<Rightarrow> l)))
             (\<lambda>iv. if n = length (rs_cells r) then Inr (rs_free r, out, cnt, iv)
                   else if n = 0 then Inl Undefined_Behaviour
                   else Inr (r\<lparr>rs_cells := drop n (rs_cells r), rs_bytes := rs_bytes r -
                       sum_list (map (\<lambda>c. of_nat (cell_encoded_length c False)) (take n (rs_cells r)))\<rparr>, out, cnt, iv))))"

section \<open>Receivers\<close>

text \<open>The receiver of the tests, which keeps the cells.\<close>

definition test_reached_limits :: "result req_scan \<Rightarrow> bool" where
  "test_reached_limits rq \<longleftrightarrow>
     (let f = si_flags (rq_spec rq) in
      (f_limit f \<noteq> 0 \<and> f_limit f \<le> of_nat (length (rs_cells (rq_state rq)))) \<or>
      (f_max_buffer f \<noteq> 0 \<and> ucast (f_max_buffer f) \<le> rs_bytes (rq_state rq)))"

definition test_add :: "result req_scan \<Rightarrow> cell \<Rightarrow> result req_scan \<times> bool" where
  "test_add rq c = (let rq = rq\<lparr>rq_state := rs_add (rq_state rq) c (rq_only_keys rq)\<rparr>
     in (rq, \<not> test_reached_limits rq))"

text \<open>The receiver of a select: encoded cells up to the limit of cells, or until one more cell of their mean
  length would not fit. How its specification is completed from the configuration of the range.\<close>

definition RangeQuerySelect_of :: "scan_interval \<Rightarrow> column_type \<Rightarrow> u32 \<Rightarrow> u32 \<Rightarrow> bytes req_scan res" where
  "RangeQuerySelect_of spec typ versions blk_size =
     (let rq = ReqScan_of spec [];
          si = rq_spec rq;
          si = (if svs_values (si_values si) \<noteq> [] then si\<lparr>si_values := (si_values si)\<lparr>svs_type := typ\<rparr>\<rparr> else si);
          si = (if f_max_versions (si_flags si) = 0 then si\<lparr>si_flags := (si_flags si)\<lparr>f_max_versions := versions\<rparr>\<rparr> else si);
          si = (if f_max_buffer (si_flags si) = 0 \<or> f_max_buffer (si_flags si) > blk_size
                then si\<lparr>si_flags := (si_flags si)\<lparr>f_max_buffer := blk_size\<rparr>\<rparr> else si)
      in res_bind (apply_possible_range_pure si) (\<lambda>si. Inr (rq\<lparr>rq_spec := si\<rparr>)))"

definition select_reached_limits :: "'r req_scan \<Rightarrow> bool" where
  "select_reached_limits rq \<longleftrightarrow>
     (let f = si_flags (rq_spec rq) in
      (f_limit f \<noteq> 0 \<and> f_limit f \<le> rq_cells_count rq) \<or>
      (rq_cells_count rq \<noteq> 0 \<and>
       ucast (f_max_buffer f) \<le> rq_cells_bytes rq + rq_cells_bytes rq div rq_cells_count rq))"

definition select_add :: "bytes req_scan \<Rightarrow> cell \<Rightarrow> bytes req_scan \<times> bool" where
  "select_add rq c =
     (let bs = cell_write c (rq_only_keys rq);
          rq = profile_add_cell (of_nat (length bs)) (rq\<lparr>rq_state := rq_state rq @ bs\<rparr>)
      in (rq, \<not> select_reached_limits rq))"

text \<open>The scan of the tests of the container itself.\<close>

fun test_use_loop ::
  "i64 \<Rightarrow> mutable \<Rightarrow> (cell \<Rightarrow> bool \<Rightarrow> (bool \<times> bool) res) \<Rightarrow> flags \<Rightarrow> u32 \<Rightarrow> bool \<Rightarrow> cell list \<Rightarrow>
    bytes \<times> u64 \<times> u64 \<Rightarrow> (bytes \<times> u64 \<times> u64) res" where
  "test_use_loop now m sel f off stop [] r = Inr r"
| "test_use_loop now m sel f off stop (c # cs) (out, cnt, skips) =
     (if stop then Inr (out, cnt, skips)
      else if passed_over now m (is_only_deletes f) c then test_use_loop now m sel f off stop cs (out, cnt, skips + 1)
      else res_bind (sel c stop) (\<lambda>(ok, stop).
        if \<not> ok then test_use_loop now m sel f off stop cs (out, cnt, skips + 1)
        else if off \<noteq> 0 then test_use_loop now m sel f (off - 1) stop cs (out, cnt, skips + 1)
        else if cnt + 1 = f_limit f then Inr (out @ cell_write c False, cnt + 1, skips)
        else test_use_loop now m sel f off stop cs (out @ cell_write c False, cnt + 1, skips)))"

definition scan_test_use where
  "scan_test_use now rx ld lb m si r =
     test_use_loop now m (scan_matching rx ld lb (m_seq m) si) (si_flags si) (ucast (f_offset (si_flags si))) False
       (m_cells m) r"

section \<open>What a scan delivers\<close>

fun deliver :: "('r req_scan \<Rightarrow> cell \<Rightarrow> 'r req_scan \<times> bool) \<Rightarrow> 'r req_scan \<Rightarrow> cell list \<Rightarrow> 'r req_scan" where
  "deliver add rq [] = rq"
| "deliver add rq (c # cs) = (let (rq, more) = add rq c in if more then deliver add rq cs else rq)"

text \<open>A request once some cells were for it: those of the offset are left out, the others delivered; \<open>k\<close> cells
  were skipped.\<close>

definition outcome :: "('r req_scan \<Rightarrow> cell \<Rightarrow> 'r req_scan \<times> bool) \<Rightarrow> 'r req_scan \<Rightarrow> cell list \<Rightarrow> u64 \<Rightarrow> 'r req_scan" where
  "outcome add rq cs k =
     (let n = unat (rq_offset rq)
      in (deliver add (rq\<lparr>rq_offset := of_nat (n - length cs)\<rparr>) (drop n cs))\<lparr>rq_skipped := k\<rparr>)"

text \<open>What a scan relies on: a receiver keeps the specification, and neither reads nor changes the offset and the
  count of skipped cells.\<close>

locale receiver =
  fixes add :: "'r req_scan \<Rightarrow> cell \<Rightarrow> 'r req_scan \<times> bool"
  assumes add_spec: "rq_spec (fst (add rq c)) = rq_spec rq"
    and add_offset: "add (rq\<lparr>rq_offset := n\<rparr>) c = (let (rq', more) = add rq c in (rq'\<lparr>rq_offset := n\<rparr>, more))"
    and add_skipped: "add (rq\<lparr>rq_skipped := k\<rparr>) c = (let (rq', more) = add rq c in (rq'\<lparr>rq_skipped := k\<rparr>, more))"
begin

lemma deliver_skipped: "deliver add (rq\<lparr>rq_skipped := k\<rparr>) cs = (deliver add rq cs)\<lparr>rq_skipped := k\<rparr>"
proof (induction cs arbitrary: rq)
  case (Cons c cs)
  then show ?case by (cases "add rq c") (simp add: add_skipped)
qed simp

lemma add_offset_same: "rq_offset (fst (add rq c)) = rq_offset rq"
proof -
  have "add rq c = (let (rq', more) = add rq c in (rq'\<lparr>rq_offset := rq_offset rq\<rparr>, more))"
    using add_offset [where rq = rq and n = "rq_offset rq" and c = c] by simp
  then show ?thesis by (cases "add rq c") (metis (mono_tags) case_prod_conv fst_conv Let_def req_scan.select_convs(3) req_scan.surjective req_scan.update_convs(3))
qed

lemma deliver_keeps:
  "rq_spec (deliver add rq cs) = rq_spec rq" "rq_offset (deliver add rq cs) = rq_offset rq"
proof (induction cs arbitrary: rq)
  case (Cons c cs)
  case 1 show ?case using Cons add_spec [where rq = rq and c = c] by (cases "add rq c") simp
  case 2 show ?case using Cons add_offset_same [where rq = rq and c = c] by (cases "add rq c") simp
qed simp_all

lemma outcome_skip: "outcome add (skip_cell rq) cs k = outcome add rq cs k"
proof -
  have "(skip_cell rq)\<lparr>rq_offset := n\<rparr> = (rq\<lparr>rq_offset := n\<rparr>)\<lparr>rq_skipped := rq_skipped rq + 1\<rparr>" for n
    by (simp add: skip_cell_def)
  moreover have "rq_offset (skip_cell rq) = rq_offset rq" by (simp add: skip_cell_def)
  ultimately show ?thesis by (simp add: outcome_def deliver_skipped)
qed

lemma outcome_offset:
  assumes "rq_offset rq \<noteq> 0"
  shows "outcome add (rq\<lparr>rq_offset := rq_offset rq - 1\<rparr>) cs k = outcome add rq (c # cs) k"
proof -
  have "unat (rq_offset rq) \<noteq> 0" using assms by (simp add: unat_eq_zero)
  then obtain j where j: "unat (rq_offset rq) = Suc j" by (cases "unat (rq_offset rq)") auto
  moreover have "unat (rq_offset rq - 1) = j" using assms j by (simp add: unat_minus_one)
  ultimately show ?thesis by (simp add: outcome_def)
qed

lemma outcome_add:
  assumes "rq_offset rq = 0" and "add rq c = (rq', go)"
  shows "outcome add rq (c # cs) k = (if go then outcome add rq' cs k else rq'\<lparr>rq_skipped := k\<rparr>)"
proof -
  have "rq_offset rq' = 0" using add_offset_same [where rq = rq and c = c] assms by simp
  then show ?thesis using assms by (simp add: outcome_def add_offset)
qed

lemma outcome_none: "outcome add rq [] (rq_skipped rq) = rq"
  by (simp add: outcome_def)

text \<open>The scan of one version: a cell that ends the scan is not wanted, nor is one behind it.\<close>

lemma single_loop_delivers:
  assumes "\<And>c rq. c \<in> set cs \<Longrightarrow> \<not> passed_over now m od c \<Longrightarrow> rq_spec rq = sp \<Longrightarrow> sel rq c False = Inr (M c, E c)"
    and "sorted_wrt (\<lambda>c d. \<not> passed_over now m od c \<longrightarrow> E c \<longrightarrow> passed_over now m od d \<or> \<not> M d) cs"
    and "\<And>c. E c \<Longrightarrow> \<not> M c" and "rq_spec rq = sp"
  shows "\<exists>k. scan_single_loop now m sel add od False cs rq =
    Inr (outcome add rq (filter (\<lambda>c. \<not> passed_over now m od c \<and> M c) cs) k)"
  using assms(1,2,4)
proof (induction cs arbitrary: rq)
  case Nil
  then show ?case by (intro exI [of _ "rq_skipped rq"]) (simp add: outcome_none)
next
  case (Cons c cs)
  let ?picked = "\<lambda>c. \<not> passed_over now m od c \<and> M c"
  have IH: "\<exists>k. scan_single_loop now m sel add od False cs rq = Inr (outcome add rq (filter ?picked cs) k)"
    if "rq_spec rq = sp" for rq
  proof (rule Cons.IH [OF _ _ that])
    show "sel r d False = Inr (M d, E d)" if "d \<in> set cs" "\<not> passed_over now m od d" "rq_spec r = sp" for d r
      using Cons.prems(1) that by simp
    show "sorted_wrt (\<lambda>c d. \<not> passed_over now m od c \<longrightarrow> E c \<longrightarrow> passed_over now m od d \<or> \<not> M d) cs"
      using Cons.prems(2) by simp
  qed
  have skip: "\<exists>k. scan_single_loop now m sel add od False cs (skip_cell rq) = Inr (outcome add rq (filter ?picked cs) k)"
    if "rq_spec rq = sp" for rq
    using IH [of "skip_cell rq"] that by (simp add: outcome_skip) (simp add: skip_cell_def)
  consider (over) "passed_over now m od c" | (ends) "\<not> passed_over now m od c" "E c" "\<not> M c"
    | (fails) "\<not> passed_over now m od c" "\<not> E c" "\<not> M c"
    | (offset) "\<not> passed_over now m od c" "\<not> E c" "M c" "rq_offset rq \<noteq> 0"
    | (adds) "\<not> passed_over now m od c" "\<not> E c" "M c" "rq_offset rq = 0" using assms(3) by blast
  then show ?case
  proof cases
    case over
    then show ?thesis using skip [OF Cons.prems(3)] by simp
  next
    case ends
    then have "filter ?picked (c # cs) = []" using Cons.prems(2) by (auto simp: filter_empty_conv)
    moreover have "scan_single_loop now m sel add od False (c # cs) rq = Inr (skip_cell rq)"
      using ends Cons.prems(1,3) by (cases cs) simp_all
    moreover have "outcome add rq [] (rq_skipped (skip_cell rq)) = skip_cell rq"
      using outcome_none [of "skip_cell rq"] by (simp only: outcome_skip)
    ultimately show ?thesis by metis
  next
    case fails
    then show ?thesis using skip [OF Cons.prems(3)] Cons.prems(1,3) by simp
  next
    case offset
    then show ?thesis using skip [of "rq\<lparr>rq_offset := rq_offset rq - 1\<rparr>"] Cons.prems(1,3)
      by (simp add: offset_adjusted_def outcome_offset [where c = c])
  next
    case adds
    obtain rq' go where add: "add rq c = (rq', go)" by force
    then have "rq_spec rq' = sp" using add_spec [where rq = rq and c = c] Cons.prems(3) by simp
    moreover have "rq'\<lparr>rq_skipped := rq_skipped rq'\<rparr> = rq'" by simp
    ultimately show ?thesis using IH [of rq'] adds Cons.prems(1,3) add outcome_add [OF adds(4) add]
      by (cases go) (auto simp: offset_adjusted_def intro!: exI [of _ "rq_skipped rq'"])
  qed
qed

end

section \<open>The place to start\<close>

text \<open>Keys of the begin whose fractions all say something: those of a key before it fail it.\<close>

lemma past_begin:
  assumes "comp_order cond (\<lambda>_. True) (=)" and "[] \<notin> set bs" and "frac_compare cond gs bs = GT"
  shows "upto_compare cond True (length bs) bs gs = LT"
  using assms
proof (induction cond bs gs rule: frac_compare.induct)
  case (4 cond b bs g gs)
  then have "cond g b = GT \<or> (cond g b = EQ \<and> frac_compare cond gs bs = GT)" by (auto split: if_splits)
  moreover have "cond b g = LT \<longleftrightarrow> cond g b = GT" "cond b g = EQ \<longleftrightarrow> cond g b = EQ"
    using comp_order.cmp_swap [OF 4(2) TrueI TrueI, of g b] comp_order.cmp_same [OF 4(2) TrueI TrueI] by auto
  ultimately show ?case using 4 by (auto simp: upto_compare_rec)
qed (auto simp: upto_compare_def)

lemma begin_not_ok:
  assumes "s = LEXIC \<or> s = VOLUME" and "[] \<notin> set bs" and "seq_compare s gs bs = GT"
  shows "\<not> begin_ok s bs gs"
proof -
  have s: "s \<noteq> UNKNOWN" "\<not> counts_first s" using assms(1) by (auto simp: counts_first_def)
  then have "frac_compare (seq_condition s) gs bs = GT" using assms(3) seq_compare_cases by auto
  then have "upto_compare (seq_condition s) True (length bs) bs gs = LT"
    using past_begin [OF seq_condition_order [OF s(1)] assms(2)] by blast
  moreover have "bs \<noteq> []" using assms(3) \<open>frac_compare (seq_condition s) gs bs = GT\<close> by (cases gs) auto
  ultimately show ?thesis using s by (simp add: begin_ok_def seq_upto_def)
qed


section \<open>The scan of a container of one version\<close>

interpretation selecting: receiver select_add
  by unfold_locales (simp_all add: select_add_def profile_add_cell_def select_reached_limits_def Let_def)

interpretation testing: receiver test_add
  by unfold_locales (simp_all add: test_add_def test_reached_limits_def Let_def)

lemma scan_matching_stops:
  assumes "scan_matching rx ld lb s si c False = Inr (ok, True)"
  shows "\<not> ok" and "is_matching_end s si (c_key c) = Inr False"
  using assms by (auto simp: scan_matching_def res_bind_def split: sum.splits if_splits)

lemma scan_matching_wants:
  assumes "scan_matching rx ld lb s si c False = Inr (True, e)"
  shows "matching_offset s si (c_key c) (c_timestamp c) (is_time_order_desc c) = Inr True"
    and "is_matching_begin s si (c_key c) = Inr True" and "is_matching_end s si (c_key c) = Inr True"
  using assms by (auto simp: scan_matching_def res_bind_def split: sum.splits if_splits)

text \<open>The cells a scan is to deliver, by looking at every one.\<close>

definition wanted :: "(bytes \<Rightarrow> bytes \<Rightarrow> bool) \<Rightarrow> ld \<Rightarrow> libs \<Rightarrow> i64 \<Rightarrow> mutable \<Rightarrow> scan_interval \<Rightarrow> cell \<Rightarrow> bool" where
  "wanted rx ld lb now m si c \<longleftrightarrow> \<not> passed_over now m (is_only_deletes (si_flags si)) c \<and>
     (case scan_matching rx ld lb (m_seq m) si c False of Inr (ok, _) \<Rightarrow> ok | Inl _ \<Rightarrow> False)"

lemma wantedD:
  assumes "wanted rx ld lb now m si c"
  shows "matching_offset (m_seq m) si (c_key c) (c_timestamp c) (is_time_order_desc c) = Inr True"
    and "is_matching_begin (m_seq m) si (c_key c) = Inr True" and "is_matching_end (m_seq m) si (c_key c) = Inr True"
proof -
  obtain e where "scan_matching rx ld lb (m_seq m) si c False = Inr (True, e)"
    using assms by (auto simp: wanted_def split: sum.splits)
  from scan_matching_wants [OF this] show
    "matching_offset (m_seq m) si (c_key c) (c_timestamp c) (is_time_order_desc c) = Inr True"
    "is_matching_begin (m_seq m) si (c_key c) = Inr True" "is_matching_end (m_seq m) si (c_key c) = Inr True" .
qed

text \<open>What a scan has to be for its search to agree with its matching.\<close>

definition scannable :: "mutable \<Rightarrow> scan_interval \<Rightarrow> bool" where
  "scannable m si \<longleftrightarrow> container_ok m \<and> searchable m \<and> (m_seq m = LEXIC \<or> m_seq m = VOLUME) \<and>
     key_rep (si_offset_key si) \<and> key_rep (si_end si) \<and>
     (\<exists>own bs. fits bs \<and> [] \<notin> set bs \<and> si_begin si = key_of own bs)"

lemma scannable_seq: "scannable m si \<Longrightarrow> m_seq m \<noteq> UNKNOWN"
  by (auto simp: scannable_def)

lemma before_offset_key:
  assumes "s \<noteq> UNKNOWN" and "key_rep (si_offset_key si)" and "key_rep k"
    and "\<not> key_empty (si_offset_key si)" and "key_cmp s k (si_offset_key si) = GT"
  shows "matching_offset s si k ts desc = Inr False"
proof -
  have "key_cmp s (si_offset_key si) k = LT"
    using comp_order.cmp_swap [OF key_order [OF assms(1)] assms(3,2)] assms(5) by simp
  then show ?thesis using assms(4) by (simp add: matching_offset_def key_compare_Inr [OF assms(2,3)])
qed

lemma get_specs_returns:
  assumes m: "scannable m si"
  obtains pos off where "get_specs m si = Some (Inr (pos, off))"
    and "\<And>c. c \<in> set (take pos (m_cells m)) \<Longrightarrow> \<not> wanted rx ld lb now m si c"
proof -
  obtain own bs where b: "fits bs" "[] \<notin> set bs" "si_begin si = key_of own bs" using m by (auto simp: scannable_def)
  have ok: "container_ok m" "key_rep (si_offset_key si)" "m_seq m \<noteq> UNKNOWN" and seq: "m_seq m = LEXIC \<or> m_seq m = VOLUME"
    and revs: "m_max_revs m \<noteq> 0" "unat (m_max_revs m) + 20 < 2 ^ 32"
    using m by (auto simp: scannable_def searchable_def)
  have rep: "key_rep (c_key c)" if "c \<in> set (take pos (m_cells m))" for c pos
    using ok(1) in_set_takeD [OF that] by (simp add: container_ok_def list_all_iff cell_ok_def)
  consider (offset) "\<not> key_empty (si_offset_key si)" | (first) "key_empty (si_offset_key si)" "key_empty (si_begin si)"
    | (by_begin) "key_empty (si_offset_key si)" "\<not> key_empty (si_begin si)" by blast
  then show thesis
  proof cases
    case offset
    obtain pos off where g: "m_get m (si_offset_key si) 0 = Some (Inr (pos, off))" "place_ok m (si_offset_key si) pos"
      using m_get_returns [OF ok(1,2) revs] by blast
    show thesis
    proof (rule that)
      show "get_specs m si = Some (Inr (pos, off))" using g offset by (simp add: get_specs_def)
      show "\<not> wanted rx ld lb now m si c" if c: "c \<in> set (take pos (m_cells m))" for c
      proof -
        have "key_cmp (m_seq m) (c_key c) (si_offset_key si) = GT" using g(2) c by (simp add: place_ok_def)
        from before_offset_key [OF ok(3,2) rep [OF c] offset this] show ?thesis
          using wantedD(1) [of rx ld lb now m si c] by auto
      qed
    qed
  next
    case first
    then show thesis using that [of 0 0] by (simp add: get_specs_def)
  next
    case by_begin
    have k: "key_rep (si_begin si)" using b by simp
    obtain pos off where g: "m_get m (si_begin si) 0 = Some (Inr (pos, off))" "place_ok m (si_begin si) pos"
      using m_get_returns [OF ok(1) k revs] by blast
    show thesis
    proof (rule that)
      show "get_specs m si = Some (Inr (pos, off))" using g by_begin by (simp add: get_specs_def)
      show "\<not> wanted rx ld lb now m si c" if c: "c \<in> set (take pos (m_cells m))" for c
      proof -
        obtain o2 gs where gs: "fits gs" "c_key c = key_of o2 gs" using rep [OF c] by (auto elim: key_repE)
        have "seq_compare (m_seq m) gs bs = GT" using g(2) c gs b by (auto simp: place_ok_def)
        then have "is_matching_begin (m_seq m) si (c_key c) = Inr False"
          using begin_not_ok [OF seq b(2)] is_matching_begin_of [OF ok(3) b(3,1) gs(1)] gs(2) by simp
        then show ?thesis using wantedD(2) [of rx ld lb now m si c] by auto
      qed
    qed
  qed
qed

text \<open>Behind a cell that ends the scan nothing is wanted.\<close>

definition ends :: "(bytes \<Rightarrow> bytes \<Rightarrow> bool) \<Rightarrow> ld \<Rightarrow> libs \<Rightarrow> KeySeq \<Rightarrow> scan_interval \<Rightarrow> cell \<Rightarrow> bool" where
  "ends rx ld lb s si c \<longleftrightarrow> (case scan_matching rx ld lb s si c False of Inr (_, e) \<Rightarrow> e | Inl _ \<Rightarrow> False)"

lemma endsD:
  assumes "ends rx ld lb s si c"
  shows "is_matching_end s si (c_key c) = Inr False" and "scan_matching rx ld lb s si c False = Inr (False, True)"
proof -
  obtain ok where sc: "scan_matching rx ld lb s si c False = Inr (ok, True)"
    using assms by (auto simp: ends_def split: sum.splits)
  from scan_matching_stops [OF this] show "is_matching_end s si (c_key c) = Inr False"
    "scan_matching rx ld lb s si c False = Inr (False, True)" using sc by simp_all
qed

lemma nothing_after_the_end:
  assumes m: "scannable m si" and e: "ends rx ld lb (m_seq m) si c" and cd: "cle (m_seq m) c d" and ok: "cell_ok c" "cell_ok d"
  shows "\<not> wanted rx ld lb now m si d"
proof -
  note seq = scannable_seq [OF m]
  have rep: "key_rep (c_key c)" "key_rep (c_key d)" and en: "key_rep (si_end si)"
    and s: "m_seq m = LEXIC \<or> m_seq m = VOLUME" using ok m by (auto simp: cell_ok_def scannable_def)
  obtain o1 gs o2 hs oe es where k: "fits gs" "c_key c = key_of o1 gs" "fits hs" "c_key d = key_of o2 hs"
    "fits es" "si_end si = key_of oe es" using rep en by (auto elim!: key_repE)
  have c: "is_matching_end (m_seq m) si (key_of o1 gs) = Inr False" using endsD(1) [OF e] k(2) by simp
  have "is_matching_end (m_seq m) si (key_of o2 hs) = Inr False"
  proof -
    note o = seq_compare_order [OF seq]
    have "seq_compare (m_seq m) gs hs \<noteq> LT" using cd k by (simp add: cle_def)
    then consider (GT) "seq_compare (m_seq m) gs hs = GT" | (EQ) "gs = hs"
      using comp_order.cmp_three [OF o TrueI TrueI, of gs hs] comp_order.cmp_same [OF o TrueI TrueI, of gs hs] by blast
    then show ?thesis
    proof cases
      case GT
      then show ?thesis
        using s c end_ok_later [OF seq, of gs hs]
        by (auto simp: is_matching_end_of [OF seq k(6,5,1)] is_matching_end_of [OF seq k(6,5,3)] counts_first_def)
    next
      case EQ
      then show ?thesis using c by (simp add: is_matching_end_of [OF seq k(6,5)] k)
    qed
  qed
  then show ?thesis using wantedD(3) [of rx ld lb now m si d] k(4) by auto
qed

lemma cells_empty:
  assumes "container_ok m" and "length (m_cells m) < 2 ^ 64"
  shows "m_size m = 0 \<longleftrightarrow> m_cells m = []"
proof -
  have "unat (m_size m) = length (m_cells m)" using assms by (simp add: container_ok_def unat_of_nat64 take_bit_nat_eq_self)
  then show ?thesis by (metis length_0_conv unat_eq_0)
qed

text \<open>No condition fails on a cell that is looked at.\<close>

definition answered :: "(bytes \<Rightarrow> bytes \<Rightarrow> bool) \<Rightarrow> ld \<Rightarrow> libs \<Rightarrow> i64 \<Rightarrow> mutable \<Rightarrow> scan_interval \<Rightarrow> bool" where
  "answered rx ld lb now m si \<longleftrightarrow> list_all (\<lambda>c. passed_over now m (is_only_deletes (si_flags si)) c \<or>
     (case scan_matching rx ld lb (m_seq m) si c False of Inl _ \<Rightarrow> False | Inr _ \<Rightarrow> True)) (m_cells m)"

context receiver
begin

lemma scan_delivers:
  assumes m: "scannable m si" and one: "m_max_revs m = 1" and size: "length (m_cells m) < 2 ^ 64"
    and an: "answered rx ld lb now m si" and rq: "rq_spec rq = si"
  defines "W \<equiv> filter (wanted rx ld lb now m si) (m_cells m)"
  shows "\<exists>k. m_scan now m (selector rx ld lb (m_seq m)) add rq =
    Some (Inr (outcome add rq W k))"
proof (cases "m_cells m = []")
  case True
  then show ?thesis using cells_empty [OF _ size] m
    by (intro exI [of _ "rq_skipped rq"]) (simp add: m_scan_def W_def outcome_none scannable_def)
next
  case False
  then have ne: "m_size m \<noteq> 0" using cells_empty [OF _ size] m by (simp add: scannable_def)
  obtain pos off where g: "get_specs m si = Some (Inr (pos, off))"
    and before: "\<And>c. c \<in> set (take pos (m_cells m)) \<Longrightarrow> \<not> wanted rx ld lb now m si c"
    using get_specs_returns [OF m] by metis
  let ?od = "is_only_deletes (si_flags si)" and ?cs = "drop pos (m_cells m)"
  let ?M = "\<lambda>c. case scan_matching rx ld lb (m_seq m) si c False of Inr (ok, _) \<Rightarrow> ok | Inl _ \<Rightarrow> False"
  let ?E = "ends rx ld lb (m_seq m) si"
  have W: "W = filter (wanted rx ld lb now m si) ?cs"
    using before append_take_drop_id [of pos "m_cells m"] filter_append [of _ "take pos (m_cells m)" ?cs]
    by (simp add: W_def)
  have wn: "wanted rx ld lb now m si = (\<lambda>c. \<not> passed_over now m ?od c \<and> ?M c)" by (simp add: fun_eq_iff wanted_def)
  have sel: "selector rx ld lb (m_seq m) r c False = Inr (?M c, ?E c)"
    if "c \<in> set ?cs" "\<not> passed_over now m ?od c" "rq_spec r = si" for c and r :: "'r req_scan"
    using an that in_set_dropD [of c pos "m_cells m"]
    by (fastforce simp: answered_def list_all_iff selector_def ends_def split: sum.splits)
  have ok: "cell_ok c" if "c \<in> set (m_cells m)" for c using m that by (simp add: scannable_def container_ok_def list_all_iff)
  have "sorted_wrt (cle (m_seq m)) ?cs" using m by (simp add: scannable_def container_ok_def cells_sorted_def sorted_wrt_drop)
  then have sorted: "sorted_wrt (\<lambda>c d. \<not> passed_over now m ?od c \<longrightarrow> ?E c \<longrightarrow> passed_over now m ?od d \<or> \<not> ?M d) ?cs"
  proof (rule sorted_wrt_mono_rel [rotated])
    fix c d assume "c \<in> set ?cs" "d \<in> set ?cs" and cd: "cle (m_seq m) c d"
    then have "cell_ok c" "cell_ok d" using ok in_set_dropD by metis+
    with cd show "\<not> passed_over now m ?od c \<longrightarrow> ?E c \<longrightarrow> passed_over now m ?od d \<or> \<not> ?M d"
      using nothing_after_the_end [OF m _ cd, of rx ld lb now] by (auto simp: wn)
  qed
  have E: "\<not> ?M c" if "?E c" for c using endsD(2) [OF that] by simp
  have "\<exists>k. scan_single_loop now m (selector rx ld lb (m_seq m)) add ?od False ?cs rq =
      Inr (outcome add rq W k)"
    unfolding W wn
  proof (rule single_loop_delivers [where M = ?M and E = ?E])
    show "selector rx ld lb (m_seq m) r c False = Inr (?M c, ?E c)"
      if "c \<in> set ?cs" "\<not> passed_over now m ?od c" "rq_spec r = si" for c and r :: "'r req_scan" using that by (rule sel)
  qed (fact sorted, fact E, fact rq)
  then show ?thesis using ne g one by (auto simp: m_scan_def rq scan_version_single_def)
qed

end

section \<open>The answer of a select\<close>

abbreviation sent :: "bool \<Rightarrow> cell list \<Rightarrow> bytes" where
  "sent no_value cs \<equiv> concat (map (\<lambda>c. cell_write c no_value) cs)"

lemma deliver_select:
  fixes rq :: "bytes req_scan"
  defines "limit \<equiv> f_limit (si_flags (rq_spec rq))"
  shows "\<exists>n \<le> length cs. \<exists>rq'. deliver select_add rq cs = rq' \<and>
    rq_state rq' = rq_state rq @ sent (rq_only_keys rq) (take n cs) \<and> rq_spec rq' = rq_spec rq \<and> rq_only_keys rq' = rq_only_keys rq \<and>
    rq_cells_count rq' = rq_cells_count rq + of_nat n \<and>
    (n < length cs \<longrightarrow> select_reached_limits rq') \<and>
    (limit \<noteq> 0 \<longrightarrow> rq_cells_count rq < limit \<longrightarrow> unat (rq_cells_count rq) + n \<le> unat limit)"
  unfolding limit_def
proof (induction cs arbitrary: rq)
  case Nil
  then show ?case by (auto simp: word_less_nat_alt)
next
  case (Cons c cs)
  define rq1 where "rq1 = fst (select_add rq c)"
  have add: "select_add rq c = (rq1, \<not> select_reached_limits rq1)"
    by (simp add: rq1_def select_add_def Let_def)
  have p: "rq_state rq1 = rq_state rq @ cell_write c (rq_only_keys rq)" "rq_spec rq1 = rq_spec rq"
    "rq_only_keys rq1 = rq_only_keys rq" "rq_cells_count rq1 = rq_cells_count rq + 1"
    by (simp_all add: rq1_def select_add_def profile_add_cell_def Let_def)
  let ?limit = "f_limit (si_flags (rq_spec rq))"
  have below: "unat (rq_cells_count rq + 1) = unat (rq_cells_count rq) + 1" if "rq_cells_count rq < ?limit"
  proof -
    have "rq_cells_count rq \<noteq> - 1" using that word_order.extremum_strict by auto
    then have "1 + rq_cells_count rq \<noteq> 0" by (metis add_eq_0_iff)
    from unatSuc [OF this] show ?thesis by (simp add: add.commute)
  qed
  show ?case
  proof (cases "select_reached_limits rq1")
    case True
    then show ?thesis using p add below by (intro exI [of _ "Suc 0"]) (auto simp: word_less_nat_alt)
  next
    case False
    obtain n where n: "n \<le> length cs" "rq_state (deliver select_add rq1 cs) = rq_state rq1 @ sent (rq_only_keys rq1) (take n cs)"
      "rq_spec (deliver select_add rq1 cs) = rq_spec rq1" "rq_only_keys (deliver select_add rq1 cs) = rq_only_keys rq1"
      "rq_cells_count (deliver select_add rq1 cs) = rq_cells_count rq1 + of_nat n"
      "n < length cs \<longrightarrow> select_reached_limits (deliver select_add rq1 cs)"
      "?limit \<noteq> 0 \<longrightarrow> rq_cells_count rq1 < ?limit \<longrightarrow> unat (rq_cells_count rq1) + n \<le> unat ?limit"
      using Cons.IH [of rq1] p(2) by auto
    have "?limit \<noteq> 0 \<longrightarrow> rq_cells_count rq1 < ?limit"
      using False by (auto simp: select_reached_limits_def Let_def p not_le)
    then show ?thesis using False n p add below
      by (intro exI [of _ "Suc n"]) auto
  qed
qed

lemma select_outcome:
  assumes "scannable m (rq_spec rq)" and "m_max_revs m = 1" and "length (m_cells m) < 2 ^ 64"
    and "answered rx ld lb now m (rq_spec rq)" and "rq_state rq = []" and "rq_cells_count rq = 0"
    and W: "W = drop (unat (rq_offset rq)) (filter (wanted rx ld lb now m (rq_spec rq)) (m_cells m))"
  shows "\<exists>n \<le> length W. \<exists>rq'. m_scan now m (selector rx ld lb (m_seq m)) select_add rq = Some (Inr rq') \<and>
    rq_state rq' = sent (rq_only_keys rq) (take n W) \<and> rq_spec rq' = rq_spec rq \<and> rq_only_keys rq' = rq_only_keys rq \<and>
    rq_cells_count rq' = of_nat n \<and> rq_offset rq' = of_nat (unat (rq_offset rq) - length (filter (wanted rx ld lb now m (rq_spec rq)) (m_cells m))) \<and>
    (n < length W \<longrightarrow> select_reached_limits rq') \<and>
    (f_limit (si_flags (rq_spec rq)) \<noteq> 0 \<longrightarrow> n \<le> unat (f_limit (si_flags (rq_spec rq))))"
proof -
  let ?W = "filter (wanted rx ld lb now m (rq_spec rq)) (m_cells m)"
  obtain k where k: "m_scan now m (selector rx ld lb (m_seq m)) select_add rq = Some (Inr (outcome select_add rq ?W k))"
    using selecting.scan_delivers [OF assms(1-4) refl] by blast
  let ?rq = "rq\<lparr>rq_offset := of_nat (unat (rq_offset rq) - length ?W)\<rparr>"
  obtain n where n: "n \<le> length W" "rq_state (deliver select_add ?rq W) = sent (rq_only_keys rq) (take n W)"
    "rq_cells_count (deliver select_add ?rq W) = of_nat n" "rq_only_keys (deliver select_add ?rq W) = rq_only_keys rq"
    "n < length W \<longrightarrow> select_reached_limits (deliver select_add ?rq W)"
    "f_limit (si_flags (rq_spec rq)) \<noteq> 0 \<longrightarrow> n \<le> unat (f_limit (si_flags (rq_spec rq)))"
    using deliver_select [of W ?rq] assms(5,6) by (auto simp: word_neq_0_conv)
  have same: "rq_spec (deliver select_add ?rq W) = rq_spec rq" "rq_offset (deliver select_add ?rq W) = rq_offset ?rq"
    by (simp_all add: selecting.deliver_keeps)
  have "select_reached_limits (r\<lparr>rq_skipped := k\<rparr>) = select_reached_limits r" for r :: "bytes req_scan"
    by (simp add: select_reached_limits_def)
  moreover have "outcome select_add rq ?W k = (deliver select_add ?rq W)\<lparr>rq_skipped := k\<rparr>"
    by (simp only: outcome_def Let_def W)
  ultimately show ?thesis using k n same
    by (intro exI [of _ n] exI [of _ "(deliver select_add ?rq W)\<lparr>rq_skipped := k\<rparr>"]) simp
qed

text \<open>C22: The scan of a container that keeps one version, in \<open>LEXIC\<close> or \<open>VOLUME\<close>, answers a select
  with the encoded cells, in order, that a look at every single cell selects, after those of the offset: the search
  for the place to start and the early end lose nothing. It gives all of them, or as many as its limits let it,
  and never more than the limit of cells. The begin of the specification has no empty fraction, its keys are
  well encoded (\<open>scannable\<close>), the receiver starts empty and matching fails for no cell that is not
  passed over (\<open>answered\<close>). In the sequences that count fractions the early end does lose cells
  (\<open>fc_end_stops_early\<close>).\<close>

theorem select_answers:
  assumes "scannable m (rq_spec rq)" and "m_max_revs m = 1" and "length (m_cells m) < 2 ^ 64"
    and "answered rx ld lb now m (rq_spec rq)" and "rq_state rq = []" and "rq_cells_count rq = 0"
    and "W = drop (unat (rq_offset rq)) (filter (wanted rx ld lb now m (rq_spec rq)) (m_cells m))"
  shows "\<exists>n \<le> length W. \<exists>rq'. m_scan now m (selector rx ld lb (m_seq m)) select_add rq = Some (Inr rq') \<and>
    rq_state rq' = sent (rq_only_keys rq) (take n W) \<and> rq_cells_count rq' = of_nat n \<and> rq_spec rq' = rq_spec rq \<and>
    (n < length W \<longrightarrow> select_reached_limits rq') \<and>
    (f_limit (si_flags (rq_spec rq)) \<noteq> 0 \<longrightarrow> n \<le> unat (f_limit (si_flags (rq_spec rq))))"
  using select_outcome [OF assms] by blast

definition keyed :: "bytes list \<Rightarrow> mutable" where
  "keyed ks = fold (\<lambda>c m. add_sorted m c) (map (\<lambda>k. plain_cell [k] [] 1) ks) (Mutable_new LEXIC 1 0 Col_PLAIN)"

lemma keyed_simps [simp]:
  "m_cells (keyed ks) = map (\<lambda>k. plain_cell [k] [] 1) ks" "m_seq (keyed ks) = LEXIC" "m_max_revs (keyed ks) = 1"
  "m_ttl (keyed ks) = 0" "m_type (keyed ks) = Col_PLAIN"
  unfolding keyed_def add_sorted_all by (simp_all add: Mutable_new_def)

definition from_b :: scan_interval where
  "from_b = (Scan_new Col_PLAIN)\<lparr>si_begin := key_of True [[98]], si_flags := Flags_new\<lparr>f_limit := 1\<rparr>\<rparr>"

lemma keyed_ok: "container_ok (keyed [[97], [98], [99]])"
proof -
  have f: "fits [[97]]" "fits [[98]]" "fits [[99]]" by (simp_all add: fits_one)
  have key: "c_key (plain_cell fs [] 1) = key_of True fs" for fs
    by (simp add: plain_cell_def set_timestamp_with_rev_is_ts_def set_timestamp_def set_value_def Let_def)
  have "cells_sorted LEXIC (map (\<lambda>k. plain_cell [k] [] 1) [[97], [98], [99]])"
    using f by (simp add: cells_sorted_def cle_def key condition_lexic_def)
  then show ?thesis using f plain_cell_ok [of _ "[]" 1]
    unfolding container_ok_def keyed_simps keyed_def add_sorted_all by (simp add: Mutable_new_def)
qed

lemma plain_cell_parts [simp]:
  "c_key (plain_cell fs v ts) = key_of True fs" "c_flag (plain_cell fs v ts) = INSERT"
  "c_timestamp (plain_cell fs v ts) = ts"
  by (simp_all add: plain_cell_def set_timestamp_with_rev_is_ts_def set_timestamp_def set_value_def Let_def)

text \<open>A scan that asks for nothing but a begin.\<close>

definition only_begin :: "bytes list \<Rightarrow> scan_interval \<Rightarrow> bool" where
  "only_begin bs si \<longleftrightarrow> (\<exists>own. si_begin si = key_of own bs) \<and> key_empty (si_end si) \<and> key_empty (si_offset_key si) \<and>
     si_keys si = [] \<and> svs_values (si_values si) = [] \<and>
     ts_comp (si_ts_start si) = Comp_code NONE \<and> ts_comp (si_ts_finish si) = Comp_code NONE"

lemma only_begin_matching:
  assumes "only_begin bs si" and "s \<noteq> UNKNOWN" and "fits bs" and "fits gs" and "c_key c = key_of own gs"
  shows "scan_matching rx ld lb s si c False = Inr (begin_ok s bs gs, False)"
proof -
  obtain ob where "si_begin si = key_of ob bs" using assms(1) by (auto simp: only_begin_def)
  then have "is_matching_begin s si (c_key c) = Inr (begin_ok s bs gs)"
    using is_matching_begin_of [OF assms(2) _ assms(3,4)] assms(5) by simp
  moreover have "timestamp_matching t ts" if "ts_comp t = Comp_code NONE" for t ts
    using that timestamp_matching_new [of ts] by (simp add: timestamp_matching_def Timestamp_new_def del: Comp_code.simps)
  ultimately show ?thesis using assms(1)
    by (simp add: scan_matching_def only_begin_def matching_offset_def is_matching_end_def kis_matching_def values_matching_def
      del: Comp_code.simps)
qed

lemma from_b_parts:
  "scannable (keyed [[97], [98], [99]]) from_b" "answered rx ld lb 0 (keyed [[97], [98], [99]]) from_b"
  "filter (wanted rx ld lb 0 (keyed [[97], [98], [99]]) from_b) (m_cells (keyed [[97], [98], [99]])) =
    [plain_cell [[98]] [] 1, plain_cell [[99]] [] 1]"
proof -
  have f: "fits [[97]]" "fits [[98]]" "fits [[99]]" "fits []" by (simp_all add: fits_def encoded_length_vi24_def max_vb_defs)
  have new: "Key_new = key_of False []" by (simp add: Key_new_def key_of_def)
  show "scannable (keyed [[97], [98], [99]]) from_b"
    using keyed_ok f by (auto simp: scannable_def searchable_def from_b_def Scan_new_def new intro!: exI [of _ True] exI [of _ "[[98]]"])
  have b: "\<not> begin_ok LEXIC [[98]] [[97]]" "begin_ok LEXIC [[98]] [[98]]" "begin_ok LEXIC [[98]] [[99]]"
    by (simp_all add: begin_ok_def counts_first_def seq_upto_def upto_compare_def condition_lexic_def)
  have o: "only_begin [[98]] from_b"
    by (auto simp: only_begin_def from_b_def Scan_new_def Values_new_def Timestamp_new_def key_empty_def Key_new_def)
  note m = only_begin_matching [OF o _ f(2) f(1), of LEXIC "plain_cell [[97]] [] 1"]
    only_begin_matching [OF o _ f(2) f(2), of LEXIC "plain_cell [[98]] [] 1"]
    only_begin_matching [OF o _ f(2) f(3), of LEXIC "plain_cell [[99]] [] 1"]
  show "answered rx ld lb 0 (keyed [[97], [98], [99]]) from_b" by (simp add: answered_def m)
  have "\<not> passed_over 0 (keyed [[97], [98], [99]]) (is_only_deletes (si_flags from_b)) (plain_cell [k] [] 1)" for k
    by (simp add: passed_over_def has_expired_def from_b_def Scan_new_def Flags_new_def is_only_deletes_def)
  then show "filter (wanted rx ld lb 0 (keyed [[97], [98], [99]]) from_b) (m_cells (keyed [[97], [98], [99]])) =
    [plain_cell [[98]] [] 1, plain_cell [[99]] [] 1]" by (simp add: wanted_def m b)
qed

theorem select_answers_witness:
  "\<forall>rx ld lb. \<exists>rq'. m_scan 0 (keyed [[97], [98], [99]]) (selector rx ld lb LEXIC) select_add (ReqScan_of from_b []) = Some (Inr rq') \<and>
    rq_state rq' = cell_write (plain_cell [[98]] [] 1) False"
proof (intro allI)
  fix rx ld lb
  let ?m = "keyed [[97], [98], [99]]" and ?rq = "ReqScan_of from_b []" and ?W = "[plain_cell [[98]] [] 1, plain_cell [[99]] [] 1]"
  have rq: "rq_spec ?rq = from_b" "rq_offset ?rq = 0" "rq_state ?rq = []" "rq_cells_count ?rq = 0" "rq_only_keys ?rq = False"
    and lim: "f_limit (si_flags from_b) = 1"
    by (simp_all add: ReqScan_of_def from_b_def Scan_new_def Flags_new_def is_only_keys_def)
  have W: "?W = drop (unat (rq_offset ?rq)) (filter (wanted rx ld lb 0 ?m (rq_spec ?rq)) (m_cells ?m))"
    unfolding rq from_b_parts(3) by simp
  have 1: "scannable ?m (rq_spec ?rq)" "answered rx ld lb 0 ?m (rq_spec ?rq)" unfolding rq by (fact from_b_parts)+
  have len: "length (m_cells ?m) < 2 ^ 64" by simp
  obtain n rq' where n: "n \<le> 2" "m_scan 0 ?m (selector rx ld lb LEXIC) select_add ?rq = Some (Inr rq')"
    "rq_state rq' = sent False (take n ?W)" "rq_cells_count rq' = of_nat n" "rq_spec rq' = from_b"
    "n < 2 \<longrightarrow> select_reached_limits rq'" "n \<le> 1"
    using select_answers [OF 1(1) keyed_simps(3) len 1(2) rq(3,4) W] unfolding rq(1,5) lim keyed_simps(2) by auto
  moreover have "n \<noteq> 0"
  proof
    assume "n = 0"
    with n show False by (simp add: select_reached_limits_def lim)
  qed
  ultimately have "n = 1" by simp
  with n show "\<exists>rq'. m_scan 0 ?m (selector rx ld lb LEXIC) select_add ?rq = Some (Inr rq') \<and>
    rq_state rq' = cell_write (plain_cell [[98]] [] 1) False" by auto
qed

section \<open>Going on behind a cell\<close>

text \<open>Every key is there once, and says something.\<close>

definition one_version :: "mutable \<Rightarrow> bool" where
  "one_version m \<longleftrightarrow> sorted_wrt (\<lambda>c d. key_cmp (m_seq m) (c_key c) (c_key d) = GT) (m_cells m) \<and>
     list_all (\<lambda>c. \<not> key_empty (c_key c)) (m_cells m)"

definition resumed :: "scan_interval \<Rightarrow> key \<Rightarrow> i64 \<Rightarrow> scan_interval" where
  "resumed si k ts = si\<lparr>si_offset_key := k, si_offset_rev := ts\<rparr>"

lemma resumed_parts:
  "si_begin (resumed si k ts) = si_begin si" "si_end (resumed si k ts) = si_end si"
  "si_flags (resumed si k ts) = si_flags si" "si_keys (resumed si k ts) = si_keys si"
  "si_options (resumed si k ts) = si_options si" "si_values (resumed si k ts) = si_values si"
  "si_ts_start (resumed si k ts) = si_ts_start si" "si_ts_finish (resumed si k ts) = si_ts_finish si"
  by (simp_all add: resumed_def)

lemma resumed_range:
  "is_matching_begin s (resumed si k ts) x = is_matching_begin s si x"
  "is_matching_end s (resumed si k ts) x = is_matching_end s si x"
  by (simp_all only: resumed_parts is_matching_begin_def is_matching_end_def end_count_def end_by_count_def has_opt_def)

lemma scan_matching_resumed:
  assumes "matching_offset s si (c_key d) (c_timestamp d) (is_time_order_desc d) = Inr True"
    and "matching_offset s (resumed si k ts) (c_key d) (c_timestamp d) (is_time_order_desc d) = Inr True"
  shows "scan_matching rx ld lb s (resumed si k ts) d st = scan_matching rx ld lb s si d st"
  by (simp only: scan_matching_def assms resumed_range resumed_parts)

lemma offset_moves:
  assumes s: "s \<noteq> UNKNOWN" and reps: "key_rep (si_offset_key si)" "key_rep kc" "key_rep kd" "key_rep k"
    and k: "same_key k kc" "\<not> key_empty k"
  shows "key_cmp s kd kc = GT \<Longrightarrow> matching_offset s (resumed si k ts) kd t desc = Inr False"
    and "matching_offset s (resumed si k ts) kc ts desc = Inr False"
    and "key_cmp s kc kd = GT \<Longrightarrow> matching_offset s (resumed si k ts) kd t desc = Inr True"
    and "key_cmp s kc kd = GT \<Longrightarrow> matching_offset s si kc t' desc' = Inr True \<Longrightarrow>
      matching_offset s si kd t desc = Inr True"
proof -
  note o = key_order [OF s]
  have same: "key_cmp s k x = key_cmp s kc x" if "key_rep x" for x
    using reps(2,4) that k(1) by (auto elim!: key_repE simp: same_key_of)
  have off: "matching_offset s (resumed si k ts) x t desc = Inr (if key_cmp s kc x = LT then False
      else if key_cmp s kc x = EQ then matching_rev (resumed si k ts) t desc else True)" if "key_rep x" for x t desc
    using k(2) that reps(4) by (simp add: matching_offset_def resumed_def key_compare_Inr same)
  show "key_cmp s kd kc = GT \<Longrightarrow> matching_offset s (resumed si k ts) kd t desc = Inr False"
    using off [OF reps(3)] comp_order.cmp_swap [OF o reps(3,2)] by simp
  show "matching_offset s (resumed si k ts) kc ts desc = Inr False"
    using off [OF reps(2)] comp_order.cmp_refl [OF o reps(2)] by (simp add: matching_rev_def resumed_def)
  show "key_cmp s kc kd = GT \<Longrightarrow> matching_offset s (resumed si k ts) kd t desc = Inr True"
    using off [OF reps(3)] by simp
  assume gt: "key_cmp s kc kd = GT" and c: "matching_offset s si kc t' desc' = Inr True"
  show "matching_offset s si kd t desc = Inr True"
  proof (cases "key_empty (si_offset_key si)")
    case True
    then show ?thesis by (simp add: matching_offset_def)
  next
    case False
    then have "key_cmp s (si_offset_key si) kc \<noteq> LT"
      using c key_compare_Inr [OF reps(1,2)] by (auto simp: matching_offset_def)
    then have "key_cmp s (si_offset_key si) kc = GT \<or> same_key (si_offset_key si) kc"
      using comp_order.not_LT_iff [OF o reps(1,2)] by simp
    then have "key_cmp s (si_offset_key si) kd = GT"
      using comp_order.cmp_trans [OF o reps(1,2,3) _ gt] comp_order.cmp_same_left [OF o reps(1,2,3)] gt by auto
    then show ?thesis using False key_compare_Inr [OF reps(1,3)] by (simp add: matching_offset_def)
  qed
qed

lemma filter_nth_split:
  assumes "i < length (filter P xs)"
  obtains ys zs where "xs = ys @ filter P xs ! i # zs" and "length (filter P ys) = i"
proof -
  have "\<exists>ys zs. xs = ys @ filter P xs ! i # zs \<and> length (filter P ys) = i" using assms
  proof (induction xs arbitrary: i)
    case (Cons x xs)
    show ?case
    proof (cases "P x \<and> i = 0")
      case True
      then show ?thesis by (intro exI [of _ "[]"] exI [of _ xs]) simp
    next
      case False
      define j where "j = (if P x then i - 1 else i)"
      have nth: "filter P (x # xs) ! i = filter P xs ! j" and len: "i = (if P x then Suc j else j)"
        using False by (cases i; simp add: j_def)+
      have "j < length (filter P xs)" using Cons.prems len by (auto split: if_splits)
      from Cons.IH [OF this] obtain ys zs where "xs = ys @ filter P xs ! j # zs" "length (filter P ys) = j" by blast
      then show ?thesis unfolding nth using len by (intro exI [of _ "x # ys"] exI [of _ zs]) simp
    qed
  qed simp
  with that show thesis by blast
qed

lemma wanted_resumed:
  assumes m: "container_ok m" and one: "one_version m" and off: "key_rep (si_offset_key si)"
    and W: "W = filter (wanted rx ld lb now m si) (m_cells m)" and i: "i < length W"
    and k: "key_rep k" "same_key k (c_key (W ! i))" "\<not> key_empty k" and ts: "ts = c_timestamp (W ! i)"
  shows "filter (wanted rx ld lb now m (resumed si k ts)) (m_cells m) = drop (Suc i) W"
proof -
  let ?c = "W ! i" and ?w = "wanted rx ld lb now m si" and ?w' = "wanted rx ld lb now m (resumed si k ts)"
  obtain xs ys where cs: "m_cells m = xs @ ?c # ys" and c: "?w ?c" and before: "length (filter ?w xs) = i"
    using filter_nth_split [OF i [unfolded W]] nth_mem [OF i] unfolding W by auto
  have s: "m_seq m \<noteq> UNKNOWN" using m by (simp add: container_ok_def)
  have rep: "key_rep (c_key d)" if "d \<in> set (m_cells m)" for d
    using m that by (auto simp: container_ok_def list_all_iff cell_ok_def)
  have "sorted_wrt (\<lambda>c d. key_cmp (m_seq m) (c_key c) (c_key d) = GT) (xs @ ?c # ys)"
    using one cs by (simp add: one_version_def)
  then have xc: "\<And>d. d \<in> set xs \<Longrightarrow> key_cmp (m_seq m) (c_key d) (c_key ?c) = GT"
    and cy: "\<And>d. d \<in> set ys \<Longrightarrow> key_cmp (m_seq m) (c_key ?c) (c_key d) = GT" by (auto simp: sorted_wrt_append)
  have in_m: "?c \<in> set (m_cells m)" "\<And>d. d \<in> set xs \<Longrightarrow> d \<in> set (m_cells m)" "\<And>d. d \<in> set ys \<Longrightarrow> d \<in> set (m_cells m)"
    using cs by auto
  note moves = offset_moves [OF s off rep [OF in_m(1)] _ k]
  have no: "\<not> ?w' d" if "d \<in> set xs" for d
    using moves(1) [OF rep [OF in_m(2) [OF that]] xc [OF that]] wantedD(1) [of rx ld lb now m "resumed si k ts" d] by auto
  have no_c: "\<not> ?w' ?c"
    using moves(2) [OF rep [OF in_m(1)]] wantedD(1) [of rx ld lb now m "resumed si k ts" ?c] by (auto simp: ts)
  have yes: "?w' d = ?w d" if "d \<in> set ys" for d
  proof -
    have "scan_matching rx ld lb (m_seq m) (resumed si k ts) d False = scan_matching rx ld lb (m_seq m) si d False"
      using moves(3,4) [OF rep [OF in_m(3) [OF that]] cy [OF that]] wantedD(1) [OF c] by (intro scan_matching_resumed) blast+
    then show ?thesis by (simp only: wanted_def resumed_parts)
  qed
  have "filter ?w' xs = []" using no by (simp add: filter_empty_conv)
  moreover have "filter ?w' ys = filter ?w ys" using yes by (intro filter_cong) simp_all
  ultimately have "filter ?w' (m_cells m) = filter ?w ys"
    by (subst cs) (simp only: filter_append filter.simps no_c if_False append_Nil)
  moreover have "W = filter ?w xs @ ?c # filter ?w ys"
    by (subst W) (subst cs, simp only: filter_append filter.simps c if_True)
  moreover have "drop (Suc i) (us @ x # vs) = vs" if "length us = i" for us vs and x :: cell
    using that by auto
  ultimately show ?thesis using before by metis
qed

section \<open>A version lost between two answers\<close>

text \<open>Three versions of a key, and a scan of at most two of those from time 4 on, in answers of \<open>n\<close> cells.\<close>

definition three_versions :: mutable where
  "three_versions = fold (\<lambda>ts m. add_sorted m (plain_cell [[97]] [] ts)) [3, 4, 5] (Mutable_new LEXIC 3 0 Col_PLAIN)"

definition from_time_4 :: "u64 \<Rightarrow> scan_interval" where
  "from_time_4 n = (Scan_new Col_PLAIN)\<lparr>si_ts_start := Timestamp_of 4 GE,
     si_flags := Flags_new\<lparr>f_limit := n, f_max_versions := 2, f_max_buffer := 1000\<rparr>\<rparr>"

definition answer_of :: "bytes req_scan res option \<Rightarrow> bytes option" where
  "answer_of r = (case r of Some (Inr rq) \<Rightarrow> Some (rq_state rq) | _ \<Rightarrow> None)"

text \<open>Going on behind a cell counts every live version of its key up to it, wanted or not, as one of those
  asked for. Of the two versions a scan without limit delivers, a scan in answers of one cell delivers the
  first; going on behind it delivers nothing, and the second is lost.\<close>

lemma resume_loses_version:
  "answer_of (m_scan 0 three_versions (selector rx ld lb LEXIC) select_add (ReqScan_of (from_time_4 0) []))
      = Some (sent False [plain_cell [[97]] [] 4, plain_cell [[97]] [] 5]) \<and>
    answer_of (m_scan 0 three_versions (selector rx ld lb LEXIC) select_add (ReqScan_of (from_time_4 1) []))
      = Some (sent False [plain_cell [[97]] [] 4]) \<and>
    answer_of (m_scan 0 three_versions (selector rx ld lb LEXIC) select_add
        (ReqScan_of (resumed (from_time_4 1) (c_key (plain_cell [[97]] [] 4)) 4) [])) = Some []"
  by code_simp
end
