(* ===== verification/Query_Select.thy ===== *)
theory Query_Select
  imports Mutable_Scan
begin

text \<open>
  A select between a client and a ranger: the framing of parameters
  (src/src/cc/include/swcdb/core/comm/Serializable.h), the request and the response
  (src/src/cc/include/swcdb/db/Protocol/Rgr/params/RangeQuerySelect.h with its source), the answer of the
  ranger (ranger/callbacks/RangeQuerySelect.h), and what the client does with it
  (db/client/Query/Select/Handlers/BaseSingleColumn.cc, Scanner::rgr_selected in
  db/client/Query/Select/Scanner.cc): the cells are kept, and another request goes on behind the last
  one as long as the limits of the answer were reached. Sockets, locks and the location of ranges are left
  out; a ranger is a container here.
\<close>

section \<open>Framing of parameters\<close>

definition serializable_encoded_length :: "nat \<Rightarrow> nat" where
  "serializable_encoded_length n = encoded_length_vi32 (of_nat n) + n"

definition serializable_encode :: "nat \<Rightarrow> bytes \<Rightarrow> bytes" where
  "serializable_encode n body = vi32_out (of_nat n) @ body"

text \<open>The parameters get a count of their own; they have to use it up, and nothing behind it.\<close>

definition serializable_decode :: "'a decoder \<Rightarrow> 'a decoder" where
  "serializable_decode dec = dbind decode_vi32 (\<lambda>len r.
     if ucast len > remain r then Inl PROTOCOL_ERROR
     else case dec (r\<lparr>remain := ucast len\<rparr>) of
         Inl e \<Rightarrow> Inl e
       | Inr (x, r') \<Rightarrow>
           if remain r' \<noteq> 0 \<or> length (mem r) - length (mem r') > unat len then Inl PROTOCOL_ERROR
           else Inr (x, r'\<lparr>remain := remain r - ucast len\<rparr>))"

lemma decodes_serializable:
  assumes "decodes dec bs x" and "length bs < 2 ^ 32"
  shows "decodes (serializable_decode dec) (serializable_encode (length bs) bs) x"
  unfolding serializable_decode_def serializable_encode_def
proof (intro decodes_dbind [OF vi32.decodes_enc [OF TrueI]])
  let ?len = "of_nat (length bs) :: u32"
  have len: "unat ?len = length bs" using assms(2) by (simp add: unat_of_nat take_bit_nat_eq_self)
  then have uc: "unat (ucast ?len :: u64) = length bs" by (simp add: unat_ucast_up)
  show "decodes (\<lambda>r. if ucast ?len > remain r then Inl PROTOCOL_ERROR
     else case dec (r\<lparr>remain := ucast ?len\<rparr>) of
         Inl e \<Rightarrow> Inl e
       | Inr (x, r') \<Rightarrow>
           if remain r' \<noteq> 0 \<or> length (mem r) - length (mem r') > unat ?len then Inl PROTOCOL_ERROR
           else Inr (x, r'\<lparr>remain := remain r - ucast ?len\<rparr>)) bs x"
    unfolding decodes_def
  proof (intro allI impI)
    fix n :: u64 and rest assume n: "length bs \<le> unat n"
    then have le: "\<not> n < ucast ?len" by (simp add: word_less_nat_alt uc)
    have eq: "(ucast ?len :: u64) = of_nat (length bs)" using assms(2) uc by (simp add: word_unat_eq_iff)
    have "dec \<lparr>mem = bs @ rest, remain = ucast ?len\<rparr> = Inr (x, \<lparr>mem = rest, remain = 0\<rparr>)"
      using decodesD [OF assms(1), of "ucast ?len" rest] uc eq by simp
    then show "(if ucast ?len > remain \<lparr>mem = bs @ rest, remain = n\<rparr> then Inl PROTOCOL_ERROR
     else case dec (\<lparr>mem = bs @ rest, remain = n\<rparr>\<lparr>remain := ucast ?len\<rparr>) of
         Inl e \<Rightarrow> Inl e
       | Inr (x, r') \<Rightarrow>
           if remain r' \<noteq> 0 \<or> length (mem \<lparr>mem = bs @ rest, remain = n\<rparr>) - length (mem r') > unat ?len then Inl PROTOCOL_ERROR
           else Inr (x, r'\<lparr>remain := remain \<lparr>mem = bs @ rest, remain = n\<rparr> - ucast ?len\<rparr>)) =
      Inr (x, \<lparr>mem = rest, remain = n - of_nat (length bs)\<rparr>)"
      using le len eq by simp
  qed
qed

context codec
begin

lemma framed_codec: "codec (\<lambda>x. serializable_encode (len x) (enc x)) (serializable_decode dec)
  (\<lambda>x. serializable_encoded_length (len x)) (\<lambda>x. ok x \<and> len x < 2 ^ 32) view"
proof (rule codec_of_decodes)
  fix x assume x: "ok x \<and> len x < 2 ^ 32"
  then have l: "length (enc x) = len x" using enc_len by simp
  then show "length (serializable_encode (len x) (enc x)) = serializable_encoded_length (len x)"
    by (simp add: serializable_encode_def serializable_encoded_length_def)
  show "decodes (serializable_decode dec) (serializable_encode (len x) (enc x)) (view x)"
    using decodes_serializable [OF decodes_enc, of x] x l by simp
qed

end

section \<open>Parameters\<close>

record select_req =
  sq_cid :: u64
  sq_rid :: u64
  sq_interval :: scan_interval

definition select_req_length :: "select_req \<Rightarrow> nat" where
  "select_req_length q = encoded_length_vi64 (sq_cid q) + encoded_length_vi64 (sq_rid q) + scan_encoded_length (sq_interval q)"

definition select_req_encode :: "select_req \<Rightarrow> bytes" where
  "select_req_encode q = vi64_out (sq_cid q) @ vi64_out (sq_rid q) @ scan_encode (sq_interval q)"

text \<open>Into a request just made.\<close>

definition select_req_decode :: "select_req decoder" where
  "select_req_decode = dbind decode_vi64 (\<lambda>cid. dbind decode_vi64 (\<lambda>rid.
     dbind (scan_decode (Scan_new Col_UNKNOWN) True) (\<lambda>si. dret \<lparr>sq_cid = cid, sq_rid = rid, sq_interval = si\<rparr>)))"

record select_rsp =
  sp_err :: u32
  sp_reached_limit :: bool
  sp_offset :: u64
  sp_data :: bytes

definition select_rsp_length :: "select_rsp \<Rightarrow> nat" where
  "select_rsp_length p = encoded_length_vi32 (sp_err p) + 1 + encoded_length_vi64 (sp_offset p)"

definition select_rsp_encode :: "select_rsp \<Rightarrow> bytes" where
  "select_rsp_encode p = vi32_out (sp_err p) @ encode_bool (sp_reached_limit p) @ vi64_out (sp_offset p)"

definition select_rsp_decode :: "bytes \<Rightarrow> select_rsp decoder" where
  "select_rsp_decode data = dbind decode_vi32 (\<lambda>err. dbind decode_bool (\<lambda>reached. dbind decode_vi64 (\<lambda>offset.
     dret \<lparr>sp_err = err, sp_reached_limit = reached, sp_offset = offset, sp_data = data\<rparr>)))"

section \<open>Errors of a response\<close>

definition Error_OK :: u32 where "Error_OK = 0"
definition Error_UNPOSSIBLE :: u32 where "Error_UNPOSSIBLE = - 2"
definition Error_SERIALIZATION_INPUT_OVERRUN :: u32 where "Error_SERIALIZATION_INPUT_OVERRUN = 3012"
definition Error_COMM_NOT_CONNECTED :: u32 where "Error_COMM_NOT_CONNECTED = 3014"
definition Error_PROTOCOL_ERROR :: u32 where "Error_PROTOCOL_ERROR = 3019"
definition Error_ENCODER_DECODE :: u32 where "Error_ENCODER_DECODE = 3025"
definition Error_SERVER_SHUTTING_DOWN :: u32 where "Error_SERVER_SHUTTING_DOWN = 3030"
definition Error_RGR_NOT_LOADED_RANGE :: u32 where "Error_RGR_NOT_LOADED_RANGE = 3035"
definition Error_COLUMN_NOT_EXISTS :: u32 where "Error_COLUMN_NOT_EXISTS = 3042"
definition Error_COLUMN_MARKED_REMOVED :: u32 where "Error_COLUMN_MARKED_REMOVED = 3044"
definition Error_CLIENT_MISMATCHED_CID :: u32 where "Error_CLIENT_MISMATCHED_CID = 3065"
definition Error_CLIENT_STOPPING :: u32 where "Error_CLIENT_STOPPING = 3066"

lemmas error_codes = Error_OK_def Error_UNPOSSIBLE_def Error_SERIALIZATION_INPUT_OVERRUN_def Error_COMM_NOT_CONNECTED_def
  Error_PROTOCOL_ERROR_def Error_ENCODER_DECODE_def Error_SERVER_SHUTTING_DOWN_def Error_RGR_NOT_LOADED_RANGE_def
  Error_COLUMN_NOT_EXISTS_def Error_COLUMN_MARKED_REMOVED_def Error_CLIENT_MISMATCHED_CID_def Error_CLIENT_STOPPING_def

text \<open>The code of a throw; undefined behaviour has none.\<close>

fun err_code :: "err \<Rightarrow> u32 option" where
  "err_code UNPOSSIBLE = Some Error_UNPOSSIBLE"
| "err_code SERIALIZATION_INPUT_OVERRUN = Some Error_SERIALIZATION_INPUT_OVERRUN"
| "err_code ENCODER_DECODE = Some Error_ENCODER_DECODE"
| "err_code PROTOCOL_ERROR = Some Error_PROTOCOL_ERROR"
| "err_code Undefined_Behaviour = None"

text \<open>A response as the client gets it; after a throw only the error is looked at.\<close>

definition RangeQuerySelectRsp_read :: "u32 \<Rightarrow> bytes \<Rightarrow> u64 \<Rightarrow> bytes \<Rightarrow> select_rsp res" where
  "RangeQuerySelectRsp_read err ptr n data =
     (let p = \<lparr>sp_err = err, sp_reached_limit = False, sp_offset = 0, sp_data = data\<rparr>
      in if err \<noteq> Error_OK then Inr p
      else case serializable_decode (select_rsp_decode data) \<lparr>mem = ptr, remain = n\<rparr> of
          Inr (q, _) \<Rightarrow> Inr q
        | Inl e \<Rightarrow> (case err_code e of Some c \<Rightarrow> Inr (p\<lparr>sp_err := c\<rparr>) | None \<Rightarrow> Inl e))"

section \<open>Codecs of the parameters\<close>

text \<open>What a ranger gets of a specification: as \<open>scan_view\<close>, but times and flags do not count as set.\<close>

definition ts_received :: "timestamp \<Rightarrow> timestamp" where
  "ts_received t = (ts_view t)\<lparr>ts_was_set := False\<rparr>"

definition scan_received :: "scan_interval \<Rightarrow> scan_interval" where
  "scan_received si = (scan_view si)\<lparr>si_ts_start := ts_received (si_ts_start si), si_ts_finish := ts_received (si_ts_finish si),
     si_flags := (let f = (si_flags si)\<lparr>f_was_set := False\<rparr> in if is_updating si then clear_only_deletes f else f)\<rparr>"

lemma decodes_timestamp: "decodes (timestamp_decode Timestamp_new) (timestamp_encode t) (ts_received t)"
proof (cases "ts_comp t = Comp_code NONE")
  case True
  then have "ts_received t = Timestamp_new\<lparr>ts_comp := ts_comp t\<rparr>"
    by (cases t) (simp add: ts_received_def ts_view_def Timestamp_new_def)
  then have "decodes (timestamp_decode Timestamp_new) (encode_i8 (ts_comp t) @ []) (ts_received t)"
    unfolding timestamp_decode_def using True by (intro decodes_dbind [OF decodes_i8]) (simp add: decodes_dret)
  with True show ?thesis by (simp add: timestamp_encode_def)
next
  case False
  then have "ts_received t = Timestamp_new\<lparr>ts_comp := ts_comp t, ts_value := ts_value t\<rparr>"
    by (cases t) (simp add: ts_received_def ts_view_def Timestamp_new_def)
  then have "decodes (timestamp_decode Timestamp_new) (encode_i8 (ts_comp t) @ encode_i64 (ts_value t)) (ts_received t)"
    using decodes_dbind_dret [OF decodes_i64, of "\<lambda>v. Timestamp_new\<lparr>ts_comp := ts_comp t, ts_value := v\<rparr>" "ts_value t"] False
    unfolding timestamp_decode_def by (intro decodes_dbind [OF decodes_i8]) simp
  with False show ?thesis by (simp add: timestamp_encode_def)
qed

lemma decodes_flags: "decodes (flags_decode Flags_new) (flags_encode f) (f\<lparr>f_was_set := False\<rparr>)"
proof -
  have "decodes (dbind decode_i8 (\<lambda>options. dret
      (Flags_new\<lparr>f_limit := f_limit f, f_offset := f_offset f, f_max_versions := f_max_versions f,
         f_max_buffer := f_max_buffer f, f_options := options\<rparr>))) (encode_i8 (f_options f)) (f\<lparr>f_was_set := False\<rparr>)"
    using decodes_dbind_dret [OF decodes_i8, of "\<lambda>b. f\<lparr>f_was_set := False, f_options := b\<rparr>" "f_options f"]
    by (cases f) (simp add: Flags_new_def)
  then show ?thesis
    unfolding flags_decode_def flags_encode_def
    by (intro decodes_dbind [OF vi64.decodes_enc [OF TrueI]] decodes_dbind [OF vi32.decodes_enc [OF TrueI]])
qed

lemma decodes_scan:
  assumes "scan_ok si"
  shows "decodes (scan_decode (Scan_new Col_UNKNOWN) True) (scan_encode si) (scan_received si)"
proof -
  have k: "key_rep (si_begin si)" "key_rep (si_end si)" "key_rep (si_offset_key si)"
    and ks: "kis_ok (si_keys si)" and vs: "svs_ok (si_values si)"
    and up: "case si_updating si of None \<Rightarrow> \<not> has_opt OPT_UPDATING si | Some u \<Rightarrow> iu_ok u"
    using assms by (simp_all add: scan_ok_def)
  let ?vs = "(Values_new Col_UNKNOWN)\<lparr>svs_values := Specs_Value.written (si_values si)\<rparr>"
  have vals: "decodes (svs_decode (Values_new Col_UNKNOWN)) (svs_encode (si_values si)) ?vs"
    using spec_values_codec.decodes_enc [OF vs, of "Values_new Col_UNKNOWN"] by (simp add: svs_view_def)
  let ?g = "\<lambda>opt. \<lparr>si_begin = (si_begin si)\<lparr>key_own := True\<rparr>, si_end = (si_end si)\<lparr>key_own := True\<rparr>,
     si_keys = si_keys si, si_values = ?vs, si_ts_start = ts_received (si_ts_start si),
     si_ts_finish = ts_received (si_ts_finish si), si_flags = (si_flags si)\<lparr>f_was_set := False\<rparr>,
     si_offset_key = (si_offset_key si)\<lparr>key_own := True\<rparr>, si_offset_rev = si_offset_rev si, si_options = opt,
     si_updating = None\<rparr>"
  have view: "scan_received si = (?g 0)\<lparr>si_options := if is_updating si then si_options si OR OPT_UPDATING else si_options si,
      si_updating := map_option iu_view (si_updating si),
      si_flags := if is_updating si then clear_only_deletes (si_flags (?g 0)) else si_flags (?g 0)\<rparr>"
    by (simp add: scan_received_def scan_view_def Let_def)
  have new: "si_values (Scan_new Col_UNKNOWN) = Values_new Col_UNKNOWN" "si_ts_start (Scan_new Col_UNKNOWN) = Timestamp_new"
    "si_ts_finish (Scan_new Col_UNKNOWN) = Timestamp_new" "si_flags (Scan_new Col_UNKNOWN) = Flags_new"
    "si_updating (Scan_new Col_UNKNOWN) = None" by (simp_all add: Scan_new_def)
  show ?thesis
    unfolding scan_decode_def scan_encode_def view new
    by (intro decodes_dbind [OF decodes_key [OF k(1)]] decodes_dbind [OF decodes_key [OF k(2)]]
        decodes_dbind [OF decodes_key [OF k(3)]] decodes_dbind [OF key_intervals_codec.decodes_enc [OF ks]]
        decodes_dbind [OF vals] decodes_dbind [OF decodes_timestamp] decodes_dbind [OF decodes_flags]
        decodes_dbind [OF vi64.decodes_enc [OF TrueI]] decodes_options [OF up]) simp
qed

definition select_req_received :: "select_req \<Rightarrow> select_req" where
  "select_req_received q = q\<lparr>sq_interval := scan_received (sq_interval q)\<rparr>"

interpretation select_req_codec: codec select_req_encode select_req_decode select_req_length
  "\<lambda>q. scan_ok (sq_interval q)" select_req_received
proof (rule codec_of_decodes)
  fix q :: select_req assume ok: "scan_ok (sq_interval q)"
  then show "length (select_req_encode q) = select_req_length q"
    by (simp add: select_req_encode_def select_req_length_def scan_codec.enc_len)
  have "select_req_received q = \<lparr>sq_cid = sq_cid q, sq_rid = sq_rid q, sq_interval = scan_received (sq_interval q)\<rparr>"
    by (cases q) (simp add: select_req_received_def)
  then show "decodes select_req_decode (select_req_encode q) (select_req_received q)"
    using decodes_dbind_dret [OF decodes_scan [OF ok], of "\<lambda>si. \<lparr>sq_cid = sq_cid q, sq_rid = sq_rid q, sq_interval = si\<rparr>"]
    unfolding select_req_decode_def select_req_encode_def
    by (intro decodes_dbind [OF vi64.decodes_enc [OF TrueI]]) simp
qed

interpretation framed_select_req: codec "\<lambda>q. serializable_encode (select_req_length q) (select_req_encode q)"
  "serializable_decode select_req_decode" "\<lambda>q. serializable_encoded_length (select_req_length q)"
  "\<lambda>q. scan_ok (sq_interval q) \<and> select_req_length q < 2 ^ 32" select_req_received
  by (rule select_req_codec.framed_codec)

lemma decodes_bool: "decodes decode_bool (encode_bool b) b"
  using decodes_dbind_dret [OF decodes_i8, of "\<lambda>b. b \<noteq> 0" "if b then 1 else 0"]
  by (simp add: decode_bool_def encode_bool_def split: if_splits)

interpretation select_rsp_codec: codec select_rsp_encode "select_rsp_decode data" select_rsp_length
  "\<lambda>_. True" "\<lambda>p. p\<lparr>sp_data := data\<rparr>" for data
proof (rule codec_of_decodes)
  fix p :: select_rsp
  show "length (select_rsp_encode p) = select_rsp_length p"
    by (simp add: select_rsp_encode_def select_rsp_length_def encode_bool_def encode_i8_def)
  have "decodes (dbind decode_vi64 (\<lambda>offset. dret \<lparr>sp_err = sp_err p, sp_reached_limit = sp_reached_limit p,
      sp_offset = offset, sp_data = data\<rparr>)) (vi64_out (sp_offset p)) (p\<lparr>sp_data := data\<rparr>)"
    using decodes_dbind_dret [OF vi64.decodes_enc [OF TrueI], of "\<lambda>offset. p\<lparr>sp_offset := offset, sp_data := data\<rparr>" "sp_offset p"]
    by (cases p) simp
  then show "decodes (select_rsp_decode data) (select_rsp_encode p) (p\<lparr>sp_data := data\<rparr>)"
    unfolding select_rsp_decode_def select_rsp_encode_def
    by (intro decodes_dbind [OF vi32.decodes_enc [OF TrueI]] decodes_dbind [OF decodes_bool])
qed

interpretation framed_select_rsp: codec "\<lambda>p. serializable_encode (select_rsp_length p) (select_rsp_encode p)"
  "serializable_decode (select_rsp_decode data)" "\<lambda>p. serializable_encoded_length (select_rsp_length p)"
  "\<lambda>p. True \<and> select_rsp_length p < 2 ^ 32" "\<lambda>p. p\<lparr>sp_data := data\<rparr>" for data
  by (rule select_rsp_codec.framed_codec)

section \<open>The answer of the ranger\<close>

text \<open>\<open>shutting\<close> and \<open>deleted\<close> are what the daemon and the range say at the time. Cells kept with their values are
  written again without, when only keys were asked for.\<close>

definition select_response :: "bool \<Rightarrow> bool \<Rightarrow> u32 \<Rightarrow> bytes req_scan \<Rightarrow> select_rsp res option" where
  "select_response shutting deleted err rq =
     (let err = (if err \<noteq> Error_OK then err else if shutting then Error_SERVER_SHUTTING_DOWN
            else if deleted then Error_COLUMN_MARKED_REMOVED else err);
          cells = (if err = Error_COLUMN_MARKED_REMOVED then [] else rq_state rq);
          p = \<lparr>sp_err = err, sp_reached_limit = (err = Error_OK \<and> select_reached_limits rq), sp_offset = rq_offset rq,
               sp_data = cells\<rparr>
      in if cells \<noteq> [] \<and> \<not> rq_only_keys rq \<and> is_only_keys (si_flags (rq_spec rq))
         then map_option (\<lambda>cs. res_bind cs (\<lambda>cs. Inr (p\<lparr>sp_data := sent True cs\<rparr>)))
           (read_while (length cells) (cell_read False) \<lparr>mem = cells, remain = of_nat (length cells)\<rparr>)
         else Some (Inr p))"

section \<open>The client\<close>

record select_handler =
  sh_cid :: u64
  sh_error :: u32
  sh_cells :: result

text \<open>The first error stays.\<close>

definition sh_set_error :: "select_handler \<Rightarrow> u64 \<Rightarrow> u32 \<Rightarrow> select_handler" where
  "sh_set_error h cid err =
     (if sh_error h = Error_OK then h\<lparr>sh_error := if cid = sh_cid h then err else Error_CLIENT_MISMATCHED_CID\<rparr> else h)"

definition sh_get_cells :: "select_handler \<Rightarrow> result \<Rightarrow> select_handler \<times> result" where
  "sh_get_cells h cells = (let (cells, own) = rs_take cells (sh_cells h) in (h\<lparr>sh_cells := own\<rparr>, cells))"

text \<open>Keeping the cells of an answer: whether more are wanted, and from where on.\<close>

definition sh_add_cells :: "select_handler \<Rightarrow> u64 \<Rightarrow> bytes \<Rightarrow> bool \<Rightarrow> scan_interval \<Rightarrow>
    (select_handler \<times> scan_interval \<times> bool) res option" where
  "sh_add_cells h cid data reached iv =
     (if cid \<noteq> sh_cid h then Some (Inr (sh_set_error h cid Error_OK, iv, False))
      else map_option (\<lambda>r. res_bind r (\<lambda>(cells, recved).
        let h = h\<lparr>sh_cells := cells\<rparr>; limit = f_limit (si_flags iv)
        in if limit \<noteq> 0 \<and> limit \<le> of_nat recved then Inr (h, iv\<lparr>si_flags := (si_flags iv)\<lparr>f_limit := 0\<rparr>\<rparr>, False)
           else
             let iv = (if limit \<noteq> 0 then iv\<lparr>si_flags := (si_flags iv)\<lparr>f_limit := limit - of_nat recved\<rparr>\<rparr> else iv)
             in if \<not> reached then Inr (h, iv, True)
                else if rs_cells cells = [] then Inl Undefined_Behaviour
                else Inr (h, iv\<lparr>si_offset_key := key_copy (c_key (last (rs_cells cells))),
                       si_offset_rev := c_timestamp (last (rs_cells cells))\<rparr>, True)))
        (rs_add_buffer (sh_cells h) data (of_nat (length data))))"

text \<open>What the scanner does after a response: ask the same range again, go to the next one, have the range located
  again, ask again as before, or stop.\<close>

datatype select_next = Select_again | Next_call | Locate_again | Request_again | Finished

definition rgr_selected :: "bool \<Rightarrow> select_handler \<Rightarrow> u64 \<Rightarrow> scan_interval \<Rightarrow> select_rsp \<Rightarrow>
    (select_handler \<times> scan_interval \<times> select_next) res option" where
  "rgr_selected valid h cid iv rsp =
     (if sp_err rsp = Error_OK
      then let iv = (if f_offset (si_flags iv) \<noteq> 0 then iv\<lparr>si_flags := (si_flags iv)\<lparr>f_offset := sp_offset rsp\<rparr>\<rparr> else iv);
          onward = (if sp_reached_limit rsp then Select_again else Next_call)
        in if sp_data rsp = [] then Some (Inr (h, iv, onward))
           else map_option (\<lambda>r. res_bind r (\<lambda>(h, iv, more). Inr (h, iv, if more then onward else Finished)))
             (sh_add_cells h cid (sp_data rsp) (sp_reached_limit rsp) iv)
      else Some (Inr (
        if sp_err rsp = Error_RGR_NOT_LOADED_RANGE \<or> sp_err rsp = Error_SERVER_SHUTTING_DOWN \<or>
           sp_err rsp = Error_COMM_NOT_CONNECTED
        then (h, iv, if valid then Locate_again else Finished)
        else if sp_err rsp = Error_COLUMN_MARKED_REMOVED \<or> sp_err rsp = Error_COLUMN_NOT_EXISTS \<or>
           sp_err rsp = Error_CLIENT_STOPPING
        then (sh_set_error h (sh_cid h) (sp_err rsp), iv, Finished)
        else (h, iv, if valid then Request_again else Finished))))"

section \<open>Asking until all is there\<close>

text \<open>One request to a ranger that keeps the range in a container: the specification goes over the wire, is completed
  and scanned for, and the response comes back.\<close>

definition ranger_answers :: "i64 \<Rightarrow> (bytes \<Rightarrow> bytes \<Rightarrow> bool) \<Rightarrow> ld \<Rightarrow> libs \<Rightarrow> mutable \<Rightarrow> u32 \<Rightarrow> u32 \<Rightarrow> scan_interval \<Rightarrow>
    select_rsp res option" where
  "ranger_answers now rx ld lb m versions blk_size si =
     (case RangeQuerySelect_of si (m_type m) versions blk_size of
        Inl e \<Rightarrow> Some (Inl e)
      | Inr rq \<Rightarrow> (case m_scan now m (selector rx ld lb (m_seq m)) select_add rq of
          None \<Rightarrow> None
        | Some (Inl e) \<Rightarrow> (case err_code e of None \<Rightarrow> Some (Inl e)
            | Some c \<Rightarrow> select_response False False c rq)
        | Some (Inr rq) \<Rightarrow> select_response False False Error_OK rq))"

definition over_the_wire :: "u64 \<Rightarrow> u64 \<Rightarrow> scan_interval \<Rightarrow> select_req res" where
  "over_the_wire cid rid iv =
     (let q = \<lparr>sq_cid = cid, sq_rid = rid, sq_interval = iv\<rparr>;
          buf = serializable_encode (select_req_length q) (select_req_encode q)
      in map_sum id fst (serializable_decode select_req_decode \<lparr>mem = buf, remain = of_nat (length buf)\<rparr>))"

definition back_over_the_wire :: "select_rsp \<Rightarrow> select_rsp res" where
  "back_over_the_wire p =
     (let buf = serializable_encode (select_rsp_length p) (select_rsp_encode p)
      in RangeQuerySelectRsp_read Error_OK buf (of_nat (length buf)) (sp_data p))"

fun select_pages :: "nat \<Rightarrow> (scan_interval \<Rightarrow> select_rsp res option) \<Rightarrow> u64 \<Rightarrow> u64 \<Rightarrow> select_handler \<Rightarrow> scan_interval \<Rightarrow>
    (select_handler \<times> scan_interval \<times> select_next) res option" where
  "select_pages 0 ask cid rid h iv = None"
| "select_pages (Suc n) ask cid rid h iv =
     (case over_the_wire cid rid iv of
        Inl e \<Rightarrow> Some (Inl e)
      | Inr q \<Rightarrow> (case ask (sq_interval q) of
          None \<Rightarrow> None
        | Some (Inl e) \<Rightarrow> Some (Inl e)
        | Some (Inr p) \<Rightarrow> (case back_over_the_wire p of
            Inl e \<Rightarrow> Some (Inl e)
          | Inr p \<Rightarrow> (case rgr_selected True h cid iv p of
              None \<Rightarrow> None
            | Some (Inl e) \<Rightarrow> Some (Inl e)
            | Some (Inr (h, iv, nx)) \<Rightarrow>
                if nx = Select_again then select_pages n ask cid rid h iv else Some (Inr (h, iv, nx))))))"

section \<open>The specification of the next request\<close>

text \<open>A request that goes on: limit, offset and the cell to go on behind differ, nothing else.\<close>

definition onward :: "scan_interval \<Rightarrow> u64 \<Rightarrow> u64 \<Rightarrow> key \<Rightarrow> i64 \<Rightarrow> scan_interval" where
  "onward iv limit offset k t = iv\<lparr>si_flags := (si_flags iv)\<lparr>f_limit := limit, f_offset := offset\<rparr>,
     si_offset_key := k, si_offset_rev := t\<rparr>"

definition completed :: "mutable \<Rightarrow> u32 \<Rightarrow> u32 \<Rightarrow> scan_interval \<Rightarrow> scan_interval" where
  "completed m versions blk_size iv =
     (case RangeQuerySelect_of (scan_received iv) (m_type m) versions blk_size of Inl e \<Rightarrow> iv | Inr rq \<Rightarrow> rq_spec rq)"

text \<open>Whether it can be completed, which fails only for keys that are too long for their size.\<close>

definition completes :: "mutable \<Rightarrow> u32 \<Rightarrow> u32 \<Rightarrow> scan_interval \<Rightarrow> bool" where
  "completes m versions blk_size iv =
     (case RangeQuerySelect_of (scan_received iv) (m_type m) versions blk_size of Inl e \<Rightarrow> False | Inr rq \<Rightarrow> True)"

lemma onward_parts:
  "si_keys (onward si l o' k t) = si_keys si" "si_begin (onward si l o' k t) = si_begin si"
  "si_end (onward si l o' k t) = si_end si" "has_opt x (onward si l o' k t) = has_opt x si"
  "onward (si\<lparr>si_begin := b\<rparr>) l o' k t = (onward si l o' k t)\<lparr>si_begin := b\<rparr>"
  "onward (si\<lparr>si_end := b\<rparr>) l o' k t = (onward si l o' k t)\<lparr>si_end := b\<rparr>"
  "onward (set_opt x si) l o' k t = set_opt x (onward si l o' k t)"
  "apply_possible_range (onward si l o' k t) = apply_possible_range si"
  by (simp_all add: onward_def has_opt_def set_opt_def apply_possible_range_def fun_eq_iff)

lemma range_parts:
  "apply_possible_range (si\<lparr>si_begin := b\<rparr>) = apply_possible_range si"
  "has_opt x (si\<lparr>si_begin := b\<rparr>) = has_opt x si" "has_opt x (si\<lparr>si_end := b\<rparr>) = has_opt x si"
  by (simp_all add: has_opt_def apply_possible_range_def fun_eq_iff)

lemma apply_pure_onward:
  "apply_possible_range_pure (onward si l o' k t) = map_sum id (\<lambda>si. onward si l o' k t) (apply_possible_range_pure si)"
  by (cases "key_empty (si_begin si)"; cases "key_empty (si_end si)"; cases "apply_possible_range si (si_begin si) False False True";
    cases "apply_possible_range si (si_end si) True True True")
    (simp_all add: apply_possible_range_pure_def Let_def onward_parts range_parts)

lemma scan_received_onward:
  "\<not> is_updating iv \<Longrightarrow> scan_received (onward iv l o' k t) = onward (scan_received iv) l o' (k\<lparr>key_own := True\<rparr>) t"
  by (simp add: scan_received_def scan_view_def onward_def is_updating_def Let_def)

lemma RangeQuerySelect_onward:
  "map_sum id rq_spec (RangeQuerySelect_of (onward si l o' k t) typ v b) =
    map_sum id (\<lambda>rq. onward (rq_spec rq) l o' k t) (RangeQuerySelect_of si typ v b)"
proof -
  define g where "g x = (if svs_values (si_values x) \<noteq> [] then x\<lparr>si_values := (si_values x)\<lparr>svs_type := typ\<rparr>\<rparr> else x)" for x :: scan_interval
  define f where "f x = (if f_max_versions (si_flags x) = 0 then x\<lparr>si_flags := (si_flags x)\<lparr>f_max_versions := v\<rparr>\<rparr> else x)" for x :: scan_interval
  define h where "h x = (if f_max_buffer (si_flags x) = 0 \<or> f_max_buffer (si_flags x) > b
    then x\<lparr>si_flags := (si_flags x)\<lparr>f_max_buffer := b\<rparr>\<rparr> else x)" for x :: scan_interval
  have "RangeQuerySelect_of x typ v b = res_bind (apply_possible_range_pure (h (f (g x)))) (\<lambda>si. Inr ((ReqScan_of x [])\<lparr>rq_spec := si\<rparr>))" for x
    by (simp add: RangeQuerySelect_of_def ReqScan_of_def Let_def g_def f_def h_def)
  then have R: "map_sum id rq_spec (RangeQuerySelect_of x typ v b) = apply_possible_range_pure (h (f (g x)))"
    "map_sum id (\<lambda>rq. onward (rq_spec rq) l o' k t) (RangeQuerySelect_of x typ v b) =
      map_sum id (\<lambda>si. onward si l o' k t) (apply_possible_range_pure (h (f (g x))))" for x
    by (cases "apply_possible_range_pure (h (f (g x)))"; simp)+
  have "g (onward x l o' k t) = onward (g x) l o' k t" "f (onward x l o' k t) = onward (f x) l o' k t"
    "h (onward x l o' k t) = onward (h x) l o' k t" for x
    by (simp_all add: g_def f_def h_def onward_def)
  then show ?thesis by (simp add: R apply_pure_onward)
qed

lemma apply_pure_flags: "apply_possible_range_pure si = Inr si' \<Longrightarrow> si_flags si' = si_flags si"
  by (auto simp: apply_possible_range_pure_def Let_def set_opt_def res_bind_def split: if_splits sum.splits)

lemma RangeQuerySelect_parts:
  assumes "RangeQuerySelect_of si typ v b = Inr rq"
  shows "rq_offset rq = f_offset (si_flags si)" "rq_only_keys rq = is_only_keys (si_flags si)"
    "rq_state rq = []" "rq_cells_count rq = 0"
    "f_limit (si_flags (rq_spec rq)) = f_limit (si_flags si)" "f_options (si_flags (rq_spec rq)) = f_options (si_flags si)"
  using assms by (auto simp: RangeQuerySelect_of_def ReqScan_of_def Let_def res_bind_def dest!: apply_pure_flags split: sum.splits)

lemma received_flags:
  assumes "\<not> is_updating iv"
  shows "f_limit (si_flags (scan_received iv)) = f_limit (si_flags iv)"
    "f_offset (si_flags (scan_received iv)) = f_offset (si_flags iv)"
    "f_options (si_flags (scan_received iv)) = f_options (si_flags iv)"
  using assms by (simp_all add: scan_received_def is_updating_def Let_def)

lemma completed_onward:
  "\<not> is_updating iv \<Longrightarrow> completes m v b iv \<Longrightarrow>
    completed m v b (onward iv l o' k t) = onward (completed m v b iv) l o' (k\<lparr>key_own := True\<rparr>) t"
  using RangeQuerySelect_onward [of "scan_received iv" l o' "k\<lparr>key_own := True\<rparr>" t "m_type m" v b]
  by (auto simp: completes_def completed_def scan_received_onward split: sum.splits)

lemma completes_onward: "\<not> is_updating iv \<Longrightarrow> completes m v b (onward iv l o' k t) = completes m v b iv"
  using RangeQuerySelect_onward [of "scan_received iv" l o' "k\<lparr>key_own := True\<rparr>" t "m_type m" v b]
  by (auto simp: completes_def scan_received_onward split: sum.splits)

lemma onward_resumed: "onward si l o' k t = (resumed si k t)\<lparr>si_flags := (si_flags si)\<lparr>f_limit := l, f_offset := o'\<rparr>\<rparr>"
  by (simp add: onward_def resumed_def)

lemma scan_matching_flags: "scan_matching rx ld lb s (si\<lparr>si_flags := f\<rparr>) c st = scan_matching rx ld lb s si c st"
proof -
  have p: "si_begin (si\<lparr>si_flags := f\<rparr>) = si_begin si" "si_end (si\<lparr>si_flags := f\<rparr>) = si_end si"
    "si_keys (si\<lparr>si_flags := f\<rparr>) = si_keys si" "si_values (si\<lparr>si_flags := f\<rparr>) = si_values si"
    "si_ts_start (si\<lparr>si_flags := f\<rparr>) = si_ts_start si" "si_ts_finish (si\<lparr>si_flags := f\<rparr>) = si_ts_finish si"
    "si_offset_key (si\<lparr>si_flags := f\<rparr>) = si_offset_key si" "si_offset_rev (si\<lparr>si_flags := f\<rparr>) = si_offset_rev si"
    "si_options (si\<lparr>si_flags := f\<rparr>) = si_options si" by simp_all
  show ?thesis
    by (simp only: scan_matching_def matching_offset_def matching_rev_def is_matching_begin_def is_matching_end_def
      end_count_def end_by_count_def has_opt_def p)
qed

lemma wanted_onward: "wanted rx ld lb now m (onward si l o' k t) = wanted rx ld lb now m (resumed si k t)"
  by (simp add: fun_eq_iff wanted_def onward_resumed scan_matching_flags is_only_deletes_def resumed_parts)

lemma answered_onward: "answered rx ld lb now m (onward si l o' k t) = answered rx ld lb now m (resumed si k t)"
  by (simp add: answered_def onward_resumed scan_matching_flags is_only_deletes_def resumed_parts)

lemma same_cell:
  assumes "one_version m" and "container_ok m" and "c \<in> set (m_cells m)" and "d \<in> set (m_cells m)"
    and "key_cmp (m_seq m) (c_key c) (c_key d) = EQ"
  shows "c = d"
proof (rule ccontr)
  assume ne: "c \<noteq> d"
  obtain i j where ij: "i < length (m_cells m)" "j < length (m_cells m)" "c = m_cells m ! i" "d = m_cells m ! j"
    using assms(3,4) by (metis in_set_conv_nth)
  have sorted: "i < j \<Longrightarrow> key_cmp (m_seq m) (c_key c) (c_key d) = GT" "j < i \<Longrightarrow> key_cmp (m_seq m) (c_key d) (c_key c) = GT"
    using assms(1) ij by (auto simp: one_version_def sorted_wrt_iff_nth_less)
  have s: "m_seq m \<noteq> UNKNOWN" and k: "key_rep (c_key c)" "key_rep (c_key d)"
    using assms(2,3,4) by (auto simp: container_ok_def list_all_iff cell_ok_def)
  have "i \<noteq> j" using ne ij by auto
  then show False using sorted assms(5) comp_order.cmp_swap [OF key_order [OF s] k(2,1)] by (cases "i < j") auto
qed

lemma answered_resumed:
  assumes m: "container_ok m" and one: "one_version m" and off: "key_rep (si_offset_key si)"
    and an: "answered rx ld lb now m si" and c: "c \<in> set (m_cells m)" "wanted rx ld lb now m si c"
    and k: "key_rep k" "same_key k (c_key c)" "\<not> key_empty k" and ts: "ts = c_timestamp c"
  shows "answered rx ld lb now m (resumed si k ts)"
  unfolding answered_def list_all_iff
proof
  fix d assume d: "d \<in> set (m_cells m)"
  have s: "m_seq m \<noteq> UNKNOWN" and rep: "key_rep (c_key c)" "key_rep (c_key d)"
    using m c(1) d by (auto simp: container_ok_def list_all_iff cell_ok_def)
  note moves = offset_moves [OF s off rep k]
  consider (before) "key_cmp (m_seq m) (c_key d) (c_key c) = GT" | (same) "d = c" | (after) "key_cmp (m_seq m) (c_key c) (c_key d) = GT"
    using comp_order.cmp_three [OF key_order [OF s] rep] same_cell [OF one m c(1) d]
      comp_order.cmp_swap [OF key_order [OF s] rep(2,1)] by metis
  then have "matching_offset (m_seq m) (resumed si k ts) (c_key d) (c_timestamp d) (is_time_order_desc d) = Inr False \<or>
      scan_matching rx ld lb (m_seq m) (resumed si k ts) d False = scan_matching rx ld lb (m_seq m) si d False"
  proof cases
    case after
    then show ?thesis using moves(3,4) wantedD(1) [OF c(2)] by (intro disjI2 scan_matching_resumed) blast+
  qed (use moves(1,2) ts in simp_all)
  then show "passed_over now m (is_only_deletes (si_flags (resumed si k ts))) d \<or>
      (case scan_matching rx ld lb (m_seq m) (resumed si k ts) d False of Inl _ \<Rightarrow> False | Inr _ \<Rightarrow> True)"
  proof
    assume "matching_offset (m_seq m) (resumed si k ts) (c_key d) (c_timestamp d) (is_time_order_desc d) = Inr False"
    then show ?thesis by (simp add: scan_matching_def)
  next
    assume "scan_matching rx ld lb (m_seq m) (resumed si k ts) d False = scan_matching rx ld lb (m_seq m) si d False"
    then show ?thesis using an d by (simp add: answered_def list_all_iff resumed_parts)
  qed
qed

section \<open>One answer\<close>

text \<open>What is kept of a cell, and of how many.\<close>

definition up_to_limit :: "u64 \<Rightarrow> 'a list \<Rightarrow> 'a list" where
  "up_to_limit limit xs = (if limit = 0 then xs else take (unat limit) xs)"

text \<open>The length of a request without what changes from one to the next.\<close>

definition request_room :: "scan_interval \<Rightarrow> nat" where
  "request_room iv = scan_encoded_length (onward iv 0 0 Key_new 0)"

text \<open>A container and a request that the ranger can answer completely: one version per key, the cells tell their
  time to a reader, and no buffer overflows its count.\<close>

definition selectable :: "(bytes \<Rightarrow> bytes \<Rightarrow> bool) \<Rightarrow> ld \<Rightarrow> libs \<Rightarrow> i64 \<Rightarrow> mutable \<Rightarrow> u32 \<Rightarrow> u32 \<Rightarrow> scan_interval \<Rightarrow> bool" where
  "selectable rx ld lb now m versions blk_size iv \<longleftrightarrow>
     one_version m \<and> m_max_revs m = 1 \<and> length (m_cells m) < 2 ^ 64 \<and> completes m versions blk_size iv \<and>
     scannable m (completed m versions blk_size iv) \<and> answered rx ld lb now m (completed m versions blk_size iv) \<and>
     list_all (\<lambda>c. \<forall>nv. c_timestamp (cell_view True nv c) = c_timestamp c) (m_cells m) \<and>
     (\<forall>nv. length (sent nv (m_cells m)) < 2 ^ 64) \<and> scan_ok iv \<and> \<not> is_updating iv \<and>
     (\<forall>k \<in> insert (si_offset_key iv) (c_key ` set (m_cells m)). request_room iv + unat (key_encoded_length k) + 60 < 2 ^ 32)"

definition to_deliver :: "(bytes \<Rightarrow> bytes \<Rightarrow> bool) \<Rightarrow> ld \<Rightarrow> libs \<Rightarrow> i64 \<Rightarrow> mutable \<Rightarrow> u32 \<Rightarrow> u32 \<Rightarrow> scan_interval \<Rightarrow> cell list" where
  "to_deliver rx ld lb now m versions blk_size iv = drop (unat (f_offset (si_flags iv)))
     (filter (wanted rx ld lb now m (completed m versions blk_size iv)) (m_cells m))"

lemma sent_filter_length: "length (sent nv (take n (drop k (filter P cs)))) \<le> length (sent nv cs)"
proof -
  have "length (sent nv (filter P cs)) \<le> length (sent nv cs)" by (induction cs) auto
  moreover have "length (sent nv (drop k xs)) \<le> length (sent nv xs)" for xs
    by (metis append_take_drop_id concat_append le_add2 length_append map_append)
  moreover have "length (sent nv (take n xs)) \<le> length (sent nv xs)" for xs
    by (metis append_take_drop_id concat_append le_add1 length_append map_append)
  ultimately show ?thesis by (meson le_trans)
qed

text \<open>The answer: its number of cells, at least one where the limits were reached.\<close>

lemma ranger_answer:
  assumes sel: "selectable rx ld lb now m v b iv"
  defines "W \<equiv> to_deliver rx ld lb now m v b iv" and "nv \<equiv> is_only_keys (si_flags iv)"
  shows "\<exists>n \<le> length W. \<exists>p. ranger_answers now rx ld lb m v b (scan_received iv) = Some (Inr p) \<and>
    sp_err p = Error_OK \<and> sp_data p = sent nv (take n W) \<and> (sp_reached_limit p \<longrightarrow> 0 < n) \<and>
    (\<not> sp_reached_limit p \<longrightarrow> n = length W) \<and> (0 < n \<longrightarrow> sp_offset p = 0) \<and>
    (f_limit (si_flags iv) \<noteq> 0 \<longrightarrow> n \<le> unat (f_limit (si_flags iv)))"
proof -
  obtain rq where rq: "RangeQuerySelect_of (scan_received iv) (m_type m) v b = Inr rq"
    using sel by (auto simp: selectable_def completes_def split: sum.splits)
  let ?rq = rq and ?W = "filter (wanted rx ld lb now m (rq_spec rq)) (m_cells m)"
  have upd: "\<not> is_updating iv" and one: "m_max_revs m = 1" and len: "length (m_cells m) < 2 ^ 64"
    and sc: "scannable m (rq_spec rq)" and an: "answered rx ld lb now m (rq_spec rq)"
    using sel by (auto simp: selectable_def completed_def rq)
  note rf = received_flags [OF upd] and parts = RangeQuerySelect_parts [OF rq]
  have W: "W = drop (unat (rq_offset rq)) ?W" by (simp add: W_def to_deliver_def completed_def rq parts rf)
  obtain n rq' where n: "n \<le> length W" and s: "m_scan now m (selector rx ld lb (m_seq m)) select_add ?rq = Some (Inr rq')"
    and st: "rq_state rq' = sent (rq_only_keys ?rq) (take n W)" and sp: "rq_spec rq' = rq_spec ?rq"
    and keys: "rq_only_keys rq' = rq_only_keys ?rq"
    and cnt: "rq_cells_count rq' = of_nat n" and off: "rq_offset rq' = of_nat (unat (rq_offset ?rq) - length ?W)"
    and more: "n < length W \<longrightarrow> select_reached_limits rq'"
    and lim: "f_limit (si_flags (rq_spec ?rq)) \<noteq> 0 \<longrightarrow> n \<le> unat (f_limit (si_flags (rq_spec ?rq)))"
    using select_outcome [OF sc one len an parts(3,4) W] by blast
  have nv: "rq_only_keys ?rq = nv" "is_only_keys (si_flags (rq_spec ?rq)) = nv"
    by (simp_all add: nv_def parts is_only_keys_def rf)
  define p where "p = \<lparr>sp_err = Error_OK, sp_reached_limit = select_reached_limits rq', sp_offset = rq_offset rq',
    sp_data = sent nv (take n W)\<rparr>"
  have "ranger_answers now rx ld lb m v b (scan_received iv) = Some (Inr p)"
    using s by (simp add: ranger_answers_def rq select_response_def error_codes keys sp nv st p_def)
  moreover have "0 < n" if "select_reached_limits rq'"
    using that cnt by (cases "n = 0") (auto simp: select_reached_limits_def Let_def)
  moreover have "n = length W" if "\<not> select_reached_limits rq'" using more n that by simp
  moreover have "sp_offset p = 0" if "0 < n" using that n off W by (simp add: p_def)
  ultimately show ?thesis using n lim by (intro exI [of _ n] exI [of _ p]) (simp add: p_def parts rf)
qed

section \<open>What the client makes of it\<close>

lemma decoded_cells:
  assumes "list_all cell_ok cs" and "length (sent nv cs) < 2 ^ 64"
  shows "\<exists>r'. rs_add_buffer r (sent nv cs) (of_nat (length (sent nv cs))) = Some (Inr (r', length cs)) \<and>
    rs_cells r' = rs_cells r @ map (cell_view True nv) cs"
proof -
  have len: "length (sent nv cs) = sum_list (map (\<lambda>c. cell_encoded_length c (drops_value nv c)) cs)"
    using assms(1) by (induction cs) (simp_all add: cell_codec.enc_len)
  moreover have "length cs \<le> length (sent nv cs)"
    using assms(1)
  proof (induction cs)
    case (Cons c cs)
    then have "0 < length (cell_write c nv)" using cell_codec.len_pos [of c nv] cell_length [of c nv] by auto
    with Cons show ?case by (simp del: length_greater_0_conv)
  qed simp
  ultimately have "read_while (length (sent nv cs)) (cell_read True) \<lparr>mem = sent nv cs @ [], remain = of_nat (length (sent nv cs))\<rparr>
      = Some (Inr (map (cell_view True nv) cs))"
    using assms by (intro cell_codec.read_while_concat) (auto simp: list_all_iff)
  then show ?thesis by (simp add: rs_add_buffer_def)
qed

lemma sent_empty: "list_all cell_ok cs \<Longrightarrow> sent nv cs = [] \<longleftrightarrow> cs = []"
proof (cases cs)
  case (Cons c cs')
  assume "list_all cell_ok cs"
  then have "cell_write c nv \<noteq> []" using Cons cell_codec.len_pos [of c nv] cell_length [of c nv] by auto
  then show ?thesis using Cons by simp
qed simp

text \<open>One response taken in: with cells, they are kept; the limit is counted down, the offset used up, and the next
  request goes on behind the last cell.\<close>

lemma rgr_selected_takes:
  assumes cells: "list_all cell_ok cs" "length (sent nv cs) < 2 ^ 64" "cs \<noteq> []" and n: "length cs < 2 ^ 64"
    and p: "sp_err p = Error_OK" "sp_data p = sent nv cs" "sp_offset p = 0"
    and lim: "f_limit (si_flags iv) \<noteq> 0 \<longrightarrow> length cs \<le> unat (f_limit (si_flags iv))"
  shows "\<exists>h' iv' nx. rgr_selected valid h (sh_cid h) iv p = Some (Inr (h', iv', nx)) \<and> sh_cid h' = sh_cid h \<and>
    rs_cells (sh_cells h') = rs_cells (sh_cells h) @ map (cell_view True nv) cs \<and>
    (if f_limit (si_flags iv) \<noteq> 0 \<and> length cs = unat (f_limit (si_flags iv)) then nx = Finished
     else if sp_reached_limit p
       then nx = Select_again \<and> iv' = onward iv (if f_limit (si_flags iv) = 0 then 0 else f_limit (si_flags iv) - of_nat (length cs))
         0 (key_copy ((c_key (last cs))\<lparr>key_own := True\<rparr>)) (c_timestamp (cell_view True nv (last cs)))
     else nx = Next_call)"
proof -
  let ?L = "f_limit (si_flags iv)"
  obtain r' where r': "rs_add_buffer (sh_cells h) (sent nv cs) (of_nat (length (sent nv cs))) = Some (Inr (r', length cs))"
    "rs_cells r' = rs_cells (sh_cells h) @ map (cell_view True nv) cs" using decoded_cells [OF cells(1,2)] by blast
  have ne: "sp_data p \<noteq> []" using sent_empty [OF cells(1)] cells(3) p(2) by simp
  have last: "rs_cells r' \<noteq> []" "last (rs_cells r') = cell_view True nv (last cs)" using r'(2) cells(3) by (auto simp: last_map)
  have key: "c_key (cell_view True nv (last cs)) = (c_key (last cs))\<lparr>key_own := True\<rparr>" by (simp add: cell_view_def Let_def)
  have full: "?L \<le> of_nat (length cs) \<longleftrightarrow> length cs = unat ?L" if "?L \<noteq> 0"
    using lim that n by (auto simp: word_le_nat_alt)
  let ?h = "h\<lparr>sh_cells := r'\<rparr>" and ?iv = "iv\<lparr>si_flags := (si_flags iv)\<lparr>f_offset := 0\<rparr>\<rparr>"
  let ?l = "if ?L = 0 then 0 else ?L - of_nat (length cs)"
  have iv: "(if f_offset (si_flags iv) \<noteq> 0 then iv\<lparr>si_flags := (si_flags iv)\<lparr>f_offset := sp_offset p\<rparr>\<rparr> else iv) = ?iv"
    using p(3) by auto
  have add: "sh_add_cells h (sh_cid h) (sp_data p) (sp_reached_limit p) ?iv = Some (Inr (
      if ?L \<noteq> 0 \<and> length cs = unat ?L then (?h, ?iv\<lparr>si_flags := (si_flags ?iv)\<lparr>f_limit := 0\<rparr>\<rparr>, False)
      else if \<not> sp_reached_limit p then (?h, ?iv\<lparr>si_flags := (si_flags ?iv)\<lparr>f_limit := ?l\<rparr>\<rparr>, True)
      else (?h, onward iv ?l 0 (key_copy ((c_key (last cs))\<lparr>key_own := True\<rparr>)) (c_timestamp (cell_view True nv (last cs))), True)))"
  proof (cases "?L \<noteq> 0 \<and> length cs = unat ?L")
    case True
    then show ?thesis using full r'(1) by (simp add: sh_add_cells_def p(2))
  next
    case False
    then have "\<not> (?L \<noteq> 0 \<and> ?L \<le> of_nat (length cs))" using full by blast
    then show ?thesis using False r'(1) last key by (simp add: sh_add_cells_def p(2) onward_def Let_def)
  qed
  have sel: "rgr_selected valid h (sh_cid h) iv p = map_option (\<lambda>r. res_bind r (\<lambda>(h, iv, more). Inr (h, iv,
      if more then (if sp_reached_limit p then Select_again else Next_call) else Finished)))
    (sh_add_cells h (sh_cid h) (sp_data p) (sp_reached_limit p) ?iv)"
    unfolding rgr_selected_def iv using p(1) ne by simp
  show ?thesis
    unfolding sel add using r'(2)
    by (cases "?L \<noteq> 0 \<and> length cs = unat ?L"; cases "sp_reached_limit p") simp_all
qed

section \<open>Over the wire\<close>

lemma onward_twice: "onward (onward iv l o' k t) l2 o2 k2 t2 = onward iv l2 o2 k2 t2"
  by (simp add: onward_def)

lemma onward_itself: "iv = onward iv (f_limit (si_flags iv)) (f_offset (si_flags iv)) (si_offset_key iv) (si_offset_rev iv)"
  by (simp add: onward_def)

lemma onward_length: "scan_encoded_length (onward iv l o' k t) \<le> request_room iv + unat (key_encoded_length k) + 30"
  using encoded_length_vi64_le [of l] encoded_length_vi64_le [of o'] encoded_length_vi64_le [of t]
  by (simp add: request_room_def scan_encoded_length_def onward_def flags_encoded_length_def split: option.splits)

lemma framed_length: "n < 2 ^ 32 \<Longrightarrow> serializable_encoded_length n < 2 ^ 64"
proof -
  assume "n < 2 ^ 32"
  moreover have "encoded_length_vi32 (of_nat n) \<le> 5" by (simp add: encoded_length_vi32_def)
  ultimately show ?thesis unfolding serializable_encoded_length_def by simp
qed

lemma request_fits:
  assumes "request_room iv + unat (key_encoded_length (si_offset_key iv)) + 60 < 2 ^ 32"
  shows "select_req_length \<lparr>sq_cid = cid, sq_rid = rid, sq_interval = iv\<rparr> < 2 ^ 32"
proof -
  have "scan_encoded_length iv \<le> request_room iv + unat (key_encoded_length (si_offset_key iv)) + 30"
    by (subst onward_itself) (rule onward_length)
  then show ?thesis using assms encoded_length_vi64_le [of cid] encoded_length_vi64_le [of rid]
    by (simp add: select_req_length_def)
qed

lemma request_arrives:
  assumes "scan_ok iv" and "request_room iv + unat (key_encoded_length (si_offset_key iv)) + 60 < 2 ^ 32"
  shows "over_the_wire cid rid iv = Inr \<lparr>sq_cid = cid, sq_rid = rid, sq_interval = scan_received iv\<rparr>"
proof -
  let ?q = "\<lparr>sq_cid = cid, sq_rid = rid, sq_interval = iv\<rparr>"
  let ?buf = "serializable_encode (select_req_length ?q) (select_req_encode ?q)"
  have ok: "scan_ok (sq_interval ?q) \<and> select_req_length ?q < 2 ^ 32" using assms request_fits by simp
  then have l: "length ?buf = serializable_encoded_length (select_req_length ?q)"
    using framed_select_req.enc_len by blast
  have "length ?buf < 2 ^ 64" using l ok framed_length by simp
  then have "serializable_decode select_req_decode \<lparr>mem = ?buf @ [], remain = of_nat (length ?buf)\<rparr> =
      Inr (select_req_received ?q, \<lparr>mem = [], remain = of_nat (length ?buf) - of_nat (length ?buf)\<rparr>)"
    using framed_select_req.dec_enc [OF ok, of "of_nat (length ?buf)" "[]"] l by simp
  then show ?thesis by (simp add: over_the_wire_def Let_def select_req_received_def)
qed

lemma response_arrives:
  assumes "sp_err p = Error_OK"
  shows "back_over_the_wire p = Inr p"
proof -
  let ?buf = "serializable_encode (select_rsp_length p) (select_rsp_encode p)"
  have "encoded_length_vi32 x \<le> 5" for x by (simp add: encoded_length_vi32_def)
  from this [of "sp_err p"] have ok: "select_rsp_length p < 2 ^ 32" using encoded_length_vi64_le [of "sp_offset p"]
    by (simp add: select_rsp_length_def)
  have l: "length ?buf = serializable_encoded_length (select_rsp_length p)"
    using framed_select_rsp.enc_len ok by blast
  have "length ?buf < 2 ^ 64" using l ok framed_length by simp
  then have "serializable_decode (select_rsp_decode (sp_data p)) \<lparr>mem = ?buf @ [], remain = of_nat (length ?buf)\<rparr> =
      Inr (p\<lparr>sp_data := sp_data p\<rparr>, \<lparr>mem = [], remain = of_nat (length ?buf) - of_nat (length ?buf)\<rparr>)"
    using framed_select_rsp.dec_enc [where x = p and n = "of_nat (length ?buf)" and rest = "[]" and data = "sp_data p"] ok l by simp
  then show ?thesis by (simp add: back_over_the_wire_def RangeQuerySelectRsp_read_def Let_def)
qed

section \<open>All answers together\<close>

lemma key_encoded_length_own: "key_encoded_length (k\<lparr>key_own := o'\<rparr>) = key_encoded_length k"
  by (simp add: key_encoded_length_def)

lemma selectable_onward:
  assumes sel: "selectable rx ld lb now m v b iv"
  defines "W \<equiv> filter (wanted rx ld lb now m (completed m v b iv)) (m_cells m)"
  assumes i: "i < length W" and k: "k = key_copy ((c_key (W ! i))\<lparr>key_own := True\<rparr>)" and t: "t = c_timestamp (W ! i)"
  shows "selectable rx ld lb now m v b (onward iv l 0 k t)"
    and "to_deliver rx ld lb now m v b (onward iv l 0 k t) = drop (Suc i) W"
proof -
  let ?c = "W ! i" and ?si = "completed m v b iv"
  have sc: "scannable m ?si" and an: "answered rx ld lb now m ?si" and one: "one_version m" and iv: "scan_ok iv" "\<not> is_updating iv"
    and cp: "completes m v b iv"
    using sel by (simp_all add: selectable_def)
  have m: "container_ok m" and off: "key_rep (si_offset_key ?si)" using sc by (simp_all add: scannable_def)
  have c: "?c \<in> set (m_cells m)" "wanted rx ld lb now m ?si ?c"
    using nth_mem [OF i] by (auto simp: W_def)
  then obtain own fs where fs: "fits fs" "c_key ?c = key_of own fs"
    using m by (auto simp: container_ok_def list_all_iff cell_ok_def elim!: key_repE)
  have "(key_of own fs)\<lparr>key_own := True\<rparr> = key_of True fs" by (simp add: key_of_def)
  then have kfs: "k = key_of True fs" using k fs by (simp add: key_copy_of)
  have same: "same_key k (c_key ?c)" using fs kfs by (simp add: same_key_of)
  have ne: "\<not> key_empty k" using one c(1) fs kfs by (auto simp: one_version_def list_all_iff key_empty_def)
  have kr: "key_rep k" using kfs fs by simp
  have own: "k\<lparr>key_own := True\<rparr> = k" using kfs by (simp add: key_of_def)
  have comp: "completed m v b (onward iv l 0 k t) = onward ?si l 0 k t"
    using completed_onward [OF iv(2) cp] own by simp
  have "scannable m (onward ?si l 0 k t)" using sc kr by (simp add: scannable_def onward_def)
  moreover have "answered rx ld lb now m (onward ?si l 0 k t)"
    using answered_resumed [OF m one off an c kr same ne t] by (simp add: answered_onward)
  moreover have "scan_ok (onward iv l 0 k t)" "\<not> is_updating (onward iv l 0 k t)"
    using iv kr by (simp_all add: scan_ok_def onward_def is_updating_def has_opt_def)
  moreover have "request_room (onward iv l 0 k t) = request_room iv" by (simp add: request_room_def onward_twice)
  moreover have "key_encoded_length k = key_encoded_length (c_key ?c)" using kfs fs(2) by (simp add: key_encoded_length_def key_of_def)
  moreover have "si_offset_key (onward iv l 0 k t) = k" by (simp add: onward_def)
  ultimately show "selectable rx ld lb now m v b (onward iv l 0 k t)"
    using sel c(1) iv(2) cp by (simp add: selectable_def comp completes_onward)
  show "to_deliver rx ld lb now m v b (onward iv l 0 k t) = drop (Suc i) W"
    using wanted_resumed [OF m one off _ i kr same ne t] W_def
    by (simp add: to_deliver_def comp wanted_onward) (simp add: onward_def)
qed

lemma up_to_limit_more:
  assumes "n \<le> length xs" and "limit \<noteq> 0 \<longrightarrow> n \<le> unat limit" and "limit \<noteq> 0 \<longrightarrow> n \<noteq> unat limit"
  shows "take n xs @ up_to_limit (if limit = 0 then 0 else limit - of_nat n) (drop n xs) = up_to_limit limit xs"
proof (cases "limit = 0")
  case False
  then have n: "n \<le> unat limit" "n < unat limit" using assms(2,3) by auto
  then have u: "unat (limit - of_nat n) = unat limit - n" by (rule_tac unat_sub_of_nat)
  then have "limit - of_nat n \<noteq> 0" using n by (metis diff_is_0_eq linorder_not_le unat_0)
  then show ?thesis using False n u take_add [of n "unat limit - n" xs] by (simp add: up_to_limit_def)
qed (simp add: up_to_limit_def)

lemma select_page:
  assumes sel: "selectable rx ld lb now m v b iv"
  defines "D \<equiv> to_deliver rx ld lb now m v b iv" and "nv \<equiv> is_only_keys (si_flags iv)" and "L \<equiv> f_limit (si_flags iv)"
  shows "\<exists>n h' iv' nx. (\<forall>fuel. select_pages (Suc fuel) (ranger_answers now rx ld lb m v b) (sh_cid h) rid h iv =
      (if nx = Select_again then select_pages fuel (ranger_answers now rx ld lb m v b) (sh_cid h') rid h' iv'
       else Some (Inr (h', iv', nx)))) \<and>
    n \<le> length D \<and> rs_cells (sh_cells h') = rs_cells (sh_cells h) @ map (cell_view True nv) (take n D) \<and>
    (if nx = Select_again then 0 < n \<and> (L \<noteq> 0 \<longrightarrow> n < unat L) \<and>
       iv' = onward iv (if L = 0 then 0 else L - of_nat n) 0 (key_copy ((c_key (D ! (n - 1)))\<lparr>key_own := True\<rparr>))
         (c_timestamp (D ! (n - 1)))
     else nx \<in> {Next_call, Finished} \<and> take n D = up_to_limit L D)"
proof -
  let ?pages = "\<lambda>fuel. select_pages fuel (ranger_answers now rx ld lb m v b)"
  have iv: "scan_ok iv" "request_room iv + unat (key_encoded_length (si_offset_key iv)) + 60 < 2 ^ 32"
    and small: "length (m_cells m) < 2 ^ 64" "\<And>nv. length (sent nv (m_cells m)) < 2 ^ 64"
    and m: "container_ok m" and stamped: "\<And>c. c \<in> set (m_cells m) \<Longrightarrow> c_timestamp (cell_view True nv c) = c_timestamp c"
    using sel by (auto simp: selectable_def scannable_def list_all_iff)
  have set_D: "set D \<subseteq> set (m_cells m)" unfolding D_def to_deliver_def by (auto dest: in_set_dropD)
  have len_D: "length D \<le> length (m_cells m)" unfolding D_def to_deliver_def by (simp add: le_trans [OF diff_le_self length_filter_le])
  obtain n p where n: "n \<le> length D" and p: "ranger_answers now rx ld lb m v b (scan_received iv) = Some (Inr p)"
    "sp_err p = Error_OK" "sp_data p = sent nv (take n D)" and reached: "sp_reached_limit p \<longrightarrow> 0 < n"
    and all: "\<not> sp_reached_limit p \<longrightarrow> n = length D" and off: "0 < n \<longrightarrow> sp_offset p = 0"
    and lim: "L \<noteq> 0 \<longrightarrow> n \<le> unat L"
    using ranger_answer [OF sel] unfolding D_def nv_def L_def by blast
  have step: "?pages (Suc fuel) (sh_cid h) rid h iv =
      (if nx = Select_again then ?pages fuel (sh_cid h') rid h' iv' else Some (Inr (h', iv', nx)))"
    if "rgr_selected True h (sh_cid h) iv p = Some (Inr (h', iv', nx))" "sh_cid h' = sh_cid h" for fuel h' iv' nx
    using that by (simp add: request_arrives [OF iv] p(1) response_arrives [OF p(2)])
  show ?thesis
  proof (cases "n = 0")
    case True
    then have D: "D = []" "\<not> sp_reached_limit p" using all reached by auto
    then have "\<exists>iv'. rgr_selected True h (sh_cid h) iv p = Some (Inr (h, iv', Next_call))"
      using p by (simp add: rgr_selected_def Let_def)
    then show ?thesis using step D by (force simp: up_to_limit_def)
  next
    case False
    let ?cs = "take n D"
    have cs: "list_all cell_ok ?cs" "?cs \<noteq> []" "length ?cs = n"
      using m set_D False n set_take_subset [of n D] by (auto simp: container_ok_def list_all_iff)
    have short: "length (sent nv ?cs) < 2 ^ 64"
      using le_less_trans [OF sent_filter_length small(2)] unfolding D_def to_deliver_def by blast
    have few: "length ?cs < 2 ^ 64" using cs(3) n len_D small(1) by linarith
    have off0: "sp_offset p = 0" and lim0: "f_limit (si_flags iv) \<noteq> 0 \<longrightarrow> length ?cs \<le> unat (f_limit (si_flags iv))"
      using off lim False cs(3) by (simp_all add: L_def)
    obtain h' iv' nx where r: "rgr_selected True h (sh_cid h) iv p = Some (Inr (h', iv', nx))" "sh_cid h' = sh_cid h"
      "rs_cells (sh_cells h') = rs_cells (sh_cells h) @ map (cell_view True nv) ?cs"
      and nx: "if L \<noteq> 0 \<and> n = unat L then nx = Finished
        else if sp_reached_limit p then nx = Select_again \<and> iv' = onward iv (if L = 0 then 0 else L - of_nat n)
          0 (key_copy ((c_key (last ?cs))\<lparr>key_own := True\<rparr>)) (c_timestamp (cell_view True nv (last ?cs)))
        else nx = Next_call"
      using rgr_selected_takes [OF cs(1) short cs(2) few p(2,3) off0 lim0, of True h] unfolding L_def cs(3) by blast
    have last: "last ?cs = D ! (n - 1)" "D ! (n - 1) \<in> set (m_cells m)"
      using cs(2,3) n False set_D by (auto simp: last_conv_nth)
    have full: "take n D = up_to_limit L D" if "L \<noteq> 0 \<and> n = unat L \<or> \<not> sp_reached_limit p"
      using that all lim by (auto simp: up_to_limit_def)
    show ?thesis
      using step [OF r(1,2)] n r(3) nx False lim full stamped [OF last(2)]
      by (intro exI [of _ n] exI [of _ h'] exI [of _ iv'] exI [of _ nx]) (auto simp: last(1) split: if_splits)
  qed
qed

lemma select_pages_deliver:
  assumes "selectable rx ld lb now m v b iv" and "length (to_deliver rx ld lb now m v b iv) < fuel"
  shows "\<exists>h' iv' nx. select_pages fuel (ranger_answers now rx ld lb m v b) (sh_cid h) rid h iv = Some (Inr (h', iv', nx)) \<and>
    nx \<in> {Next_call, Finished} \<and> rs_cells (sh_cells h') = rs_cells (sh_cells h) @ map (cell_view True (is_only_keys (si_flags iv)))
      (up_to_limit (f_limit (si_flags iv)) (to_deliver rx ld lb now m v b iv))"
  using assms
proof (induction fuel arbitrary: h iv)
  case (Suc fuel)
  let ?D = "to_deliver rx ld lb now m v b iv" and ?nv = "is_only_keys (si_flags iv)" and ?L = "f_limit (si_flags iv)"
  let ?W = "filter (wanted rx ld lb now m (completed m v b iv)) (m_cells m)" and ?o = "unat (f_offset (si_flags iv))"
  obtain n h' iv' nx where step: "select_pages (Suc fuel) (ranger_answers now rx ld lb m v b) (sh_cid h) rid h iv =
      (if nx = Select_again then select_pages fuel (ranger_answers now rx ld lb m v b) (sh_cid h') rid h' iv'
       else Some (Inr (h', iv', nx)))"
    and n: "n \<le> length ?D" and cells: "rs_cells (sh_cells h') = rs_cells (sh_cells h) @ map (cell_view True ?nv) (take n ?D)"
    and nx: "if nx = Select_again then 0 < n \<and> (?L \<noteq> 0 \<longrightarrow> n < unat ?L) \<and>
       iv' = onward iv (if ?L = 0 then 0 else ?L - of_nat n) 0 (key_copy ((c_key (?D ! (n - 1)))\<lparr>key_own := True\<rparr>))
         (c_timestamp (?D ! (n - 1)))
     else nx \<in> {Next_call, Finished} \<and> take n ?D = up_to_limit ?L ?D"
    using select_page [OF Suc.prems(1), of h rid] by metis
  show ?case
  proof (cases "nx = Select_again")
    case False
    then show ?thesis using step cells nx by simp
  next
    case True
    have D: "?D = drop ?o ?W" by (simp add: to_deliver_def)
    let ?i = "?o + n - 1"
    have i: "?i < length ?W" "?D ! (n - 1) = ?W ! ?i" using n nx True unfolding D by (auto simp: Suc_leI)
    have iv': "iv' = onward iv (if ?L = 0 then 0 else ?L - of_nat n) 0 (key_copy ((c_key (?W ! ?i))\<lparr>key_own := True\<rparr>)) (c_timestamp (?W ! ?i))"
      using nx True i(2) by simp
    have sel': "selectable rx ld lb now m v b iv'" unfolding iv' by (rule selectable_onward [OF Suc.prems(1) i(1) refl refl])
    have "to_deliver rx ld lb now m v b iv' = drop (Suc ?i) ?W" unfolding iv' by (rule selectable_onward [OF Suc.prems(1) i(1) refl refl])
    then have D': "to_deliver rx ld lb now m v b iv' = drop n ?D" using nx True unfolding D by (simp add: add.commute)
    have same: "is_only_keys (si_flags iv') = ?nv" "f_limit (si_flags iv') = (if ?L = 0 then 0 else ?L - of_nat n)"
      by (simp_all add: iv' onward_def is_only_keys_def)
    have "length (to_deliver rx ld lb now m v b iv') < fuel" using Suc.prems(2) nx True n unfolding D' by (simp add: less_diff_conv2)
    from Suc.IH [OF sel' this, of h'] obtain h2 iv2 nx2 where
      ih: "select_pages fuel (ranger_answers now rx ld lb m v b) (sh_cid h') rid h' iv' = Some (Inr (h2, iv2, nx2))"
      "nx2 \<in> {Next_call, Finished}"
      "rs_cells (sh_cells h2) = rs_cells (sh_cells h') @ map (cell_view True ?nv) (up_to_limit (if ?L = 0 then 0 else ?L - of_nat n) (drop n ?D))"
      unfolding D' same by blast
    have "take n ?D @ up_to_limit (if ?L = 0 then 0 else ?L - of_nat n) (drop n ?D) = up_to_limit ?L ?D"
      using up_to_limit_more [OF n, of ?L] nx True by auto
    then have "rs_cells (sh_cells h2) = rs_cells (sh_cells h) @ map (cell_view True ?nv) (up_to_limit ?L ?D)"
      using ih(3) cells by (metis append.assoc map_append)
    then show ?thesis using step True ih(1,2) by simp
  qed
qed simp

text \<open>C21: A select from one container, asked for over the wire, again and again behind the last cell that came as long
  as the ranger's answers are full, ends, and the client then has exactly the cells that the specification
  selects, each once and in order, without those of the offset and no more than the limit: no size of a
  buffer and no number of answers changes the result. This is under \<open>selectable\<close>: the container keeps one version
  of a key and no empty key, its sequence is \<open>LEXIC\<close> or \<open>VOLUME\<close>, the begin of the specification has no empty
  fraction and can be completed, matching a cell never fails, there is no update, a cell's time survives the
  wire and requests and cells are below the sizes of their buffers. With several versions it fails
  (\<open>resume_loses_version\<close>), and in a sequence that counts fractions a scan may end early (\<open>fc_end_stops_early\<close>).\<close>

theorem paged_select_complete:
  assumes "selectable rx ld lb now m v b iv" and "length (m_cells m) < fuel"
  shows "\<exists>h' iv' nx. select_pages fuel (ranger_answers now rx ld lb m v b) (sh_cid h) rid h iv = Some (Inr (h', iv', nx)) \<and>
    nx \<in> {Next_call, Finished} \<and> rs_cells (sh_cells h') = rs_cells (sh_cells h) @ map (cell_view True (is_only_keys (si_flags iv)))
      (up_to_limit (f_limit (si_flags iv)) (drop (unat (f_offset (si_flags iv)))
        (filter (wanted rx ld lb now m (completed m v b iv)) (m_cells m))))"
proof -
  have "length (to_deliver rx ld lb now m v b iv) \<le> length (m_cells m)"
    unfolding to_deliver_def by (simp add: le_trans [OF diff_le_self length_filter_le])
  then show ?thesis using select_pages_deliver [OF assms(1), of fuel h rid] assms(2) unfolding to_deliver_def by simp
qed

definition all_from_b :: scan_interval where
  "all_from_b = (Scan_new Col_PLAIN)\<lparr>si_begin := key_of True [[98]]\<rparr>"

lemma completed_from_b:
  "only_begin [[98]] (completed m v b all_from_b)" "si_begin (completed m v b all_from_b) = key_of True [[98]]"
  "key_rep (si_end (completed m v b all_from_b))" "key_rep (si_offset_key (completed m v b all_from_b))"
  "is_only_deletes (si_flags (completed m v b all_from_b)) = False"
proof -
  have new: "Key_new\<lparr>key_own := True\<rparr> = key_of True []" by (simp add: Key_new_def key_of_def)
  have own: "(key_of True [[98]])\<lparr>key_own := True\<rparr> = key_of True [[98]]" by (simp add: key_of_def)
  have f: "fits []" by (simp add: fits_def encoded_length_vi24_def max_vb_defs)
  note parts = completed_def RangeQuerySelect_of_def ReqScan_of_def Let_def apply_possible_range_pure_def scan_received_def
    scan_view_def is_updating_def all_from_b_def Scan_new_def Values_new_def Flags_new_def new own
  show "si_begin (completed m v b all_from_b) = key_of True [[98]]" by (simp add: parts)
  show "key_rep (si_end (completed m v b all_from_b))" "key_rep (si_offset_key (completed m v b all_from_b))"
    using f by (simp_all add: parts)
  show "is_only_deletes (si_flags (completed m v b all_from_b)) = False" by (simp add: parts is_only_deletes_def)
  show "only_begin [[98]] (completed m v b all_from_b)"
    by (auto simp: only_begin_def parts written_def ts_received_def ts_view_def Timestamp_new_def key_empty_def key_of_def
      simp del: Comp_code.simps)
qed

lemma short_cell: "fits fs \<Longrightarrow> length (cell_write (plain_cell fs [] t) nv) \<le> unat (key_encoded_length (key_of True fs)) + 19"
proof -
  assume "fits fs"
  then have "cell_ok (plain_cell fs [] t)" using plain_cell_ok by simp
  moreover have "c_vlen (plain_cell fs [] t) = 0"
    by (simp add: plain_cell_def set_timestamp_with_rev_is_ts_def set_timestamp_def set_value_def Let_def)
  ultimately show ?thesis by (simp add: cell_length cell_encoded_length_def drops_value_def Let_def)
qed

lemma completed_from_b_wanted:
  defines "m \<equiv> keyed [[97], [98], [99]]"
  shows "selectable rx ld lb 0 m 1 1 all_from_b"
    and "filter (wanted rx ld lb 0 m (completed m 1 1 all_from_b)) (m_cells m) = [plain_cell [[98]] [] 1, plain_cell [[99]] [] 1]"
proof -
  define si where "si = completed m 1 1 all_from_b"
  have f: "fits [[97]]" "fits [[98]]" "fits [[99]]" "fits []" by (simp_all add: fits_def encoded_length_vi24_def max_vb_defs)
  have m: "m_seq m = LEXIC" "m_cells m = map (\<lambda>k. plain_cell [k] [] 1) [[97], [98], [99]]" "m_ttl m = 0"
    "m_max_revs m = 1" by (simp_all add: m_def)
  have si: "only_begin [[98]] si" "si_begin si = key_of True [[98]]" "key_rep (si_end si)" "key_rep (si_offset_key si)"
    "is_only_deletes (si_flags si) = False" unfolding si_def by (rule completed_from_b)+
  have b: "\<not> begin_ok LEXIC [[98]] [[97]]" "begin_ok LEXIC [[98]] [[98]]" "begin_ok LEXIC [[98]] [[99]]"
    by (simp_all add: begin_ok_def counts_first_def seq_upto_def upto_compare_def condition_lexic_def)
  have mts: "scan_matching rx ld lb LEXIC si (plain_cell [[97]] [] 1) False = Inr (False, False)"
    "scan_matching rx ld lb LEXIC si (plain_cell [[98]] [] 1) False = Inr (True, False)"
    "scan_matching rx ld lb LEXIC si (plain_cell [[99]] [] 1) False = Inr (True, False)"
    using only_begin_matching [OF si(1) _ f(2) f(1), of LEXIC "plain_cell [[97]] [] 1" True rx ld lb]
      only_begin_matching [OF si(1) _ f(2) f(2), of LEXIC "plain_cell [[98]] [] 1" True rx ld lb]
      only_begin_matching [OF si(1) _ f(2) f(3), of LEXIC "plain_cell [[99]] [] 1" True rx ld lb] b by simp_all
  have over: "\<not> passed_over 0 m False (plain_cell [k] [] 1)" for k
    by (simp add: m passed_over_def has_expired_def)
  show "filter (wanted rx ld lb 0 m (completed m 1 1 all_from_b)) (m_cells m) = [plain_cell [[98]] [] 1, plain_cell [[99]] [] 1]"
    unfolding si_def [symmetric] m by (simp add: wanted_def m mts over si(5))
  have "fits [[98]] \<and> [] \<notin> set [[98 :: byte]] \<and> si_begin si = key_of True [[98]]" using si(2) f(2) by simp
  then have "\<exists>own bs. fits bs \<and> [] \<notin> set bs \<and> si_begin si = key_of own bs" by blast
  then have "scannable m si" using keyed_ok si(3,4) m(1,4) unfolding scannable_def searchable_def m_def [symmetric] by simp
  moreover have "answered rx ld lb 0 m si" unfolding answered_def m by (simp add: mts)
  moreover have "completes m 1 1 all_from_b"
    by (simp add: completes_def RangeQuerySelect_of_def ReqScan_of_def Let_def apply_possible_range_pure_def scan_received_def
      scan_view_def is_updating_def all_from_b_def Scan_new_def)
  moreover have "one_version m" unfolding one_version_def m
    using f by (simp add: condition_lexic_def key_empty_def of_nat24_is_0)
  moreover have "length (sent nv (m_cells m)) < 2 ^ 64" for nv
  proof -
    have "key_encoded_length (key_of True [[97]]) = 3" "key_encoded_length (key_of True [[98]]) = 3"
      "key_encoded_length (key_of True [[99]]) = 3" by code_simp+
    then show ?thesis using f(1-3) short_cell [of "[[97]]" 1 nv] short_cell [of "[[98]]" 1 nv] short_cell [of "[[99]]" 1 nv]
      unfolding m by simp
  qed
  moreover have "c_timestamp (cell_view True nv (plain_cell [k] [] 1)) = 1" for nv k
    by (cases nv) (simp_all add: cell_view_def plain_cell_def set_timestamp_with_rev_is_ts_def set_timestamp_def set_value_def Let_def)
  moreover have "scan_ok all_from_b"
  proof -
    have "Key_new = key_of False []" by (simp add: Key_new_def key_of_def)
    then have "key_rep Key_new" using key_rep_of [OF f(4)] by metis
    then show ?thesis using f(2)
      by (simp add: scan_ok_def all_from_b_def Scan_new_def kis_ok_def svs_ok_def Values_new_def has_opt_def)
  qed
  moreover have "\<not> is_updating all_from_b" "si_offset_key all_from_b = Key_new" by (simp_all add: is_updating_def all_from_b_def Scan_new_def)
  moreover have "request_room all_from_b + unat (key_encoded_length k) + 60 < 2 ^ 32"
    if "k \<in> {Key_new, key_of True [[97]], key_of True [[98]], key_of True [[99]]}" for k
  proof -
    have "request_room all_from_b = 16" "key_encoded_length Key_new = 1" "key_encoded_length (key_of True [[97]]) = 3"
      "key_encoded_length (key_of True [[98]]) = 3" "key_encoded_length (key_of True [[99]]) = 3" by code_simp+
    then show ?thesis using that by auto
  qed
  ultimately show "selectable rx ld lb 0 m 1 1 all_from_b"
    unfolding selectable_def si_def [symmetric] m by simp
qed

theorem paged_select_complete_witness:
  "\<forall>rx ld lb. \<exists>h' iv' nx. select_pages 4 (ranger_answers 0 rx ld lb (keyed [[97], [98], [99]]) 1 1) 1 1
      \<lparr>sh_cid = 1, sh_error = Error_OK, sh_cells = Result_new 0\<rparr> all_from_b = Some (Inr (h', iv', nx)) \<and>
    rs_cells (sh_cells h') = map (cell_view True False) [plain_cell [[98]] [] 1, plain_cell [[99]] [] 1]"
proof (intro allI)
  fix rx ld lb
  let ?h = "\<lparr>sh_cid = 1, sh_error = Error_OK, sh_cells = Result_new 0\<rparr>" and ?m = "keyed [[97], [98], [99]]"
  have "length (m_cells ?m) < 4" by simp
  from paged_select_complete [OF completed_from_b_wanted(1) this, of rx ld lb ?h 1]
  show "\<exists>h' iv' nx. select_pages 4 (ranger_answers 0 rx ld lb ?m 1 1) 1 1 ?h all_from_b = Some (Inr (h', iv', nx)) \<and>
    rs_cells (sh_cells h') = map (cell_view True False) [plain_cell [[98]] [] 1, plain_cell [[99]] [] 1]"
    unfolding completed_from_b_wanted(2) by (auto simp: all_from_b_def Scan_new_def Flags_new_def is_only_keys_def up_to_limit_def Result_new_def)
qed
end
