(* ===== verification/Range_Blocks.thy ===== *)
theory Range_Blocks
  imports Mutable_Scan
begin

text \<open>
  The blocks a range keeps its cells in: src/src/cc/lib/swcdb/ranger/db/RangeBlock.cc and RangeBlocks.cc. The
  blocks hang together by \<open>next\<close> and \<open>prev\<close> and lie in the same order in the index of \<open>Blocks\<close>: both are one
  list here, a pointer to a block is its place in it. An operation runs under the locks the code takes; what a
  try of a lock gives, whether memory is short, the clock and the layout of a container in vectors come from
  the \<open>world\<close> of the operation. Memory accounting, logging and the threads of the tasks are left out.
\<close>

section \<open>State\<close>

datatype block_state = Block_none | Block_loading | Block_loaded

text \<open>What a range reads of its configuration.\<close>

record range_cfg =
  cf_seq :: KeySeq
  cf_type :: column_type
  cf_versions :: u32
  cf_ttl :: u64
  cf_block_cells :: u32
  cf_block_size :: u32

record block =
  bk_cells :: mutable
  bk_split_rev :: u32
  bk_prev_end :: key
  bk_key_end :: key
  bk_processing :: u64
  bk_state :: block_state

record world =
  w_now :: i64
  w_need_ram :: "mutable \<Rightarrow> bool"
  w_vectors :: "cell list \<Rightarrow> nat list"
  w_lock :: bool

definition Block_make :: "range_cfg \<Rightarrow> key \<Rightarrow> block_state \<Rightarrow> block" where
  "Block_make cf key_end st =
     \<lparr>bk_cells = Mutable_new (cf_seq cf) (cf_versions cf) (cf_ttl cf) (cf_type cf), bk_split_rev = 0,
      bk_prev_end = Key_new, bk_key_end = key_copy key_end, bk_processing = 0, bk_state = st\<rparr>"

definition schema_update :: "i64 \<Rightarrow> range_cfg \<Rightarrow> block \<Rightarrow> block" where
  "schema_update now cf b = b\<lparr>bk_cells :=
     configure now (bk_cells b) (cf_versions cf) (cf_ttl cf) (cf_type cf) (bk_state b = Block_loaded)\<rparr>"

definition set_prev_key_end :: "key \<Rightarrow> block \<Rightarrow> block" where
  "set_prev_key_end k b = b\<lparr>bk_prev_end := key_copy k\<rparr>"

definition cond_key_end :: "block \<Rightarrow> key \<Rightarrow> comp res" where
  "cond_key_end b k = key_compare (m_seq (bk_cells b)) (bk_key_end b) k"

definition blk_set_key_end :: "key \<Rightarrow> block \<Rightarrow> block" where
  "blk_set_key_end k b = b\<lparr>bk_key_end := key_copy k\<rparr>"

definition free_key_end :: "block \<Rightarrow> block" where
  "free_key_end b = b\<lparr>bk_key_end := key_free (bk_key_end b)\<rparr>"

section \<open>What lies in a block\<close>

text \<open>A block goes from behind one key up to its own end; no end is the end of all keys.\<close>

definition blk_is_in_end :: "block \<Rightarrow> key \<Rightarrow> bool res" where
  "blk_is_in_end b k =
     (if key_empty (bk_key_end b) then Inr True
      else if key_empty k then Inr False
      else res_bind (cond_key_end b k) (\<lambda>cp. Inr (cp \<noteq> GT)))"

definition is_consist :: "block \<Rightarrow> interval \<Rightarrow> bool res" where
  "is_consist b iv =
     res_bind (if key_empty (iv_end iv) \<or> key_empty (bk_prev_end b) then Inr True
               else res_bind (key_compare (m_seq (bk_cells b)) (bk_prev_end b) (iv_end iv)) (\<lambda>cp. Inr (cp = GT)))
       (\<lambda>ok. if \<not> ok then Inr False
             else if key_empty (iv_begin iv) then Inr True else blk_is_in_end b (iv_begin iv))"

definition includes_begin :: "block \<Rightarrow> scan_interval \<Rightarrow> bool res" where
  "includes_begin b si =
     (if key_empty (bk_key_end b) then Inr True else is_matching_begin (m_seq (bk_cells b)) si (bk_key_end b))"

definition includes_end :: "block \<Rightarrow> scan_interval \<Rightarrow> bool res" where
  "includes_end b si =
     (if key_empty (bk_prev_end b) then Inr True else is_in_previous (m_seq (bk_cells b)) si (bk_prev_end b))"

definition blk_includes :: "block \<Rightarrow> scan_interval \<Rightarrow> bool res" where
  "blk_includes b si = res_bind (includes_end b si) (\<lambda>ok. if ok then includes_begin b si else Inr False)"

definition is_next :: "block \<Rightarrow> scan_interval \<Rightarrow> bool res" where
  "is_next b si = res_bind (includes_end b si) (\<lambda>ok. if \<not> ok then Inr False
     else res_bind (if key_empty (si_offset_key si) then Inr True else blk_is_in_end b (si_offset_key si))
       (\<lambda>ok. if ok then includes_begin b si else Inr False))"

section \<open>Splitting\<close>

text \<open>
  A container of more than one vector is split between two of them, from the middle on, where the key
  changes; only without such a place is it gone through cell by cell (\<open>m_split\<close>). \<open>sizes\<close> are the
  lengths of the vectors.
\<close>

fun vector_change :: "cell list \<Rightarrow> nat list \<Rightarrow> nat option" where
  "vector_change cs [] = None"
| "vector_change cs (p # ps) =
     (if \<not> key_equal (c_key (cs ! (p - 1))) (c_key (cs ! p)) then Some p else vector_change cs ps)"

definition vector_bounds :: "nat list \<Rightarrow> nat list" where
  "vector_bounds sizes = map (\<lambda>k. sum_list (take k sizes)) [length sizes div 2 ..< length sizes]"

definition container_split :: "i64 \<Rightarrow> nat list \<Rightarrow> mutable \<Rightarrow> mutable \<Rightarrow> u64 \<Rightarrow> u64 \<Rightarrow> bool \<Rightarrow> mutable \<times> mutable \<times> bool" where
  "container_split now sizes m other cnt bytes loaded =
     (if m_size m < 2 \<or> (m_size m < cnt \<and> m_bytes m < bytes) then (m, other, False)
      else case (if 1 < length sizes then vector_change (m_cells m) (vector_bounds sizes) else None) of
          None \<Rightarrow> m_split now m other cnt bytes loaded
        | Some p \<Rightarrow>
            let cells = fold (\<lambda>c m. m_add m c) (drop p (m_cells m)) (other\<lparr>m_cells := drop p (m_cells m)\<rparr>)
            in (m\<lparr>m_cells := take p (m_cells m), m_size := m_size m - m_size cells, m_bytes := m_bytes m - m_bytes cells\<rparr>,
                if loaded then cells else m_free cells, True))"

definition need_split :: "range_cfg \<Rightarrow> block \<Rightarrow> bool" where
  "need_split cf b \<longleftrightarrow> (let m = bk_cells b in 1 < m_size m \<and>
     (ucast (cf_block_cells cf * 2) \<le> m_size m \<or> ucast (cf_block_size cf * 2) \<le> m_bytes m) \<and> \<not> has_one_key m)"

definition block_split :: "world \<Rightarrow> range_cfg \<Rightarrow> bool \<Rightarrow> block \<Rightarrow> (block \<times> block) option" where
  "block_split w cf loaded b =
     (let loaded = (loaded \<and> \<not> w_need_ram w (bk_cells b));
          blk = Block_make cf Key_new (if loaded then Block_loaded else Block_none);
          (m, cells, ok) = container_split (w_now w) (w_vectors w (m_cells (bk_cells b))) (bk_cells b) (bk_cells blk)
            (ucast (cf_block_cells cf)) (ucast (cf_block_size cf)) loaded;
          e = key_copy (c_key (last (m_cells m)))
      in if \<not> ok then None
         else Some (b\<lparr>bk_cells := m, bk_split_rev := bk_split_rev b + 1, bk_key_end := e\<rparr>,
           blk\<lparr>bk_cells := cells, bk_key_end := bk_key_end b, bk_prev_end := key_copy e\<rparr>))"

text \<open>\<open>Blocks::_split\<close>: the block that comes off is split on, as long as it is loaded and too big. The result is
  the blocks that come in the place of the one; the fuel is the number of cells.\<close>

fun split_on :: "nat \<Rightarrow> world \<Rightarrow> range_cfg \<Rightarrow> bool \<Rightarrow> block \<Rightarrow> block list option" where
  "split_on 0 w cf loaded b = None"
| "split_on (Suc n) w cf loaded b =
     (case block_split w cf loaded b of
        None \<Rightarrow> Some [b]
      | Some (b, blk) \<Rightarrow>
          if bk_state blk \<noteq> Block_loaded \<or> \<not> need_split cf blk then Some [b, blk]
          else map_option ((#) b) (split_on n w cf loaded blk))"

definition blocks_split :: "world \<Rightarrow> range_cfg \<Rightarrow> bool \<Rightarrow> block \<Rightarrow> (block list \<times> bool) option" where
  "blocks_split w cf loaded b =
     (if need_split cf b \<and> w_lock w
      then map_option (\<lambda>bl. (bl, 1 < length bl)) (split_on (Suc (length (m_cells (bk_cells b)))) w cf loaded b)
      else Some ([b], False))"

definition splitter :: "world \<Rightarrow> range_cfg \<Rightarrow> bool \<Rightarrow> block \<Rightarrow> (block list \<times> bool) option" where
  "splitter w cf loaded b = (if need_split cf b then blocks_split w cf loaded b else Some ([b], False))"

section \<open>Cells that come in\<close>

text \<open>\<open>add_logged\<close> looks at the interval first, then takes the lock of the block; \<open>rev\<close> tells it whether the
  block was split in between. The answer is whether the cell was for this block.\<close>

definition add_check :: "cell \<Rightarrow> block \<Rightarrow> u32 option res" where
  "add_check c b = res_bind (blk_is_in_end b (c_key c)) (\<lambda>ok. Inr (if ok then Some (bk_split_rev b) else None))"

definition add_locked :: "world \<Rightarrow> range_cfg \<Rightarrow> u32 \<Rightarrow> cell \<Rightarrow> block \<Rightarrow> (bool \<times> block list) res option" where
  "add_locked w cf rv c b =
     (if bk_state b \<noteq> Block_loaded then Some (Inr (True, [b]))
      else case (if rv \<noteq> bk_split_rev b then blk_is_in_end b (c_key c) else Inr True) of
          Inl e \<Rightarrow> Some (Inl e)
        | Inr ok \<Rightarrow> if \<not> ok then Some (Inr (False, [b]))
            else (case add_raw (w_now w) c (bk_cells b) 0 True of
                None \<Rightarrow> None
              | Some (Inl e) \<Rightarrow> Some (Inl e)
              | Some (Inr (m, off)) \<Rightarrow>
                  map_option (\<lambda>(bl, _). Inr (True, bl)) (splitter w cf True (b\<lparr>bk_cells := m\<rparr>))))"

definition block_add_logged :: "world \<Rightarrow> range_cfg \<Rightarrow> cell \<Rightarrow> block \<Rightarrow> (bool \<times> block list) res option" where
  "block_add_logged w cf c b =
     (case add_check c b of
        Inl e \<Rightarrow> Some (Inl e)
      | Inr None \<Rightarrow> Some (Inr (False, [b]))
      | Inr (Some rv) \<Rightarrow> add_locked w cf rv c b)"

text \<open>\<open>_narrow\<close>: a search by halving steps for a place not behind the block of a key. \<open>at\<close> tells of a place
  whether its block ends before the key.\<close>

definition MAX_IDX_NARROW :: nat where "MAX_IDX_NARROW = 20"

function narrow :: "(nat \<Rightarrow> bool res) \<Rightarrow> nat \<Rightarrow> nat \<Rightarrow> nat res" where
  "narrow at offset step =
     res_bind (at offset) (\<lambda>before.
       if before then (if step < MAX_IDX_NARROW then Inr offset else narrow at (offset + step div 2) (step div 2))
       else (let step = step div 2; step = (if step \<le> MAX_IDX_NARROW then step + 1 else step)
         in if offset < step then Inr 0 else narrow at (offset - step) step))"
  by pat_completeness auto
termination
  by (relation "measures [\<lambda>(at, offset, step). step - 1, \<lambda>(at, offset, step). offset]")
    (auto simp: MAX_IDX_NARROW_def)

declare narrow.simps [simp del]

definition block_before :: "block list \<Rightarrow> key \<Rightarrow> nat \<Rightarrow> bool res" where
  "block_before bs k i =
     (if i < length bs then res_bind (blk_is_in_end (bs ! i) k) (\<lambda>ok. Inr (\<not> ok)) else Inl Undefined_Behaviour)"

definition blocks_narrow :: "block list \<Rightarrow> key \<Rightarrow> nat res" where
  "blocks_narrow bs k =
     (if key_empty k \<or> length bs \<le> MAX_IDX_NARROW then Inr 0
      else narrow (block_before bs k) (length bs div 2) (length bs div 2))"

text \<open>\<open>Blocks::add_logged\<close>, after the cell went to the commit log: from the place found on, the first block that
  takes the cell.\<close>

fun add_from :: "world \<Rightarrow> range_cfg \<Rightarrow> cell \<Rightarrow> block list \<Rightarrow> block list res option" where
  "add_from w cf c [] = Some (Inr [])"
| "add_from w cf c (b # bs) =
     (case block_add_logged w cf c b of
        None \<Rightarrow> None
      | Some (Inl e) \<Rightarrow> Some (Inl e)
      | Some (Inr (took, bl)) \<Rightarrow>
          if took then Some (Inr (bl @ bs))
          else map_option (\<lambda>r. res_bind r (\<lambda>bs. Inr (bl @ bs))) (add_from w cf c bs))"

definition blocks_add_logged :: "world \<Rightarrow> range_cfg \<Rightarrow> cell \<Rightarrow> block list \<Rightarrow> block list res option" where
  "blocks_add_logged w cf c bs =
     (if bs = [] then Some (Inr [])
      else case blocks_narrow bs (c_key c) of
          Inl e \<Rightarrow> Some (Inl e)
        | Inr i \<Rightarrow> map_option (\<lambda>r. res_bind r (\<lambda>bl. Inr (take i bs @ bl))) (add_from w cf c (drop i bs)))"

section \<open>Loading\<close>

text \<open>
  \<open>load_cells\<close>: the cells of an encoded block that are in the interval. What cannot be read ends the loading,
  and what was loaded stays: a thrown exception is caught there, undefined behaviour is not. Every thousandth cell the block may be split; the cells from there on are then
  not for it. The result are the blocks, how many cells were added, and whether a split took place.
\<close>

definition caught :: "err \<Rightarrow> 'a \<Rightarrow> 'a res" where
  "caught e x = (if e = Undefined_Behaviour then Inl e else Inr x)"

fun load_loop :: "nat \<Rightarrow> world \<Rightarrow> range_cfg \<Rightarrow> bool \<Rightarrow> nat \<Rightarrow> nat \<Rightarrow> bool \<Rightarrow> block \<Rightarrow> block list \<Rightarrow> reader \<Rightarrow>
    (block list \<times> nat \<times> bool) res option" where
  "load_loop fuel w cf synced off added was b after r =
     (if remain r = 0 then Some (Inr (b # after, added, was))
      else case fuel of 0 \<Rightarrow> None | Suc fuel \<Rightarrow>
        (case cell_read False r of
           Inl e \<Rightarrow> Some (caught e (b # after, added, was))
         | Inr (c, r) \<Rightarrow>
             (case (if key_empty (bk_prev_end b) then Inr GT
                    else key_compare (m_seq (bk_cells b)) (bk_prev_end b) (c_key c)) of
                Inl e \<Rightarrow> Some (caught e (b # after, added, was))
              | Inr cp \<Rightarrow> if cp \<noteq> GT then load_loop fuel w cf synced off added was b after r
             else (case (if key_empty (bk_key_end b) then Inr EQ else cond_key_end b (c_key c)) of
                Inl e \<Rightarrow> Some (caught e (b # after, added, was))
              | Inr cp \<Rightarrow> if cp = GT then Some (Inr (b # after, added, was))
             else if has_expired (w_now w) c (m_ttl (bk_cells b)) then load_loop fuel w cf synced off added was b after r
             else (case (if synced then Some (Inr (add_sorted_copy (bk_cells b) c False, off))
                         else add_raw (w_now w) c (bk_cells b) off False) of
                None \<Rightarrow> None
              | Some (Inl e) \<Rightarrow> Some (caught e (b # after, added, was))
              | Some (Inr (m, off)) \<Rightarrow>
                  (if (added + 1) mod 1000 \<noteq> 0
                   then load_loop fuel w cf synced off (added + 1) was (b\<lparr>bk_cells := m\<rparr>) after r
                   else (case splitter w cf False (b\<lparr>bk_cells := m\<rparr>) of
                       None \<Rightarrow> None
                     | Some (bl, split) \<Rightarrow> load_loop fuel w cf synced (if split then 0 else off) (added + 1)
                         (was \<or> split) (hd bl) (tl bl @ after) r)))))))"

declare load_loop.simps [simp del]

definition load_cells :: "world \<Rightarrow> range_cfg \<Rightarrow> bytes \<Rightarrow> u32 \<Rightarrow> bool \<Rightarrow> block \<Rightarrow> (block list \<times> nat \<times> bool) res option" where
  "load_cells w cf buf revs synced b =
     (let synced = (if cf_versions cf < revs then False else synced \<or> m_size (bk_cells b) = 0)
      in load_loop (length buf) w cf synced 0 0 False b [] \<lparr>mem = buf, remain = of_nat (length buf)\<rparr>)"

text \<open>\<open>load_final\<close>: the cells of the log that are in the interval, container by container, until one goes on
  behind the interval; then counters are summed up and the block is loaded.\<close>

fun final_loop :: "world \<Rightarrow> range_cfg \<Rightarrow> mutable list \<Rightarrow> block \<Rightarrow> block list \<Rightarrow> (block \<times> block list) res option" where
  "final_loop w cf [] b after = Some (Inr (b, after))"
| "final_loop w cf (v # vs) b after =
     (case scan_after (w_now w) v (bk_prev_end b) (bk_key_end b) (bk_cells b) False of
        None \<Rightarrow> None
      | Some (Inl e) \<Rightarrow> Some (Inl e)
      | Some (Inr (m, go_on)) \<Rightarrow>
          if \<not> go_on then Some (Inr (b\<lparr>bk_cells := m\<rparr>, after))
          else (case splitter w cf False (b\<lparr>bk_cells := m\<rparr>) of
              None \<Rightarrow> None
            | Some (bl, _) \<Rightarrow> final_loop w cf vs (hd bl) (tl bl @ after)))"

definition load_final :: "world \<Rightarrow> range_cfg \<Rightarrow> mutable list \<Rightarrow> block \<Rightarrow> block list res option" where
  "load_final w cf vs b =
     (case final_loop w cf vs b [] of
        None \<Rightarrow> None
      | Some (Inl e) \<Rightarrow> Some (Inl e)
      | Some (Inr (b, after)) \<Rightarrow>
          (case finalize_raw (w_now w) (bk_cells b) of
             Inl e \<Rightarrow> Some (Inl e)
           | Inr m \<Rightarrow> map_option (\<lambda>(bl, _). Inr ((hd bl)\<lparr>bk_state := Block_loaded\<rparr> # tl bl @ after))
               (splitter w cf True (b\<lparr>bk_cells := m\<rparr>))))"

text \<open>\<open>release\<close> lets go of the cells of a loaded block nobody works on; \<open>loader\<close> tells that its loader is still
  there.\<close>

definition block_release :: "world \<Rightarrow> bool \<Rightarrow> block \<Rightarrow> block" where
  "block_release w loader b =
     (if bk_processing b = 0 \<and> bk_state b = Block_loaded \<and> w_lock w \<and> \<not> loader
      then b\<lparr>bk_state := Block_none, bk_cells := m_free (bk_cells b)\<rparr> else b)"

text \<open>What \<open>Block::scan\<close> does to the state of a block: one that is not loaded is from then on being loaded.\<close>

definition block_request :: "block \<Rightarrow> block" where
  "block_request b = (if bk_state b = Block_none then b\<lparr>bk_state := Block_loading\<rparr> else b)"

definition processing_increment :: "block \<Rightarrow> block" where
  "processing_increment b = b\<lparr>bk_processing := bk_processing b + 1\<rparr>"

definition processing_decrement :: "block \<Rightarrow> block" where
  "processing_decrement b = b\<lparr>bk_processing := bk_processing b - 1\<rparr>"

definition block_processing :: "world \<Rightarrow> bool \<Rightarrow> block \<Rightarrow> bool" where
  "block_processing w loader b \<longleftrightarrow> bk_processing b \<noteq> 0 \<or> bk_state b = Block_loading \<or> \<not> w_lock w \<or> loader"

definition cells_count :: "block list \<Rightarrow> u64" where
  "cells_count bs = sum_list (map (\<lambda>b. m_size (bk_cells b)) bs)"

definition blocks_size_bytes :: "block list \<Rightarrow> u64" where
  "blocks_size_bytes bs = sum_list (map (\<lambda>b. m_bytes (bk_cells b)) bs)"

text \<open>\<open>init_blocks\<close>: a block for each block of the cell stores, but for one that begins with the key the one
  before ends with, which is taken in. Without any block the range counts as not loaded.\<close>

fun init_on :: "range_cfg \<Rightarrow> block \<Rightarrow> interval list \<Rightarrow> block list res" where
  "init_on cf b [] = Inr [b]"
| "init_on cf b (iv # ivs) = res_bind (cond_key_end b (iv_begin iv)) (\<lambda>cp.
     if cp \<noteq> EQ
     then res_bind (init_on cf (set_prev_key_end (bk_key_end b) (Block_make cf (iv_end iv) Block_none)) ivs)
       (\<lambda>bs. Inr (b # bs))
     else init_on cf (blk_set_key_end (iv_end iv) b) ivs)"

definition init_blocks :: "range_cfg \<Rightarrow> key \<Rightarrow> bool \<Rightarrow> interval list \<Rightarrow> block list res" where
  "init_blocks cf prev_range_end any_end ivs =
     (case ivs of
        [] \<Rightarrow> Inr []
      | iv # ivs \<Rightarrow>
          res_bind (init_on cf (set_prev_key_end prev_range_end (Block_make cf (iv_end iv) Block_none)) ivs)
            (\<lambda>bs. Inr (if any_end then butlast bs @ [free_key_end (last bs)] else bs)))"

section \<open>Scanning\<close>

text \<open>A scan goes from block to block; it ends with the limits of the request or the blocks, or waits for the
  block at a place to be loaded. \<open>blocks_resume\<close> goes on there, once it is.\<close>

datatype 'r scan_answer = Answered "'r req_scan" | Waits nat "'r req_scan"

fun scan_on where
  "scan_on now rx ld lb add lim i [] rq = Some (Inr (Answered rq))"
| "scan_on now rx ld lb add lim i (b # bs) rq =
     (case is_next b (rq_spec rq) of
        Inl e \<Rightarrow> Some (Inl e)
      | Inr nx \<Rightarrow>
          if \<not> nx then scan_on now rx ld lb add lim (Suc i) bs rq
          else if bk_state b \<noteq> Block_loaded then Some (Inr (Waits i rq))
          else (case m_scan now (bk_cells b) (selector rx ld lb (m_seq (bk_cells b))) add rq of
              None \<Rightarrow> None
            | Some (Inl e) \<Rightarrow> Some (Inl e)
            | Some (Inr rq) \<Rightarrow>
                if lim rq then Some (Inr (Answered rq)) else scan_on now rx ld lb add lim (Suc i) bs rq))"

definition blocks_scan where
  "blocks_scan now rx ld lb add lim bs rq =
     (case blocks_narrow bs (if key_empty (si_offset_key (rq_spec rq)) then si_begin (rq_spec rq)
        else si_offset_key (rq_spec rq)) of
        Inl e \<Rightarrow> Some (Inl e)
      | Inr i \<Rightarrow> scan_on now rx ld lb add lim i (drop i bs) rq)"

definition blocks_resume where
  "blocks_resume now rx ld lb add lim bs i rq =
     (case m_scan now (bk_cells (bs ! i)) (selector rx ld lb (m_seq (bk_cells (bs ! i)))) add rq of
        None \<Rightarrow> None
      | Some (Inl e) \<Rightarrow> Some (Inl e)
      | Some (Inr rq) \<Rightarrow>
          if lim rq then Some (Inr (Answered rq)) else scan_on now rx ld lb add lim (Suc i) (drop (Suc i) bs) rq)"

end
