(* ===== verification/Range_Chain.thy ===== *)
theory Range_Chain
  imports Range_Blocks Mutable_Versions
begin

text \<open>
  The chain of blocks: what the blocks of a range have to be to each other, and that the operations on them keep
  it. Each block is replaced by what comes off it, within its interval.
\<close>

section \<open>A good chain\<close>

definition in_block :: "block \<Rightarrow> key \<Rightarrow> bool" where
  "in_block b k \<longleftrightarrow> (key_empty (bk_prev_end b) \<or> key_cmp (m_seq (bk_cells b)) (bk_prev_end b) k = GT) \<and>
     (key_empty (bk_key_end b) \<or> key_cmp (m_seq (bk_cells b)) (bk_key_end b) k \<noteq> GT)"

definition plain_cfg :: "range_cfg \<Rightarrow> bool" where
  "plain_cfg cf \<longleftrightarrow> cf_seq cf \<noteq> UNKNOWN \<and> \<not> is_counter (cf_type cf) \<and> cf_versions cf \<noteq> 0 \<and>
     unat (cf_versions cf) + 20 < 2 ^ 32"

definition configured :: "range_cfg \<Rightarrow> mutable \<Rightarrow> bool" where
  "configured cf m \<longleftrightarrow> m_seq m = cf_seq cf \<and> m_type m = cf_type cf \<and> m_max_revs m = cf_versions cf \<and> m_ttl m = cf_ttl cf"

definition block_ok :: "range_cfg \<Rightarrow> block \<Rightarrow> bool" where
  "block_ok cf b \<longleftrightarrow> container_ok (bk_cells b) \<and> configured cf (bk_cells b) \<and> length (m_cells (bk_cells b)) < 2 ^ 64 \<and>
     key_rep (bk_prev_end b) \<and> key_rep (bk_key_end b) \<and>
     (key_empty (bk_prev_end b) \<or> in_block b (bk_key_end b) \<or> key_empty (bk_key_end b)) \<and>
     (\<forall>c \<in> set (m_cells (bk_cells b)). \<not> key_empty (c_key c) \<and> in_block b (c_key c)) \<and>
     (bk_state b = Block_none \<longrightarrow> m_cells (bk_cells b) = [])"

text \<open>A block follows another when it begins where that ends.\<close>

definition follows :: "block \<Rightarrow> block \<Rightarrow> bool" where
  "follows b d \<longleftrightarrow> \<not> key_empty (bk_key_end b) \<and> same_key (bk_key_end b) (bk_prev_end d)"

definition chain_ok :: "range_cfg \<Rightarrow> block list \<Rightarrow> bool" where
  "chain_ok cf bs \<longleftrightarrow> list_all (block_ok cf) bs \<and> successively follows bs"

text \<open>Blocks in the place of one.\<close>

definition replaces :: "range_cfg \<Rightarrow> block \<Rightarrow> block list \<Rightarrow> bool" where
  "replaces cf b bl \<longleftrightarrow> bl \<noteq> [] \<and> chain_ok cf bl \<and> bk_prev_end (hd bl) = bk_prev_end b \<and> bk_key_end (last bl) = bk_key_end b"

lemma replaces_self: "block_ok cf b \<Longrightarrow> bk_prev_end b = bk_prev_end a \<Longrightarrow> bk_key_end b = bk_key_end a \<Longrightarrow> replaces cf a [b]"
  by (simp add: replaces_def chain_ok_def)

lemma replaces_Cons:
  assumes "block_ok cf b1" and "follows b1 b2" and "bk_prev_end b1 = bk_prev_end b" and "bk_key_end b2 = bk_key_end b"
    and "replaces cf b2 bl"
  shows "replaces cf b (b1 # bl)"
  using assms by (cases bl) (auto simp: replaces_def chain_ok_def follows_def)

lemma replaces_trans:
  assumes "replaces cf b (d # after)" and "replaces cf d bl"
  shows "replaces cf b (bl @ after)"
proof (cases after)
  case Nil
  then show ?thesis using assms by (auto simp: replaces_def)
next
  case (Cons a as)
  then have "follows (last bl) a" using assms by (auto simp: replaces_def chain_ok_def follows_def)
  then show ?thesis using assms Cons by (auto simp: replaces_def chain_ok_def successively_append_iff)
qed

lemma chain_replace:
  assumes "chain_ok cf (xs @ b # ys)" and "replaces cf b bl"
  shows "chain_ok cf (xs @ bl @ ys)"
proof -
  have f: "follows (last xs) (hd bl) = follows (last xs) b" "follows (last bl) (hd ys) = follows b (hd ys)"
    using assms(2) by (simp_all add: replaces_def follows_def)
  have "bl \<noteq> []" "list_all (block_ok cf) bl" "successively follows bl" using assms(2) by (simp_all add: replaces_def chain_ok_def)
  then show ?thesis using assms(1) f
    by (cases ys) (auto simp: chain_ok_def successively_append_iff successively_Cons)
qed

section \<open>Splitting\<close>

definition world_ok :: "world \<Rightarrow> bool" where
  "world_ok w \<longleftrightarrow> (\<forall>cs. sum_list (w_vectors w cs) = length cs \<and> 0 \<notin> set (w_vectors w cs))"

lemma vector_change_at: "vector_change cs ps = Some p \<Longrightarrow> p \<in> set ps \<and> \<not> key_equal (c_key (cs ! (p - 1))) (c_key (cs ! p))"
  by (induction cs ps rule: vector_change.induct) (auto split: if_splits)

lemma vector_bounds_inside:
  assumes "p \<in> set (vector_bounds sizes)" and "1 < length sizes" and "0 \<notin> set sizes"
  shows "0 < p" and "p < sum_list sizes"
proof -
  obtain k where k: "length sizes div 2 \<le> k" "k < length sizes" "p = sum_list (take k sizes)"
    using assms(1) by (auto simp: vector_bounds_def)
  have "sizes \<noteq> []" "take k sizes \<noteq> []" "drop k sizes \<noteq> []" using k assms(2) by auto
  then have "hd (take k sizes) \<in> set sizes" "hd (drop k sizes) \<in> set sizes"
    by (meson in_set_dropD in_set_takeD list.set_sel(1))+
  then have "0 < hd (take k sizes)" "0 < hd (drop k sizes)" using assms(3) by (metis neq0_conv)+
  moreover have "hd (take k sizes) \<le> sum_list (take k sizes)" "hd (drop k sizes) \<le> sum_list (drop k sizes)"
    using member_le_sum_list [OF list.set_sel(1) [OF \<open>take k sizes \<noteq> []\<close>]]
      member_le_sum_list [OF list.set_sel(1) [OF \<open>drop k sizes \<noteq> []\<close>]] by simp_all
  moreover have "sum_list sizes = sum_list (take k sizes) + sum_list (drop k sizes)"
    by (metis append_take_drop_id sum_list_append)
  ultimately show "0 < p" "p < sum_list sizes" using k(3) by simp_all
qed

lemma fold_m_add: "fold (\<lambda>c m. m_add m c) cs m =
    m\<lparr>m_bytes := m_bytes m + bytes_of cs, m_size := m_size m + of_nat (length cs)\<rparr>"
proof (induction cs arbitrary: m)
  case (Cons c cs)
  have "m_bytes (m_add m c) = m_bytes m + of_nat (cell_encoded_length c False)" "m_size (m_add m c) = m_size m + 1"
    by (simp_all add: m_add_def)
  then show ?case using Cons.IH [of "m_add m c"] by (simp add: m_add_def add.assoc)
qed simp

lemma container_split_gives:
  assumes m: "container_ok m" and size: "length (m_cells m) < 2 ^ 64"
    and other: "container_ok other" "m_cells other = []" "m_seq other = m_seq m"
    and sizes: "sum_list sizes = length (m_cells m)" "0 \<notin> set sizes"
    and sp: "container_split now sizes m other cnt bytes loaded = (m', other', True)"
  shows "container_ok m' \<and> container_ok other' \<and> same_setup m m' \<and> same_setup other other' \<and>
    (\<exists>kept gone keep. kept \<noteq> [] \<and> gone \<noteq> [] \<and> m_cells m = kept @ gone \<and> m_cells m' = kept \<and>
      m_cells other' = filter keep gone \<and> (\<forall>c. keep c \<longrightarrow> loaded) \<and>
      (\<forall>c. loaded \<longrightarrow> \<not> has_expired now c (m_ttl m) \<longrightarrow> keep c) \<and>
      (\<forall>c \<in> set kept. \<forall>d \<in> set gone. \<not> same_cell_key c d))"
proof (cases "if 1 < length sizes then vector_change (m_cells m) (vector_bounds sizes) else None")
  case None
  then have "m_split now m other cnt bytes loaded = (m', other', True)"
    using sp by (simp add: container_split_def split: if_splits)
  note g = split_gives [OF m size other this]
  obtain kept gone where k: "kept \<noteq> []" "gone \<noteq> []" "m_cells m = kept @ gone" "m_cells m' = kept"
    "m_cells other' = filter (\<lambda>c. loaded \<and> \<not> has_expired now c (m_ttl m)) gone"
    "\<forall>c \<in> set kept. \<forall>d \<in> set gone. \<not> same_cell_key c d" using g(5) by blast
  show ?thesis using g(1-4) k
    by (intro conjI exI [of _ kept] exI [of _ gone] exI [of _ "\<lambda>c. loaded \<and> \<not> has_expired now c (m_ttl m)"]) blast+
next
  case (Some p)
  let ?cs = "m_cells m"
  have "1 < length sizes" and vc: "vector_change ?cs (vector_bounds sizes) = Some p"
    using Some by (auto split: if_splits)
  then have p: "0 < p" "p < length ?cs" "\<not> key_equal (c_key (?cs ! (p - 1))) (c_key (?cs ! p))"
    using vector_change_at [OF vc] vector_bounds_inside [OF _ _ sizes(2)] sizes(1) by auto
  have parts: "m_size (fold (\<lambda>c m. m_add m c) (drop p ?cs) (other\<lparr>m_cells := drop p ?cs\<rparr>)) = m_size other + of_nat (length (drop p ?cs))"
    "m_bytes (fold (\<lambda>c m. m_add m c) (drop p ?cs) (other\<lparr>m_cells := drop p ?cs\<rparr>)) = m_bytes other + bytes_of (drop p ?cs)"
    by (simp_all add: fold_m_add)
  have m': "m' = m\<lparr>m_cells := take p ?cs, m_size := m_size m - of_nat (length (drop p ?cs)), m_bytes := m_bytes m - bytes_of (drop p ?cs)\<rparr>"
    and o': "other' = (if loaded then other\<lparr>m_cells := drop p ?cs, m_size := of_nat (length (drop p ?cs)), m_bytes := bytes_of (drop p ?cs)\<rparr>
      else other\<lparr>m_cells := [], m_size := 0, m_bytes := 0\<rparr>)"
    using sp Some other(1,2) by (auto simp: container_split_def Let_def fold_m_add m_free_def container_ok_def split: if_splits)
  have seq: "m_seq m \<noteq> UNKNOWN" and ok: "list_all cell_ok ?cs" and sorted: "cells_sorted (m_seq m) ?cs"
    using m by (simp_all add: container_ok_def)
  have "bytes_of ?cs = bytes_of (take p ?cs) + bytes_of (drop p ?cs)"
    "(of_nat (length ?cs) :: u64) = of_nat (length (take p ?cs)) + of_nat (length (drop p ?cs))"
    by (metis append_take_drop_id bytes_of_simps(3), metis append_take_drop_id length_append of_nat_add)
  then have "container_ok m'" "container_ok other'"
    using m other list_all_takeI [OF ok, of p] cells_sorted_take [OF sorted, of p] cells_sorted_drop [OF sorted, of p] seq
    by (auto simp: container_ok_def m' o' cells_sorted_def)
  moreover have "\<forall>c \<in> set (take p ?cs). \<forall>d \<in> set (drop p ?cs). \<not> same_cell_key c d"
    using key_change_separates [OF seq ok sorted, of "p - 1"] p by simp
  ultimately show ?thesis using p
    by (intro conjI exI [of _ "take p ?cs"] exI [of _ "drop p ?cs"] exI [of _ "\<lambda>c. loaded"])
      (auto simp: m' o' same_setup_def)
qed


lemma key_rep_new [simp]: "key_rep Key_new" "key_empty Key_new"
proof -
  have "Key_new = key_of False []" by (simp add: Key_new_def key_of_def)
  moreover have "fits []" by (simp add: fits_def encoded_length_vi24_def max_vb_defs)
  ultimately show "key_rep Key_new" by (metis key_rep_of)
  show "key_empty Key_new" by (simp add: key_empty_def Key_new_def)
qed

lemma same_empty: "key_rep a \<Longrightarrow> key_rep b \<Longrightarrow> same_key a b \<Longrightarrow> key_empty a \<longleftrightarrow> key_empty b"
  by (auto elim!: key_repE simp: key_empty_def same_key_of)

lemma Block_make_ok: "cf_seq cf \<noteq> UNKNOWN \<Longrightarrow> container_ok (bk_cells (Block_make cf k st))"
  "m_cells (bk_cells (Block_make cf k st)) = []" "configured cf (bk_cells (Block_make cf k st))"
  "bk_state (Block_make cf k st) = st"
  by (simp_all add: Block_make_def Mutable_new_ok configured_def) (simp add: Mutable_new_def)+

lemma same_configured: "same_setup m m' \<Longrightarrow> configured cf m' \<longleftrightarrow> configured cf m"
  by (auto simp: same_setup_def configured_def)

text \<open>The two blocks of a split.\<close>

lemma block_split_ok:
  assumes b: "block_ok cf b" and w: "world_ok w" and cf: "cf_seq cf \<noteq> UNKNOWN"
    and sp: "block_split w cf loaded b = Some (b1, b2)"
  shows "block_ok cf b1 \<and> block_ok cf b2 \<and> follows b1 b2 \<and> bk_prev_end b1 = bk_prev_end b \<and>
    bk_key_end b2 = bk_key_end b \<and> bk_state b1 = bk_state b \<and> set (m_cells (bk_cells b1)) \<subseteq> set (m_cells (bk_cells b)) \<and>
    length (m_cells (bk_cells b1)) \<le> length (m_cells (bk_cells b)) \<and>
    length (m_cells (bk_cells b2)) < length (m_cells (bk_cells b))"
proof -
  let ?m = "bk_cells b" and ?blk = "Block_make cf Key_new (if loaded \<and> \<not> w_need_ram w (bk_cells b) then Block_loaded else Block_none)"
  let ?sizes = "w_vectors w (m_cells ?m)" and ?loaded = "loaded \<and> \<not> w_need_ram w ?m"
  obtain m cells where cs: "container_split (w_now w) ?sizes ?m (bk_cells ?blk) (ucast (cf_block_cells cf))
      (ucast (cf_block_size cf)) ?loaded = (m, cells, True)"
    and b1: "b1 = b\<lparr>bk_cells := m, bk_split_rev := bk_split_rev b + 1, bk_key_end := key_copy (c_key (last (m_cells m)))\<rparr>"
    and b2: "b2 = ?blk\<lparr>bk_cells := cells, bk_key_end := bk_key_end b, bk_prev_end := key_copy (key_copy (c_key (last (m_cells m))))\<rparr>"
    using sp by (auto simp: block_split_def Let_def split: prod.splits if_splits)
  have ok: "container_ok ?m" "configured cf ?m" "length (m_cells ?m) < 2 ^ 64" "key_rep (bk_prev_end b)" "key_rep (bk_key_end b)"
    and inb: "\<And>c. c \<in> set (m_cells ?m) \<Longrightarrow> \<not> key_empty (c_key c) \<and> in_block b (c_key c)"
    using b by (simp_all add: block_ok_def)
  have seq: "m_seq ?m = cf_seq cf" using ok(2) by (simp add: configured_def)
  have "m_seq (bk_cells ?blk) = m_seq ?m" using Block_make_ok(3) [of cf] ok(2) by (auto simp: configured_def)
  note g = container_split_gives [OF ok(1,3) Block_make_ok(1) [OF cf] Block_make_ok(2) this _ _ cs]
  have sizes: "sum_list ?sizes = length (m_cells ?m)" "0 \<notin> set ?sizes" using w by (simp_all add: world_ok_def)
  from g [OF sizes] obtain kept gone keep where
    oks: "container_ok m" "container_ok cells" "same_setup ?m m" "same_setup (bk_cells ?blk) cells"
    and k: "kept \<noteq> []" "gone \<noteq> []" "m_cells ?m = kept @ gone" "m_cells m = kept" "m_cells cells = filter keep gone"
      "\<forall>c. keep c \<longrightarrow> ?loaded" "\<forall>c \<in> set kept. \<forall>d \<in> set gone. \<not> same_cell_key c d" by blast
  have cell: "cell_ok c" if "c \<in> set (m_cells ?m)" for c using ok(1) that by (simp add: container_ok_def list_all_iff)
  then have rep: "key_rep (c_key c)" if "c \<in> set (m_cells ?m)" for c using that by (simp add: cell_ok_def)
  let ?l = "last kept" and ?e = "key_copy (c_key (last kept))"
  have l: "?l \<in> set kept" "?l \<in> set (m_cells ?m)" using k by simp_all
  note cp = key_copy_same [OF rep [OF l(2)]]
  note cp2 = key_copy_same [OF conjunct1 [OF cp]]
  note o = key_order [OF cf]
  have sorted: "sorted_wrt (cle (cf_seq cf)) (kept @ gone)"
    using ok(1) k(3) seq by (simp add: container_ok_def cells_sorted_def)
  have le_last: "key_cmp (cf_seq cf) ?e (c_key c) \<noteq> GT" if c: "c \<in> set kept" for c
  proof -
    have kept: "kept = butlast kept @ [?l]" using k(1) by simp
    then have "sorted_wrt (cle (cf_seq cf)) (butlast kept @ [?l])" using sorted by (metis sorted_wrt_append)
    moreover have "c \<in> set (butlast kept) \<or> c = ?l" using c arg_cong [OF kept, of set] by auto
    ultimately have "c = ?l \<or> cle (cf_seq cf) c ?l" by (auto simp: sorted_wrt_append)
    then have "key_cmp (cf_seq cf) (c_key c) (c_key ?l) \<noteq> LT"
      using comp_order.cmp_refl [OF o rep [OF l(2)]] by (auto simp: cle_def)
    moreover have "c \<in> set (m_cells ?m)" using c k(3) by simp
    ultimately have "key_cmp (cf_seq cf) (c_key c) ?e \<noteq> LT"
      using comp_order.not_LT_trans [OF o rep [of c] rep [OF l(2)] conjunct1 [OF cp]] comp_order.not_LT_iff [OF o rep [OF l(2)] conjunct1 [OF cp]]
        comp_order.same_sym [OF o conjunct2 [OF cp]] by blast
    then show ?thesis
      using comp_order.cmp_swap [OF o conjunct1 [OF cp] rep [of c]] \<open>c \<in> set (m_cells ?m)\<close> by simp
  qed
  have behind: "key_cmp (cf_seq cf) (key_copy ?e) (c_key d) = GT" if d: "d \<in> set gone" for d
  proof -
    have dm: "d \<in> set (m_cells ?m)" using d k(3) by simp
    have "cle (cf_seq cf) ?l d" using sorted l(1) d by (simp add: sorted_wrt_append)
    moreover have "\<not> same_key (c_key ?l) (c_key d)" using k(7) l(1) d by simp
    ultimately have "key_cmp (cf_seq cf) (c_key ?l) (c_key d) = GT"
      using comp_order.not_LT_iff [OF o rep [OF l(2)] rep [OF dm]] by (simp add: cle_def)
    then show ?thesis
      using comp_order.cmp_same_left [OF o conjunct1 [OF cp2] rep [OF l(2)] rep [OF dm]]
        comp_order.same_trans [OF o conjunct2 [OF cp2] conjunct2 [OF cp]] by blast
  qed
  have e0: "\<not> key_empty ?e" using inb [OF l(2)] same_empty [OF conjunct1 [OF cp] rep [OF l(2)] conjunct2 [OF cp]] by simp
  have e1: "\<not> key_empty (key_copy ?e)" using e0 same_empty [OF conjunct1 [OF cp2] conjunct1 [OF cp] conjunct2 [OF cp2]] by simp
  have mseq: "m_seq m = cf_seq cf" "m_seq cells = cf_seq cf"
    using oks(3,4) seq Block_make_ok(3) [of cf] by (auto simp: same_setup_def configured_def)
  have lo: "key_empty (bk_prev_end b) \<or> key_cmp (cf_seq cf) (bk_prev_end b) (c_key c) = GT" if "c \<in> set (m_cells ?m)" for c
    using inb [OF that] seq by (simp add: in_block_def)
  have hi: "key_empty (bk_key_end b) \<or> key_cmp (cf_seq cf) (bk_key_end b) (c_key c) \<noteq> GT" if "c \<in> set (m_cells ?m)" for c
    using inb [OF that] seq by (simp add: in_block_def)
  have "key_empty (bk_prev_end b) \<or> key_cmp (cf_seq cf) (bk_prev_end b) ?e = GT"
    using lo [OF l(2)] comp_order.cmp_same_right [OF o ok(4) rep [OF l(2)] conjunct1 [OF cp]]
      comp_order.same_sym [OF o conjunct2 [OF cp]] by blast
  moreover have "key_cmp (cf_seq cf) ?e ?e \<noteq> GT" using comp_order.cmp_refl [OF o conjunct1 [OF cp]] by simp
  moreover have "bk_state b \<noteq> Block_none" using b k(1,3) by (auto simp: block_ok_def)
  ultimately have ok1: "block_ok cf b1"
    using oks(1) same_configured [OF oks(3)] ok k(3,4) cp e0 inb lo le_last mseq
    by (auto simp: block_ok_def b1 in_block_def)
  have "key_empty (bk_key_end b) \<or> key_cmp (cf_seq cf) (key_copy ?e) (bk_key_end b) = GT"
  proof (cases "key_empty (bk_key_end b)")
    case ne: False
    obtain d where d: "d \<in> set gone" using k(2) by (meson last_in_set)
    then have dm: "d \<in> set (m_cells ?m)" using k(3) by simp
    have "key_cmp (cf_seq cf) (bk_key_end b) (c_key d) \<noteq> GT" using hi [OF dm] ne by simp
    then have "key_cmp (cf_seq cf) (c_key d) (bk_key_end b) \<noteq> LT"
      using comp_order.cmp_swap [OF o ok(5) rep [OF dm]] by simp
    then have "key_cmp (cf_seq cf) (c_key d) (bk_key_end b) = GT \<or> same_key (c_key d) (bk_key_end b)"
      using comp_order.not_LT_iff [OF o rep [OF dm] ok(5)] by simp
    then show ?thesis
      using behind [OF d] comp_order.cmp_trans [OF o conjunct1 [OF cp2] rep [OF dm] ok(5)]
        comp_order.cmp_same_right [OF o conjunct1 [OF cp2] rep [OF dm] ok(5)] by blast
  qed simp
  moreover have "key_cmp (cf_seq cf) (bk_key_end b) (bk_key_end b) \<noteq> GT" using comp_order.cmp_refl [OF o ok(5)] by simp
  moreover have "set (filter keep gone) \<subseteq> set (m_cells ?m)" using k(3) by auto
  moreover have "length (filter keep gone) < 2 ^ 64" using ok(3) k(3) le_less_trans [OF length_filter_le [of keep gone]] by simp
  moreover have "filter keep gone = []" if "\<not> ?loaded" using k(6) that by (auto simp: filter_empty_conv)
  ultimately have ok2: "block_ok cf b2"
    using oks(2) same_configured [OF oks(4)] Block_make_ok(3) [of cf] ok k(4,5) cp2 inb hi behind mseq
    by (auto simp: block_ok_def b2 in_block_def subset_iff Block_make_ok(4))
  have "length (filter keep gone) < length (m_cells ?m)"
    using k(1,3) by (cases kept) (auto intro: le_less_trans [OF length_filter_le])
  then show ?thesis using ok1 ok2 e0 k(3-5) comp_order.same_sym [OF o conjunct2 [OF cp2]]
    by (simp add: follows_def b1 b2)
qed


lemma split_on_ok:
  assumes "block_ok cf b" and "world_ok w" and "cf_seq cf \<noteq> UNKNOWN" and "length (m_cells (bk_cells b)) < n"
  shows "\<exists>bl. split_on n w cf loaded b = Some bl \<and> replaces cf b bl \<and> bk_state (hd bl) = bk_state b \<and>
    set (m_cells (bk_cells (hd bl))) \<subseteq> set (m_cells (bk_cells b)) \<and> length (m_cells (bk_cells (hd bl))) \<le> length (m_cells (bk_cells b))"
  using assms(1,4)
proof (induction n arbitrary: b)
  case (Suc n)
  show ?case
  proof (cases "block_split w cf loaded b")
    case None
    then show ?thesis using replaces_self [OF Suc.prems(1)] by simp
  next
    case (Some p)
    then obtain b1 b2 where p: "block_split w cf loaded b = Some (b1, b2)" by (cases p) auto
    note sp = block_split_ok [OF Suc.prems(1) assms(2,3) p]
    have two: "replaces cf b [b1, b2]"
      using sp replaces_Cons [of cf b1 b2 b "[b2]"] replaces_self [of cf b2 b2] by blast
    show ?thesis
    proof (cases "bk_state b2 \<noteq> Block_loaded \<or> \<not> need_split cf b2")
      case True
      then show ?thesis using p two sp by auto
    next
      case False
      obtain bl where "split_on n w cf loaded b2 = Some bl" "replaces cf b2 bl"
        using Suc.IH [of b2] sp Suc.prems(2) by auto
      then show ?thesis using p False sp replaces_Cons [of cf b1 b2 b bl] by auto
    qed
  qed
qed simp

lemma splitter_ok:
  assumes "block_ok cf b" and "world_ok w" and "cf_seq cf \<noteq> UNKNOWN"
  shows "\<exists>bl split. splitter w cf loaded b = Some (bl, split) \<and> replaces cf b bl \<and> bk_state (hd bl) = bk_state b \<and>
    set (m_cells (bk_cells (hd bl))) \<subseteq> set (m_cells (bk_cells b)) \<and> length (m_cells (bk_cells (hd bl))) \<le> length (m_cells (bk_cells b))"
  using split_on_ok [OF assms lessI, of loaded] replaces_self [OF assms(1) refl refl]
  by (auto simp: splitter_def blocks_split_def)

section \<open>A cell that comes in\<close>

lemma is_in_end_Inr:
  assumes "key_rep (bk_key_end b)" and "key_rep k"
  shows "blk_is_in_end b k = Inr (key_empty (bk_key_end b) \<or> (\<not> key_empty k \<and> key_cmp (m_seq (bk_cells b)) (bk_key_end b) k \<noteq> GT))"
  by (simp add: blk_is_in_end_def cond_key_end_def key_compare_Inr [OF assms])

lemma in_block_same:
  assumes "m_seq (bk_cells b) \<noteq> UNKNOWN" and "key_rep (bk_prev_end b)" and "key_rep (bk_key_end b)"
    and "key_rep k" and "key_rep l" and "same_key k l" and "in_block b k"
  shows "in_block b l"
proof -
  note o = key_order [OF assms(1)]
  have "key_cmp (m_seq (bk_cells b)) (bk_prev_end b) k = GT \<Longrightarrow> key_cmp (m_seq (bk_cells b)) (bk_prev_end b) l = GT"
    using comp_order.cmp_same_right [OF o assms(2,4,5)] assms(6) by blast
  moreover have "key_cmp (m_seq (bk_cells b)) (bk_key_end b) l = GT \<Longrightarrow> key_cmp (m_seq (bk_cells b)) (bk_key_end b) k = GT"
    using comp_order.cmp_same_right [OF o assms(3,5,4)] comp_order.same_sym [OF o assms(6)] by blast
  ultimately show ?thesis using assms(7) by (auto simp: in_block_def)
qed

text \<open>A cell for the container of a plain column, with room left.\<close>

definition cell_for :: "block \<Rightarrow> cell \<Rightarrow> bool" where
  "cell_for b c \<longleftrightarrow> cell_ok c \<and> \<not> key_empty (c_key c) \<and> in_block b (c_key c)"

text \<open>An addition makes a container longer by one at most.\<close>

lemma pass_length:
  "pass c r = Inr (m', cs', off') \<Longrightarrow> (\<And>m cs off. r = Inr (m, cs, off) \<Longrightarrow> length cs \<le> n) \<Longrightarrow> length cs' \<le> Suc n"
  by (auto simp: pass_def res_bind_def split: sum.splits)

lemma remove_overhead_length: "remove_overhead k revs m cs = (m', kept, rest) \<Longrightarrow> length (kept @ rest) \<le> length cs"
  by (induction k revs m cs arbitrary: m' kept rest rule: remove_overhead.induct) (auto split: if_splits prod.splits intro: le_SucI)

lemma add_remove_length: "add_remove now e m cs off = Inr (m', cs', off') \<Longrightarrow> length cs' \<le> Suc (length cs)"
  by (induction now e m cs off arbitrary: m' cs' off' rule: add_remove.induct)
    (auto simp: put_last_def put_before_def res_bind_def Let_def split: if_splits sum.splits dest!: pass_length intro: le_SucI)

lemma add_plain_single_length: "add_plain_single now e m cs off = Inr (m', cs', off') \<Longrightarrow> length cs' \<le> Suc (length cs)"
  by (induction now e m cs off arbitrary: m' cs' off' rule: add_plain_single.induct)
    (auto simp: put_last_def put_before_def res_bind_def adjust_copy_def Let_def split: if_splits sum.splits dest!: pass_length intro: le_SucI)

lemma add_plain_multi_length: "add_plain_multi now e revs m cs off = Inr (m', cs', off') \<Longrightarrow> length cs' \<le> Suc (length cs)"
  by (induction now e revs m cs off arbitrary: m' cs' off' rule: add_plain_multi.induct)
    (auto simp: put_last_def put_before_def res_bind_def adjust_copy_def Let_def split: if_splits sum.splits prod.splits
      dest!: pass_length remove_overhead_length intro: le_SucI)

lemma block_ok_cells:
  assumes b: "block_ok cf b" and m: "container_ok m" "same_setup (bk_cells b) m" "length (m_cells m) < 2 ^ 64"
    and cells: "\<And>c. c \<in> set (m_cells m) \<Longrightarrow> \<not> key_empty (c_key c) \<and> in_block b (c_key c)"
    and st: "bk_state b \<noteq> Block_none"
  shows "block_ok cf (b\<lparr>bk_cells := m\<rparr>)"
proof -
  have "m_seq m = m_seq (bk_cells b)" using m(2) by (simp add: same_setup_def)
  then have "in_block (b\<lparr>bk_cells := m\<rparr>) k = in_block b k" for k by (simp add: in_block_def)
  then show ?thesis using assms same_configured [OF m(2)] by (simp add: block_ok_def)
qed


lemma add_raw_length:
  assumes "\<not> is_counter (m_type m)" and "add_raw now e m off finalized = Some (Inr (m', off'))"
  shows "length (m_cells m') \<le> Suc (length (m_cells m))"
proof -
  obtain z where "res_bind z (\<lambda>(pos, off1). add_raw_at now e m pos off1 finalized) = Inr (m', off')"
    using assms(2) by (auto simp: add_raw_def)
  then obtain pos off1 where "add_raw_at now e m pos off1 finalized = Inr (m', off')" by (cases z) auto
  then obtain m1 cs where a: "add_at now e m (drop pos (m_cells m)) off1 finalized = Inr (m1, cs, off')"
    and m': "m_cells m' = take pos (m_cells m) @ cs" by (auto simp: add_raw_at_def res_bind_def split: sum.splits)
  have "length cs \<le> Suc (length (drop pos (m_cells m)))"
    using a assms(1)
    by (auto simp: add_at_def simp del: length_drop split: if_splits
      dest: add_remove_length add_plain_single_length add_plain_multi_length)
  then show ?thesis by (simp add: m')
qed

text \<open>A cell of the interval of a block goes into its container, and the block stays what it is.\<close>

lemma add_raw_block:
  assumes b: "block_ok cf b" and cf: "plain_cfg cf" and c: "cell_for b c"
    and room: "length (m_cells (bk_cells b)) + 1 < 2 ^ 64" and st: "bk_state b \<noteq> Block_none"
  shows "\<exists>m off'. add_raw now c (bk_cells b) off finalized = Some (Inr (m, off')) \<and> block_ok cf (b\<lparr>bk_cells := m\<rparr>) \<and>
    others now (cf_ttl cf) c (m_cells m) = others now (cf_ttl cf) c (m_cells (bk_cells b)) \<and>
    length (m_cells m) \<le> Suc (length (m_cells (bk_cells b)))"
proof -
  let ?m = "bk_cells b"
  have conf: "container_ok ?m" "configured cf ?m" "key_rep (bk_prev_end b)" "key_rep (bk_key_end b)"
    and inb: "\<And>d. d \<in> set (m_cells ?m) \<Longrightarrow> \<not> key_empty (c_key d) \<and> in_block b (c_key d)"
    using b by (simp_all add: block_ok_def)
  have plain: "\<not> is_counter (m_type ?m)" and ttl: "m_ttl ?m = cf_ttl cf" and "searchable ?m"
    using cf conf(2) by (simp_all add: configured_def plain_cfg_def searchable_def)
  then obtain m off' where r: "add_raw now c ?m off finalized = Some (Inr (m, off'))" and ok: "container_ok m"
    and ed: "edits now c ?m (m_cells ?m) (m\<lparr>m_cells := m_cells ?m\<rparr>) (m_cells m)"
    using add_raw_edits [OF conf(1), of c finalized now off] c by (auto simp: addable_def cell_for_def)
  have len: "length (m_cells m) \<le> Suc (length (m_cells ?m))" using add_raw_length [OF plain r] .
  have seq: "m_seq ?m \<noteq> UNKNOWN" using conf(1) by (simp add: container_ok_def)
  have "\<not> key_empty (c_key d) \<and> in_block b (c_key d)" if d: "d \<in> set (m_cells m)" for d
  proof (cases "d \<in> set (m_cells ?m)")
    case False
    then have "same_cell_key d c" using edits_elems [OF ed d] by blast
    moreover have "key_rep (c_key d)" "key_rep (c_key c)"
      using ok d c by (auto simp: container_ok_def list_all_iff cell_ok_def cell_for_def)
    ultimately show ?thesis
      using c in_block_same [OF seq conf(3,4), of "c_key c" "c_key d"] same_empty [of "c_key d" "c_key c"]
        comp_order.same_sym [OF key_order [OF seq]] by (auto simp: cell_for_def)
  qed (use inb in blast)
  then have "block_ok cf (b\<lparr>bk_cells := m\<rparr>)"
    using len room st by (intro block_ok_cells [OF b ok edits_setup [OF ed]]) auto
  then show ?thesis using r len edits_others [OF ed] ttl by auto
qed

text \<open>\<open>add_logged\<close> on the block the cell is for.\<close>

lemma add_locked_ok:
  assumes b: "block_ok cf b" and cf: "plain_cfg cf" and w: "world_ok w" and c: "cell_for b c"
    and room: "length (m_cells (bk_cells b)) + 1 < 2 ^ 64"
  shows "\<exists>bl. add_locked w cf rv c b = Some (Inr (True, bl)) \<and> replaces cf b bl"
proof (cases "bk_state b = Block_loaded")
  case False
  then show ?thesis using replaces_self [OF b refl refl] by (simp add: add_locked_def)
next
  case True
  have seq: "cf_seq cf \<noteq> UNKNOWN" using cf by (simp add: plain_cfg_def)
  have rep: "key_rep (bk_key_end b)" "key_rep (c_key c)" using b c by (simp_all add: block_ok_def cell_for_def cell_ok_def)
  have inside: "blk_is_in_end b (c_key c) = Inr True"
    using is_in_end_Inr [OF rep] c by (auto simp: cell_for_def in_block_def)
  obtain m off' where r: "add_raw (w_now w) c (bk_cells b) 0 True = Some (Inr (m, off'))" and ok: "block_ok cf (b\<lparr>bk_cells := m\<rparr>)"
    using add_raw_block [OF b cf c room, of "w_now w" 0 True] True by auto
  obtain bl sp where s: "splitter w cf True (b\<lparr>bk_cells := m\<rparr>) = Some (bl, sp)" "replaces cf (b\<lparr>bk_cells := m\<rparr>) bl"
    using splitter_ok [OF ok w seq] by blast
  then have "replaces cf b bl" by (simp add: replaces_def)
  then show ?thesis using True inside r s(1) by (simp add: add_locked_def)
qed

lemma block_add_logged_ok:
  assumes "block_ok cf b" and "plain_cfg cf" and "world_ok w" and "cell_for b c" and "length (m_cells (bk_cells b)) + 1 < 2 ^ 64"
  shows "\<exists>bl. block_add_logged w cf c b = Some (Inr (True, bl)) \<and> replaces cf b bl"
proof -
  have "key_rep (bk_key_end b)" "key_rep (c_key c)" using assms(1,4) by (simp_all add: block_ok_def cell_for_def cell_ok_def)
  from is_in_end_Inr [OF this] have "add_check c b = Inr (Some (bk_split_rev b))"
    using assms(4) by (auto simp: add_check_def cell_for_def in_block_def)
  then show ?thesis using add_locked_ok [OF assms, of "bk_split_rev b"] by (simp add: block_add_logged_def)
qed


section \<open>The order of the blocks\<close>

lemma chain_nth:
  assumes "chain_ok cf bs"
  shows "i < length bs \<Longrightarrow> block_ok cf (bs ! i)" and "Suc i < length bs \<Longrightarrow> follows (bs ! i) (bs ! Suc i)"
  using assms by (simp_all add: chain_ok_def list_all_length successively_conv_nth)

lemma block_rep:
  "block_ok cf b \<Longrightarrow> key_rep (bk_prev_end b) \<and> key_rep (bk_key_end b) \<and> m_seq (bk_cells b) = cf_seq cf"
  by (simp add: block_ok_def configured_def)

text \<open>A key behind the begin of a block is behind the ends of all blocks before.\<close>

lemma ends_before:
  assumes ch: "chain_ok cf bs" and s: "cf_seq cf \<noteq> UNKNOWN" and k: "key_rep k"
    and ij: "i < j" "j < length bs"
    and gt: "key_empty (bk_prev_end (bs ! j)) \<or> key_cmp (cf_seq cf) (bk_prev_end (bs ! j)) k = GT"
  shows "\<not> key_empty (bk_key_end (bs ! i)) \<and> key_cmp (cf_seq cf) (bk_key_end (bs ! i)) k = GT"
  using ij gt k
proof (induction j arbitrary: k)
  case (Suc j)
  note o = key_order [OF s]
  let ?b = "bs ! j" and ?d = "bs ! Suc j"
  have j: "j < length bs" using Suc.prems by simp
  note bd = block_rep [OF chain_nth(1) [OF ch j]] block_rep [OF chain_nth(1) [OF ch Suc.prems(2)]]
  have f: "\<not> key_empty (bk_key_end ?b)" "same_key (bk_key_end ?b) (bk_prev_end ?d)"
    using chain_nth(2) [OF ch, of j] Suc.prems by (simp_all add: follows_def)
  then have "\<not> key_empty (bk_prev_end ?d)" using same_empty bd by blast
  then have e: "key_cmp (cf_seq cf) (bk_key_end ?b) k = GT"
    using Suc.prems comp_order.cmp_same_left [OF o _ _ Suc.prems(4) _ f(2)] bd by blast
  show ?case
  proof (cases "i = j")
    case False
    have "in_block ?b (bk_key_end ?b) \<or> key_empty (bk_prev_end ?b)"
      using chain_nth(1) [OF ch j] f(1) by (auto simp: block_ok_def)
    then have "key_empty (bk_prev_end ?b) \<or> key_cmp (cf_seq cf) (bk_prev_end ?b) (bk_key_end ?b) = GT"
      using bd by (auto simp: in_block_def)
    then have "key_empty (bk_prev_end ?b) \<or> key_cmp (cf_seq cf) (bk_prev_end ?b) k = GT"
      using e comp_order.cmp_trans [OF o _ _ Suc.prems(4)] bd by blast
    from Suc.IH [OF _ j this Suc.prems(4)] False Suc.prems(1) show ?thesis by simp
  qed (use e f in simp)
qed simp

definition behind_end :: "range_cfg \<Rightarrow> key \<Rightarrow> block \<Rightarrow> bool" where
  "behind_end cf k b \<longleftrightarrow> \<not> key_empty (bk_key_end b) \<and> key_cmp (cf_seq cf) (bk_key_end b) k = GT"

lemma is_in_end_behind:
  assumes "block_ok cf b" and "key_rep k" and "\<not> key_empty k"
  shows "blk_is_in_end b k = Inr (\<not> behind_end cf k b)"
  using is_in_end_Inr [OF _ assms(2), of b] block_rep [OF assms(1)] assms(3) by (auto simp: behind_end_def)

lemma behind_down:
  assumes ch: "chain_ok cf bs" and s: "cf_seq cf \<noteq> UNKNOWN" and k: "key_rep k"
    and ij: "i \<le> j" "j < length bs" and "behind_end cf k (bs ! j)"
  shows "behind_end cf k (bs ! i)"
proof (cases "i = j")
  case False
  note o = key_order [OF s]
  let ?b = "bs ! j"
  have ok: "block_ok cf ?b" using chain_nth(1) [OF ch ij(2)] .
  have "key_empty (bk_prev_end ?b) \<or> key_cmp (cf_seq cf) (bk_prev_end ?b) (bk_key_end ?b) = GT"
    using ok block_rep [OF ok] assms(6) by (auto simp: block_ok_def in_block_def behind_end_def)
  then have "key_empty (bk_prev_end ?b) \<or> key_cmp (cf_seq cf) (bk_prev_end ?b) k = GT"
    using comp_order.cmp_trans [OF o _ _ k] block_rep [OF ok] assms(6) by (auto simp: behind_end_def)
  from ends_before [OF ch s k _ ij(2) this, of i] False ij(1) show ?thesis by (simp add: behind_end_def)
qed (use assms in simp)

text \<open>What the search among the separators of a structure relies on: each place can be asked, and what lies before
  a place that is before the key is before it too. Then it returns, never leaves the structure, and all before
  the place it finds is before the key.\<close>

locale narrowing =
  fixes ok :: "'s \<Rightarrow> bool" and places :: "'s \<Rightarrow> nat" and at :: "'s \<Rightarrow> key \<Rightarrow> nat \<Rightarrow> bool res"
  assumes at_returns: "ok s \<Longrightarrow> key_rep k \<Longrightarrow> \<not> key_empty k \<Longrightarrow> i < places s \<Longrightarrow> \<exists>b. at s k i = Inr b"
    and at_down: "ok s \<Longrightarrow> key_rep k \<Longrightarrow> \<not> key_empty k \<Longrightarrow> i \<le> j \<Longrightarrow> j < places s \<Longrightarrow> at s k j = Inr True \<Longrightarrow>
      at s k i = Inr True"
begin

lemma narrow_place:
  assumes "ok s" and "key_rep k" and "\<not> key_empty k" and "offset < places s" and "offset + step \<le> places s"
  shows "\<exists>i < places s. narrow (at s k) offset step = Inr i \<and> (\<forall>l < i. at s k l = Inr True)"
  using assms(4,5)
proof (induction "at s k" offset step rule: narrow.induct)
  case (1 offset step)
  obtain b where b: "at s k offset = Inr b" using at_returns [OF assms(1-3) 1(3)] by blast
  let ?s = "if step div 2 \<le> MAX_IDX_NARROW then step div 2 + 1 else step div 2"
  show ?case
  proof (cases b)
    case True
    show ?thesis
    proof (cases "step < MAX_IDX_NARROW")
      case small: True
      have "narrow (at s k) offset step = Inr offset" using b True small by (subst narrow.simps) simp
      moreover have "at s k l = Inr True" if "l < offset" for l
        using at_down [OF assms(1-3) _ 1(3), of l] that b True by simp
      ultimately show ?thesis using 1(3) by blast
    next
      case False
      then have "narrow (at s k) offset step = narrow (at s k) (offset + step div 2) (step div 2)"
        using b True by (subst narrow.simps) simp
      moreover have "0 < step" using False by (simp add: MAX_IDX_NARROW_def)
      then have "offset + step div 2 < places s" "offset + step div 2 + step div 2 \<le> places s"
        using 1(4) by presburger+
      ultimately show ?thesis using 1(1) [OF b True False] by simp
    qed
  next
    case False
    show ?thesis
    proof (cases "offset < ?s")
      case True
      then have "narrow (at s k) offset step = Inr 0" using b False by (subst narrow.simps) (simp add: Let_def)
      then show ?thesis using 1(3) by auto
    next
      case le: False
      then have "narrow (at s k) offset step = narrow (at s k) (offset - ?s) ?s"
        using b False by (subst narrow.simps) (simp add: Let_def)
      moreover have "offset - ?s < places s" "offset - ?s + ?s \<le> places s" using 1(3) le by simp_all
      ultimately show ?thesis using 1(2) [OF b False refl refl le] by simp
    qed
  qed
qed

end

interpretation blocks: narrowing "\<lambda>(cf, bs). chain_ok cf bs \<and> cf_seq cf \<noteq> UNKNOWN" "\<lambda>(cf, bs). length bs"
  "\<lambda>(cf, bs). block_before bs"
proof (unfold_locales, goal_cases)
  case (1 s k i)
  then obtain cf bs where s: "s = (cf, bs)" "chain_ok cf bs" by (cases s) auto
  have "block_ok cf (bs ! i)" using chain_nth(1) [OF s(2)] 1(4) s(1) by simp
  then show ?case using 1 s(1) is_in_end_behind by (simp add: block_before_def)
next
  case (2 s k i j)
  then obtain cf bs where s: "s = (cf, bs)" "chain_ok cf bs" "cf_seq cf \<noteq> UNKNOWN" by (cases s) auto
  have l: "i < length bs" "j < length bs" using 2 s(1) by simp_all
  have "behind_end cf k (bs ! j)"
    using 2 s(1) l is_in_end_behind [OF chain_nth(1) [OF s(2) l(2)] 2(2,3)] by (simp add: block_before_def)
  from behind_down [OF s(2,3) 2(2,4) l(2) this] show ?case
    using s(1) l is_in_end_behind [OF chain_nth(1) [OF s(2) l(1)] 2(2,3)] by (simp add: block_before_def)
qed

lemma blocks_narrow_place:
  assumes "chain_ok cf bs" and "cf_seq cf \<noteq> UNKNOWN" and "bs \<noteq> []" and "key_rep k"
  shows "\<exists>i < length bs. blocks_narrow bs k = Inr i \<and> (\<forall>l < i. behind_end cf k (bs ! l)) \<and> (key_empty k \<longrightarrow> i = 0)"
proof (cases "key_empty k \<or> length bs \<le> MAX_IDX_NARROW")
  case False
  have half: "length bs div 2 + length bs div 2 \<le> length bs" "length bs div 2 < length bs"
    using assms(3) by (presburger, simp)
  obtain i where i: "i < length bs" "narrow (block_before bs k) (length bs div 2) (length bs div 2) = Inr i"
    "\<forall>l < i. block_before bs k l = Inr True"
    using blocks.narrow_place [of "(cf, bs)" k "length bs div 2" "length bs div 2"] assms False half by auto
  have "behind_end cf k (bs ! l)" if "l < i" for l
  proof -
    have "l < length bs" "block_before bs k l = Inr True" using i(1,3) that by auto
    then show ?thesis using is_in_end_behind [OF chain_nth(1) [OF assms(1)] assms(4), of l] False
      by (simp add: block_before_def)
  qed
  then show ?thesis using i False by (auto simp: blocks_narrow_def)
qed (use assms in \<open>simp add: blocks_narrow_def\<close>)

section \<open>A cell finds its block\<close>

lemma add_from_block:
  assumes "\<And>b. b \<in> set xs \<Longrightarrow> blk_is_in_end b (c_key c) = Inr False"
    and "block_add_logged w cf c b = Some (Inr (True, bl))"
  shows "add_from w cf c (xs @ b # ys) = Some (Inr (xs @ bl @ ys))"
  using assms(1)
proof (induction xs)
  case (Cons x xs)
  then have "block_add_logged w cf c x = Some (Inr (False, [x]))" by (simp add: block_add_logged_def add_check_def)
  then show ?case using Cons by simp
qed (simp add: assms(2))


lemma in_block_inside:
  assumes "block_ok cf b" and "key_rep k" and "\<not> key_empty k" and "in_block b k"
  shows "\<not> behind_end cf k b" and "key_empty (bk_prev_end b) \<or> key_cmp (cf_seq cf) (bk_prev_end b) k = GT"
  using assms block_rep [OF assms(1)] by (auto simp: behind_end_def in_block_def)

lemma block_unique:
  assumes "chain_ok cf bs" and "cf_seq cf \<noteq> UNKNOWN" and "key_rep k" and "\<not> key_empty k"
    and "i < length bs" "j < length bs" "in_block (bs ! i) k" "in_block (bs ! j) k"
  shows "i = j"
proof -
  have "False" if "x < y" "y < length bs" "in_block (bs ! x) k" "in_block (bs ! y) k" for x y
  proof -
    have x: "x < length bs" using that by simp
    note b = chain_nth(1) [OF assms(1)]
    have "behind_end cf k (bs ! x)"
      using ends_before [OF assms(1-3) that(1,2)] in_block_inside(2) [OF b [OF that(2)] assms(3,4) that(4)]
      by (simp add: behind_end_def)
    then show False using in_block_inside(1) [OF b [OF x] assms(3,4) that(3)] by simp
  qed
  then show ?thesis using assms(5-8) by (metis linorder_neqE_nat)
qed

lemma add_logged_block:
  assumes ch: "chain_ok cf bs" and cf: "plain_cfg cf" and w: "world_ok w" and j: "j < length bs"
    and c: "cell_for (bs ! j) c" and room: "length (m_cells (bk_cells (bs ! j))) + 1 < 2 ^ 64"
  shows "\<exists>bl. blocks_add_logged w cf c bs = Some (Inr (take j bs @ bl @ drop (Suc j) bs)) \<and> replaces cf (bs ! j) bl \<and>
    block_add_logged w cf c (bs ! j) = Some (Inr (True, bl))"
proof -
  let ?k = "c_key c" and ?b = "bs ! j"
  have s: "cf_seq cf \<noteq> UNKNOWN" using cf by (simp add: plain_cfg_def)
  have k: "key_rep ?k" "\<not> key_empty ?k" "in_block ?b ?k" using c by (simp_all add: cell_for_def cell_ok_def)
  note ok = chain_nth(1) [OF ch]
  have "bs \<noteq> []" using j by auto
  then obtain i where i: "i < length bs" "blocks_narrow bs ?k = Inr i" "\<forall>l < i. behind_end cf ?k (bs ! l)"
    using blocks_narrow_place [OF ch s _ k(1)] by blast
  have ij: "i \<le> j" using i(3) in_block_inside(1) [OF ok [OF j] k] by (meson not_le)
  have parts: "drop i bs = take (j - i) (drop i bs) @ ?b # drop (Suc j) bs"
    using ij j by (metis Cons_nth_drop_Suc append_take_drop_id drop_drop le_add_diff_inverse2)
  have "blk_is_in_end b ?k = Inr False" if b: "b \<in> set (take (j - i) (drop i bs))" for b
  proof -
    obtain l where "l < length (take (j - i) (drop i bs))" "take (j - i) (drop i bs) ! l = b"
      using b [unfolded in_set_conv_nth] by blast
    then have l: "l < j - i" "b = bs ! (i + l)" using ij j by simp_all
    have "behind_end cf ?k b"
      using ends_before [OF ch s k(1) _ j in_block_inside(2) [OF ok [OF j] k], of "i + l"] l by (simp add: behind_end_def)
    then show ?thesis using is_in_end_behind [OF ok k(1,2), of "i + l"] l j by simp
  qed
  moreover obtain bl where bl: "block_add_logged w cf c ?b = Some (Inr (True, bl))" "replaces cf ?b bl"
    using block_add_logged_ok [OF ok [OF j] cf w c room] by blast
  ultimately have "add_from w cf c (drop i bs) = Some (Inr (take (j - i) (drop i bs) @ bl @ drop (Suc j) bs))"
    by (subst parts) (rule add_from_block)
  moreover have "take i bs @ take (j - i) (drop i bs) = take j bs"
    using ij by (metis le_add_diff_inverse take_add)
  ultimately have "blocks_add_logged w cf c bs = Some (Inr (take j bs @ bl @ drop (Suc j) bs))"
    using i \<open>bs \<noteq> []\<close> by (simp add: blocks_add_logged_def)
  then show ?thesis using bl by blast
qed


section \<open>Loading\<close>

lemma add_sorted_block:
  assumes b: "block_ok cf b" and st: "bk_state b \<noteq> Block_none" and c: "cell_for b c"
    and last: "\<forall>d \<in> set (m_cells (bk_cells b)). cle (cf_seq cf) d c" and room: "length (m_cells (bk_cells b)) + 1 < 2 ^ 64"
  shows "block_ok cf (b\<lparr>bk_cells := add_sorted_copy (bk_cells b) c False\<rparr>)"
proof -
  let ?m = "bk_cells b" and ?n = "Cell_of_no_value c False"
  have conf: "container_ok ?m" "m_seq ?m = cf_seq cf" and bounds: "key_rep (bk_prev_end b)" "key_rep (bk_key_end b)"
    and inb: "\<And>d. d \<in> set (m_cells ?m) \<Longrightarrow> \<not> key_empty (c_key d) \<and> in_block b (c_key d)"
    using b by (simp_all add: block_ok_def configured_def)
  have s: "m_seq ?m \<noteq> UNKNOWN" using conf(1) by (simp add: container_ok_def)
  have c': "cell_ok c" "cell_ok ?n" "same_cell_key ?n c"
    using c Cell_of_ok [of c] by (simp_all add: cell_for_def Cell_of_no_value_False)
  then have k: "key_rep (c_key c)" "key_rep (c_key ?n)" by (simp_all add: cell_ok_def)
  have "cle (cf_seq cf) d ?n" if "d \<in> set (m_cells ?m)" for d
  proof -
    have "cell_ok d" using conf(1) that by (simp add: container_ok_def list_all_iff)
    then show ?thesis
      using cle_trans [OF s _ c'(1,2)] cle_same(2) [OF s c'(2,1,3)] last that conf(2) by auto
  qed
  then have "container_ok (add_sorted_copy ?m c False)"
    using conf c'(2) by (simp add: container_ok_def add_sorted_copy_def add_sorted_def cells_sorted_def sorted_wrt_append accounting add.commute)
  moreover have "\<not> key_empty (c_key ?n) \<and> in_block b (c_key ?n)"
    using c in_block_same [OF s bounds k] same_empty [OF k(2,1) c'(3)] comp_order.same_sym [OF key_order [OF s] c'(3)]
    by (simp add: cell_for_def)
  ultimately show ?thesis
    using inb room st by (intro block_ok_cells [OF b]) (auto simp: add_sorted_copy_def add_sorted_def same_setup_def)
qed

lemma load_loop_ok:
  assumes cf: "plain_cfg cf" and w: "world_ok w"
    and "block_ok cf b" and "bk_state b \<noteq> Block_none" and "list_all cell_ok es" and "\<forall>e \<in> set es. \<not> key_empty (c_key e)"
    and "synced \<Longrightarrow> cells_sorted (cf_seq cf) es \<and> (\<forall>c \<in> set (m_cells (bk_cells b)). \<forall>e \<in> set es. cle (cf_seq cf) c e)"
    and "length (m_cells (bk_cells b)) + length es < 2 ^ 64" and "unat n = length (cells_out es)" and "length es \<le> fuel"
  shows "\<exists>bl k was'. load_loop fuel w cf synced off added was b after \<lparr>mem = cells_out es, remain = n\<rparr> = Some (Inr (bl @ after, k, was')) \<and>
    replaces cf b bl \<and> bk_state (hd bl) = bk_state b"
  using assms(3-)
proof (induction es arbitrary: b off added was after n fuel)
  case Nil
  then have "n = 0" by (simp add: unat_eq_zero)
  then show ?case using replaces_self [OF Nil(1) refl refl] by (subst load_loop.simps) auto
next
  case (Cons e es)
  let ?v = "cell_view False False e" and ?len = "cell_encoded_length e (drops_value False e)"
  obtain f where f: "fuel = Suc f" using Cons.prems(8) by (cases fuel) auto
  have e: "cell_ok e" "\<not> key_empty (c_key e)" and es: "list_all cell_ok es" "\<forall>e \<in> set es. \<not> key_empty (c_key e)" "length es \<le> f"
    using Cons.prems f by auto
  have len: "unat n = ?len + length (cells_out es)" using Cons.prems(7) cell_length [OF e(1), of False] by simp
  then have le: "?len \<le> unat n" by simp
  have n0: "n \<noteq> 0" using cell_codec.len_pos [OF e(1), of False] le by auto
  have rd: "cell_read False \<lparr>mem = cell_write e False @ cells_out es, remain = n\<rparr> = Inr (?v, \<lparr>mem = cells_out es, remain = n - of_nat ?len\<rparr>)"
    by (rule cell_codec.dec_enc [OF e(1) le])
  have un: "unat (n - of_nat ?len) = length (cells_out es)" using len by (simp add: unat_sub_of_nat [OF le])
  have s: "cf_seq cf \<noteq> UNKNOWN" using cf by (simp add: plain_cfg_def)
  have v: "cell_ok ?v" using view_ok [OF e(1)] .
  have k: "key_rep (c_key e)" "key_rep (c_key ?v)" using e v by (simp_all add: cell_ok_def)
  have vk: "\<not> key_empty (c_key ?v)" using e(2) by (simp add: key_empty_def)
  have same: "same_cell_key ?v e" by simp
  note b = block_rep [OF Cons.prems(1)]
  have cmp: "key_compare (cf_seq cf) (bk_prev_end b) (c_key ?v) = Inr (key_cmp (cf_seq cf) (bk_prev_end b) (c_key ?v))"
    "key_compare (cf_seq cf) (bk_key_end b) (c_key ?v) = Inr (key_cmp (cf_seq cf) (bk_key_end b) (c_key ?v))"
    using key_compare_Inr b k(2) by blast+
  have go: "\<exists>bl k was'. load_loop f w cf synced off added was b1 after1 \<lparr>mem = cells_out es, remain = n - of_nat ?len\<rparr> = Some (Inr (bl @ after1, k, was')) \<and>
      replaces cf b1 bl \<and> bk_state (hd bl) = bk_state b1"
    if "block_ok cf b1" "bk_state b1 \<noteq> Block_none"
      "synced \<Longrightarrow> \<forall>c \<in> set (m_cells (bk_cells b1)). \<forall>e \<in> set es. cle (cf_seq cf) c e"
      "length (m_cells (bk_cells b1)) + length es < 2 ^ 64" for b1 after1 off added was
  proof (rule Cons.IH [OF that(1,2) es(1,2) _ that(4) un es(3)])
    assume "synced"
    then show "cells_sorted (cf_seq cf) es \<and> (\<forall>c \<in> set (m_cells (bk_cells b1)). \<forall>e \<in> set es. cle (cf_seq cf) c e)"
      using Cons.prems(5) that(3) by (auto simp: cells_sorted_def)
  qed
  note skip = go [OF Cons.prems(1,2)]
  have skip: "\<exists>bl k was'. load_loop f w cf synced off added was b after \<lparr>mem = cells_out es, remain = n - of_nat ?len\<rparr> = Some (Inr (bl @ after, k, was')) \<and>
      replaces cf b bl \<and> bk_state (hd bl) = bk_state b" for off added was
    using go [OF Cons.prems(1,2)] Cons.prems(5,6) by auto
  have stop: "\<exists>bl k was'. Some (Inr (b # after, added, was)) = Some (Inr (bl @ after, k, was')) \<and> replaces cf b bl \<and> bk_state (hd bl) = bk_state b"
    using replaces_self [OF Cons.prems(1) refl refl] by auto
  consider (low) "\<not> key_empty (bk_prev_end b)" "key_cmp (cf_seq cf) (bk_prev_end b) (c_key ?v) \<noteq> GT"
    | (high) "key_empty (bk_prev_end b) \<or> key_cmp (cf_seq cf) (bk_prev_end b) (c_key ?v) = GT" "\<not> key_empty (bk_key_end b)"
      "key_cmp (cf_seq cf) (bk_key_end b) (c_key ?v) = GT"
    | (expired) "in_block b (c_key ?v)" "has_expired (w_now w) ?v (m_ttl (bk_cells b))"
    | (adds) "in_block b (c_key ?v)" "\<not> has_expired (w_now w) ?v (m_ttl (bk_cells b))"
    using b by (auto simp: in_block_def)
  then show ?case
  proof cases
    case low
    then show ?thesis using rd n0 f b cmp skip by (subst load_loop.simps) (simp add: cond_key_end_def)
  next
    case high
    then show ?thesis using rd n0 f b cmp stop by (subst load_loop.simps) (auto simp: cond_key_end_def)
  next
    case expired
    then show ?thesis using rd n0 f b cmp skip by (subst load_loop.simps) (auto simp: cond_key_end_def in_block_def)
  next
    case adds
    have c: "cell_for b ?v" using v vk adds(1) by (simp add: cell_for_def)
    have room: "length (m_cells (bk_cells b)) + 1 < 2 ^ 64" using Cons.prems(6) by simp
    have before: "\<forall>d \<in> set (m_cells (bk_cells b)). cle (cf_seq cf) d ?v" if sy: "synced"
    proof
      fix d assume d: "d \<in> set (m_cells (bk_cells b))"
      then have "cell_ok d" using Cons.prems(1) by (simp add: block_ok_def container_ok_def list_all_iff)
      moreover have "cle (cf_seq cf) d e" using Cons.prems(5) [OF sy] d by simp
      ultimately show "cle (cf_seq cf) d ?v" using cle_trans [OF s _ e(1) v] cle_same(2) [OF s v e(1) same] by blast
    qed
    obtain m off' where m: "(if synced then Some (Inr (add_sorted_copy (bk_cells b) ?v False, off)) else
        add_raw (w_now w) ?v (bk_cells b) off False) = Some (Inr (m, off'))"
      and ok: "block_ok cf (b\<lparr>bk_cells := m\<rparr>)" and ml: "length (m_cells m) \<le> Suc (length (m_cells (bk_cells b)))"
      and ms: "synced \<Longrightarrow> set (m_cells m) \<subseteq> insert (Cell_of_no_value ?v False) (set (m_cells (bk_cells b)))"
    proof (cases synced)
      case True
      then show ?thesis
        using that add_sorted_block [OF Cons.prems(1,2) c before room]
        by (simp add: add_sorted_copy_def add_sorted_def)
    next
      case False
      then show ?thesis using that add_raw_block [OF Cons.prems(1) cf c room Cons.prems(2)] by metis
    qed
    let ?b = "b\<lparr>bk_cells := m\<rparr>"
    have n: "cell_ok (Cell_of_no_value ?v False)" "same_cell_key (Cell_of_no_value ?v False) ?v"
      using Cell_of_ok [OF v] by (simp_all add: Cell_of_no_value_False)
    have sorted: "\<forall>c \<in> set (m_cells m). \<forall>e \<in> set es. cle (cf_seq cf) c e" if sy: "synced"
    proof (intro ballI)
      fix c d assume cd: "c \<in> set (m_cells m)" "d \<in> set es"
      have "cell_ok d" using cd(2) es(1) by (simp add: list_all_iff)
      moreover have "cle (cf_seq cf) e d" using Cons.prems(5) [OF sy] cd(2) by (simp add: cells_sorted_def)
      ultimately have "cle (cf_seq cf) (Cell_of_no_value ?v False) d"
        using cle_trans [OF s n(1) v] cle_trans [OF s v e(1)] cle_same(1) [OF s n(1) v n(2)] cle_same(1) [OF s v e(1) same] by blast
      then show "cle (cf_seq cf) c d" using ms [OF sy] cd Cons.prems(5) [OF sy] by auto
    qed
    obtain bl sp where spl: "splitter w cf False ?b = Some (bl, sp)" "replaces cf ?b bl" "bk_state (hd bl) = bk_state b"
      "set (m_cells (bk_cells (hd bl))) \<subseteq> set (m_cells m)" "length (m_cells (bk_cells (hd bl))) \<le> length (m_cells m)"
      using splitter_ok [OF ok w s, of False] by auto
    show ?thesis
    proof (cases "(added + 1) mod 1000 = 0")
      case False
      have "\<exists>bl k was'. load_loop f w cf synced off' (added + 1) was ?b after \<lparr>mem = cells_out es, remain = n - of_nat ?len\<rparr> =
          Some (Inr (bl @ after, k, was')) \<and> replaces cf ?b bl \<and> bk_state (hd bl) = bk_state ?b"
        using go [of ?b] ok Cons.prems(2,6) ml sorted by simp
      then obtain bl' k was' where r: "load_loop f w cf synced off' (added + 1) was ?b after \<lparr>mem = cells_out es, remain = n - of_nat ?len\<rparr> =
          Some (Inr (bl' @ after, k, was'))" "replaces cf ?b bl'" "bk_state (hd bl') = bk_state b" by auto
      have "replaces cf b bl'" using r(2) by (simp add: replaces_def)
      then show ?thesis using rd n0 f b cmp adds m False r by (subst load_loop.simps) (auto simp: cond_key_end_def in_block_def)
    next
      case True
      have hd: "block_ok cf (hd bl)" "bl \<noteq> []" using spl(2) by (cases bl; simp add: replaces_def chain_ok_def)+
      have st: "bk_state (hd bl) \<noteq> Block_none" using spl(3) Cons.prems(2) by simp
      have h1: "\<forall>c \<in> set (m_cells (bk_cells (hd bl))). \<forall>e \<in> set es. cle (cf_seq cf) c e" if synced
        using sorted [OF that] spl(4) by blast
      have h2: "length (m_cells (bk_cells (hd bl))) + length es < 2 ^ 64" using Cons.prems(6) ml spl(5) by simp
      have "\<exists>bl' k was'. load_loop f w cf synced (if sp then 0 else off') (added + 1) (was \<or> sp) (hd bl) (tl bl @ after)
          \<lparr>mem = cells_out es, remain = n - of_nat ?len\<rparr> = Some (Inr (bl' @ tl bl @ after, k, was')) \<and> replaces cf (hd bl) bl' \<and>
          bk_state (hd bl') = bk_state (hd bl)"
        using go [OF hd(1) st h1 h2] .
      then obtain bl' k was' where r: "load_loop f w cf synced (if sp then 0 else off') (added + 1) (was \<or> sp) (hd bl) (tl bl @ after)
          \<lparr>mem = cells_out es, remain = n - of_nat ?len\<rparr> = Some (Inr (bl' @ tl bl @ after, k, was'))" "replaces cf (hd bl) bl'"
          "bk_state (hd bl') = bk_state b" using spl(3) by auto
      have "replaces cf ?b (hd bl # tl bl)" using spl(2) hd(2) by simp
      from replaces_trans [OF this r(2)] have "replaces cf b (bl' @ tl bl)" by (simp add: replaces_def)
      moreover have "bl' \<noteq> []" using r(2) by (simp add: replaces_def)
      ultimately show ?thesis using rd n0 f b cmp adds m True r spl(1)
        by (subst load_loop.simps) (auto simp: cond_key_end_def in_block_def intro!: exI [of _ "bl' @ tl bl"])
    qed
  qed
qed


text \<open>Encoded cells that can be loaded into a block, as a writer of blocks leaves them.\<close>

definition loadable :: "range_cfg \<Rightarrow> bool \<Rightarrow> block \<Rightarrow> cell list \<Rightarrow> bool" where
  "loadable cf synced b es \<longleftrightarrow> list_all cell_ok es \<and> (\<forall>e \<in> set es. \<not> key_empty (c_key e)) \<and> cells_sorted (cf_seq cf) es \<and>
     (synced \<longrightarrow> (\<forall>c \<in> set (m_cells (bk_cells b)). \<forall>e \<in> set es. cle (cf_seq cf) c e)) \<and>
     length (cells_out es) < 2 ^ 64 \<and> length (m_cells (bk_cells b)) + length es < 2 ^ 64"

lemma load_cells_ok:
  assumes cf: "plain_cfg cf" and w: "world_ok w" and b: "block_ok cf b" and st: "bk_state b \<noteq> Block_none"
    and es: "loadable cf synced b es"
  shows "\<exists>bl n was. load_cells w cf (cells_out es) revs synced b = Some (Inr (bl, n, was)) \<and> replaces cf b bl"
proof -
  let ?synced = "if cf_versions cf < revs then False else synced \<or> m_size (bk_cells b) = 0"
  have "m_cells (bk_cells b) = []" if "m_size (bk_cells b) = 0"
    using cells_empty [of "bk_cells b"] b that by (simp add: block_ok_def)
  then have "?synced \<Longrightarrow> cells_sorted (cf_seq cf) es \<and> (\<forall>c \<in> set (m_cells (bk_cells b)). \<forall>e \<in> set es. cle (cf_seq cf) c e)"
    using es by (auto simp: loadable_def split: if_splits)
  moreover have "unat (of_nat (length (cells_out es)) :: u64) = length (cells_out es)"
    using es by (intro unat_of_nat64) (simp add: loadable_def)
  moreover have "length es \<le> length (cells_out es)" using es by (intro length_le_cells_out) (simp add: loadable_def)
  moreover have "list_all cell_ok es" "\<forall>e \<in> set es. \<not> key_empty (c_key e)" "length (m_cells (bk_cells b)) + length es < 2 ^ 64"
    using es by (simp_all add: loadable_def)
  ultimately have "\<exists>bl k was'. load_loop (length (cells_out es)) w cf ?synced 0 0 False b []
      \<lparr>mem = cells_out es, remain = of_nat (length (cells_out es))\<rparr> = Some (Inr (bl @ [], k, was')) \<and> replaces cf b bl \<and> bk_state (hd bl) = bk_state b"
    by (intro load_loop_ok [OF cf w b st]) blast+
  then show ?thesis by (auto simp: load_cells_def)
qed

lemma replaces_state:
  assumes "replaces cf b (d # ds)" and "st \<noteq> Block_none"
  shows "replaces cf b (d\<lparr>bk_state := st\<rparr> # ds)"
proof -
  have "block_ok cf d \<Longrightarrow> block_ok cf (d\<lparr>bk_state := st\<rparr>)" using assms(2) by (simp add: block_ok_def in_block_def)
  moreover have "follows (d\<lparr>bk_state := st\<rparr>) = follows d" by (simp add: fun_eq_iff follows_def)
  ultimately show ?thesis using assms(1) by (cases ds) (auto simp: replaces_def chain_ok_def)
qed

lemma add_raw_each_block:
  assumes "plain_cfg cf" and "block_ok cf b" and "bk_state b \<noteq> Block_none" and "\<forall>c \<in> set cs. cell_for b c"
    and "length (m_cells (bk_cells b)) + length cs < 2 ^ 64"
  shows "\<exists>m. add_raw_each now finalized (bk_cells b) cs = Some (Inr m) \<and> block_ok cf (b\<lparr>bk_cells := m\<rparr>) \<and>
    length (m_cells m) \<le> length (m_cells (bk_cells b)) + length cs"
  using assms(2-)
proof (induction cs arbitrary: b)
  case (Cons c cs)
  obtain m off where m: "add_raw now c (bk_cells b) 0 finalized = Some (Inr (m, off))" "block_ok cf (b\<lparr>bk_cells := m\<rparr>)"
    "length (m_cells m) \<le> Suc (length (m_cells (bk_cells b)))"
    using add_raw_block [OF Cons.prems(1) assms(1) _ _ Cons.prems(2), of c now 0 finalized] Cons.prems(3,4) by auto
  have "m_seq m = m_seq (bk_cells b)" using block_rep [OF m(2)] block_rep [OF Cons.prems(1)] by simp
  then have "cell_for (b\<lparr>bk_cells := m\<rparr>) d = cell_for b d" for d by (simp add: cell_for_def in_block_def)
  then show ?case using Cons.IH [of "b\<lparr>bk_cells := m\<rparr>"] Cons.prems m by auto
qed simp

text \<open>A container of the log.\<close>

definition log_ok :: "range_cfg \<Rightarrow> mutable \<Rightarrow> bool" where
  "log_ok cf v \<longleftrightarrow> container_ok v \<and> searchable v \<and> m_seq v = cf_seq cf \<and> length (m_cells v) < 2 ^ 64 \<and>
     (\<forall>c \<in> set (m_cells v). \<not> key_empty (c_key c))"

lemma final_loop_ok:
  assumes cf: "plain_cfg cf" and w: "world_ok w" and "block_ok cf b" and "bk_state b \<noteq> Block_none" and "list_all (log_ok cf) vs"
    and "length (m_cells (bk_cells b)) + sum_list (map (\<lambda>v. length (m_cells v)) vs) < 2 ^ 64"
  shows "\<exists>d ds. final_loop w cf vs b after = Some (Inr (d, ds @ after)) \<and> replaces cf b (d # ds) \<and> bk_state d = bk_state b"
  using assms(3-)
proof (induction vs arbitrary: b after)
  case Nil
  then show ?case using replaces_self [OF Nil(1) refl refl] by auto
next
  case (Cons v vs)
  have s: "cf_seq cf \<noteq> UNKNOWN" using cf by (simp add: plain_cfg_def)
  have v: "container_ok v" "searchable v" "m_seq v = cf_seq cf" "length (m_cells v) < 2 ^ 64"
    and vk: "\<And>c. c \<in> set (m_cells v) \<Longrightarrow> \<not> key_empty (c_key c) \<and> cell_ok c"
    using Cons.prems(3) by (auto simp: log_ok_def container_ok_def list_all_iff)
  note b = block_rep [OF Cons.prems(1)]
  let ?cs = "filter (scanned (w_now w) v (bk_prev_end b) (bk_key_end b)) (m_cells v)"
  have cs: "\<forall>c \<in> set ?cs. cell_for b c" using vk b v(3) by (auto simp: cell_for_def in_block_def scanned_def)
  have len: "length ?cs \<le> length (m_cells v)" by simp
  then have "length (m_cells (bk_cells b)) + length ?cs < 2 ^ 64" using Cons.prems(4) by (simp del: length_filter_le)
  from add_raw_each_block [OF cf Cons.prems(1,2) cs this, of "w_now w" False] obtain m where
    m: "add_raw_each (w_now w) False (bk_cells b) ?cs = Some (Inr m)" "block_ok cf (b\<lparr>bk_cells := m\<rparr>)"
    "length (m_cells m) \<le> length (m_cells (bk_cells b)) + length ?cs" by blast
  obtain go where sc: "scan_after (w_now w) v (bk_prev_end b) (bk_key_end b) (bk_cells b) False = Some (Inr (m, go))"
    using scan_after_copies_range [OF v(1) _ _ v(2) m(1) v(4)] b by blast
  show ?case
  proof (cases go)
    case False
    have "replaces cf b [b\<lparr>bk_cells := m\<rparr>]" using replaces_self [OF m(2)] by simp
    then show ?thesis using sc False by auto
  next
    case True
    obtain bl sp where bl: "splitter w cf False (b\<lparr>bk_cells := m\<rparr>) = Some (bl, sp)" "replaces cf (b\<lparr>bk_cells := m\<rparr>) bl"
      "bk_state (hd bl) = bk_state b" "length (m_cells (bk_cells (hd bl))) \<le> length (m_cells m)"
      using splitter_ok [OF m(2) w s, of False] by auto
    have hd: "block_ok cf (hd bl)" "bl \<noteq> []" using bl(2) by (cases bl; simp add: replaces_def chain_ok_def)+
    have "length (m_cells (bk_cells (hd bl))) + sum_list (map (\<lambda>v. length (m_cells v)) vs) < 2 ^ 64"
      using Cons.prems(4) bl(4) m(3) len unfolding list.map sum_list.Cons by linarith
    then obtain d ds where d: "final_loop w cf vs (hd bl) (tl bl @ after) = Some (Inr (d, ds @ tl bl @ after))"
      "replaces cf (hd bl) (d # ds)" "bk_state d = bk_state b"
      using Cons.IH [OF hd(1), of "tl bl @ after"] Cons.prems(2,3) bl(3) by auto
    have "replaces cf (b\<lparr>bk_cells := m\<rparr>) (hd bl # tl bl)" using bl(2) hd(2) by simp
    from replaces_trans [OF this d(2)] have "replaces cf b (d # ds @ tl bl)" by (simp add: replaces_def)
    then show ?thesis using sc True bl(1) d by auto
  qed
qed

lemma load_final_ok:
  assumes cf: "plain_cfg cf" and w: "world_ok w" and b: "block_ok cf b" and st: "bk_state b \<noteq> Block_none" and vs: "list_all (log_ok cf) vs"
    and room: "length (m_cells (bk_cells b)) + sum_list (map (\<lambda>v. length (m_cells v)) vs) < 2 ^ 64"
  shows "\<exists>d ds. load_final w cf vs b = Some (Inr (d # ds)) \<and> replaces cf b (d # ds) \<and> bk_state d = Block_loaded"
proof -
  have s: "cf_seq cf \<noteq> UNKNOWN" using cf by (simp add: plain_cfg_def)
  obtain d ds where d: "final_loop w cf vs b [] = Some (Inr (d, ds))" "replaces cf b (d # ds)" "bk_state d = bk_state b"
    using final_loop_ok [OF assms, of "[]"] by auto
  have ok: "block_ok cf d" using d(2) by (cases ds) (auto simp: replaces_def chain_ok_def)
  then have fin: "finalize_raw (w_now w) (bk_cells d) = Inr (bk_cells d)"
    using cf by (simp add: finalize_raw_def block_ok_def configured_def plain_cfg_def)
  obtain bl sp where bl: "splitter w cf True d = Some (bl, sp)" "replaces cf d bl" using splitter_ok [OF ok w s] by blast
  then obtain h t where ht: "bl = h # t" by (cases bl) (auto simp: replaces_def)
  from replaces_trans [OF d(2) bl(2)] have "replaces cf b (h # t @ ds)" by (simp add: ht)
  from replaces_state [OF this, of Block_loaded] show ?thesis using d(1) fin bl(1) ht by (simp add: load_final_def)
qed


section \<open>The blocks of a range\<close>

lemma block_request_ok: "block_ok cf b \<Longrightarrow> replaces cf b [block_request b]"
  by (rule replaces_self) (auto simp: block_request_def block_ok_def in_block_def)

lemma block_release_ok:
  assumes "block_ok cf b"
  shows "replaces cf b [block_release w loader b]"
proof -
  have "container_ok (m_free (bk_cells b))" using assms by (simp add: block_ok_def container_ok_def m_free_def cells_sorted_def)
  then have "block_ok cf (block_release w loader b)"
    using assms by (auto simp: block_release_def block_ok_def configured_def in_block_def m_free_def)
  then show ?thesis by (rule replaces_self) (simp_all add: block_release_def)
qed

lemma processing_ok:
  assumes "block_ok cf b"
  shows "replaces cf b [processing_increment b]" "replaces cf b [processing_decrement b]"
proof -
  have "block_ok cf (processing_increment b)" "block_ok cf (processing_decrement b)"
    using assms by (auto simp: processing_increment_def processing_decrement_def block_ok_def in_block_def)
  then show "replaces cf b [processing_increment b]" "replaces cf b [processing_decrement b]"
    by (auto intro!: replaces_self simp: processing_increment_def processing_decrement_def)
qed

text \<open>What happens to the blocks of a range while it is loaded: a cell comes in, a block is asked for, gets cells of a
  cell store or of the log, is done loading, is counted as worked on or not, or lets go of its cells.\<close>

inductive blocks_step :: "range_cfg \<Rightarrow> block list \<Rightarrow> block list \<Rightarrow> bool" for cf where
  step_add: "world_ok w \<Longrightarrow> j < length bs \<Longrightarrow> cell_for (bs ! j) c \<Longrightarrow> length (m_cells (bk_cells (bs ! j))) + 1 < 2 ^ 64 \<Longrightarrow>
    blocks_add_logged w cf c bs = Some (Inr bs') \<Longrightarrow> blocks_step cf bs bs'"
| step_request: "blocks_step cf (xs @ b # ys) (xs @ block_request b # ys)"
| step_load: "world_ok w \<Longrightarrow> bk_state b = Block_loading \<Longrightarrow> loadable cf synced b es \<Longrightarrow>
    load_cells w cf (cells_out es) revs synced b = Some (Inr (bl, n, was)) \<Longrightarrow> blocks_step cf (xs @ b # ys) (xs @ bl @ ys)"
| step_final: "world_ok w \<Longrightarrow> bk_state b = Block_loading \<Longrightarrow> list_all (log_ok cf) vs \<Longrightarrow>
    length (m_cells (bk_cells b)) + sum_list (map (\<lambda>v. length (m_cells v)) vs) < 2 ^ 64 \<Longrightarrow>
    load_final w cf vs b = Some (Inr bl) \<Longrightarrow> blocks_step cf (xs @ b # ys) (xs @ bl @ ys)"
| step_release: "blocks_step cf (xs @ b # ys) (xs @ block_release w loader b # ys)"
| step_begin: "blocks_step cf (xs @ b # ys) (xs @ processing_increment b # ys)"
| step_end: "blocks_step cf (xs @ b # ys) (xs @ processing_decrement b # ys)"

text \<open>The same keys: the chain begins and ends where it did.\<close>

definition spans :: "block list \<Rightarrow> block list \<Rightarrow> bool" where
  "spans bs bs' \<longleftrightarrow> bs \<noteq> [] \<longrightarrow> bs' \<noteq> [] \<and> bk_prev_end (hd bs') = bk_prev_end (hd bs) \<and> bk_key_end (last bs') = bk_key_end (last bs)"

lemma replace_step:
  assumes "chain_ok cf (xs @ b # ys)" and "replaces cf b bl"
  shows "chain_ok cf (xs @ bl @ ys) \<and> spans (xs @ b # ys) (xs @ bl @ ys)"
  using chain_replace [OF assms] assms(2) by (cases xs; cases ys) (auto simp: spans_def replaces_def)

lemma step_keeps:
  assumes "blocks_step cf bs bs'" and "chain_ok cf bs" and "plain_cfg cf"
  shows "chain_ok cf bs' \<and> spans bs bs'"
  using assms
proof (induction rule: blocks_step.induct)
  case (step_add w j bs c bs')
  obtain bl where bl: "blocks_add_logged w cf c bs = Some (Inr (take j bs @ bl @ drop (Suc j) bs))" "replaces cf (bs ! j) bl"
    using add_logged_block [OF step_add.prems step_add.hyps(1-4)] by blast
  have "bs = take j bs @ bs ! j # drop (Suc j) bs" using step_add.hyps(2) by (rule id_take_nth_drop)
  then show ?case using replace_step [of cf "take j bs" "bs ! j" "drop (Suc j) bs" bl] step_add bl by simp
next
  case (step_request xs b ys)
  then have "block_ok cf b" by (simp add: chain_ok_def)
  then show ?case using replace_step [OF step_request.prems(1) block_request_ok] by simp
next
  case (step_load w b synced es revs bl n was xs ys)
  then have "block_ok cf b" by (simp add: chain_ok_def)
  then have "replaces cf b bl" using load_cells_ok [OF step_load.prems(2) step_load.hyps(1), of b synced es revs] step_load.hyps by auto
  then show ?case using replace_step [OF step_load.prems(1)] by simp
next
  case (step_final w b vs bl xs ys)
  then have "block_ok cf b" by (simp add: chain_ok_def)
  then have "replaces cf b bl" using load_final_ok [OF step_final.prems(2) step_final.hyps(1), of b vs] step_final.hyps by auto
  then show ?case using replace_step [OF step_final.prems(1)] by simp
next
  case (step_release xs b ys w loader)
  then have "block_ok cf b" by (simp add: chain_ok_def)
  then show ?case using replace_step [OF step_release.prems(1) block_release_ok] by simp
next
  case (step_begin xs b ys)
  then have "block_ok cf b" by (simp add: chain_ok_def)
  then show ?case using replace_step [OF step_begin.prems(1) processing_ok(1)] by simp
next
  case (step_end xs b ys)
  then have "block_ok cf b" by (simp add: chain_ok_def)
  then show ?case using replace_step [OF step_end.prems(1) processing_ok(2)] by simp
qed

text \<open>The blocks of cell stores in order: none ends behind the begin of the next.\<close>

definition store_order :: "range_cfg \<Rightarrow> interval list \<Rightarrow> bool" where
  "store_order cf ivs \<longleftrightarrow> (\<forall>iv \<in> set ivs. key_rep (iv_begin iv) \<and> key_rep (iv_end iv) \<and> \<not> key_empty (iv_end iv) \<and>
       key_cmp (cf_seq cf) (iv_begin iv) (iv_end iv) \<noteq> LT) \<and>
     successively (\<lambda>iv jv. key_cmp (cf_seq cf) (iv_end iv) (iv_begin jv) \<noteq> LT) ivs"

lemma new_block_ok:
  assumes "cf_seq cf \<noteq> UNKNOWN" and "key_rep p" and "key_rep e" and "\<not> key_empty e" and "key_empty p \<or> key_cmp (cf_seq cf) p e = GT"
  shows "block_ok cf (set_prev_key_end p (Block_make cf e Block_none))"
proof -
  note o = key_order [OF assms(1)]
  note c = key_copy_same [OF assms(2)] key_copy_same [OF assms(3)]
  have "key_empty (key_copy p) \<or> key_cmp (cf_seq cf) (key_copy p) (key_copy e) = GT"
    using assms(5) c comp_order.cmp_same_left [OF o conjunct1 [OF c(1)] assms(2) assms(3) _ conjunct2 [OF c(1)]]
      comp_order.cmp_same_right [OF o conjunct1 [OF c(1)] assms(3) conjunct1 [OF c(2)]] comp_order.same_sym [OF o conjunct2 [OF c(2)]]
      same_empty [OF conjunct1 [OF c(1)] assms(2) conjunct2 [OF c(1)]] by blast
  moreover have "key_cmp (cf_seq cf) (key_copy e) (key_copy e) \<noteq> GT" using comp_order.cmp_refl [OF o conjunct1 [OF c(2)]] by simp
  ultimately show ?thesis
    using Block_make_ok [of cf e Block_none] assms(1) c
    by (auto simp: block_ok_def set_prev_key_end_def in_block_def configured_def Block_make_def)
qed


lemma set_key_end_ok:
  assumes b: "block_ok cf b" and s: "cf_seq cf \<noteq> UNKNOWN" and none: "m_cells (bk_cells b) = []"
    and e: "key_rep e" "\<not> key_empty e" and le: "\<not> key_empty (bk_key_end b)" "key_cmp (cf_seq cf) (bk_key_end b) e \<noteq> LT"
  shows "block_ok cf (blk_set_key_end e b)"
proof -
  note o = key_order [OF s] and c = key_copy_same [OF e(1)] and r = block_rep [OF b]
  have rep: "key_rep (bk_prev_end b)" "key_rep (bk_key_end b)" using r by simp_all
  have "key_empty (bk_prev_end b) \<or> key_cmp (cf_seq cf) (bk_prev_end b) (bk_key_end b) = GT"
    using b le(1) r by (auto simp: block_ok_def in_block_def)
  moreover have "key_cmp (cf_seq cf) (bk_key_end b) e = GT \<or> same_key (bk_key_end b) e"
    using comp_order.not_LT_iff [OF o rep(2) e(1)] le(2) by simp
  ultimately have "key_empty (bk_prev_end b) \<or> key_cmp (cf_seq cf) (bk_prev_end b) e = GT"
    using comp_order.cmp_trans [OF o rep e(1)] comp_order.cmp_same_right [OF o rep e(1)] by blast
  then have "key_empty (bk_prev_end b) \<or> key_cmp (cf_seq cf) (bk_prev_end b) (key_copy e) = GT"
    using comp_order.cmp_same_right [OF o rep(1) e(1) conjunct1 [OF c]] comp_order.same_sym [OF o conjunct2 [OF c]] by blast
  moreover have "key_cmp (cf_seq cf) (key_copy e) (key_copy e) \<noteq> GT" using comp_order.cmp_refl [OF o conjunct1 [OF c]] by simp
  ultimately show ?thesis using b c none r by (auto simp: block_ok_def blk_set_key_end_def in_block_def)
qed

lemma init_on_ok:
  assumes "cf_seq cf \<noteq> UNKNOWN" and "block_ok cf b" and "m_cells (bk_cells b) = []" and "\<not> key_empty (bk_key_end b)"
    and "store_order cf ivs" and "ivs = [] \<or> key_cmp (cf_seq cf) (bk_key_end b) (iv_begin (hd ivs)) \<noteq> LT"
  shows "\<exists>bs. init_on cf b ivs = Inr bs \<and> chain_ok cf bs \<and> bs \<noteq> [] \<and> bk_prev_end (hd bs) = bk_prev_end b \<and>
    m_cells (bk_cells (last bs)) = [] \<and>
    bk_key_end (last bs) = (if ivs = [] then bk_key_end b else key_copy (iv_end (last ivs)))"
  using assms(2-)
proof (induction ivs arbitrary: b)
  case Nil
  then show ?case by (simp add: chain_ok_def)
next
  case (Cons iv ivs)
  note o = key_order [OF assms(1)] and r = block_rep [OF Cons.prems(1)]
  have iv: "key_rep (iv_begin iv)" "key_rep (iv_end iv)" "\<not> key_empty (iv_end iv)" "key_cmp (cf_seq cf) (iv_begin iv) (iv_end iv) \<noteq> LT"
    and rest: "store_order cf ivs" "ivs = [] \<or> key_cmp (cf_seq cf) (iv_end iv) (iv_begin (hd ivs)) \<noteq> LT"
    using Cons.prems(4) by (auto simp: store_order_def successively_Cons)
  have le: "key_cmp (cf_seq cf) (bk_key_end b) (iv_begin iv) \<noteq> LT" using Cons.prems(5) by simp
  have cond: "cond_key_end b (iv_begin iv) = Inr (key_cmp (cf_seq cf) (bk_key_end b) (iv_begin iv))"
    using key_compare_Inr r iv(1) by (simp add: cond_key_end_def)
  note c = key_copy_same [OF iv(2)]
  have onward: "ivs = [] \<or> key_cmp (cf_seq cf) (key_copy (iv_end iv)) (iv_begin (hd ivs)) \<noteq> LT"
  proof (cases ivs)
    case (Cons jv jvs)
    then have "key_rep (iv_begin jv)" using rest(1) by (simp add: store_order_def)
    then show ?thesis
      using Cons rest(2) comp_order.not_LT_trans [OF o conjunct1 [OF c] iv(2), of "iv_begin jv"]
        comp_order.not_LT_iff [OF o conjunct1 [OF c] iv(2)] c by simp
  qed simp
  show ?case
  proof (cases "key_cmp (cf_seq cf) (bk_key_end b) (iv_begin iv) = EQ")
    case True
    have "key_cmp (cf_seq cf) (bk_key_end b) (iv_end iv) \<noteq> LT"
      using comp_order.not_LT_trans [OF o _ iv(1,2) le iv(4)] r by simp
    then have "block_ok cf (blk_set_key_end (iv_end iv) b)"
      using set_key_end_ok [OF Cons.prems(1) assms(1) Cons.prems(2) iv(2,3) Cons.prems(3)] by simp
    moreover have "\<not> key_empty (key_copy (iv_end iv))" using same_empty [OF conjunct1 [OF c] iv(2)] c iv(3) by blast
    ultimately show ?thesis
      using Cons.IH [of "blk_set_key_end (iv_end iv) b"] Cons.prems(2) rest(1) onward cond True
      by (auto simp: blk_set_key_end_def)
  next
    case False
    let ?d = "set_prev_key_end (bk_key_end b) (Block_make cf (iv_end iv) Block_none)"
    have "key_cmp (cf_seq cf) (bk_key_end b) (iv_begin iv) = GT"
      using le False comp_order.cmp_three [OF o _ iv(1)] r by blast
    moreover have "key_cmp (cf_seq cf) (iv_begin iv) (iv_end iv) = GT \<or> same_key (iv_begin iv) (iv_end iv)"
      using comp_order.not_LT_iff [OF o iv(1,2)] iv(4) by simp
    ultimately have "key_cmp (cf_seq cf) (bk_key_end b) (iv_end iv) = GT"
      using comp_order.cmp_trans [OF o _ iv(1,2)] comp_order.cmp_same_right [OF o _ iv(1,2)] r by blast
    then have d: "block_ok cf ?d" using new_block_ok [OF assms(1) _ iv(2,3)] r by simp
    have "\<not> key_empty (bk_key_end ?d)" using same_empty [OF conjunct1 [OF c] iv(2)] c iv(3)
      by (simp add: set_prev_key_end_def Block_make_def)
    then obtain bs where bs: "init_on cf ?d ivs = Inr bs" "chain_ok cf bs" "bs \<noteq> []" "bk_prev_end (hd bs) = bk_prev_end ?d"
      "m_cells (bk_cells (last bs)) = []" "bk_key_end (last bs) = (if ivs = [] then bk_key_end ?d else key_copy (iv_end (last ivs)))"
      using Cons.IH [OF d _ _ rest(1)] onward by (auto simp: set_prev_key_end_def Block_make_def Mutable_new_def)
    have "follows b (hd bs)" using Cons.prems(3) key_copy_same [of "bk_key_end b"] r bs(4) comp_order.same_sym [OF o]
      by (auto simp: follows_def set_prev_key_end_def)
    then have "chain_ok cf (b # bs)" using Cons.prems(1) bs(2,3) by (cases bs) (auto simp: chain_ok_def)
    then show ?thesis using cond False bs by (auto simp: set_prev_key_end_def Block_make_def)
  qed
qed

lemma init_blocks_ok:
  assumes s: "cf_seq cf \<noteq> UNKNOWN" and ivs: "store_order cf ivs" "ivs \<noteq> []"
    and p: "key_rep p" "key_empty p \<or> key_cmp (cf_seq cf) p (iv_end (hd ivs)) = GT"
  shows "\<exists>bs. init_blocks cf p any_end ivs = Inr bs \<and> chain_ok cf bs \<and> bs \<noteq> [] \<and> bk_prev_end (hd bs) = key_copy p \<and>
    (if any_end then key_empty (bk_key_end (last bs)) else bk_key_end (last bs) = key_copy (iv_end (last ivs)))"
proof -
  obtain iv jvs where iv: "ivs = iv # jvs" using ivs(2) by (cases ivs) auto
  let ?b = "set_prev_key_end p (Block_make cf (iv_end iv) Block_none)"
  note o = key_order [OF s]
  have e: "key_rep (iv_end iv)" "\<not> key_empty (iv_end iv)" using ivs(1) iv by (simp_all add: store_order_def)
  note c = key_copy_same [OF e(1)]
  have b: "block_ok cf ?b" using new_block_ok [OF s p(1) e] p(2) iv by simp
  have ne: "\<not> key_empty (bk_key_end ?b)" using same_empty [OF conjunct1 [OF c] e(1)] c e(2)
    by (simp add: set_prev_key_end_def Block_make_def)
  have "jvs = [] \<or> key_cmp (cf_seq cf) (bk_key_end ?b) (iv_begin (hd jvs)) \<noteq> LT"
  proof (cases jvs)
    case (Cons jv ks)
    then have "key_rep (iv_begin jv)" "key_cmp (cf_seq cf) (iv_end iv) (iv_begin jv) \<noteq> LT"
      using ivs(1) iv by (simp_all add: store_order_def)
    then show ?thesis
      using Cons comp_order.not_LT_trans [OF o conjunct1 [OF c] e(1), of "iv_begin jv"]
        comp_order.not_LT_iff [OF o conjunct1 [OF c] e(1)] c by (simp add: set_prev_key_end_def Block_make_def)
  qed simp
  moreover have "store_order cf jvs" using ivs(1) iv by (auto simp: store_order_def successively_Cons)
  ultimately obtain bs where bs: "init_on cf ?b jvs = Inr bs" "chain_ok cf bs" "bs \<noteq> []" "bk_prev_end (hd bs) = key_copy p"
    "m_cells (bk_cells (last bs)) = []" "bk_key_end (last bs) = (if jvs = [] then bk_key_end ?b else key_copy (iv_end (last jvs)))"
    using init_on_ok [OF s b _ ne, of jvs] by (auto simp: set_prev_key_end_def Block_make_def Mutable_new_def)
  have last: "bk_key_end (last bs) = key_copy (iv_end (last ivs))"
    using bs(6) iv by (simp add: set_prev_key_end_def Block_make_def)
  show ?thesis
  proof (cases any_end)
    case False
    then show ?thesis using bs last iv by (simp add: init_blocks_def)
  next
    case True
    let ?l = "free_key_end (last bs)"
    have l: "block_ok cf (last bs)" using bs(2,3) by (simp add: chain_ok_def list_all_iff)
    obtain own fs where fs: "bk_key_end (last bs) = key_of own fs" using block_rep [OF l] by (auto elim: key_repE)
    have free: "key_free (bk_key_end (last bs)) = key_of own []" by (simp add: fs key_free_def key_of_def)
    have "fits []" by (simp add: fits_def encoded_length_vi24_def max_vb_defs)
    then have k: "key_rep (bk_key_end ?l)" by (simp add: free_key_end_def free)
    have k: "key_rep (bk_key_end ?l)" "key_empty (bk_key_end ?l)"
      using k by (simp, simp add: free_key_end_def key_free_def key_empty_def)
    have "block_ok cf ?l" using l k bs(5) by (auto simp: block_ok_def free_key_end_def in_block_def)
    moreover have "follows b ?l = follows b (last bs)" for b by (simp add: follows_def free_key_end_def)
    moreover have "bs = butlast bs @ [last bs]" using bs(3) by simp
    then have "list_all (block_ok cf) (butlast bs)" "successively follows (butlast bs @ [last bs])"
      using bs(2) unfolding chain_ok_def by (metis list_all_append, metis)
    ultimately have "chain_ok cf (butlast bs @ [?l])" by (auto simp: chain_ok_def successively_append_iff)
    moreover have "bk_prev_end (hd (butlast bs @ [?l])) = key_copy p"
      using bs(3,4) by (cases bs) (auto simp: free_key_end_def)
    ultimately show ?thesis using bs(1) iv True k(2) by (simp add: init_blocks_def)
  qed
qed

text \<open>A key of the range lies in one block.\<close>

lemma key_has_block:
  assumes ch: "chain_ok cf bs" and s: "cf_seq cf \<noteq> UNKNOWN" and bs: "bs \<noteq> []" and k: "key_rep k" "\<not> key_empty k"
    and lo: "key_empty (bk_prev_end (hd bs)) \<or> key_cmp (cf_seq cf) (bk_prev_end (hd bs)) k = GT"
    and hi: "key_empty (bk_key_end (last bs)) \<or> key_cmp (cf_seq cf) (bk_key_end (last bs)) k \<noteq> GT"
  shows "\<exists>!j. j < length bs \<and> in_block (bs ! j) k"
proof -
  note o = key_order [OF s]
  have "\<not> behind_end cf k (bs ! (length bs - 1))" using hi bs by (simp add: behind_end_def last_conv_nth)
  then obtain j where j: "\<not> behind_end cf k (bs ! j)" "j < length bs" "\<forall>i < j. behind_end cf k (bs ! i)"
    using exists_least_iff [of "\<lambda>j. \<not> behind_end cf k (bs ! j) \<and> j < length bs"] bs
    by (metis diff_less length_greater_0_conv less_trans zero_less_one)
  note r = block_rep [OF chain_nth(1) [OF ch j(2)]]
  have "key_empty (bk_prev_end (bs ! j)) \<or> key_cmp (cf_seq cf) (bk_prev_end (bs ! j)) k = GT"
  proof (cases j)
    case 0
    then show ?thesis using lo bs by (simp add: hd_conv_nth)
  next
    case (Suc i)
    have "follows (bs ! i) (bs ! j)" "i < length bs" using chain_nth(2) [OF ch, of i] Suc j(2) by simp_all
    then show ?thesis
      using j(3) Suc comp_order.cmp_same_left [OF o _ _ k(1), of "bk_prev_end (bs ! j)" "bk_key_end (bs ! i)"]
        block_rep [OF chain_nth(1) [OF ch, of i]] r comp_order.same_sym [OF o] by (auto simp: follows_def behind_end_def)
  qed
  then have "in_block (bs ! j) k" using j(1) r by (auto simp: in_block_def behind_end_def)
  then show ?thesis using j(2) block_unique [OF ch s k] by blast
qed


section \<open>Properties\<close>

lemma steps_keep:
  assumes "(blocks_step cf)\<^sup>*\<^sup>* bs bs'" and "chain_ok cf bs" and "plain_cfg cf"
  shows "chain_ok cf bs' \<and> spans bs bs'"
  using assms(1)
proof (induction rule: rtranclp_induct)
  case base
  then show ?case using assms(2) by (simp add: spans_def)
next
  case (step bs1 bs2)
  then show ?case using step_keeps [OF step.hyps(2) _ assms(3)] by (auto simp: spans_def)
qed

text \<open>C10: Whatever happens to the blocks of a range that were made from its cell stores - cells that come in, blocks that
  are asked for, loaded with cells of cell stores and of the log, split while they grow, released - each key
  of the range lies in exactly one of them; a block's cells lie in its interval, sorted and with exact counters, and
  each block begins where the one before ends.\<close>

theorem every_key_has_one_block:
  assumes "plain_cfg cf" and "store_order cf ivs" and "ivs \<noteq> []"
    and "key_rep p" and "key_empty p \<or> key_cmp (cf_seq cf) p (iv_end (hd ivs)) = GT"
    and "init_blocks cf p any_end ivs = Inr bs" and "(blocks_step cf)\<^sup>*\<^sup>* bs bs'"
    and "key_rep k" and "\<not> key_empty k" and "key_empty p \<or> key_cmp (cf_seq cf) p k = GT"
    and "any_end \<or> key_cmp (cf_seq cf) (iv_end (last ivs)) k \<noteq> GT"
  shows "chain_ok cf bs' \<and> (\<exists>!j. j < length bs' \<and> in_block (bs' ! j) k)"
proof -
  have s: "cf_seq cf \<noteq> UNKNOWN" using assms(1) by (simp add: plain_cfg_def)
  note o = key_order [OF s]
  have init: "chain_ok cf bs" "bs \<noteq> []" "bk_prev_end (hd bs) = key_copy p"
    "if any_end then key_empty (bk_key_end (last bs)) else bk_key_end (last bs) = key_copy (iv_end (last ivs))"
    using init_blocks_ok [OF s assms(2-5), of any_end] assms(6) by auto
  have kept: "chain_ok cf bs'" "bs' \<noteq> []" "bk_prev_end (hd bs') = key_copy p" "bk_key_end (last bs') = bk_key_end (last bs)"
    using steps_keep [OF assms(7) init(1) assms(1)] init(2,3) by (auto simp: spans_def)
  note c = key_copy_same [OF assms(4)]
  have lo: "key_empty (bk_prev_end (hd bs')) \<or> key_cmp (cf_seq cf) (bk_prev_end (hd bs')) k = GT"
    using assms(10) kept(3) c same_empty [OF conjunct1 [OF c] assms(4) conjunct2 [OF c]]
      comp_order.cmp_same_left [OF o conjunct1 [OF c] assms(4,8) _ conjunct2 [OF c]] by auto
  have "key_rep (iv_end (last ivs))" using assms(2,3) by (simp add: store_order_def)
  note e = this key_copy_same [OF this]
  have hi: "key_empty (bk_key_end (last bs')) \<or> key_cmp (cf_seq cf) (bk_key_end (last bs')) k \<noteq> GT"
    using assms(11) init(4) kept(4) e comp_order.cmp_same_left [OF o e(1) _ assms(8), of "key_copy (iv_end (last ivs))"]
      comp_order.same_sym [OF o] by (auto split: if_splits)
  show ?thesis using kept(1) key_has_block [OF kept(1) s kept(2) assms(8,9) lo hi] by blast
qed

definition small_cfg :: range_cfg where
  "small_cfg = \<lparr>cf_seq = LEXIC, cf_type = Col_PLAIN, cf_versions = 1, cf_ttl = 0, cf_block_cells = 1, cf_block_size = 1000\<rparr>"

definition calm :: world where
  "calm = \<lparr>w_now = 0, w_need_ram = (\<lambda>m. False), w_vectors = (\<lambda>cs. if cs = [] then [] else [length cs]), w_lock = True\<rparr>"

definition from_to :: "bytes \<Rightarrow> bytes \<Rightarrow> interval" where
  "from_to a b = (Interval_new LEXIC)\<lparr>iv_begin := key_of True [a], iv_end := key_of True [b]\<rparr>"

lemma small_ok: "plain_cfg small_cfg" "world_ok calm" "cf_seq small_cfg = LEXIC"
  by (simp_all add: plain_cfg_def small_cfg_def world_ok_def calm_def)

theorem every_key_has_one_block_witness:
  "\<exists>bs bs'. init_blocks small_cfg Key_new True [from_to [97] [98], from_to [99] [100]] = Inr bs \<and>
    (blocks_step small_cfg)\<^sup>*\<^sup>* bs bs' \<and> bk_state (hd bs') = Block_loaded \<and>
    (\<exists>!j. j < length bs' \<and> in_block (bs' ! j) (key_of True [[98], [1]]))"
proof -
  let ?ivs = "[from_to [97] [98], from_to [99] [100]]" and ?k = "key_of True [[98], [1]]"
  have f: "fits [[97]]" "fits [[98]]" "fits [[99]]" "fits [[100]]" "fits [[98], [1]]"
    by (simp_all add: fits_def encoded_length_vi24_def max_vb_defs)
  have ne: "\<not> key_empty (key_of True (x # xs))" if "fits (x # xs)" for x xs
    using of_nat24_eq_0 [of "length (x # xs)"] fits_bounds(1) [OF that] by (simp add: key_empty_def key_of_def)
  have order: "store_order small_cfg ?ivs"
    using f ne by (simp add: store_order_def from_to_def small_ok(3) condition_lexic_def)
  have s: "cf_seq small_cfg \<noteq> UNKNOWN" by (simp add: small_ok(3))
  obtain b bs where bs: "init_blocks small_cfg Key_new True ?ivs = Inr (b # bs)" "chain_ok small_cfg (b # bs)"
    using init_blocks_ok [OF s order _ key_rep_new(1), of True] by (auto simp: neq_Nil_conv)
  let ?r = "block_request b"
  have "bk_state b = Block_none" "m_cells (bk_cells b) = []"
    using bs(1) f by (auto simp: init_blocks_def from_to_def set_prev_key_end_def Block_make_def Mutable_new_def free_key_end_def
      cond_key_end_def key_compare_Inr blk_set_key_end_def split: if_splits)
  then have r: "bk_state ?r = Block_loading" "m_cells (bk_cells ?r) = []" by (simp_all add: block_request_def)
  have step1: "blocks_step small_cfg (b # bs) (?r # bs)" using step_request [of small_cfg "[]" b bs] by simp
  then have ok: "chain_ok small_cfg (?r # bs)" using step_keeps bs(2) small_ok(1) by blast
  have log: "list_all (log_ok small_cfg) [keyed [[97], [98], [99]]]"
    using keyed_ok f ne by (simp add: log_ok_def searchable_def small_ok(3))
  have room: "length (m_cells (bk_cells ?r)) + sum_list (map (\<lambda>v. length (m_cells v)) [keyed [[97], [98], [99]]]) < 2 ^ 64"
    by (simp add: r(2))
  have "block_ok small_cfg ?r" using ok by (simp add: chain_ok_def)
  then obtain d ds where d: "load_final calm small_cfg [keyed [[97], [98], [99]]] ?r = Some (Inr (d # ds))" "bk_state d = Block_loaded"
    using load_final_ok [OF small_ok(1,2) _ _ log room] r(1) by auto
  have step2: "blocks_step small_cfg (?r # bs) (d # ds @ bs)"
    using step_final [OF small_ok(2) r(1) log room d(1), of "[]" bs] by simp
  have steps: "(blocks_step small_cfg)\<^sup>*\<^sup>* (b # bs) (d # ds @ bs)" using step1 step2 by simp
  have "\<exists>!j. j < length (d # ds @ bs) \<and> in_block ((d # ds @ bs) ! j) ?k"
    using every_key_has_one_block [OF small_ok(1) order _ key_rep_new(1) _ bs(1) steps key_rep_of [OF f(5)] ne [OF f(5)]] by simp
  then show ?thesis using bs(1) steps d(2) by (intro exI [of _ "b # bs"] exI [of _ "d # ds @ bs"]) simp
qed

text \<open>C13: A cell that is logged for a range goes to the one block its key lies in, found by the search and the walk from
  there; the block takes it, and may be split by it, while all other blocks stay what they are.\<close>

theorem logged_cell_finds_block:
  assumes "chain_ok cf bs" and "plain_cfg cf" and "world_ok w" and "j < length bs" and "cell_for (bs ! j) c"
    and "length (m_cells (bk_cells (bs ! j))) + 1 < 2 ^ 64"
  shows "\<exists>bl. blocks_add_logged w cf c bs = Some (Inr (take j bs @ bl @ drop (Suc j) bs)) \<and>
    block_add_logged w cf c (bs ! j) = Some (Inr (True, bl)) \<and> chain_ok cf (take j bs @ bl @ drop (Suc j) bs)"
proof -
  obtain bl where bl: "blocks_add_logged w cf c bs = Some (Inr (take j bs @ bl @ drop (Suc j) bs))" "replaces cf (bs ! j) bl"
    "block_add_logged w cf c (bs ! j) = Some (Inr (True, bl))" using add_logged_block [OF assms] by blast
  have "bs = take j bs @ bs ! j # drop (Suc j) bs" using assms(4) by (rule id_take_nth_drop)
  then have "chain_ok cf (take j bs @ bl @ drop (Suc j) bs)" using chain_replace [OF _ bl(2)] assms(1) by metis
  then show ?thesis using bl by blast
qed

text \<open>Two loaded blocks with three cells, for the examples.\<close>

definition keyed_block :: "key \<Rightarrow> bytes list \<Rightarrow> key \<Rightarrow> block" where
  "keyed_block p ks e = \<lparr>bk_cells = keyed ks, bk_split_rev = 0, bk_prev_end = p, bk_key_end = e, bk_processing = 0,
     bk_state = Block_loaded\<rparr>"

definition two_blocks :: "block list" where
  "two_blocks = [keyed_block Key_new [[97], [98]] (key_of True [[98]]), keyed_block (key_of True [[98]]) [[99]] Key_new]"

lemma small_fits: "fits [[97]]" "fits [[98]]" "fits [[99]]"
  by (simp_all add: fits_def encoded_length_vi24_def max_vb_defs)

lemma key_of_nonempty: "fits (x # xs) \<Longrightarrow> \<not> key_empty (key_of own (x # xs))"
  using of_nat24_eq_0 [of "length (x # xs)"] fits_bounds(1) [of "x # xs"] by (simp add: key_empty_def key_of_def)

lemma two_blocks_ok: "chain_ok small_cfg two_blocks"
proof -
  note ok = plain_cell_ok [OF small_fits(1), of "[]" 1] plain_cell_ok [OF small_fits(2), of "[]" 1]
    plain_cell_ok [OF small_fits(3), of "[]" 1]
  have "cells_sorted LEXIC (map (\<lambda>k. plain_cell [k] [] 1) [[97], [98]])"
    using small_fits by (simp add: cells_sorted_def cle_def condition_lexic_def)
  then have "container_ok (keyed [[97], [98]])" "container_ok (keyed [[99]])"
    using ok unfolding container_ok_def keyed_simps keyed_def add_sorted_all
    by (simp_all add: Mutable_new_def cells_sorted_def)
  moreover have "configured small_cfg (keyed ks)" for ks by (simp add: configured_def small_cfg_def)
  ultimately show ?thesis using small_fits key_rep_of [OF small_fits(2)] key_of_nonempty
    by (simp add: two_blocks_def keyed_block_def chain_ok_def block_ok_def in_block_def follows_def condition_lexic_def)
qed

theorem logged_cell_finds_block_witness:
  "\<exists>bl. blocks_add_logged calm small_cfg (plain_cell [[99], [1]] [] 2) two_blocks = Some (Inr (hd two_blocks # bl)) \<and>
    chain_ok small_cfg (hd two_blocks # bl)"
proof -
  let ?c = "plain_cell [[99], [1]] [] 2" and ?b = "two_blocks ! 1"
  have f: "fits [[99], [1]]" by (simp add: fits_def encoded_length_vi24_def max_vb_defs)
  have b: "1 < length two_blocks" "take 1 two_blocks = [hd two_blocks]" "drop (Suc 1) two_blocks = []"
    "m_cells (bk_cells ?b) = [plain_cell [[99]] [] 1]" by (simp_all add: two_blocks_def keyed_block_def)
  have c: "cell_for ?b ?c" using plain_cell_ok [OF f, of "[]" 2] small_fits f key_of_nonempty [OF f]
    by (simp add: cell_for_def two_blocks_def keyed_block_def in_block_def condition_lexic_def)
  have "length (m_cells (bk_cells ?b)) + 1 < 2 ^ 64" unfolding b(4) by simp
  from logged_cell_finds_block [OF two_blocks_ok small_ok(1,2) b(1) c this] show ?thesis unfolding b(2,3) by auto
qed

text \<open>Why keys must not be empty: a block split behind a cell with an empty key ends nowhere, so that both blocks are
  for all keys.\<close>

definition empty_first :: block where
  "empty_first = (Block_make small_cfg Key_new Block_loaded)\<lparr>bk_cells :=
     fold (\<lambda>c m. add_sorted m c) [plain_cell [] [] 1, plain_cell [[97]] [] 1] (Mutable_new LEXIC 1 0 Col_PLAIN)\<rparr>"

lemma empty_key_splits_wrong:
  "case block_split calm small_cfg True empty_first of
     Some (b1, b2) \<Rightarrow> blk_is_in_end b1 (key_of True [[97]]) = Inr True \<and> blk_is_in_end b2 (key_of True [[97]]) = Inr True \<and>
       map c_key (m_cells (bk_cells b2)) = [key_of True [[97]]]
   | None \<Rightarrow> False"
  by code_simp

end
