(* ===== verification/Range_Scan.thy ===== *)
theory Range_Scan
  imports Range_Chain
begin

text \<open>
  Scans over the blocks of a range: the blocks that are left out hold nothing that is wanted, and going from
  block to block answers as the scan of one container with all the cells would.
\<close>

section \<open>Receivers with limits\<close>

text \<open>What the blocks rely on beside: a receiver takes more until its limits are reached, and those do not depend on
  what was skipped or is still to be left out.\<close>

locale limited_receiver = receiver add for add :: "'r req_scan \<Rightarrow> cell \<Rightarrow> 'r req_scan \<times> bool" +
  fixes lim :: "'r req_scan \<Rightarrow> bool"
  assumes add_limit: "snd (add rq c) \<longleftrightarrow> \<not> lim (fst (add rq c))"
    and lim_skipped: "lim (rq\<lparr>rq_skipped := k\<rparr>) = lim rq"
    and lim_offset: "lim (rq\<lparr>rq_offset := n\<rparr>) = lim rq"
begin

lemma deliver_append:
  assumes "\<not> lim rq"
  shows "deliver add rq (xs @ ys) = (if lim (deliver add rq xs) then deliver add rq xs else deliver add (deliver add rq xs) ys)"
  using assms
proof (induction xs arbitrary: rq)
  case (Cons x xs)
  obtain rq' go where a: "add rq x = (rq', go)" by force
  then have "go \<longleftrightarrow> \<not> lim rq'" using add_limit [of rq x] by simp
  then show ?case using Cons a by simp
qed simp

text \<open>Cells that come in two parts.\<close>

lemma outcome_append:
  assumes "\<not> lim rq"
  shows "lim (outcome add rq xs k) \<Longrightarrow> outcome add rq (xs @ ys) k = outcome add rq xs k"
    and "\<not> lim (outcome add rq xs j) \<Longrightarrow> outcome add (outcome add rq xs j) ys k = outcome add rq (xs @ ys) k"
proof -
  define n where "n = unat (rq_offset rq)"
  let ?r = "\<lambda>m. rq\<lparr>rq_offset := of_nat m\<rparr>"
  have l: "\<not> lim (?r m)" for m using assms by (simp add: lim_offset)
  have out: "outcome add rq cs j = (deliver add (?r (n - length cs)) (drop n cs))\<lparr>rq_skipped := j\<rparr>" for cs j
    by (simp add: outcome_def n_def Let_def)
  have small: "unat (of_nat (n - m) :: u64) = n - m" for m
    using unsigned_less [of "rq_offset rq", where ?'a = nat] by (intro unat_of_nat64) (simp add: n_def)
  show "outcome add rq (xs @ ys) k = outcome add rq xs k" if "lim (outcome add rq xs k)"
  proof -
    have d: "lim (deliver add (?r (n - length xs)) (drop n xs))" using that by (simp add: out lim_skipped)
    then have "drop n xs \<noteq> []" using l by (cases "drop n xs") auto
    then have "n < length xs" by simp
    then show ?thesis using deliver_append [OF l, of "0" "drop n xs" ys] d by (simp add: out)
  qed
  show "outcome add (outcome add rq xs j) ys k = outcome add rq (xs @ ys) k" if nl: "\<not> lim (outcome add rq xs j)"
  proof (cases "n \<le> length xs")
    case True
    have off: "rq_offset (outcome add rq xs j) = 0" using True deliver_keeps(2) [of "?r 0" "drop n xs"] by (simp add: out)
    have "\<not> lim (deliver add (?r 0) (drop n xs))" using nl True by (simp add: out lim_skipped)
    then have "deliver add (?r 0) (drop n xs @ ys) = deliver add (deliver add (?r 0) (drop n xs)) ys"
      using deliver_append [OF l, of "0" "drop n xs" ys] by simp
    moreover have "outcome add r cs k = (deliver add r cs)\<lparr>rq_skipped := k\<rparr>" if "rq_offset r = 0" for r cs
      using that by (cases r) (simp add: outcome_def Let_def)
    ultimately show ?thesis using True off by (simp add: out deliver_skipped)
  next
    case False
    have "outcome add rq xs j = (?r (n - length xs))\<lparr>rq_skipped := j\<rparr>" using False by (simp add: out)
    moreover have "(deliver add (r\<lparr>rq_skipped := j, rq_offset := m\<rparr>) cs)\<lparr>rq_skipped := k\<rparr> =
        (deliver add (r\<lparr>rq_offset := m\<rparr>) cs)\<lparr>rq_skipped := k\<rparr>" for r m cs
      using deliver_skipped [where rq = "r\<lparr>rq_offset := m\<rparr>" and k = j and cs = cs] by (cases r) simp
    ultimately show ?thesis using False small [of "length xs"]
      by (simp add: out) (simp add: outcome_def Let_def add.commute)
  qed
qed

end

interpretation limited_select: limited_receiver select_add select_reached_limits
  by unfold_locales (simp_all add: select_add_def Let_def select_reached_limits_def)

interpretation limited_test: limited_receiver test_add test_reached_limits
  by unfold_locales (simp_all add: test_add_def Let_def test_reached_limits_def)

section \<open>The blocks left out\<close>

lemma upto_begin:
  "[] \<notin> set bs \<Longrightarrow> upto_compare cond True (length bs) bs gs = LT \<longleftrightarrow> frac_compare cond bs gs = LT"
proof (induction cond bs gs rule: frac_compare.induct)
  case (4 cond b bs g gs)
  then show ?case by (auto simp: upto_compare_rec)
qed (simp_all add: upto_compare_def)

lemma begin_ok_order:
  assumes "s = LEXIC \<or> s = VOLUME" and "[] \<notin> set bs"
  shows "begin_ok s bs gs \<longleftrightarrow> bs = [] \<or> seq_compare s bs gs \<noteq> LT"
  using assms upto_begin [OF assms(2), of "seq_condition s" gs] seq_compare_cases [of s bs gs]
  by (auto simp: begin_ok_def counts_first_def seq_upto_def)

text \<open>Once a key is behind the begin, every later one is.\<close>

lemma begin_ok_later:
  assumes "s = LEXIC \<or> s = VOLUME" and "[] \<notin> set bs" and "begin_ok s bs gs" and "seq_compare s gs hs \<noteq> LT"
  shows "begin_ok s bs hs"
proof -
  have "s \<noteq> UNKNOWN" using assms(1) by auto
  from comp_order.not_LT_trans [OF seq_compare_order [OF this], of bs gs hs] show ?thesis
    using assms(3,4) by (auto simp: begin_ok_order [OF assms(1,2)])
qed

lemma past_end_ext: "past_end cond False es gs \<Longrightarrow> past_end cond True es gs"
  by (induction cond False es gs rule: past_end.induct) auto

lemma is_in_previous_of:
  assumes "s = LEXIC \<or> s = VOLUME" and "si_end si = key_of oe es" and "fits es" and "fits gs"
  shows "is_in_previous s si (key_of og gs) = Inr (end_ok s (has_opt OPT_RANGE_END_REST si) False es gs)"
  using assms(1,4) fits_bounds(1) [OF assms(3)] fits_bounds(1) [OF assms(4)]
  by (auto simp: is_in_previous_def Let_def assms(2) key_empty_def of_nat24_is_0 assms(3) end_ok_def
    seq_upto_def counts_first_def compare_opt_lexic_def compare_opt_volume_def
    compare_opt_any [OF assms(3)] unat24_length)

text \<open>A key before one that is within the end is not past it.\<close>

lemma end_ok_earlier:
  assumes "s = LEXIC \<or> s = VOLUME" and "end_ok s rest same es hs" and "seq_compare s gs hs = GT"
  shows "end_ok s rest False es gs"
proof (rule ccontr)
  assume no: "\<not> end_ok s rest False es gs"
  have s: "s \<noteq> UNKNOWN" "\<not> counts_first s" using assms(1) by (auto simp: counts_first_def)
  have "\<not> end_ok s rest False es hs" using end_ok_later [OF s(1) assms(3) no] s(2) by simp
  then show False using assms(2) past_end_ext [of "seq_condition s" es hs] unfolding end_ok_past [OF s]
    by (cases rest; cases same) auto
qed

text \<open>A scan whose search agrees with its matching, on a range.\<close>

definition scan_fits :: "range_cfg \<Rightarrow> scan_interval \<Rightarrow> bool" where
  "scan_fits cf si \<longleftrightarrow> plain_cfg cf \<and> cf_versions cf = 1 \<and> (cf_seq cf = LEXIC \<or> cf_seq cf = VOLUME) \<and>
     key_rep (si_offset_key si) \<and> key_rep (si_end si) \<and> (\<exists>own bs. fits bs \<and> [] \<notin> set bs \<and> si_begin si = key_of own bs)"

lemma scan_fits_container: "scan_fits cf si \<Longrightarrow> container_ok m \<Longrightarrow> configured cf m \<Longrightarrow> scannable m si \<and> m_max_revs m = 1"
  by (auto simp: scan_fits_def configured_def plain_cfg_def scannable_def searchable_def)

text \<open>Whether a cell is wanted does not depend on the container it is in.\<close>

definition wanted_in :: "(bytes \<Rightarrow> bytes \<Rightarrow> bool) \<Rightarrow> ld \<Rightarrow> libs \<Rightarrow> i64 \<Rightarrow> range_cfg \<Rightarrow> scan_interval \<Rightarrow> cell \<Rightarrow> bool" where
  "wanted_in rx ld lb now cf si = wanted rx ld lb now (Mutable_new (cf_seq cf) (cf_versions cf) (cf_ttl cf) (cf_type cf)) si"

lemma wanted_configured: "configured cf m \<Longrightarrow> wanted rx ld lb now m si = wanted_in rx ld lb now cf si"
  by (simp add: fun_eq_iff wanted_def wanted_in_def configured_def passed_over_def Mutable_new_def)

lemma wanted_in_matches:
  assumes "wanted_in rx ld lb now cf si c"
  shows "matching_offset (cf_seq cf) si (c_key c) (c_timestamp c) (is_time_order_desc c) = Inr True"
    and "is_matching_begin (cf_seq cf) si (c_key c) = Inr True" and "is_matching_end (cf_seq cf) si (c_key c) = Inr True"
  using wantedD [OF assms [unfolded wanted_in_def]] by (simp_all add: Mutable_new_def)

lemma key_before_begin:
  assumes "scan_fits cf si" and "key_rep k" and "\<not> key_empty (si_begin si)" and "key_cmp (cf_seq cf) k (si_begin si) = GT"
  shows "is_matching_begin (cf_seq cf) si k = Inr False"
proof -
  obtain own bs where b: "fits bs" "[] \<notin> set bs" "si_begin si = key_of own bs" using assms(1) by (auto simp: scan_fits_def)
  obtain o2 gs where g: "fits gs" "k = key_of o2 gs" using assms(2) by (auto elim: key_repE)
  have s: "cf_seq cf = LEXIC \<or> cf_seq cf = VOLUME" "cf_seq cf \<noteq> UNKNOWN" using assms(1) by (auto simp: scan_fits_def)
  have "\<not> begin_ok (cf_seq cf) bs gs" using begin_not_ok [OF s(1) b(2)] assms(4) b g by simp
  then show ?thesis using is_matching_begin_of [OF s(2) b(3,1) g(1)] g(2) by simp
qed

text \<open>A block that holds a wanted cell is scanned.\<close>

lemma is_next_returns:
  assumes si: "scan_fits cf si" and b: "block_ok cf b"
  shows "\<exists>nx. is_next b si = Inr nx \<and> (\<forall>c \<in> set (m_cells (bk_cells b)). wanted_in rx ld lb now cf si c \<longrightarrow> nx)"
proof -
  have s: "cf_seq cf = LEXIC \<or> cf_seq cf = VOLUME" "cf_seq cf \<noteq> UNKNOWN" using si by (auto simp: scan_fits_def)
  note o = key_order [OF s(2)] and r = block_rep [OF b]
  have rep: "key_rep (bk_prev_end b)" "key_rep (bk_key_end b)" "key_rep (si_offset_key si)" "key_rep (si_end si)"
    using r si by (auto simp: scan_fits_def)
  obtain own bs where bs: "fits bs" "[] \<notin> set bs" "si_begin si = key_of own bs" using si by (auto simp: scan_fits_def)
  obtain o1 ps o2 es o3 ks where fs: "fits ps" "bk_prev_end b = key_of o1 ps" "fits es" "si_end si = key_of o2 es"
    "fits ks" "bk_key_end b = key_of o3 ks" using rep by (auto elim!: key_repE)
  let ?rest = "has_opt OPT_RANGE_END_REST si"
  define p1 where "p1 \<longleftrightarrow> key_empty (bk_prev_end b) \<or> end_ok (cf_seq cf) ?rest False es ps"
  define p2 where "p2 \<longleftrightarrow> key_empty (si_offset_key si) \<or> \<not> behind_end cf (si_offset_key si) b"
  define p3 where "p3 \<longleftrightarrow> key_empty (bk_key_end b) \<or> begin_ok (cf_seq cf) bs ks"
  have e1: "includes_end b si = Inr p1"
    using is_in_previous_of [OF s(1) fs(4,3,1)] r fs(2) by (simp add: includes_end_def p1_def)
  have e2: "(if key_empty (si_offset_key si) then Inr True else blk_is_in_end b (si_offset_key si)) = Inr p2"
    using is_in_end_behind [OF b rep(3)] by (simp add: p2_def)
  have e3: "includes_begin b si = Inr p3"
    using is_matching_begin_of [OF s(2) bs(3,1) fs(5)] r fs(6) by (simp add: includes_begin_def p3_def)
  have nx: "is_next b si = Inr (p1 \<and> p2 \<and> p3)" by (simp add: is_next_def e1 e2 e3)
  have "p1 \<and> p2 \<and> p3" if c: "c \<in> set (m_cells (bk_cells b))" and w: "wanted_in rx ld lb now cf si c" for c
  proof -
    have "cell_ok c" using c b by (simp add: block_ok_def container_ok_def list_all_iff)
    then have kc: "key_rep (c_key c)" by (simp add: cell_ok_def)
    obtain oc gs where g: "fits gs" "c_key c = key_of oc gs" using kc by (auto elim: key_repE)
    have inb: "in_block b (c_key c)" using b c by (simp add: block_ok_def)
    then have lo: "key_empty (bk_prev_end b) \<or> key_cmp (cf_seq cf) (bk_prev_end b) (c_key c) = GT"
      and hi: "key_empty (bk_key_end b) \<or> key_cmp (cf_seq cf) (bk_key_end b) (c_key c) \<noteq> GT"
      using r by (simp_all add: in_block_def)
    note wd = wanted_in_matches [OF w]
    have "end_ok (cf_seq cf) ?rest (has_opt OPT_KEY_EQUAL si) es gs"
      using wd(3) is_matching_end_of [OF s(2) fs(4,3) g(1)] g(2) by simp
    then have p1 using lo end_ok_earlier [OF s(1), of ?rest "has_opt OPT_KEY_EQUAL si" es gs ps] fs(1,2) g by (auto simp: p1_def)
    moreover have p2
    proof (rule ccontr)
      assume "\<not> p2"
      then have ne: "\<not> key_empty (si_offset_key si)" "\<not> key_empty (bk_key_end b)"
        and gt: "key_cmp (cf_seq cf) (bk_key_end b) (si_offset_key si) = GT" by (auto simp: p2_def behind_end_def)
      have "key_cmp (cf_seq cf) (c_key c) (bk_key_end b) \<noteq> LT"
        using hi ne(2) comp_order.cmp_swap [OF o rep(2) kc] by simp
      then have "key_cmp (cf_seq cf) (c_key c) (si_offset_key si) = GT"
        using gt comp_order.not_LT_iff [OF o kc rep(2)] comp_order.cmp_trans [OF o kc rep(2,3)]
          comp_order.cmp_same_left [OF o kc rep(2,3)] by blast
      from before_offset_key [OF s(2) rep(3) kc ne(1) this] show False using wd(1) by simp
    qed
    moreover have p3
    proof (cases "key_empty (bk_key_end b)")
      case False
      have "key_cmp (cf_seq cf) (c_key c) (bk_key_end b) \<noteq> LT"
        using hi False comp_order.cmp_swap [OF o rep(2) kc] by simp
      then have "seq_compare (cf_seq cf) gs ks \<noteq> LT" using fs(5,6) g by simp
      moreover have "begin_ok (cf_seq cf) bs gs" using wd(2) is_matching_begin_of [OF s(2) bs(3,1) g(1)] g(2) by simp
      ultimately show ?thesis using begin_ok_later [OF s(1) bs(2)] by (simp add: p3_def)
    qed (simp add: p3_def)
    ultimately show ?thesis by blast
  qed
  then show ?thesis using nx by blast
qed

text \<open>A block before the place where the scan begins holds nothing that is wanted.\<close>

lemma wanted_not_before:
  assumes si: "scan_fits cf si" and b: "block_ok cf b" and k: "key_rep k" and be: "behind_end cf k b"
    and at: "k = si_offset_key si \<and> \<not> key_empty k \<or> k = si_begin si \<and> \<not> key_empty k"
    and c: "c \<in> set (m_cells (bk_cells b))"
  shows "\<not> wanted_in rx ld lb now cf si c"
proof
  assume w: "wanted_in rx ld lb now cf si c"
  have s: "cf_seq cf \<noteq> UNKNOWN" and of: "key_rep (si_offset_key si)" using si by (auto simp: scan_fits_def)
  note o = key_order [OF s] and r = block_rep [OF b]
  have "cell_ok c" using c b by (simp add: block_ok_def container_ok_def list_all_iff)
  then have kc: "key_rep (c_key c)" by (simp add: cell_ok_def)
  have e: "\<not> key_empty (bk_key_end b)" "key_cmp (cf_seq cf) (bk_key_end b) k = GT" using be by (simp_all add: behind_end_def)
  have "key_cmp (cf_seq cf) (bk_key_end b) (c_key c) \<noteq> GT" using b c r e(1) by (auto simp: block_ok_def in_block_def)
  then have "key_cmp (cf_seq cf) (c_key c) (bk_key_end b) \<noteq> LT" using comp_order.cmp_swap [OF o] r kc by auto
  then have gt: "key_cmp (cf_seq cf) (c_key c) k = GT"
    using e(2) comp_order.not_LT_iff [OF o kc] comp_order.cmp_trans [OF o kc _ k] comp_order.cmp_same_left [OF o kc _ k] r by blast
  show False
    using at gt wanted_in_matches [OF w] before_offset_key [OF s of kc] key_before_begin [OF si kc] by auto
qed

section \<open>From block to block\<close>

definition wanted_of :: "(bytes \<Rightarrow> bytes \<Rightarrow> bool) \<Rightarrow> ld \<Rightarrow> libs \<Rightarrow> i64 \<Rightarrow> range_cfg \<Rightarrow> scan_interval \<Rightarrow> block list \<Rightarrow> cell list" where
  "wanted_of rx ld lb now cf si bs = filter (wanted_in rx ld lb now cf si) (concat (map (\<lambda>b. m_cells (bk_cells b)) bs))"

lemma wanted_of_simps [simp]:
  "wanted_of rx ld lb now cf si [] = []"
  "wanted_of rx ld lb now cf si (b # bs) =
    filter (wanted_in rx ld lb now cf si) (m_cells (bk_cells b)) @ wanted_of rx ld lb now cf si bs"
  "wanted_of rx ld lb now cf si (bs @ bs') = wanted_of rx ld lb now cf si bs @ wanted_of rx ld lb now cf si bs'"
  by (simp_all add: wanted_of_def)

definition blocks_answered :: "(bytes \<Rightarrow> bytes \<Rightarrow> bool) \<Rightarrow> ld \<Rightarrow> libs \<Rightarrow> i64 \<Rightarrow> scan_interval \<Rightarrow> block list \<Rightarrow> bool" where
  "blocks_answered rx ld lb now si bs \<longleftrightarrow> list_all (\<lambda>b. answered rx ld lb now (bk_cells b) si) bs"

text \<open>What a scan comes to: an answer with all that is wanted, or a block that has to be loaded first, with all that
  is wanted before it.\<close>

definition comes_to where
  "comes_to add lim W i bs rq r \<longleftrightarrow> (\<exists>k. r = Some (Inr (Answered (outcome add rq (W bs) k))) \<or>
     (\<exists>j < length bs. bk_state (bs ! j) \<noteq> Block_loaded \<and>
       r = Some (Inr (Waits (i + j) (outcome add rq (W (take j bs)) k))) \<and> \<not> lim (outcome add rq (W (take j bs)) k)))"

lemma comes_to_Cons:
  assumes "comes_to add lim W (Suc i) bs rq' r" and "\<And>ds k. outcome add rq' (W ds) k = outcome add rq (W (b # ds)) k"
  shows "comes_to add lim W i (b # bs) rq r"
proof -
  obtain k where "r = Some (Inr (Answered (outcome add rq' (W bs) k))) \<or> (\<exists>j < length bs. bk_state (bs ! j) \<noteq> Block_loaded \<and>
      r = Some (Inr (Waits (Suc i + j) (outcome add rq' (W (take j bs)) k))) \<and> \<not> lim (outcome add rq' (W (take j bs)) k))"
    using assms(1) unfolding comes_to_def by blast
  then show ?thesis
  proof (elim disjE exE conjE)
    fix j assume "j < length bs" "bk_state (bs ! j) \<noteq> Block_loaded"
      "r = Some (Inr (Waits (Suc i + j) (outcome add rq' (W (take j bs)) k)))" "\<not> lim (outcome add rq' (W (take j bs)) k)"
    then show ?thesis using assms(2) unfolding comes_to_def by (intro exI [of _ k] disjI2 exI [of _ "Suc j"]) simp
  qed (use assms(2) in \<open>auto simp: comes_to_def\<close>)
qed

context limited_receiver
begin

lemma outcome_spec: "rq_spec (outcome add rq cs k) = rq_spec rq"
  by (simp add: outcome_def Let_def deliver_keeps)

lemma block_delivers:
  assumes "scan_fits cf si" and "block_ok cf b" and "answered rx ld lb now (bk_cells b) si" and "rq_spec rq = si"
  shows "\<exists>k. m_scan now (bk_cells b) (selector rx ld lb (m_seq (bk_cells b))) add rq =
    Some (Inr (outcome add rq (wanted_of rx ld lb now cf si [b]) k))"
proof -
  have c: "configured cf (bk_cells b)" "container_ok (bk_cells b)" "length (m_cells (bk_cells b)) < 2 ^ 64"
    using assms(2) by (simp_all add: block_ok_def)
  show ?thesis
    using scan_delivers [OF _ _ c(3) assms(3,4)] scan_fits_container [OF assms(1) c(2,1)] wanted_configured [OF c(1), of rx ld lb now si]
    by (simp add: wanted_of_def)
qed

lemma scan_on_gives:
  assumes si: "scan_fits cf si" and "list_all (block_ok cf) bs" and "blocks_answered rx ld lb now si bs"
    and "rq_spec rq = si" and "\<not> lim rq"
  shows "comes_to add lim (wanted_of rx ld lb now cf si) i bs rq (scan_on now rx ld lb add lim i bs rq)"
  using assms(2-)
proof (induction bs arbitrary: i rq)
  case Nil
  then show ?case by (auto simp: comes_to_def outcome_none intro!: exI [of _ "rq_skipped rq"])
next
  case (Cons b bs)
  let ?W = "wanted_of rx ld lb now cf si"
  have b: "block_ok cf b" "answered rx ld lb now (bk_cells b) si" and bs: "list_all (block_ok cf) bs" "blocks_answered rx ld lb now si bs"
    using Cons.prems(1,2) by (simp_all add: blocks_answered_def)
  obtain nx where nx: "is_next b si = Inr nx" "\<forall>c \<in> set (m_cells (bk_cells b)). wanted_in rx ld lb now cf si c \<longrightarrow> nx"
    using is_next_returns [OF si b(1)] by blast
  consider "\<not> nx" | "nx" "bk_state b \<noteq> Block_loaded" | "nx" "bk_state b = Block_loaded" by blast
  then show ?case
  proof cases
    case 1
    then have "?W [b] = []" using nx(2) by (simp add: filter_empty_conv)
    then show ?thesis using nx(1) 1 Cons.prems(3) comes_to_Cons [OF Cons.IH [OF bs Cons.prems(3,4), of "Suc i"]] by simp
  next
    case 2
    then show ?thesis using nx(1) Cons.prems(3,4) unfolding comes_to_def
      by (intro exI [of _ "rq_skipped rq"] disjI2 exI [of _ 0]) (simp add: outcome_none)
  next
    case 3
    obtain k where k: "m_scan now (bk_cells b) (selector rx ld lb (m_seq (bk_cells b))) add rq = Some (Inr (outcome add rq (?W [b]) k))"
      using block_delivers [OF si b Cons.prems(3)] by blast
    let ?rq = "outcome add rq (?W [b]) k"
    show ?thesis
    proof (cases "lim ?rq")
      case True
      then show ?thesis using k 3 nx(1) Cons.prems(3) outcome_append(1) [OF Cons.prems(4), of "?W [b]" k "?W bs"]
        by (auto simp: comes_to_def intro!: exI [of _ k])
    next
      case False
      have "rq_spec ?rq = si" using Cons.prems(3) by (simp add: outcome_spec)
      from comes_to_Cons [OF Cons.IH [OF bs this False, of "Suc i"], where b = b and rq = rq] show ?thesis
        using outcome_append(2) [OF Cons.prems(4) False] k 3 nx(1) Cons.prems(3) False by simp
    qed
  qed
qed

lemma nothing_before:
  assumes si: "scan_fits cf si" and ch: "chain_ok cf bs" and ne: "bs \<noteq> []"
  shows "\<exists>i < length bs. blocks_narrow bs (if key_empty (si_offset_key si) then si_begin si else si_offset_key si) = Inr i \<and>
    wanted_of rx ld lb now cf si (take i bs) = []"
proof -
  let ?k = "if key_empty (si_offset_key si) then si_begin si else si_offset_key si"
  have s: "cf_seq cf \<noteq> UNKNOWN" and k: "key_rep ?k" using si by (auto simp: scan_fits_def)
  obtain i where i: "i < length bs" "blocks_narrow bs ?k = Inr i" "\<forall>l < i. behind_end cf ?k (bs ! l)" "key_empty ?k \<longrightarrow> i = 0"
    using blocks_narrow_place [OF ch s ne k] by blast
  have "\<not> wanted_in rx ld lb now cf si c" if l: "l < i" "c \<in> set (m_cells (bk_cells (bs ! l)))" for l c
    using wanted_not_before [OF si chain_nth(1) [OF ch] k _ _ l(2)] i l(1) by (auto split: if_splits)
  moreover have "\<exists>l < i. b = bs ! l" if "b \<in> set (take i bs)" for b using that i(1) by (auto simp: in_set_conv_nth)
  ultimately have "wanted_of rx ld lb now cf si (take i bs) = []" unfolding wanted_of_def filter_empty_conv by fastforce
  then show ?thesis using i by blast
qed

text \<open>The same from the place on that the search finds.\<close>

lemma blocks_scan_gives:
  assumes "scan_fits cf (rq_spec rq)" and "chain_ok cf bs" and "blocks_answered rx ld lb now (rq_spec rq) bs" and "\<not> lim rq"
  shows "comes_to add lim (wanted_of rx ld lb now cf (rq_spec rq)) 0 bs rq (blocks_scan now rx ld lb add lim bs rq)"
proof (cases "bs = []")
  case True
  then show ?thesis by (auto simp: comes_to_def blocks_scan_def blocks_narrow_def outcome_none intro!: exI [of _ "rq_skipped rq"])
next
  case False
  let ?W = "wanted_of rx ld lb now cf (rq_spec rq)"
  obtain i where i: "i < length bs" "?W (take i bs) = []"
    "blocks_narrow bs (if key_empty (si_offset_key (rq_spec rq)) then si_begin (rq_spec rq) else si_offset_key (rq_spec rq)) = Inr i"
    using nothing_before [OF assms(1,2) False] by blast
  have "list_all (block_ok cf) (drop i bs)" "blocks_answered rx ld lb now (rq_spec rq) (drop i bs)"
    using assms(2,3) by (auto simp: chain_ok_def blocks_answered_def list_all_iff dest: in_set_dropD)
  note g = scan_on_gives [OF assms(1) this refl assms(4), of i]
  have all: "?W bs = ?W (drop i bs)" and up: "?W (take (i + j) bs) = ?W (take j (drop i bs))" for j
    using i(2) wanted_of_simps(3) [of rx ld lb now cf "rq_spec rq" "take i bs"] by (metis append_Nil append_take_drop_id, simp add: take_add)
  have "blocks_scan now rx ld lb add lim bs rq = scan_on now rx ld lb add lim i (drop i bs) rq"
    unfolding blocks_scan_def i(3) by simp
  then show ?thesis using g i(1) unfolding comes_to_def
    by (elim exE disjE conjE) (auto simp: all up [symmetric] less_diff_conv add.commute)
qed

end

section \<open>The cells of a chain in one container\<close>

definition merged :: "range_cfg \<Rightarrow> block list \<Rightarrow> mutable" where
  "merged cf bs = fold (\<lambda>c m. add_sorted m c) (concat (map (\<lambda>b. m_cells (bk_cells b)) bs))
     (Mutable_new (cf_seq cf) (cf_versions cf) (cf_ttl cf) (cf_type cf))"

lemma merged_simps [simp]:
  "m_cells (merged cf bs) = concat (map (\<lambda>b. m_cells (bk_cells b)) bs)" "m_seq (merged cf bs) = cf_seq cf"
  "configured cf (merged cf bs)"
  unfolding merged_def add_sorted_all by (simp_all add: Mutable_new_def configured_def add_sorted_all)

lemma chain_cells_sorted:
  assumes "chain_ok cf bs" and "cf_seq cf \<noteq> UNKNOWN"
  shows "cells_sorted (cf_seq cf) (concat (map (\<lambda>b. m_cells (bk_cells b)) bs))"
  using assms(1)
proof (induction bs)
  case (Cons b bs)
  have b: "block_ok cf b" and ch: "chain_ok cf bs" using Cons.prems by (auto simp: chain_ok_def successively_Cons)
  note o = key_order [OF assms(2)]
  have "cle (cf_seq cf) c d" if c: "c \<in> set (m_cells (bk_cells b))" and d: "d \<in> set (m_cells (bk_cells e))" and e: "e \<in> set bs" for c d e
  proof -
    obtain j where j: "j < length bs" "e = bs ! j" using e by (auto simp: in_set_conv_nth)
    have eo: "block_ok cf e" using chain_nth(1) [OF ch j(1)] j(2) by simp
    have rep: "key_rep (c_key c)" "key_rep (c_key d)" "key_rep (bk_key_end b)"
      using b eo c d by (auto simp: block_ok_def container_ok_def list_all_iff cell_ok_def)
    have "in_block e (c_key d)" using eo d by (simp add: block_ok_def)
    then have "key_empty (bk_prev_end e) \<or> key_cmp (cf_seq cf) (bk_prev_end e) (c_key d) = GT"
      using block_rep [OF eo] by (simp add: in_block_def)
    then have gt: "\<not> key_empty (bk_key_end b)" "key_cmp (cf_seq cf) (bk_key_end b) (c_key d) = GT"
      using ends_before [OF Cons.prems assms(2) rep(2), of 0 "Suc j"] j by simp_all
    have "in_block b (c_key c)" using b c by (simp add: block_ok_def)
    then have "key_cmp (cf_seq cf) (bk_key_end b) (c_key c) \<noteq> GT" using gt(1) block_rep [OF b] by (simp add: in_block_def)
    then have "key_cmp (cf_seq cf) (c_key c) (bk_key_end b) \<noteq> LT" using comp_order.cmp_swap [OF o rep(3,1)] by simp
    then show ?thesis
      using gt(2) comp_order.not_LT_trans [OF o rep(1,3,2)] by (simp add: cle_def)
  qed
  moreover have "cells_sorted (cf_seq cf) (m_cells (bk_cells b))" using b block_rep [OF b] by (simp add: block_ok_def container_ok_def)
  ultimately show ?case using Cons.IH [OF ch] by (auto simp: cells_sorted_def sorted_wrt_append)
qed (simp add: cells_sorted_def)

lemma merged_ok:
  assumes "chain_ok cf bs" and "cf_seq cf \<noteq> UNKNOWN"
  shows "container_ok (merged cf bs)"
proof -
  have "list_all cell_ok (concat (map (\<lambda>b. m_cells (bk_cells b)) bs))"
    using assms(1) by (auto simp: chain_ok_def block_ok_def container_ok_def list_all_iff)
  then show ?thesis using chain_cells_sorted [OF assms] assms(2)
    unfolding container_ok_def merged_simps(1,2) by (simp add: merged_def add_sorted_all Mutable_new_def)
qed

lemma answered_merged: "chain_ok cf bs \<Longrightarrow> blocks_answered rx ld lb now si bs \<Longrightarrow> answered rx ld lb now (merged cf bs) si"
  unfolding blocks_answered_def answered_def merged_simps
  by (auto simp: chain_ok_def block_ok_def configured_def list_all_iff passed_over_def merged_def add_sorted_all Mutable_new_def)

section \<open>Properties\<close>

lemma merged_answers:
  assumes "scan_fits cf (rq_spec rq)" and "chain_ok cf bs" and "blocks_answered rx ld lb now (rq_spec rq) bs"
    and "length (m_cells (merged cf bs)) < 2 ^ 64"
  shows "\<exists>k. m_scan now (merged cf bs) (selector rx ld lb (cf_seq cf)) select_add rq =
    Some (Inr (outcome select_add rq (wanted_of rx ld lb now cf (rq_spec rq) bs) k))"
proof -
  have "cf_seq cf \<noteq> UNKNOWN" using assms(1) by (auto simp: scan_fits_def)
  note fit = scan_fits_container [OF assms(1) merged_ok [OF assms(2) this] merged_simps(3)]
  show ?thesis
    using selecting.scan_delivers [OF _ _ assms(4) answered_merged [OF assms(2,3)] refl] fit
    by (auto simp: wanted_of_def wanted_configured [OF merged_simps(3)])
qed

text \<open>C11: In a column of one version and of no counter type, in the sequences \<open>LEXIC\<close> and \<open>VOLUME\<close> (\<open>scan_fits\<close>, which also
  asks for a begin of the specification without empty fractions and for well encoded keys), a scan that goes from block
  to block of a loaded range - from a place found by halving steps, passing over blocks by their ends only, stopping
  where the limits of the request are reached - answers what the scan of one container that holds all cells
  of the range answers, but for the count of skipped cells. Matching is to fail for no cell that is not passed over.
  It does not hold in the sequences that count fractions: there a key outside of the end stops the scan of its
  container (\<open>fc_end_stops_early\<close>), which is all of them in one container and one block in a chain.\<close>

theorem scan_blocks_as_one:
  assumes "scan_fits cf (rq_spec rq)" and "chain_ok cf bs" and "list_all (\<lambda>b. bk_state b = Block_loaded) bs"
    and "blocks_answered rx ld lb now (rq_spec rq) bs" and "\<not> select_reached_limits rq"
    and "length (m_cells (merged cf bs)) < 2 ^ 64"
  shows "\<exists>rq1 k. blocks_scan now rx ld lb select_add select_reached_limits bs rq = Some (Inr (Answered rq1)) \<and>
    m_scan now (merged cf bs) (selector rx ld lb (cf_seq cf)) select_add rq = Some (Inr (rq1\<lparr>rq_skipped := k\<rparr>))"
proof -
  have "bk_state (bs ! j) = Block_loaded" if "j < length bs" for j using assms(3) that by (simp add: list_all_length)
  then obtain k where "blocks_scan now rx ld lb select_add select_reached_limits bs rq =
      Some (Inr (Answered (outcome select_add rq (wanted_of rx ld lb now cf (rq_spec rq) bs) k)))"
    using limited_select.blocks_scan_gives [OF assms(1,2,4,5)] unfolding comes_to_def by blast
  moreover obtain l where "m_scan now (merged cf bs) (selector rx ld lb (cf_seq cf)) select_add rq =
      Some (Inr (outcome select_add rq (wanted_of rx ld lb now cf (rq_spec rq) bs) l))"
    using merged_answers [OF assms(1,2,4,6)] by blast
  ultimately show ?thesis by (auto simp: outcome_def Let_def intro!: exI [of _ l])
qed

definition from_b_on :: "u64 \<Rightarrow> scan_interval" where
  "from_b_on n = from_b\<lparr>si_flags := Flags_new\<lparr>f_limit := 1, f_offset := n\<rparr>\<rparr>"

lemma from_b_on_parts:
  "scan_fits small_cfg (from_b_on n)" "\<not> select_reached_limits (ReqScan_of (from_b_on n) st)"
  "only_begin [[98]] (from_b_on n)" "rq_spec (ReqScan_of (from_b_on n) st) = from_b_on n"
proof -
  show o: "only_begin [[98]] (from_b_on n)"
    by (auto simp: only_begin_def from_b_on_def from_b_def Scan_new_def Values_new_def Timestamp_new_def)
  show "scan_fits small_cfg (from_b_on n)" using small_fits(2) small_ok(1)
    by (auto simp: scan_fits_def from_b_on_def from_b_def Scan_new_def small_cfg_def intro!: exI [of _ True] exI [of _ "[[98]]"])
  show "\<not> select_reached_limits (ReqScan_of (from_b_on n) st)" "rq_spec (ReqScan_of (from_b_on n) st) = from_b_on n"
    by (simp_all add: select_reached_limits_def ReqScan_of_def from_b_on_def from_b_def Scan_new_def Flags_new_def)
qed

lemma small_answered:
  assumes "only_begin [[98]] si" and "set ks \<subseteq> {[97], [98], [99]}"
  shows "answered rx ld lb now (keyed ks) si"
proof -
  have f: "fits [k]" if "k \<in> set ks" for k using assms(2) that small_fits by auto
  have "scan_matching rx ld lb LEXIC si (plain_cell [k] [] 1) False = Inr (begin_ok LEXIC [[98]] [k], False)" if "k \<in> set ks" for k
    using only_begin_matching [OF assms(1) _ small_fits(2) f [OF that], of LEXIC "plain_cell [k] [] 1"] by simp
  then show ?thesis by (auto simp: answered_def list_all_iff)
qed

theorem scan_blocks_as_one_witness:
  "\<forall>rx ld lb. \<exists>rq1 k. blocks_scan 0 rx ld lb select_add select_reached_limits two_blocks (ReqScan_of (from_b_on 0) []) =
      Some (Inr (Answered rq1)) \<and>
    m_scan 0 (merged small_cfg two_blocks) (selector rx ld lb LEXIC) select_add (ReqScan_of (from_b_on 0) []) =
      Some (Inr (rq1\<lparr>rq_skipped := k\<rparr>))"
proof (intro allI)
  fix rx ld lb
  note p = from_b_on_parts [of 0]
  have b: "list_all (\<lambda>b. bk_state b = Block_loaded) two_blocks" "blocks_answered rx ld lb 0 (from_b_on 0) two_blocks"
    using small_answered [OF p(3)] by (simp_all add: two_blocks_def keyed_block_def blocks_answered_def)
  have len: "length (m_cells (merged small_cfg two_blocks)) < 2 ^ 64" by (simp add: two_blocks_def keyed_block_def)
  from scan_blocks_as_one [OF _ two_blocks_ok b(1) _ p(2) len] b(2) p(1)
  show "\<exists>rq1 k. blocks_scan 0 rx ld lb select_add select_reached_limits two_blocks (ReqScan_of (from_b_on 0) []) =
      Some (Inr (Answered rq1)) \<and>
    m_scan 0 (merged small_cfg two_blocks) (selector rx ld lb LEXIC) select_add (ReqScan_of (from_b_on 0) []) =
      Some (Inr (rq1\<lparr>rq_skipped := k\<rparr>))"
    unfolding p(4) small_ok(3) by blast
qed

text \<open>C12: In a column of one version and of no counter type, in the sequences \<open>LEXIC\<close> and \<open>VOLUME\<close> (\<open>scan_fits\<close>, as for the scan
  without a wait), a scan that comes to a block that is not loaded waits there; when it goes on, with the blocks in front
  as they were and with that block and those behind it loaded, and by then perhaps split, its answer is the one that
  the scan of all their cells in one container gives, but for the count of skipped cells: what was gathered before
  the wait is neither lost nor given twice. In the sequences that count fractions this fails, as without a wait.\<close>

theorem waiting_scan_goes_on:
  assumes "scan_fits cf (rq_spec rq)" and "\<not> select_reached_limits rq"
    and "chain_ok cf bs" and "blocks_answered rx ld lb now (rq_spec rq) bs"
    and "blocks_scan now rx ld lb select_add select_reached_limits bs rq = Some (Inr (Waits j rq1))"
    and "chain_ok cf bs'" and "blocks_answered rx ld lb now (rq_spec rq) bs'"
    and "take j bs' = take j bs" and "j < length bs'" and "list_all (\<lambda>b. bk_state b = Block_loaded) (drop j bs')"
    and "length (m_cells (merged cf bs')) < 2 ^ 64"
  shows "j < length bs \<and> bk_state (bs ! j) \<noteq> Block_loaded \<and>
    (\<exists>rq2 k. blocks_resume now rx ld lb select_add select_reached_limits bs' j rq1 = Some (Inr (Answered rq2)) \<and>
      m_scan now (merged cf bs') (selector rx ld lb (cf_seq cf)) select_add rq = Some (Inr (rq2\<lparr>rq_skipped := k\<rparr>)))"
proof -
  let ?W = "wanted_of rx ld lb now cf (rq_spec rq)" and ?lim = select_reached_limits and ?b = "bs' ! j" and ?ds = "drop (Suc j) bs'"
  let ?out = "\<lambda>rq ds. outcome select_add rq (?W ds)"
  obtain k where k: "j < length bs" "bk_state (bs ! j) \<noteq> Block_loaded" "rq1 = ?out rq (take j bs') k" "\<not> ?lim rq1"
    using limited_select.blocks_scan_gives [OF assms(1,3,4,2)] unfolding comes_to_def assms(5,8) by auto
  have split: "drop j bs' = ?b # ?ds" using assms(9) by (simp add: Cons_nth_drop_Suc)
  have all: "?W bs' = ?W (take j bs') @ ?W (drop j bs')" by (metis append_take_drop_id wanted_of_simps(3))
  have spec: "rq_spec rq1 = rq_spec rq" by (simp add: k(3) limited_select.outcome_spec)
  have on: "?out rq1 ds l = outcome select_add rq (?W (take j bs') @ ?W ds) l" for ds l
    using limited_select.outcome_append(2) [OF assms(2)] k(3,4) by simp
  have b: "block_ok cf ?b" "answered rx ld lb now (bk_cells ?b) (rq_spec rq)" and ds: "list_all (block_ok cf) ?ds"
    "blocks_answered rx ld lb now (rq_spec rq) ?ds" "\<And>i. i < length ?ds \<Longrightarrow> bk_state (?ds ! i) = Block_loaded"
    using assms(6,7,9,10) unfolding split by (auto simp: chain_ok_def blocks_answered_def list_all_length)
  obtain l where l: "m_scan now (bk_cells ?b) (selector rx ld lb (m_seq (bk_cells ?b))) select_add rq1 = Some (Inr (?out rq1 [?b] l))"
    using limited_select.block_delivers [OF assms(1) b spec] by blast
  let ?rq = "?out rq1 [?b] l"
  have "\<exists>h. blocks_resume now rx ld lb select_add ?lim bs' j rq1 = Some (Inr (Answered (?out rq1 (drop j bs') h)))"
  proof (cases "?lim ?rq")
    case True
    then show ?thesis using l limited_select.outcome_append(1) [OF k(4) True, of "?W ?ds"] unfolding split
      by (intro exI [of _ l]) (simp add: blocks_resume_def)
  next
    case False
    have "rq_spec ?rq = rq_spec rq" by (simp add: spec limited_select.outcome_spec)
    from limited_select.scan_on_gives [OF assms(1) ds(1,2) this False, of "Suc j"] ds(3) obtain h where
      "scan_on now rx ld lb select_add ?lim (Suc j) ?ds ?rq = Some (Inr (Answered (?out ?rq ?ds h)))"
      unfolding comes_to_def by blast
    then show ?thesis using l False limited_select.outcome_append(2) [OF k(4) False, of "?W ?ds" h] unfolding split
      by (intro exI [of _ h]) (simp add: blocks_resume_def)
  qed
  then obtain h where "blocks_resume now rx ld lb select_add ?lim bs' j rq1 = Some (Inr (Answered (outcome select_add rq (?W bs') h)))"
    using on [of "drop j bs'"] all by auto
  moreover obtain g where "m_scan now (merged cf bs') (selector rx ld lb (cf_seq cf)) select_add rq = Some (Inr (outcome select_add rq (?W bs') g))"
    using merged_answers [OF assms(1,6,7,11)] by blast
  ultimately show ?thesis using k(1,2) by (auto simp: outcome_def Let_def intro!: exI [of _ g])
qed

text \<open>The second block is still being loaded when the scan comes to it.\<close>

definition one_loading :: "block list" where
  "one_loading = [hd two_blocks, (two_blocks ! 1)\<lparr>bk_cells := keyed [], bk_state := Block_loading\<rparr>]"

lemma one_loading_ok: "chain_ok small_cfg one_loading"
proof -
  have "container_ok (keyed [])" by (simp add: keyed_def Mutable_new_ok)
  moreover have "configured small_cfg (keyed [])" by (simp add: configured_def small_cfg_def)
  ultimately show ?thesis using two_blocks_ok small_fits key_rep_of [OF small_fits(2)] key_of_nonempty
    by (simp add: one_loading_def two_blocks_def keyed_block_def chain_ok_def block_ok_def in_block_def follows_def condition_lexic_def)
qed

lemma one_loading_waits:
  "\<exists>rq1. blocks_scan 0 rx ld lb select_add select_reached_limits one_loading (ReqScan_of (from_b_on 1) []) = Some (Inr (Waits 1 rq1))"
proof -
  note p = from_b_on_parts [of 1]
  let ?si = "from_b_on 1" and ?rq = "ReqScan_of (from_b_on 1) [] :: bytes req_scan"
  define b c where "b = hd one_loading" and "c = one_loading ! 1"
  define W where "W = wanted_of rx ld lb 0 small_cfg ?si [b]"
  have bc: "one_loading = [b, c]" "bk_state b = Block_loaded" "bk_state c \<noteq> Block_loaded"
    and parts: "bk_cells b = keyed [[97], [98]]" "bk_prev_end b = Key_new" "bk_key_end b = key_of True [[98]]" "bk_key_end c = Key_new"
    by (simp_all add: b_def c_def one_loading_def two_blocks_def keyed_block_def)
  obtain own where own: "si_begin ?si = key_of own [[98]]" using p(3) by (auto simp: only_begin_def)
  have si: "key_empty (si_offset_key ?si)" "key_empty (si_end ?si)" "f_limit (si_flags ?si) = 1" "rq_offset ?rq = 1" "rq_cells_count ?rq = 0"
    using p(3) by (simp_all add: only_begin_def from_b_on_def ReqScan_of_def)
  have at: "begin_ok LEXIC [[98]] [[98]]" "\<not> begin_ok LEXIC [[98]] [[97]]"
    by (simp_all add: begin_ok_def counts_first_def seq_upto_def upto_compare_def condition_lexic_def)
  have nb: "is_next b ?si = Inr True"
    using is_matching_begin_of [OF _ own small_fits(2,2), of LEXIC] at si(1)
    by (simp add: is_next_def includes_end_def includes_begin_def parts)
  have nc: "is_next c ?si = Inr True"
    using si(1,2) by (auto simp: is_next_def includes_end_def includes_begin_def parts is_in_previous_def)
  have "block_ok small_cfg b" using one_loading_ok by (simp add: chain_ok_def bc(1))
  moreover have "answered rx ld lb 0 (bk_cells b) ?si" using small_answered [OF p(3)] by (simp add: parts)
  ultimately obtain k where k: "m_scan 0 (bk_cells b) (selector rx ld lb (m_seq (bk_cells b))) select_add ?rq =
      Some (Inr (outcome select_add ?rq W k))"
    using limited_select.block_delivers [OF p(1) _ _ p(4)] unfolding W_def by blast
  have "length W \<le> 1"
    using only_begin_matching [OF p(3) _ small_fits(2,1), of LEXIC "plain_cell [[97]] [] 1"] at
    by (simp add: W_def parts wanted_in_def wanted_def Mutable_new_def small_cfg_def)
  then have nl: "\<not> select_reached_limits (outcome select_add ?rq W k)"
    using si p(4) by (simp add: outcome_def Let_def select_reached_limits_def)
  have spec: "rq_spec (outcome select_add ?rq W k) = ?si" by (simp add: limited_select.outcome_spec p(4))
  have "blocks_scan 0 rx ld lb select_add select_reached_limits one_loading ?rq =
      scan_on 0 rx ld lb select_add select_reached_limits 0 one_loading ?rq"
    by (simp add: blocks_scan_def blocks_narrow_def MAX_IDX_NARROW_def bc(1))
  then show ?thesis using nb nc nl spec k bc(2,3) unfolding bc(1) by (simp add: p(4))
qed

theorem waiting_scan_goes_on_witness:
  "\<forall>rx ld lb. \<exists>rq1 rq2 k.
    blocks_scan 0 rx ld lb select_add select_reached_limits one_loading (ReqScan_of (from_b_on 1) []) = Some (Inr (Waits 1 rq1)) \<and>
    blocks_resume 0 rx ld lb select_add select_reached_limits two_blocks 1 rq1 = Some (Inr (Answered rq2)) \<and>
    m_scan 0 (merged small_cfg two_blocks) (selector rx ld lb LEXIC) select_add (ReqScan_of (from_b_on 1) []) =
      Some (Inr (rq2\<lparr>rq_skipped := k\<rparr>))"
proof (intro allI)
  fix rx ld lb
  let ?rq = "ReqScan_of (from_b_on 1) []"
  note p = from_b_on_parts [of 1]
  obtain rq1 where rq1: "blocks_scan 0 rx ld lb select_add select_reached_limits one_loading ?rq = Some (Inr (Waits 1 rq1))"
    using one_loading_waits by blast
  have a: "blocks_answered rx ld lb 0 (rq_spec ?rq) one_loading" "blocks_answered rx ld lb 0 (rq_spec ?rq) two_blocks"
    unfolding p(4) using small_answered [OF p(3)] by (simp_all add: one_loading_def two_blocks_def keyed_block_def blocks_answered_def)
  have b: "take 1 two_blocks = take 1 one_loading" "1 < length two_blocks"
    "list_all (\<lambda>b. bk_state b = Block_loaded) (drop 1 two_blocks)" "length (m_cells (merged small_cfg two_blocks)) < 2 ^ 64"
    by (simp_all add: one_loading_def two_blocks_def keyed_block_def)
  from waiting_scan_goes_on [OF _ p(2) one_loading_ok a(1) rq1 two_blocks_ok a(2) b] p(1) rq1
  show "\<exists>rq1 rq2 k. blocks_scan 0 rx ld lb select_add select_reached_limits one_loading ?rq = Some (Inr (Waits 1 rq1)) \<and>
    blocks_resume 0 rx ld lb select_add select_reached_limits two_blocks 1 rq1 = Some (Inr (Answered rq2)) \<and>
    m_scan 0 (merged small_cfg two_blocks) (selector rx ld lb LEXIC) select_add ?rq = Some (Inr (rq2\<lparr>rq_skipped := k\<rparr>))"
    unfolding p(4) small_ok(3) by blast
qed

end
