(* ===== verification/Mngr_Ranges.thy ===== *)
theory Mngr_Ranges
  imports Cells_Interval "HOL-Library.AList"
begin

text \<open>
  The ranges and columns a manager takes care of: src/src/cc/include/swcdb/manager/db/Range.h, Column.h and
  Columns.h with Range.cc and Column.cc. Ranges are shared objects, known to their column and to the group
  of those that wait to be assigned: they lie in a store, and a pointer is an address. An operation takes
  the locks the code takes and is one step. Hash maps are lists in the order they are gone through,
  hash sets are sets with \<open>pick\<close> for their first element. Files, logs and the clock are arguments. A weak
  exchange under the lock of the column is one that does not fail for no reason.
\<close>

section \<open>State\<close>

type_synonym endpoint = "bytes \<times> u16"

datatype range_state = Range_notset | Range_deleted | Range_assigned | Range_created | Range_queued | Range_merge

datatype column_state = Column_notset | Column_ok | Column_loading | Column_deleted

record mrange =
  mr_cid :: u64
  mr_seq :: KeySeq
  mr_rid :: u64
  mr_state :: range_state
  mr_check_ts :: i64
  mr_rgrid :: u64
  mr_last :: "endpoint list option"
  mr_begin :: key
  mr_end :: key
  mr_revision :: i64

record mcolumn =
  mc_cid :: u64
  mc_seq :: KeySeq
  mc_ranges :: "nat list"
  mc_state :: column_state
  mc_check_ts :: i64
  mc_schemas :: "(u64 \<times> i64) list"

record mngr =
  mg_store :: "nat \<Rightarrow> mrange"
  mg_next :: nat
  mg_columns :: "(u64 \<times> mcolumn) list"
  mg_need :: "nat \<Rightarrow> nat set"
  mg_health_cid :: u64

definition CID_MASTER_BEGIN :: u64 where "CID_MASTER_BEGIN = 1"
definition CID_MASTER_END :: u64 where "CID_MASTER_END = 4"
definition CID_META_BEGIN :: u64 where "CID_META_BEGIN = 5"
definition CID_META_END :: u64 where "CID_META_END = 8"
definition SYS_RGR_DATA :: u64 where "SYS_RGR_DATA = 9"

definition is_data :: "u64 \<Rightarrow> bool" where "is_data cid \<longleftrightarrow> cid > CID_META_END"

section \<open>A range\<close>

definition Range_new :: "u64 \<Rightarrow> KeySeq \<Rightarrow> u64 \<Rightarrow> mrange" where
  "Range_new cid seq rid = \<lparr>mr_cid = cid, mr_seq = seq, mr_rid = rid, mr_state = Range_notset, mr_check_ts = 0,
     mr_rgrid = 0, mr_last = None, mr_begin = Key_new, mr_end = Key_new, mr_revision = 0\<rparr>"

definition range_assigned_to :: "mrange \<Rightarrow> u64 \<Rightarrow> bool" where
  "range_assigned_to r rgrid \<longleftrightarrow> mr_state r = Range_assigned \<and> mr_rgrid r = rgrid"

definition range_need_health_check :: "i64 \<Rightarrow> u32 \<Rightarrow> u64 \<Rightarrow> mrange \<Rightarrow> mrange \<times> bool" where
  "range_need_health_check ts ms rgrid r =
     (if (mr_state r = Range_assigned \<or> mr_state r = Range_queued) \<and> (rgrid = 0 \<or> mr_rgrid r = rgrid) \<and>
         sint (mr_check_ts r + ucast ms) < sint ts
      then (r\<lparr>mr_check_ts := ts\<rparr>, True) else (r, False))"

definition range_set_state :: "range_state \<Rightarrow> u64 \<Rightarrow> mrange \<Rightarrow> mrange" where
  "range_set_state st rgrid r = r\<lparr>mr_state := st, mr_rgrid := rgrid, mr_revision := 0, mr_check_ts := 0\<rparr>"

definition range_set_assigned :: "i64 \<Rightarrow> u64 \<Rightarrow> i64 \<Rightarrow> mrange \<Rightarrow> mrange" where
  "range_set_assigned ts rgrid revision r =
     r\<lparr>mr_state := Range_assigned, mr_rgrid := rgrid, mr_revision := revision, mr_check_ts := ts, mr_last := None\<rparr>"

definition range_set :: "interval \<Rightarrow> i64 \<Rightarrow> mrange \<Rightarrow> mrange" where
  "range_set iv revision r = r\<lparr>mr_begin := key_copy (iv_begin iv), mr_end := key_copy (iv_end iv), mr_revision := revision\<rparr>"

definition range_get_interval :: "mrange \<Rightarrow> key \<times> key \<times> i64" where
  "range_get_interval r = (key_copy (mr_begin r), key_copy (mr_end r), mr_revision r)"

text \<open>The comparison of the ends is behind the return, and is never made.\<close>

definition range_equal :: "mrange \<Rightarrow> interval \<Rightarrow> bool" where
  "range_equal r iv = key_equal (mr_begin r) (iv_begin iv)"

definition range_includes :: "mrange \<Rightarrow> key \<Rightarrow> key \<Rightarrow> bool res" where
  "range_includes r b e =
     res_bind (if key_empty (mr_begin r) \<or> key_empty e then Inr True
               else res_bind (key_compare (mr_seq r) e (mr_begin r)) (\<lambda>cp. Inr (cp \<noteq> GT)))
       (\<lambda>ok. if \<not> ok then Inr False
             else if key_empty (mr_end r) \<or> key_empty b then Inr True
             else res_bind (key_compare (mr_seq r) b (mr_end r)) (\<lambda>cp. Inr (cp \<noteq> LT)))"

definition range_before :: "mrange \<Rightarrow> key \<Rightarrow> bool res" where
  "range_before r k =
     (if key_empty (mr_end r) then Inr True
      else if key_empty k then Inr False
      else res_bind (key_compare (mr_seq r) k (mr_end r)) (\<lambda>cp. Inr (cp \<noteq> GT)))"

definition range_after :: "mrange \<Rightarrow> mrange \<Rightarrow> bool res" where
  "range_after r other = range_before other (mr_end r)"

section \<open>The groups of ranges to assign\<close>

definition assign_group :: "u64 \<Rightarrow> nat" where
  "assign_group cid = (if cid > SYS_RGR_DATA then 3 else if cid > CID_META_END then 2
     else if cid > CID_MASTER_END then 1 else 0)"

definition upd_range :: "nat \<Rightarrow> (mrange \<Rightarrow> mrange) \<Rightarrow> mngr \<Rightarrow> mngr" where
  "upd_range a f g = g\<lparr>mg_store := (mg_store g)(a := f (mg_store g a))\<rparr>"

definition assign_add :: "nat \<Rightarrow> mngr \<Rightarrow> mngr" where
  "assign_add a g = (let n = assign_group (mr_cid (mg_store g a))
     in g\<lparr>mg_need := (mg_need g)(n := insert a (mg_need g n))\<rparr>)"

definition assign_remove :: "nat \<Rightarrow> mngr \<Rightarrow> mngr" where
  "assign_remove a g = (let n = assign_group (mr_cid (mg_store g a))
     in g\<lparr>mg_need := (mg_need g)(n := mg_need g n - {a})\<rparr>)"

definition assign_remove_cid :: "u64 \<Rightarrow> mngr \<Rightarrow> mngr" where
  "assign_remove_cid cid g = (let n = assign_group cid
     in g\<lparr>mg_need := (mg_need g)(n := {a \<in> mg_need g n. mr_cid (mg_store g a) \<noteq> cid})\<rparr>)"

definition group_get :: "(nat set \<Rightarrow> nat) \<Rightarrow> nat \<Rightarrow> mngr \<Rightarrow> nat option" where
  "group_get pick n g = (if mg_need g n = {} then None else Some (pick (mg_need g n)))"

definition set_state_none :: "nat \<Rightarrow> mngr \<Rightarrow> mngr" where
  "set_state_none a g = assign_add a (upd_range a (range_set_state Range_notset 0) g)"

definition set_deleted :: "nat \<Rightarrow> mngr \<Rightarrow> mngr" where
  "set_deleted a g = upd_range a (\<lambda>r. r\<lparr>mr_state := Range_deleted\<rparr>) (assign_remove a g)"

definition set_state_queued :: "i64 \<Rightarrow> u64 \<Rightarrow> nat \<Rightarrow> mngr \<Rightarrow> mngr" where
  "set_state_queued ts rgrid a g = upd_range a
     (\<lambda>r. r\<lparr>mr_state := Range_queued, mr_rgrid := rgrid, mr_revision := 0, mr_check_ts := ts\<rparr>) (assign_remove a g)"

text \<open>\<open>load\<close> tells which ranger had a range last; it is asked once and kept.\<close>

definition get_last_rgr :: "(u64 \<Rightarrow> u64 \<Rightarrow> endpoint list) \<Rightarrow> nat \<Rightarrow> mngr \<Rightarrow> mngr \<times> endpoint list" where
  "get_last_rgr load a g = (let r = mg_store g a in
     case mr_last r of Some eps \<Rightarrow> (g, eps)
     | None \<Rightarrow> let eps = load (mr_cid r) (mr_rid r) in (upd_range a (\<lambda>r. r\<lparr>mr_last := Some eps\<rparr>) g, eps))"

section \<open>A column\<close>

definition Column_new :: "u64 \<Rightarrow> KeySeq \<Rightarrow> mcolumn" where
  "Column_new cid seq = \<lparr>mc_cid = cid, mc_seq = seq, mc_ranges = [], mc_state = Column_loading, mc_check_ts = 0, mc_schemas = []\<rparr>"

definition add_range :: "u64 \<Rightarrow> mcolumn \<Rightarrow> mngr \<Rightarrow> nat \<times> mcolumn \<times> mngr" where
  "add_range rid c g = (let a = mg_next g in
     (a, c\<lparr>mc_ranges := mc_ranges c @ [a]\<rparr>,
      g\<lparr>mg_store := (mg_store g)(a := Range_new (mc_cid c) (mc_seq c) rid), mg_next := a + 1\<rparr>))"

fun col_init_loop :: "u64 list \<Rightarrow> mcolumn \<Rightarrow> mngr \<Rightarrow> mcolumn \<times> mngr" where
  "col_init_loop [] c g = (c, g)"
| "col_init_loop (rid # rids) c g = (let (a, c, g) = add_range rid c g in col_init_loop rids c (assign_add a g))"

definition col_init :: "u64 list \<Rightarrow> mcolumn \<Rightarrow> mngr \<Rightarrow> mcolumn \<times> mngr" where
  "col_init entries c g = col_init_loop (if entries = [] then [1] else entries) c g"

definition col_set_loading :: "mcolumn \<Rightarrow> mcolumn" where
  "col_set_loading c = (if mc_state c = Column_ok then c\<lparr>mc_state := Column_loading, mc_check_ts := 0\<rparr> else c)"

definition set_unloaded :: "nat \<Rightarrow> mcolumn \<Rightarrow> mngr \<Rightarrow> mcolumn \<times> mngr" where
  "set_unloaded a c g = (col_set_loading c, set_state_none a g)"

definition set_merging :: "nat \<Rightarrow> mcolumn \<Rightarrow> mngr \<Rightarrow> mcolumn \<times> mngr \<times> bool" where
  "set_merging a c g =
     (if mc_state c = Column_deleted then (c, g, False)
      else (c\<lparr>mc_state := Column_loading\<rparr>, upd_range a (range_set_state Range_merge 0) g, True))"

datatype column_error = COLUMN_MARKED_REMOVED | COLUMN_NOT_READY | COLUMN_NOT_EXISTS

definition col_state :: "mcolumn \<Rightarrow> column_error option" where
  "col_state c = (case mc_state c of Column_ok \<Rightarrow> None
     | Column_deleted \<Rightarrow> Some COLUMN_MARKED_REMOVED | _ \<Rightarrow> Some COLUMN_NOT_READY)"

text \<open>Ranges of a ranger: \<open>num\<close> is negated, not counted down, so it only ends the search when it is zero.\<close>

fun col_assigned :: "(nat \<Rightarrow> mrange) \<Rightarrow> u64 \<Rightarrow> u64 \<Rightarrow> nat list \<Rightarrow> nat list" where
  "col_assigned st rgrid num [] = []"
| "col_assigned st rgrid num (a # as) =
     (if range_assigned_to (st a) rgrid
      then a # (if - num = 0 then [] else col_assigned st rgrid num as)
      else col_assigned st rgrid num as)"

definition get_range_rid :: "u64 \<Rightarrow> mcolumn \<Rightarrow> mngr \<Rightarrow> nat option" where
  "get_range_rid rid c g = find (\<lambda>a. mr_rid (mg_store g a) = rid) (mc_ranges c)"

fun get_range_loop :: "(nat \<Rightarrow> mrange) \<Rightarrow> key \<Rightarrow> key \<Rightarrow> bool \<Rightarrow> bool \<Rightarrow> nat list \<Rightarrow> nat option res" where
  "get_range_loop st b e next_range found [] = Inr None"
| "get_range_loop st b e next_range found (a # as) = res_bind (range_includes (st a) b e) (\<lambda>ok.
     if \<not> ok then get_range_loop st b e next_range found as
     else if \<not> next_range then Inr (Some a)
     else if \<not> found then get_range_loop st b e next_range True as
     else Inr (Some a))"

definition get_range :: "key \<Rightarrow> key \<Rightarrow> bool \<Rightarrow> mcolumn \<Rightarrow> mngr \<Rightarrow> nat option res" where
  "get_range b e next_range c g = get_range_loop (mg_store g) b e next_range False (mc_ranges c)"

definition apply_loaded_state :: "i64 \<Rightarrow> mngr \<Rightarrow> mcolumn \<Rightarrow> mcolumn" where
  "apply_loaded_state now g c =
     (if mc_state c = Column_loading \<and> list_all (\<lambda>a. mr_state (mg_store g a) = Range_assigned) (mc_ranges c)
      then c\<lparr>mc_state := Column_ok, mc_check_ts := now\<rparr> else c)"

fun insert_before :: "(nat \<Rightarrow> mrange) \<Rightarrow> nat \<Rightarrow> nat list \<Rightarrow> nat list res" where
  "insert_before st a [] = Inr [a]"
| "insert_before st a (b # bs) = res_bind (range_after (st b) (st a)) (\<lambda>af.
     if af then Inr (a # b # bs) else res_bind (insert_before st a bs) (\<lambda>bs. Inr (b # bs)))"

fun erase_rid :: "(nat \<Rightarrow> mrange) \<Rightarrow> u64 \<Rightarrow> nat list \<Rightarrow> nat list" where
  "erase_rid st rid [] = []"
| "erase_rid st rid (a # as) = (if mr_rid (st a) = rid then as else a # erase_rid st rid as)"

definition col_sort :: "i64 \<Rightarrow> nat \<Rightarrow> interval \<Rightarrow> i64 \<Rightarrow> mcolumn \<Rightarrow> mngr \<Rightarrow> (mcolumn \<times> mngr) res" where
  "col_sort now a iv revision c g =
     (if range_equal (mg_store g a) iv then Inr (apply_loaded_state now g c, g)
      else (let g = upd_range a (range_set iv revision) g; st = mg_store g in
        res_bind (if length (mc_ranges c) > 1 then insert_before st a (erase_rid st (mr_rid (st a)) (mc_ranges c))
                  else Inr (mc_ranges c))
          (\<lambda>as. Inr (apply_loaded_state now g (c\<lparr>mc_ranges := as\<rparr>), g))))"

fun sibling_loop :: "(nat \<Rightarrow> mrange) \<Rightarrow> u64 \<Rightarrow> nat list \<Rightarrow> nat option" where
  "sibling_loop st rid (a # b # as) = (if mr_rid (st b) = rid then Some a else sibling_loop st rid (b # as))"
| "sibling_loop st rid as = None"

definition left_sibling :: "nat \<Rightarrow> mcolumn \<Rightarrow> mngr \<Rightarrow> nat option" where
  "left_sibling right c g = sibling_loop (mg_store g) (mr_rid (mg_store g right)) (mc_ranges c)"

text \<open>The next unused id, or zero when there is none.\<close>

function next_rid :: "u64 list \<Rightarrow> u64 \<Rightarrow> u64" where
  "next_rid rids rid = (let rid = rid + 1 in
     if rid = 0 then 0 else if rid \<notin> set rids then rid else next_rid rids rid)"
  by pat_completeness auto
termination
proof (relation "measure (\<lambda>(rids, rid :: u64). 2 ^ 64 - unat rid)")
  fix rids :: "u64 list" and rid x :: u64
  assume x: "x = rid + 1" "x \<noteq> 0"
  then have "unat x = unat rid + 1" using unatSuc [of rid] by (auto simp: add.commute)
  moreover have "unat rid < 2 ^ 64" using unsigned_less [of rid, where ?'a = nat] by simp
  ultimately show "((rids, x), (rids, rid)) \<in> measure (\<lambda>(rids, rid :: u64). 2 ^ 64 - unat rid)" by simp
qed simp

declare next_rid.simps [simp del]

definition col_next_rid :: "mcolumn \<Rightarrow> mngr \<Rightarrow> u64" where
  "col_next_rid c g = next_rid (map (\<lambda>a. mr_rid (mg_store g a)) (mc_ranges c)) 0"

definition create_new_range :: "u64 \<Rightarrow> mcolumn \<Rightarrow> mngr \<Rightarrow> nat \<times> mcolumn \<times> mngr" where
  "create_new_range rgrid c g = (let (a, c, g) = add_range (col_next_rid c g) c g
     in (a, c, upd_range a (range_set_state Range_created rgrid) g))"

definition col_next_unassigned :: "mcolumn \<Rightarrow> mngr \<Rightarrow> nat option \<times> mcolumn" where
  "col_next_unassigned c g = (case find (\<lambda>a. mr_state (mg_store g a) = Range_notset) (mc_ranges c) of
     None \<Rightarrow> (None, c) | Some a \<Rightarrow> (Some a, col_set_loading c))"

definition remove_rgr_schema :: "u64 \<Rightarrow> mcolumn \<Rightarrow> mcolumn" where
  "remove_rgr_schema rgrid c = c\<lparr>mc_schemas := AList.delete rgrid (mc_schemas c)\<rparr>"

definition change_rgr_schema :: "u64 \<Rightarrow> i64 \<Rightarrow> mcolumn \<Rightarrow> mcolumn" where
  "change_rgr_schema rgrid rv c = c\<lparr>mc_schemas := AList.update rgrid rv (mc_schemas c)\<rparr>"

fun unassign_loop :: "u64 \<Rightarrow> nat list \<Rightarrow> mcolumn \<Rightarrow> mngr \<Rightarrow> mcolumn \<times> mngr" where
  "unassign_loop rgrid [] c g = (c, g)"
| "unassign_loop rgrid (a # as) c g =
     (if mr_rgrid (mg_store g a) = rgrid then unassign_loop rgrid as (col_set_loading c) (set_state_none a g)
      else unassign_loop rgrid as c g)"

definition col_rgr_unassigned :: "u64 \<Rightarrow> mcolumn \<Rightarrow> mngr \<Rightarrow> mcolumn \<times> mngr" where
  "col_rgr_unassigned rgrid c g = (let (c, g) = unassign_loop rgrid (mc_ranges c) c g in (remove_rgr_schema rgrid c, g))"

fun rgrid_loop :: "u64 \<Rightarrow> u64 \<Rightarrow> nat list \<Rightarrow> mngr \<Rightarrow> mngr" where
  "rgrid_loop old rgrid [] g = g"
| "rgrid_loop old rgrid (a # as) g = rgrid_loop old rgrid as
     (if mr_rgrid (mg_store g a) = old then upd_range a (\<lambda>r. r\<lparr>mr_rgrid := rgrid\<rparr>) g else g)"

definition col_change_rgr :: "u64 \<Rightarrow> u64 \<Rightarrow> mcolumn \<Rightarrow> mngr \<Rightarrow> mcolumn \<times> mngr" where
  "col_change_rgr old rgrid c g =
     ((case map_of (mc_schemas c) old of None \<Rightarrow> c
       | Some rv \<Rightarrow> c\<lparr>mc_schemas := AList.update rgrid rv (AList.delete old (mc_schemas c))\<rparr>),
      rgrid_loop old rgrid (mc_ranges c) g)"

definition need_schema_sync_all :: "i64 \<Rightarrow> mcolumn \<Rightarrow> u64 list" where
  "need_schema_sync_all rv c = map fst (filter (\<lambda>(k, v). v \<noteq> rv) (mc_schemas c))"

definition need_schema_sync :: "u64 \<Rightarrow> i64 \<Rightarrow> mcolumn \<Rightarrow> bool" where
  "need_schema_sync rgrid rv c = (case map_of (mc_schemas c) rgrid of Some v \<Rightarrow> rv \<noteq> v | None \<Rightarrow> True)"

fun rgrids_loop :: "(nat \<Rightarrow> mrange) \<Rightarrow> nat list \<Rightarrow> u64 list \<Rightarrow> u64 list" where
  "rgrids_loop st [] rgrids = rgrids"
| "rgrids_loop st (a # as) rgrids = rgrids_loop st as
     (if mr_rgrid (st a) = 0 \<or> mr_rgrid (st a) \<in> set rgrids then rgrids else rgrids @ [mr_rgrid (st a)])"

definition col_need_health_check :: "i64 \<Rightarrow> u32 \<Rightarrow> mcolumn \<Rightarrow> mcolumn \<times> bool" where
  "col_need_health_check ts ms c =
     (if mc_state c = Column_ok \<and> sint (mc_check_ts c + ucast ms) < sint ts then (c\<lparr>mc_check_ts := ts\<rparr>, True) else (c, False))"

fun ranges_need_health_check :: "i64 \<Rightarrow> u32 \<Rightarrow> u64 \<Rightarrow> nat \<Rightarrow> nat list \<Rightarrow> nat list \<Rightarrow> mngr \<Rightarrow> nat list \<times> mngr" where
  "ranges_need_health_check ts ms rgrid mx [] out g = (out, g)"
| "ranges_need_health_check ts ms rgrid mx (a # as) out g =
     (let (r, need) = range_need_health_check ts ms rgrid (mg_store g a); g = upd_range a (\<lambda>_. r) g in
      if \<not> need then ranges_need_health_check ts ms rgrid mx as out g
      else if mx \<noteq> 0 \<and> length out + 1 = mx then (out @ [a], g)
      else ranges_need_health_check ts ms rgrid mx as (out @ [a]) g)"

definition col_remove_range :: "i64 \<Rightarrow> u64 \<Rightarrow> mcolumn \<Rightarrow> mngr \<Rightarrow> mcolumn \<times> mngr" where
  "col_remove_range now rid c g = (case get_range_rid rid c g of None \<Rightarrow> (c, g)
     | Some a \<Rightarrow> let g = set_deleted a g
         in (apply_loaded_state now g (c\<lparr>mc_ranges := erase_rid (mg_store g) rid (mc_ranges c)\<rparr>), g))"

definition do_remove :: "mcolumn \<Rightarrow> mngr \<Rightarrow> mcolumn \<times> mngr \<times> bool" where
  "do_remove c g = (let was = (mc_state c = Column_deleted)
     in (c\<lparr>mc_state := Column_deleted, mc_schemas := []\<rparr>, if was then g else fold set_deleted (mc_ranges c) g, \<not> was))"

definition finalize_remove :: "u64 \<Rightarrow> mcolumn \<Rightarrow> mngr \<Rightarrow> mcolumn \<times> bool" where
  "finalize_remove rgrid c g =
     (let as = (if rgrid = 0 then []
                else filter (\<lambda>a. mr_rgrid (mg_store g a) \<noteq> rgrid \<and> mr_rgrid (mg_store g a) \<noteq> 0) (mc_ranges c))
      in (c\<lparr>mc_ranges := as\<rparr>, as = []))"

section \<open>The columns\<close>

definition mngr_new :: mngr where
  "mngr_new = \<lparr>mg_store = (\<lambda>_. Range_new 0 LEXIC 0), mg_next = 0, mg_columns = [], mg_need = (\<lambda>_. {}), mg_health_cid = 0\<rparr>"

definition columns_reset :: "mngr \<Rightarrow> mngr" where
  "columns_reset g = g\<lparr>mg_columns := [], mg_need := (\<lambda>_. {})\<rparr>"

definition get_column :: "u64 \<Rightarrow> mngr \<Rightarrow> column_error + mcolumn" where
  "get_column cid g = (case map_of (mg_columns g) cid of Some c \<Rightarrow> Inr c | None \<Rightarrow> Inl COLUMN_NOT_EXISTS)"

definition put_column :: "u64 \<Rightarrow> mcolumn \<Rightarrow> mngr \<Rightarrow> mngr" where
  "put_column cid c g = g\<lparr>mg_columns := AList.update cid c (mg_columns g)\<rparr>"

text \<open>An operation of a column, with what it does to the ranges.\<close>

definition on_column :: "u64 \<Rightarrow> (mcolumn \<Rightarrow> mngr \<Rightarrow> mcolumn \<times> mngr) \<Rightarrow> mngr \<Rightarrow> mngr" where
  "on_column cid f g = (case map_of (mg_columns g) cid of None \<Rightarrow> g
     | Some c \<Rightarrow> let (c, g) = f c g in put_column cid c g)"

fun columns_state_loop :: "(u64 \<times> mcolumn) list \<Rightarrow> column_error option" where
  "columns_state_loop [] = None"
| "columns_state_loop ((cid, c) # cs) = (case col_state c of Some e \<Rightarrow> Some e | None \<Rightarrow> columns_state_loop cs)"

definition columns_state :: "mngr \<Rightarrow> column_error option" where
  "columns_state g = columns_state_loop (mg_columns g)"

definition columns_remove :: "u64 \<Rightarrow> mngr \<Rightarrow> mngr" where
  "columns_remove cid g = (if map_of (mg_columns g) cid = None then g
     else assign_remove_cid cid (g\<lparr>mg_columns := AList.delete cid (mg_columns g)\<rparr>))"

text \<open>\<open>entries\<close> are the ids of the ranges the file system has, or nothing when it fails.\<close>

definition is_an_initialization :: "u64 list option \<Rightarrow> u64 \<Rightarrow> KeySeq \<Rightarrow> mngr \<Rightarrow> mngr \<times> bool" where
  "is_an_initialization entries cid seq g =
     (if map_of (mg_columns g) cid \<noteq> None then (g, False)
      else let g = put_column cid (Column_new cid seq) g in
        case entries of
          None \<Rightarrow> (columns_remove cid g, False)
        | Some rids \<Rightarrow> (on_column cid (col_init rids) g, True))"

text \<open>Groups in their order: nothing of a group is given before all columns of the ones before are in order.\<close>

definition group_cids :: "nat \<Rightarrow> u64 list" where
  "group_cids n = (if n = 0 then [1, 2, 3, 4] else if n = 1 then [5, 6, 7, 8] else if n = 2 then [9] else [])"

fun preload_waits :: "u64 list \<Rightarrow> mngr \<Rightarrow> bool" where
  "preload_waits [] g = False"
| "preload_waits (cid # cids) g = (case map_of (mg_columns g) cid of
     Some c \<Rightarrow> if mc_state c \<noteq> Column_ok then True else preload_waits cids g
   | None \<Rightarrow> preload_waits cids g)"

fun preload :: "(nat set \<Rightarrow> nat) \<Rightarrow> mngr \<Rightarrow> nat list \<Rightarrow> bool \<times> nat option" where
  "preload pick g [] = (False, group_get pick 3 g)"
| "preload pick g (n # ns) = (case group_get pick n g of Some a \<Rightarrow> (False, Some a)
     | None \<Rightarrow> if preload_waits (group_cids n) g then (True, None) else preload pick g ns)"

definition get_next_unassigned :: "(nat set \<Rightarrow> nat) \<Rightarrow> mngr \<Rightarrow> bool \<times> nat option" where
  "get_next_unassigned pick g = preload pick g [0, 1, 2]"

definition columns_rgr_unassigned :: "u64 \<Rightarrow> mngr \<Rightarrow> mngr" where
  "columns_rgr_unassigned rgrid g = fold (\<lambda>cid. on_column cid (col_rgr_unassigned rgrid)) (map fst (mg_columns g)) g"

definition columns_change_rgr :: "u64 \<Rightarrow> u64 \<Rightarrow> mngr \<Rightarrow> mngr" where
  "columns_change_rgr old rgrid g = fold (\<lambda>cid. on_column cid (col_change_rgr old rgrid)) (map fst (mg_columns g)) g"

definition columns_assigned :: "u64 \<Rightarrow> u64 \<Rightarrow> mngr \<Rightarrow> nat list" where
  "columns_assigned rgrid num g = (if num = 0 then []
     else concat (map (\<lambda>(cid, c). col_assigned (mg_store g) rgrid num (mc_ranges c)) (mg_columns g)))"

fun health_loop :: "i64 \<Rightarrow> u32 \<Rightarrow> u64 list \<Rightarrow> mngr \<Rightarrow> mngr \<times> u64 option" where
  "health_loop ts ms [] g = (g\<lparr>mg_health_cid := 0\<rparr>, None)"
| "health_loop ts ms (cid # cids) g = (case map_of (mg_columns g) cid of
     None \<Rightarrow> health_loop ts ms cids g
   | Some c \<Rightarrow> let (c, need) = col_need_health_check ts ms c in
       if need then ((put_column cid c g)\<lparr>mg_health_cid := cid\<rparr>, Some cid) else health_loop ts ms cids g)"

definition get_need_health_check :: "i64 \<Rightarrow> u32 \<Rightarrow> mngr \<Rightarrow> mngr \<times> u64 option" where
  "get_need_health_check ts ms g = (let cids = map fst (mg_columns g); last = mg_health_cid g
     in health_loop ts ms (if last \<noteq> 0 then dropWhile (\<lambda>cid. cid \<noteq> last) cids else cids) g)"

text \<open>What becomes of a range once its ranger has answered; the number of the requests under way is that of
  \<open>Rangers\<close>.\<close>

definition range_answered :: "i64 \<Rightarrow> u64 \<Rightarrow> i64 \<Rightarrow> bool \<Rightarrow> nat \<Rightarrow> mngr \<Rightarrow> mngr" where
  "range_answered ts rgrid revision failed a g =
     (if mr_state (mg_store g a) = Range_deleted then g
      else if failed then set_state_none a g
      else upd_range a (range_set_assigned ts rgrid revision) g)"

text \<open>\<open>RangeLoad::loaded\<close>: without an answer the interval is an empty one.\<close>

definition range_loaded :: "i64 \<Rightarrow> u64 \<Rightarrow> i64 \<Rightarrow> (interval \<times> i64) option \<Rightarrow> nat \<Rightarrow> mcolumn \<Rightarrow> mngr \<Rightarrow> (mcolumn \<times> mngr) res" where
  "range_loaded ts rgrid schema_revision answer a c g = (case answer of
     None \<Rightarrow> col_sort ts a (Interval_new (mc_seq c)) 0 c (range_answered ts rgrid 0 True a g)
   | Some (iv, revision) \<Rightarrow>
       col_sort ts a iv revision (change_rgr_schema rgrid schema_revision c) (range_answered ts rgrid revision False a g))"

end
