(* ===== verification/Mngr_Order.thy ===== *)
theory Mngr_Order
  imports Mngr_Ranges
begin

text \<open>
  What holds of the ranges of a manager whatever happens to them: ids are distinct, and a range that has no
  ranger waits in its group. What the order of the ranges of a column is, and what it is not.
\<close>

section \<open>Ids\<close>

lemma next_rid_rec: "next_rid rids rid = (if rid + 1 = 0 then 0 else if rid + 1 \<notin> set rids then rid + 1 else next_rid rids (rid + 1))"
  by (subst next_rid.simps) (simp add: Let_def)

lemma next_rid_fresh: "next_rid rids rid \<noteq> 0 \<Longrightarrow> next_rid rids rid \<notin> set rids"
proof (induction rids rid rule: next_rid.induct)
  case (1 rids rid)
  then show ?case by (subst (asm) (2) next_rid_rec, subst next_rid_rec) (auto split: if_splits)
qed

lemma less_next: "(rid :: u64) < x \<Longrightarrow> x \<noteq> rid + 1 \<Longrightarrow> rid + 1 \<noteq> 0 \<and> rid + 1 < x"
  by uint_arith

text \<open>No smaller id was free.\<close>

lemma next_rid_least: "rid < x \<Longrightarrow> next_rid rids rid = 0 \<or> x < next_rid rids rid \<Longrightarrow> x \<in> set rids"
proof (induction rids rid rule: next_rid.induct)
  case (1 rids rid)
  show ?case
  proof (cases "x = rid + 1")
    case True
    then show ?thesis using 1(2,3) by (subst (asm) (1 2) next_rid_rec) (auto split: if_splits)
  next
    case False
    then have r: "rid + 1 \<noteq> 0" "rid + 1 < x" using less_next [OF 1(2)] by simp_all
    then have "rid + 1 \<in> set rids" using 1(3) by (subst (asm) (1 2) next_rid_rec) (auto split: if_splits)
    moreover have "next_rid rids rid = next_rid rids (rid + 1)" using r calculation by (subst next_rid_rec) simp
    ultimately show ?thesis using 1(1) [OF refl r(1)] r(2) 1(3) by simp
  qed
qed

lemma next_rid_there:
  assumes "length rids < 2 ^ 64 - 1"
  shows "next_rid rids 0 \<noteq> 0 \<and> next_rid rids 0 \<notin> set rids"
proof (rule ccontr)
  assume "\<not> ?thesis"
  then have "next_rid rids 0 = 0" using next_rid_fresh by blast
  then have "x \<in> set rids" if "x \<noteq> 0" for x using next_rid_least [of 0 x rids] that by (simp add: word_gt_0)
  then have "UNIV - {0} \<subseteq> set rids" by blast
  then have "card (UNIV - {0 :: u64}) \<le> length rids" by (meson card_length card_mono finite_set le_trans)
  then show False using assms by (simp add: card_Diff_singleton card_word)
qed

section \<open>No range is forgotten\<close>

definition waits :: "mngr \<Rightarrow> nat \<Rightarrow> bool" where
  "waits g a \<longleftrightarrow> (mr_state (mg_store g a) = Range_notset \<longrightarrow> a \<in> mg_need g (assign_group (mr_cid (mg_store g a))))"

definition column_ok :: "mngr \<Rightarrow> u64 \<Rightarrow> mcolumn \<Rightarrow> bool" where
  "column_ok g cid c \<longleftrightarrow> mc_cid c = cid \<and> distinct (map (\<lambda>a. mr_rid (mg_store g a)) (mc_ranges c)) \<and>
     (\<forall>a \<in> set (mc_ranges c). a < mg_next g \<and> mr_cid (mg_store g a) = cid \<and> waits g a)"

definition groups_ok :: "mngr \<Rightarrow> bool" where
  "groups_ok g \<longleftrightarrow> (\<forall>n. finite (mg_need g n) \<and> (\<forall>a \<in> mg_need g n. a < mg_next g \<and> assign_group (mr_cid (mg_store g a)) = n))"

definition mngr_ok :: "mngr \<Rightarrow> bool" where
  "mngr_ok g \<longleftrightarrow> distinct (map fst (mg_columns g)) \<and> (\<forall>(cid, c) \<in> set (mg_columns g). column_ok g cid c) \<and>
     groups_ok g"

text \<open>What an operation leaves of the ranges that were there.\<close>

definition steady :: "mngr \<Rightarrow> mngr \<Rightarrow> bool" where
  "steady g g' \<longleftrightarrow> mg_columns g' = mg_columns g \<and> mg_next g \<le> mg_next g' \<and>
     (\<forall>a < mg_next g. mr_cid (mg_store g' a) = mr_cid (mg_store g a) \<and> mr_rid (mg_store g' a) = mr_rid (mg_store g a) \<and>
       (waits g a \<longrightarrow> waits g' a)) \<and> (groups_ok g \<longrightarrow> groups_ok g')"

named_theorems steadys

lemma steady_refl [steadys]: "steady g g" by (simp add: steady_def)

lemma steady_trans: "steady g g' \<Longrightarrow> steady g' g'' \<Longrightarrow> steady g g''" by (auto simp: steady_def)

lemma steady_column:
  assumes "steady g g'" and "column_ok g cid c"
  shows "column_ok g' cid c"
proof -
  have m: "map (\<lambda>a. mr_rid (mg_store g' a)) (mc_ranges c) = map (\<lambda>a. mr_rid (mg_store g a)) (mc_ranges c)"
    using assms by (auto simp: steady_def column_ok_def)
  show ?thesis using assms unfolding column_ok_def m by (auto simp: steady_def)
qed

lemma steady_upd [steadys]:
  assumes "\<And>r. mr_cid (f r) = mr_cid r" "\<And>r. mr_rid (f r) = mr_rid r"
    and "\<And>r. mr_state (f r) = Range_notset \<Longrightarrow> mr_state r = Range_notset"
  shows "steady g (upd_range a f g)"
  using assms by (auto simp: steady_def upd_range_def waits_def groups_ok_def)

lemma steady_none: "a < mg_next g \<Longrightarrow> steady g (set_state_none a g)"
  by (auto simp: steady_def upd_range_def waits_def groups_ok_def set_state_none_def assign_add_def Let_def range_set_state_def)

lemma steady_deleted [steadys]: "steady g (set_deleted a g)"
  by (auto simp: steady_def upd_range_def waits_def groups_ok_def set_deleted_def assign_remove_def Let_def)

lemma steady_queued [steadys]: "steady g (set_state_queued ts rgrid a g)"
  by (auto simp: steady_def upd_range_def waits_def groups_ok_def set_state_queued_def assign_remove_def Let_def)

lemma steady_answered: "a < mg_next g \<Longrightarrow> steady g (range_answered ts rgrid revision failed a g)"
  using steady_none [of a g] by (auto simp: range_answered_def range_set_assigned_def intro: steadys)

lemma steady_last [steadys]: "steady g (fst (get_last_rgr load a g))"
  by (auto simp: get_last_rgr_def Let_def split: option.split intro: steadys)

lemma steady_add_range:
  assumes "add_range rid c g = (a, c', g')"
  shows "steady g g' \<and> steady g (assign_add a g')"
  using assms by (auto simp: add_range_def Let_def steady_def waits_def assign_add_def groups_ok_def) (metis less_irrefl less_SucI)+

text \<open>The operations of a column.\<close>

definition keeps_column :: "(mcolumn \<Rightarrow> mngr \<Rightarrow> mcolumn \<times> mngr) \<Rightarrow> bool" where
  "keeps_column f \<longleftrightarrow> (\<forall>c g cid c' g'. f c g = (c', g') \<longrightarrow> column_ok g cid c \<longrightarrow> steady g g' \<and> column_ok g' cid c')"

lemma column_same:
  assumes "column_ok g cid c" and "mc_cid c' = mc_cid c" and "mc_ranges c' = mc_ranges c"
  shows "column_ok g cid c'"
  using assms by (simp add: column_ok_def)

lemma column_fewer:
  assumes "column_ok g cid c" and "mc_cid c' = mc_cid c" and "distinct (mc_ranges c')" and "set (mc_ranges c') \<subseteq> set (mc_ranges c)"
  shows "column_ok g cid c'"
  using assms by (auto simp: column_ok_def distinct_map intro: inj_on_subset)

lemma column_distinct: "column_ok g cid c \<Longrightarrow> distinct (mc_ranges c)"
  by (simp add: column_ok_def distinct_map)

lemma col_parts [simp]:
  "mc_cid (col_set_loading c) = mc_cid c" "mc_ranges (col_set_loading c) = mc_ranges c"
  "mc_cid (apply_loaded_state now g c) = mc_cid c" "mc_ranges (apply_loaded_state now g c) = mc_ranges c"
  "mc_cid (remove_rgr_schema rgrid c) = mc_cid c" "mc_ranges (remove_rgr_schema rgrid c) = mc_ranges c"
  "mc_cid (change_rgr_schema rgrid rv c) = mc_cid c" "mc_ranges (change_rgr_schema rgrid rv c) = mc_ranges c"
  by (simp_all add: col_set_loading_def apply_loaded_state_def remove_rgr_schema_def change_rgr_schema_def)

text \<open>A new range.\<close>

lemma add_range_ok:
  assumes "add_range rid c g = (a, c', g')" and "column_ok g cid c" and "rid \<notin> set (map (\<lambda>a. mr_rid (mg_store g a)) (mc_ranges c))"
    and "steady g' g''" and "waits g'' a" and "mg_columns g'' = mg_columns g'" 
  shows "column_ok g'' cid c'"
proof -
  have c': "c' = c\<lparr>mc_ranges := mc_ranges c @ [mg_next g]\<rparr>" "a = mg_next g" "mg_next g' = mg_next g + 1"
    "mg_store g' = (mg_store g)(mg_next g := Range_new (mc_cid c) (mc_seq c) rid)"
    using assms(1) by (auto simp: add_range_def Let_def)
  have old: "mg_store g' b = mg_store g b" if "b \<in> set (mc_ranges c)" for b
    using assms(2) that by (auto simp: c' column_ok_def)
  have st: "mr_cid (mg_store g'' b) = mr_cid (mg_store g' b)" "mr_rid (mg_store g'' b) = mr_rid (mg_store g' b)" if "b < mg_next g'" for b
    using assms(4) that by (simp_all add: steady_def)
  have ok: "column_ok g'' cid c"
    using steady_column [OF steady_trans [OF conjunct1 [OF steady_add_range [OF assms(1)]] assms(4)] assms(2)] .
  have "mr_rid (mg_store g'' b) = mr_rid (mg_store g b)" if "b \<in> set (mc_ranges c)" for b
    using st [of b] old [OF that] assms(2) that by (auto simp: column_ok_def c'(3))
  moreover have "mr_rid (mg_store g'' a) = rid" "mr_cid (mg_store g'' a) = mc_cid c" "a < mg_next g''"
    using st [of a] assms(4) by (simp_all add: c' Range_new_def steady_def)
  ultimately show ?thesis using ok assms(3,5) by (auto simp: c'(1,2) column_ok_def)
qed

lemma col_init_loop_ok:
  assumes "col_init_loop rids c g = (c', g')" and "column_ok g cid c" and "distinct rids"
    and "set rids \<inter> set (map (\<lambda>a. mr_rid (mg_store g a)) (mc_ranges c)) = {}"
  shows "steady g g' \<and> column_ok g' cid c'"
  using assms
proof (induction rids c g rule: col_init_loop.induct)
  case (2 rid rids c g)
  obtain a c1 g1 where a: "add_range rid c g = (a, c1, g1)" by (metis prod_cases3)
  note st = steady_add_range [OF a]
  have parts: "a = mg_next g" "mc_ranges c1 = mc_ranges c @ [a]" "mg_store g1 a = Range_new (mc_cid c) (mc_seq c) rid"
    "\<And>b. b \<noteq> a \<Longrightarrow> mg_store g1 b = mg_store g b"
    using a by (auto simp: add_range_def Let_def)
  have "mg_next g1 = a + 1" using a by (auto simp: add_range_def Let_def)
  then have "waits (assign_add a g1) a" "steady g1 (assign_add a g1)"
    by (auto simp: waits_def assign_add_def Let_def steady_def groups_ok_def)
  moreover have "rid \<notin> set (map (\<lambda>a. mr_rid (mg_store g a)) (mc_ranges c))" using 2(5) by auto
  ultimately have ok: "column_ok (assign_add a g1) cid c1" using add_range_ok [OF a 2(3)] by (simp add: assign_add_def Let_def)
  have "b \<in> set (mc_ranges c) \<Longrightarrow> b < a" for b using 2(3) by (simp add: parts(1) column_ok_def)
  then have "mr_rid (mg_store (assign_add a g1) b) \<noteq> r" if "b \<in> set (mc_ranges c1)" "r \<in> set rids" for b r
    using that 2(4,5) parts by (fastforce simp: assign_add_def Let_def Range_new_def)
  then have "set rids \<inter> set (map (\<lambda>b. mr_rid (mg_store (assign_add a g1) b)) (mc_ranges c1)) = {}" by auto
  then show ?case using 2(1) [OF a [symmetric] refl refl _ ok] 2(2,4) st steady_trans by (auto simp: a)
qed (auto simp: steady_refl)

lemma create_ok:
  assumes "create_new_range rgrid c g = (a, c', g')" and "column_ok g cid c" and "length (mc_ranges c) < 2 ^ 64 - 1"
  shows "steady g g' \<and> column_ok g' cid c'"
proof -
  let ?rid = "col_next_rid c g"
  obtain g1 where a: "add_range ?rid c g = (a, c', g1)" and g': "g' = upd_range a (range_set_state Range_created rgrid) g1"
    using assms(1) by (auto simp: create_new_range_def Let_def split: prod.splits)
  have st: "steady g1 g'" unfolding g' by (rule steady_upd) (simp_all add: range_set_state_def)
  have "?rid \<notin> set (map (\<lambda>a. mr_rid (mg_store g a)) (mc_ranges c))"
    using next_rid_there [of "map (\<lambda>a. mr_rid (mg_store g a)) (mc_ranges c)"] assms(3) by (simp add: col_next_rid_def)
  moreover have "waits g' a" by (simp add: g' waits_def upd_range_def range_set_state_def)
  ultimately have "column_ok g' cid c'" using add_range_ok [OF a assms(2) _ st] by (simp add: g' upd_range_def)
  then show ?thesis using steady_trans [OF conjunct1 [OF steady_add_range [OF a]] st] by blast
qed

section \<open>The order of a column\<close>

lemma erase_rid_parts: "distinct as \<Longrightarrow> distinct (erase_rid st rid as) \<and> set (erase_rid st rid as) \<subseteq> set as"
  by (induction as) auto

lemma erase_rid_gone:
  "distinct (map (\<lambda>a. mr_rid (st a)) as) \<Longrightarrow> a \<in> set as \<Longrightarrow> set (erase_rid st (mr_rid (st a)) as) = set as - {a}"
  by (induction as) (auto simp: rev_image_eqI)

lemma insert_before_parts: "insert_before st a as = Inr bs \<Longrightarrow> mset bs = mset (a # as)"
  by (induction as arbitrary: bs) (auto simp: res_bind_def split: sum.splits if_splits)

lemma col_sort_ok:
  assumes "col_sort now a iv revision c g = Inr (c', g')" and "column_ok g cid c" and "a \<in> set (mc_ranges c)"
  shows "steady g g' \<and> column_ok g' cid c' \<and> set (mc_ranges c') = set (mc_ranges c)"
proof (cases "range_equal (mg_store g a) iv")
  case True
  then show ?thesis using assms column_same [OF assms(2)] by (auto simp: col_sort_def steady_refl)
next
  case False
  let ?g = "upd_range a (range_set iv revision) g"
  have st: "steady g ?g" by (rule steady_upd) (simp_all add: range_set_def)
  note ok = steady_column [OF st assms(2)]
  obtain as where as: "(if length (mc_ranges c) > 1 then insert_before (mg_store ?g) a (erase_rid (mg_store ?g) (mr_rid (mg_store ?g a)) (mc_ranges c))
      else Inr (mc_ranges c)) = Inr as" "g' = ?g" "mc_ranges c' = as" "mc_cid c' = mc_cid c"
    using assms(1) False by (auto simp: col_sort_def Let_def res_bind_def split: sum.splits)
  have gone: "set (erase_rid (mg_store ?g) (mr_rid (mg_store ?g a)) (mc_ranges c)) = set (mc_ranges c) - {a}"
    using erase_rid_gone [OF _ assms(3), of "mg_store ?g"] ok by (simp add: column_ok_def)
  have "set as = set (mc_ranges c) \<and> distinct as"
  proof (cases "length (mc_ranges c) > 1")
    case True
    then have m: "mset as = mset (a # erase_rid (mg_store ?g) (mr_rid (mg_store ?g a)) (mc_ranges c))"
      using as(1) insert_before_parts by simp
    then have "set as = insert a (set (mc_ranges c) - {a})" using gone by (metis mset_eq_setD list.simps(15))
    moreover have "distinct as" using m gone erase_rid_parts [OF column_distinct [OF ok]] by (metis Diff_iff distinct.simps(2) insertI1 mset_eq_imp_distinct_iff)
    ultimately show ?thesis using assms(3) by auto
  next
    case False
    then show ?thesis using as(1) column_distinct [OF ok] by simp
  qed
  then show ?thesis using column_fewer [OF ok] as st by auto
qed

section \<open>Operations of a column as steps\<close>

lemma unassign_loop_ok:
  assumes "unassign_loop rgrid as c g = (c', g')" and "\<forall>a \<in> set as. a < mg_next g"
  shows "steady g g' \<and> mc_cid c' = mc_cid c \<and> mc_ranges c' = mc_ranges c"
  using assms
proof (induction rgrid as c g rule: unassign_loop.induct)
  case (2 rgrid a as c g)
  have st: "steady g (set_state_none a g)" using steady_none 2(4) by simp
  then have "\<forall>b \<in> set as. b < mg_next (set_state_none a g)" using 2(4) by (auto simp: steady_def)
  then show ?case using 2 steady_trans [OF st] by (auto split: if_splits)
qed (auto simp: steady_refl)

lemma rgrid_loop_ok: "steady g (rgrid_loop old rgrid as g)"
proof (induction old rgrid as g rule: rgrid_loop.induct)
  case (2 old rgrid a as g)
  then show ?case using steady_trans [OF steady_upd [of "\<lambda>r. r\<lparr>mr_rgrid := rgrid\<rparr>" g a]] by auto
qed (simp add: steady_refl)

lemma health_ranges_ok: "ranges_need_health_check ts ms rgrid mx as out g = (out', g') \<Longrightarrow> steady g g'"
proof (induction ts ms rgrid mx as out g arbitrary: out' g' rule: ranges_need_health_check.induct)
  case (2 ts ms rgrid mx a as out g)
  obtain r need where r: "range_need_health_check ts ms rgrid (mg_store g a) = (r, need)" by force
  then have "mr_cid r = mr_cid (mg_store g a) \<and> mr_rid r = mr_rid (mg_store g a) \<and> mr_state r = mr_state (mg_store g a)"
    by (auto simp: range_need_health_check_def split: if_splits)
  then have st: "steady g (upd_range a (\<lambda>_. r) g)" by (auto simp: steady_def upd_range_def waits_def groups_ok_def)
  show ?case using 2 r steady_trans [OF st] st by (auto simp: Let_def split: if_splits)
qed (auto simp: steady_refl)

lemma fold_deleted: "steady g (fold set_deleted as g)"
  by (induction as arbitrary: g) (auto simp: steady_refl intro: steady_trans [OF steady_deleted])

inductive column_step :: "mcolumn \<Rightarrow> mngr \<Rightarrow> mcolumn \<Rightarrow> mngr \<Rightarrow> bool" where
  step_init: "distinct rids \<Longrightarrow> mc_ranges c = [] \<Longrightarrow> col_init rids c g = (c', g') \<Longrightarrow> column_step c g c' g'"
| step_unloaded: "a \<in> set (mc_ranges c) \<Longrightarrow> set_unloaded a c g = (c', g') \<Longrightarrow> column_step c g c' g'"
| step_merging: "set_merging a c g = (c', g', ok) \<Longrightarrow> column_step c g c' g'"
| step_loaded: "a \<in> set (mc_ranges c) \<Longrightarrow> range_loaded ts rgrid rv answer a c g = Inr (c', g') \<Longrightarrow> column_step c g c' g'"
| step_create: "length (mc_ranges c) < 2 ^ 64 - 1 \<Longrightarrow> create_new_range rgrid c g = (a, c', g') \<Longrightarrow> column_step c g c' g'"
| step_next: "col_next_unassigned c g = (found, c') \<Longrightarrow> column_step c g c' g"
| step_rgr_unassigned: "col_rgr_unassigned rgrid c g = (c', g') \<Longrightarrow> column_step c g c' g'"
| step_change_rgr: "col_change_rgr old rgrid c g = (c', g') \<Longrightarrow> column_step c g c' g'"
| step_schema: "column_step c g (change_rgr_schema rgrid rv c) g"
| step_no_schema: "column_step c g (remove_rgr_schema rgrid c) g"
| step_no_health: "column_step c g (c\<lparr>mc_check_ts := 0\<rparr>) g"
| step_health: "col_need_health_check ts ms c = (c', need) \<Longrightarrow> column_step c g c' g"
| step_health_ranges: "ranges_need_health_check ts ms rgrid mx (mc_ranges c) out g = (out', g') \<Longrightarrow> column_step c g c g'"
| step_remove_range: "col_remove_range now rid c g = (c', g') \<Longrightarrow> column_step c g c' g'"
| step_remove: "do_remove c g = (c', g', did) \<Longrightarrow> column_step c g c' g'"
| step_finalize: "finalize_remove rgrid c g = (c', gone) \<Longrightarrow> column_step c g c' g"

lemma column_step_keeps: "column_step c g c' g' \<Longrightarrow> column_ok g cid c \<Longrightarrow> steady g g' \<and> column_ok g' cid c'"
proof (induction rule: column_step.induct)
  case (step_init rids c g c' g')
  then show ?case
    using col_init_loop_ok [of "if rids = [] then [1] else rids" c g c' g' cid] by (auto simp: col_init_def split: if_splits)
next
  case (step_unloaded a c g c' g')
  then have "a < mg_next g" by (simp add: column_ok_def)
  then show ?case using step_unloaded steady_column [OF steady_none] column_same [of _ cid c] by (auto simp: set_unloaded_def steady_none)
next
  case (step_merging a c g c' g' ok)
  have "steady g (upd_range a (range_set_state Range_merge 0) g)"
    by (rule steady_upd) (simp_all add: range_set_state_def)
  then show ?case using step_merging steady_column [OF _ step_merging.prems] column_same [of _ cid c]
    by (auto simp: set_merging_def steady_refl split: if_splits)
next
  case (step_loaded a c ts rgrid rv answer g c' g')
  then have "a < mg_next g" by (simp add: column_ok_def)
  note st = steady_answered [OF this]
  show ?case
  proof (cases answer)
    case None
    let ?g = "range_answered ts rgrid 0 True a g"
    have "col_sort ts a (Interval_new (mc_seq c)) 0 c ?g = Inr (c', g')" using step_loaded None by (simp add: range_loaded_def)
    from col_sort_ok [OF this steady_column [OF st step_loaded.prems] step_loaded.hyps(1)] show ?thesis
      using steady_trans [OF st] by blast
  next
    case (Some p)
    obtain iv revision where p: "p = (iv, revision)" by (cases p)
    let ?g = "range_answered ts rgrid revision False a g" and ?c = "change_rgr_schema rgrid rv c"
    have "col_sort ts a iv revision ?c ?g = Inr (c', g')" using step_loaded Some by (simp add: range_loaded_def p)
    moreover have "column_ok ?g cid ?c" using column_same [OF steady_column [OF st step_loaded.prems]] by simp
    ultimately show ?thesis using col_sort_ok [of ts a iv revision ?c ?g c' g' cid] step_loaded.hyps(1) steady_trans [OF st] by fastforce
  qed
next
  case (step_create c rgrid g a c' g')
  then show ?case using create_ok by blast
next
  case (step_next c g found c')
  then show ?case using column_same [of g cid c] by (auto simp: col_next_unassigned_def steady_refl split: option.splits)
next
  case (step_rgr_unassigned rgrid c g c' g')
  obtain c1 where "unassign_loop rgrid (mc_ranges c) c g = (c1, g')" "c' = remove_rgr_schema rgrid c1"
    using step_rgr_unassigned.hyps by (auto simp: col_rgr_unassigned_def split: prod.splits)
  moreover have "\<forall>a \<in> set (mc_ranges c). a < mg_next g" using step_rgr_unassigned.prems by (simp add: column_ok_def)
  ultimately show ?case using unassign_loop_ok column_same [OF steady_column [OF _ step_rgr_unassigned.prems]] by fastforce
next
  case (step_change_rgr old rgrid c g c' g')
  then show ?case using rgrid_loop_ok column_same [OF steady_column [OF rgrid_loop_ok step_change_rgr.prems]]
    by (auto simp: col_change_rgr_def split: option.splits)
next
  case (step_health ts ms c c' need g)
  then show ?case using column_same [of g cid c] by (auto simp: col_need_health_check_def steady_refl split: if_splits)
next
  case (step_health_ranges ts ms rgrid mx c out g out' g')
  then show ?case using health_ranges_ok steady_column by blast
next
  case (step_remove_range now rid c g c' g')
  show ?case
  proof (cases "get_range_rid rid c g")
    case None
    then show ?thesis using step_remove_range by (simp add: col_remove_range_def steady_refl)
  next
    case (Some a)
    note ok = steady_column [OF steady_deleted [of g a] step_remove_range.prems]
    have "c' = apply_loaded_state now g' (c\<lparr>mc_ranges := erase_rid (mg_store g') rid (mc_ranges c)\<rparr>)" "g' = set_deleted a g"
      using step_remove_range.hyps Some by (auto simp: col_remove_range_def Let_def)
    then show ?thesis using column_fewer [OF ok] erase_rid_parts [OF column_distinct [OF ok]] steady_deleted by simp
  qed
next
  case (step_remove c g c' g' did)
  have "steady g g'" "mc_cid c' = mc_cid c" "mc_ranges c' = mc_ranges c"
    using step_remove.hyps fold_deleted by (auto simp: do_remove_def Let_def steady_refl)
  then show ?case using column_same [OF steady_column [OF _ step_remove.prems]] by blast
next
  case (step_finalize rgrid c g c' gone)
  then show ?case using column_fewer [of g cid c c'] column_distinct by (auto simp: finalize_remove_def Let_def steady_refl)
qed (auto simp: steady_refl intro: column_same)

text \<open>Everything that happens to ranges and columns.\<close>

inductive mngr_step :: "mngr \<Rightarrow> mngr \<Rightarrow> bool" where
  step_initialize: "is_an_initialization entries cid seq g = (g', ok) \<Longrightarrow> distinct (case entries of None \<Rightarrow> [] | Some rids \<Rightarrow> rids) \<Longrightarrow>
    mngr_step g g'"
| step_column: "map_of (mg_columns g) cid = Some c \<Longrightarrow> column_step c g c' g' \<Longrightarrow> mngr_step g (put_column cid c' g')"
| step_none: "a < mg_next g \<Longrightarrow> mngr_step g (set_state_none a g)"
| step_queued: "mngr_step g (set_state_queued ts rgrid a g)"
| step_last: "mngr_step g (fst (get_last_rgr load a g))"
| step_drop: "mngr_step g (columns_remove cid g)"
| step_reset: "mngr_step g (columns_reset g)"

lemma alist_update_set: "set (AList.update k v xs) \<subseteq> insert (k, v) (set xs)"
  by (induction xs) auto

lemma groups_ok_columns [simp]: "groups_ok (g\<lparr>mg_columns := cs\<rparr>) = groups_ok g" "groups_ok (g\<lparr>mg_health_cid := cid\<rparr>) = groups_ok g"
  by (simp_all add: groups_ok_def)

lemma column_ok_columns [simp]: "column_ok (g\<lparr>mg_columns := cs\<rparr>) cid c = column_ok g cid c"
  by (simp add: column_ok_def waits_def)

lemma put_column_ok:
  assumes "mngr_ok g" and "steady g g'" and "column_ok g' cid c'"
  shows "mngr_ok (put_column cid c' g')"
proof -
  have "mg_columns g' = mg_columns g" "\<And>cid c. (cid, c) \<in> set (mg_columns g) \<Longrightarrow> column_ok g' cid c" "groups_ok g'"
    using assms(1,2) steady_column by (auto simp: mngr_ok_def steady_def)
  then show ?thesis using assms(1,3) alist_update_set [of cid c' "mg_columns g"] by (auto simp: mngr_ok_def put_column_def distinct_update)
qed

lemma steady_ok:
  assumes "mngr_ok g" and "steady g g'"
  shows "mngr_ok g'"
proof -
  have c: "mg_columns g' = mg_columns g" "groups_ok g'" using assms by (simp_all add: steady_def mngr_ok_def)
  show ?thesis using assms(1) steady_column [OF assms(2)] unfolding mngr_ok_def c(1) using c(2) by blast
qed

lemma column_of: "mngr_ok g \<Longrightarrow> map_of (mg_columns g) cid = Some c \<Longrightarrow> column_ok g cid c"
  unfolding mngr_ok_def by (blast dest: map_of_SomeD)

lemma drop_ok:
  assumes "mngr_ok g"
  shows "mngr_ok (columns_remove cid g)"
proof (cases "map_of (mg_columns g) cid")
  case None
  then show ?thesis using assms by (simp add: columns_remove_def)
next
  case (Some c)
  let ?g = "columns_remove cid g"
  have cs: "mg_columns ?g = AList.delete cid (mg_columns g)" using Some by (simp add: columns_remove_def assign_remove_cid_def Let_def)
  have "column_ok ?g k c" if "(k, c) \<in> set (AList.delete cid (mg_columns g))" for k c
  proof -
    have k: "(k, c) \<in> set (mg_columns g)" "k \<noteq> cid" using that by (auto simp: AList.delete_eq)
    then have "column_ok g k c" using assms by (auto simp: mngr_ok_def)
    then show ?thesis using k(2) Some
      by (auto simp: columns_remove_def assign_remove_cid_def Let_def column_ok_def waits_def)
  qed
  moreover have "distinct (map fst (mg_columns ?g))" using assms unfolding cs by (simp add: mngr_ok_def distinct_delete)
  moreover have "groups_ok ?g" using assms Some by (auto simp: mngr_ok_def groups_ok_def columns_remove_def assign_remove_cid_def Let_def)
  ultimately show ?thesis unfolding mngr_ok_def cs by blast
qed

lemma init_ok:
  assumes "mngr_ok g" and "is_an_initialization entries cid seq g = (g', ok)" and "distinct (case entries of None \<Rightarrow> [] | Some rids \<Rightarrow> rids)"
  shows "mngr_ok g'"
proof (cases "map_of (mg_columns g) cid")
  case None
  let ?c = "Column_new cid seq"
  let ?g = "put_column cid ?c g"
  have "column_ok g cid ?c" by (simp add: column_ok_def Column_new_def)
  then have g: "mngr_ok ?g" using put_column_ok [OF assms(1) steady_refl] by blast
  have c: "map_of (mg_columns ?g) cid = Some ?c" by (simp add: put_column_def update_conv)
  show ?thesis
  proof (cases entries)
    case None
    then show ?thesis using assms(2) drop_ok [OF g] \<open>map_of (mg_columns g) cid = None\<close> by (auto simp: is_an_initialization_def Let_def)
  next
    case (Some rids)
    obtain c' g1 where r: "col_init rids ?c ?g = (c', g1)" by force
    then have "column_step ?c ?g c' g1" using step_init [of rids ?c ?g] assms(3) Some by (simp add: Column_new_def)
    from column_step_keeps [OF this column_of [OF g c]] have "mngr_ok (put_column cid c' g1)" using put_column_ok [OF g] by blast
    then show ?thesis using assms(2) Some r c \<open>map_of (mg_columns g) cid = None\<close> by (simp add: is_an_initialization_def Let_def on_column_def)
  qed
qed (use assms in \<open>simp add: is_an_initialization_def\<close>)

lemma mngr_step_keeps: "mngr_step g g' \<Longrightarrow> mngr_ok g \<Longrightarrow> mngr_ok g'"
proof (induction rule: mngr_step.induct)
  case (step_column g cid c c' g')
  then show ?case using column_step_keeps [OF step_column.hyps(2) column_of] put_column_ok by blast
next
  case (step_reset g)
  then show ?case by (simp add: columns_reset_def mngr_ok_def groups_ok_def)
qed (blast intro: init_ok steady_ok steady_none steady_queued steady_last drop_ok)+

lemma reached_ok: "mngr_step\<^sup>*\<^sup>* mngr_new g \<Longrightarrow> mngr_ok g"
proof (induction rule: rtranclp_induct)
  case base
  then show ?case by (simp add: mngr_ok_def mngr_new_def groups_ok_def)
next
  case (step g g')
  then show ?case using mngr_step_keeps by blast
qed

section \<open>Properties\<close>

text \<open>C14: Whatever happens to the columns and ranges of a manager - initialising, loading, failing, creating, merging,
  removing, rangers that go or change their id - in each column the ids of ranges are distinct, and a range that
  has no ranger waits in the group it will be assigned from: none is forgotten.\<close>

theorem no_range_is_forgotten:
  assumes "mngr_step\<^sup>*\<^sup>* mngr_new g" and "map_of (mg_columns g) cid = Some c"
  shows "distinct (map (\<lambda>a. mr_rid (mg_store g a)) (mc_ranges c)) \<and>
    (\<forall>a \<in> set (mc_ranges c). mr_cid (mg_store g a) = cid \<and>
      (mr_state (mg_store g a) = Range_notset \<longrightarrow> a \<in> mg_need g (assign_group cid)))"
proof -
  from column_of [OF reached_ok [OF assms(1)] assms(2)] show ?thesis by (auto simp: column_ok_def waits_def)
qed

text \<open>A column of the meta ranges with two ranges, for the examples.\<close>

definition two_ranges :: mngr where
  "two_ranges = fst (is_an_initialization (Some [1, 2]) 5 LEXIC mngr_new)"

lemma two_ranges_column: "\<exists>c. map_of (mg_columns two_ranges) 5 = Some c \<and> mc_ranges c = [0, 1] \<and>
    mr_state (mg_store two_ranges 0) = Range_notset"
  by (simp add: two_ranges_def is_an_initialization_def mngr_new_def put_column_def Column_new_def on_column_def col_init_def
    add_range_def Let_def assign_add_def Range_new_def)

theorem no_range_is_forgotten_witness:
  "\<exists>c. map_of (mg_columns two_ranges) 5 = Some c \<and> 0 \<in> set (mc_ranges c) \<and> 0 \<in> mg_need two_ranges (assign_group 5)"
proof -
  obtain c where c: "map_of (mg_columns two_ranges) 5 = Some c" "mc_ranges c = [0, 1]" "mr_state (mg_store two_ranges 0) = Range_notset"
    using two_ranges_column by blast
  have "mngr_step mngr_new two_ranges"
    using step_initialize [of "Some [1, 2]" 5 LEXIC mngr_new] by (simp add: two_ranges_def prod_eq_iff)
  then have "mngr_step\<^sup>*\<^sup>* mngr_new two_ranges" by simp
  from no_range_is_forgotten [OF this c(1)] show ?thesis using c by simp
qed

definition columns_done :: "mngr \<Rightarrow> nat \<Rightarrow> bool" where
  "columns_done g n \<longleftrightarrow> (\<forall>cid \<in> set (group_cids n). \<forall>c. map_of (mg_columns g) cid = Some c \<longrightarrow> mc_state c = Column_ok)"

lemma preload_waits_iff: "preload_waits cids g \<longleftrightarrow> \<not> (\<forall>cid \<in> set cids. \<forall>c. map_of (mg_columns g) cid = Some c \<longrightarrow> mc_state c = Column_ok)"
  by (induction cids) (auto split: option.splits)

lemma preload_step: "preload pick g (n # ns) =
    (if mg_need g n \<noteq> {} then (False, Some (pick (mg_need g n))) else if columns_done g n then preload pick g ns else (True, None))"
  by (auto simp: group_get_def preload_waits_iff columns_done_def)

text \<open>C15: The manager gives out ranges group by group - those of the master columns, of the meta columns, of the rangers'
  data, of all others: one of a group only when no range of an earlier group waits and all columns of those are in
  order. It says that it waits only when such a column is not, and otherwise gives none only when no range is left.\<close>

theorem ranges_given_in_order:
  assumes "\<And>as. as \<noteq> {} \<Longrightarrow> pick as \<in> as"
  shows "case get_next_unassigned pick g of
      (w, Some a) \<Rightarrow> \<not> w \<and> (\<exists>n < 4. a \<in> mg_need g n \<and> (\<forall>m < n. mg_need g m = {} \<and> columns_done g m))
    | (w, None) \<Rightarrow> if w then (\<exists>n < 3. \<not> columns_done g n) else (\<forall>n < 4. mg_need g n = {})"
proof -
  have four: "(\<forall>n < 4. P n) \<longleftrightarrow> P 0 \<and> P 1 \<and> P 2 \<and> P 3" "(\<exists>n < 4. P n) \<longleftrightarrow> P 0 \<or> P 1 \<or> P 2 \<or> P 3"
    "(\<exists>n < 3. P n) \<longleftrightarrow> P 0 \<or> P 1 \<or> P 2" for P :: "nat \<Rightarrow> bool"
    by (auto simp: numeral_eq_Suc less_Suc_eq)
  have below: "(\<forall>m < 1. P m) \<longleftrightarrow> P 0" "(\<forall>m < 2. P m) \<longleftrightarrow> P 0 \<and> P 1" "(\<forall>m < 3. P m) \<longleftrightarrow> P 0 \<and> P 1 \<and> P 2" for P :: "nat \<Rightarrow> bool"
    by (auto simp: numeral_eq_Suc less_Suc_eq)
  show ?thesis
    unfolding get_next_unassigned_def preload_step four below preload.simps(1) group_get_def
    using assms by (simp split: if_splits)
qed

theorem ranges_given_in_order_witness:
  "case get_next_unassigned Inf two_ranges of
      (w, Some a) \<Rightarrow> \<not> w \<and> (\<exists>n < 4. a \<in> mg_need two_ranges n \<and> (\<forall>m < n. mg_need two_ranges m = {} \<and> columns_done two_ranges m))
    | (w, None) \<Rightarrow> if w then (\<exists>n < 3. \<not> columns_done two_ranges n) else (\<forall>n < 4. mg_need two_ranges n = {})"
  by (rule ranges_given_in_order [OF Inf_nat_def1])

section \<open>What the code does not keep\<close>

text \<open>The limit of the ranges to be found is not counted down.\<close>

lemma assigned_ignores_limit:
  assumes "num \<noteq> 0"
  shows "columns_assigned rgrid num g =
    concat (map (\<lambda>(cid, c). filter (\<lambda>a. range_assigned_to (mg_store g a) rgrid) (mc_ranges c)) (mg_columns g))"
proof -
  have "col_assigned st rgrid num as = filter (\<lambda>a. range_assigned_to (st a) rgrid) as" for st as
    using assms by (induction as) auto
  then show ?thesis using assms by (simp add: columns_assigned_def)
qed

text \<open>A range to be merged stays among those to be assigned; and so does one that its ranger, taken for lost, has
  loaded all the same.\<close>

lemma merging_range_assigned:
  assumes "set_merging a c (set_state_none a g) = (c', g', True)"
  shows "mr_state (mg_store g' a) = Range_merge \<and> a \<in> mg_need g' (assign_group (mr_cid (mg_store g' a)))"
  using assms by (auto simp: set_merging_def set_state_none_def upd_range_def assign_add_def Let_def range_set_state_def split: if_splits)

lemma assigned_twice:
  fixes g :: mngr and a :: nat and ts rv :: i64
  defines "g' \<equiv> range_answered ts 7 rv False a (set_state_none a (set_state_queued ts 7 a g))"
  shows "range_assigned_to (mg_store g' a) 7 \<and> a \<in> mg_need g' (assign_group (mr_cid (mg_store g' a)))"
  by (simp add: g'_def range_answered_def set_state_none_def set_state_queued_def upd_range_def assign_add_def assign_remove_def
    Let_def range_set_state_def range_set_assigned_def range_assigned_to_def)

section \<open>Where a range stands\<close>

lemma key_copy_empty_iff: "key_empty (key_copy k) = key_empty k"
  by (simp add: key_copy_def key_empty_def)

lemma all_keys: "key_empty (mr_begin r) \<Longrightarrow> key_empty (mr_end r) \<Longrightarrow> range_includes r b e = Inr True"
  by (simp add: range_includes_def)

lemma get_range_head:
  assumes "mc_ranges c = a # as" and "key_empty (mr_begin (mg_store g a))" and "key_empty (mr_end (mg_store g a))"
  shows "get_range b e False c g = Inr (Some a)"
  by (simp add: get_range_def assms(1) all_keys [OF assms(2,3)])

text \<open>A range without an end is put before all others.\<close>

lemma insert_before_endless: "key_empty (mr_end (st a)) \<Longrightarrow> insert_before st a as = Inr (a # as)"
  by (cases as) (simp_all add: range_after_def range_before_def)

lemma col_sort_endless:
  assumes "\<not> range_equal (mg_store g a) iv" and "key_empty (iv_end iv)" and "length (mc_ranges c) > 1"
  shows "\<exists>c'. col_sort now a iv revision c g = Inr (c', upd_range a (range_set iv revision) g) \<and>
    mc_ranges c' = a # erase_rid (mg_store g) (mr_rid (mg_store g a)) (mc_ranges c)"
proof -
  let ?st = "mg_store (upd_range a (range_set iv revision) g)"
  have e: "key_empty (mr_end (?st a))" using assms(2) by (simp add: upd_range_def range_set_def key_copy_empty_iff)
  have "mr_rid (?st b) = mr_rid (mg_store g b)" for b by (simp add: upd_range_def range_set_def)
  then have "erase_rid ?st rid as = erase_rid (mg_store g) rid as" for rid as by (induction as) simp_all
  then show ?thesis
    using assms by (simp add: col_sort_def Let_def insert_before_endless [of ?st, OF e]) (simp add: upd_range_def range_set_def)
qed

text \<open>C18: In a column of at least two ranges, a range that is known to begin at a key and then could not be loaded is the
  answer for every key: a failed load gives an empty interval, which the manager takes over and with which the range is put
  first in its column, so that it is found for any bounds of keys, whatever ranges are loaded. Also one that is no
  longer in the column, as it was removed, comes back so. (With an empty known begin, as of a range that was never
  loaded, the empty interval is taken for the one that is known, and nothing is sorted.)\<close>

theorem failed_range_for_all_keys:
  assumes "\<not> key_empty (mr_begin (mg_store g a))" and "length (mc_ranges c) > 1"
  shows "\<exists>c' g' as. range_loaded ts rgrid rv None a c g = Inr (c', g') \<and> mc_ranges c' = a # as \<and>
    (mr_state (mg_store g' a) = Range_notset \<or> mr_state (mg_store g a) = Range_deleted) \<and>
    (\<forall>b e. get_range b e False c' g' = Inr (Some a))"
proof -
  let ?g = "range_answered ts rgrid 0 True a g" and ?iv = "Interval_new (mc_seq c)"
  have b: "mr_begin (mg_store ?g a) = mr_begin (mg_store g a)"
    by (simp add: range_answered_def set_state_none_def upd_range_def assign_add_def Let_def range_set_state_def)
  have "\<not> range_equal (mg_store ?g a) ?iv" using assms(1) unfolding range_equal_def b
    by (simp add: Interval_new_def Key_new_def key_equal_def key_empty_def)
  moreover have "key_empty (iv_end ?iv)" by (simp add: Interval_new_def Key_new_def key_empty_def)
  ultimately obtain c' where c': "range_loaded ts rgrid rv None a c g = Inr (c', upd_range a (range_set ?iv 0) ?g)"
    "mc_ranges c' = a # erase_rid (mg_store ?g) (mr_rid (mg_store ?g a)) (mc_ranges c)"
    using col_sort_endless assms(2) by (fastforce simp: range_loaded_def)
  let ?g' = "upd_range a (range_set ?iv 0) ?g"
  have "key_empty (mr_begin (mg_store ?g' a))" "key_empty (mr_end (mg_store ?g' a))"
    by (simp_all add: upd_range_def range_set_def key_copy_empty_iff Interval_new_def) (simp_all add: Key_new_def key_empty_def)
  then have "get_range b e False c' ?g' = Inr (Some a)" for b e using get_range_head c'(2) by blast
  moreover have "mr_state (mg_store ?g' a) = (if mr_state (mg_store g a) = Range_deleted then Range_deleted else Range_notset)"
    by (simp add: upd_range_def range_set_def range_answered_def set_state_none_def assign_add_def Let_def range_set_state_def)
  ultimately show ?thesis using c' by auto
qed

text \<open>C19: The first range of a column, once it is loaded, is the answer for every key too: what it ends with is not taken
  over, whatever its ranger reports, when what it begins with - nothing - is what the manager knew.\<close>

theorem first_range_for_all_keys:
  assumes "mc_ranges c = a # as" and "key_empty (mr_begin (mg_store g a))" and "key_empty (mr_end (mg_store g a))"
    and "key_equal (mr_begin (mg_store g a)) (iv_begin iv)"
  shows "\<exists>c' g'. range_loaded ts rgrid rv (Some (iv, revision)) a c g = Inr (c', g') \<and> mc_ranges c' = a # as \<and>
    mr_end (mg_store g' a) = mr_end (mg_store g a) \<and> (\<forall>b e. get_range b e False c' g' = Inr (Some a))"
proof -
  let ?g = "range_answered ts rgrid revision False a g"
  have p: "mr_begin (mg_store ?g a) = mr_begin (mg_store g a)" "mr_end (mg_store ?g a) = mr_end (mg_store g a)"
    by (simp_all add: range_answered_def upd_range_def range_set_assigned_def)
  let ?c = "apply_loaded_state ts ?g (change_rgr_schema rgrid rv c)"
  have "range_loaded ts rgrid rv (Some (iv, revision)) a c g = Inr (?c, ?g)"
    using assms(4) by (simp add: range_loaded_def col_sort_def range_equal_def p(1))
  moreover have "mc_ranges ?c = a # as" using assms(1) by simp
  moreover have "\<forall>b e. get_range b e False ?c ?g = Inr (Some a)" using get_range_head [OF calculation(2)] assms(2,3) p by simp
  ultimately show ?thesis using p(2) by blast
qed

theorem first_range_for_all_keys_witness:
  "\<exists>c c' g'. map_of (mg_columns two_ranges) 5 = Some c \<and>
    range_loaded 9 7 1 (Some ((Interval_new LEXIC)\<lparr>iv_end := key_of True [[98]]\<rparr>, 4)) 0 c two_ranges = Inr (c', g') \<and>
    get_range (key_of True [[99]]) (key_of True [[99]]) False c' g' = Inr (Some 0)"
proof -
  have new: "mr_begin (mg_store two_ranges 0) = Key_new" "mr_end (mg_store two_ranges 0) = Key_new"
    by (simp_all add: two_ranges_def is_an_initialization_def mngr_new_def put_column_def Column_new_def on_column_def col_init_def
      add_range_def Let_def assign_add_def Range_new_def)
  obtain c where c: "map_of (mg_columns two_ranges) 5 = Some c" "mc_ranges c = 0 # [1]" using two_ranges_column by auto
  have "key_empty Key_new" "key_equal Key_new (iv_begin ((Interval_new LEXIC)\<lparr>iv_end := key_of True [[98]]\<rparr>))"
    by (simp_all add: Key_new_def key_empty_def key_equal_def Interval_new_def)
  then show ?thesis
    using first_range_for_all_keys [OF c(2), of two_ranges "(Interval_new LEXIC)\<lparr>iv_end := key_of True [[98]]\<rparr>" 9 7 1 4] c(1) new
    by metis
qed

theorem failed_range_for_all_keys_witness:
  "\<exists>c g c' g'. map_of (mg_columns two_ranges) 5 = Some c \<and>
    g = upd_range 1 (range_set ((Interval_new LEXIC)\<lparr>iv_begin := key_of True [[98]]\<rparr>) 4) two_ranges \<and>
    range_loaded 9 7 1 None 1 c g = Inr (c', g') \<and> get_range (key_of True [[97]]) (key_of True [[97]]) False c' g' = Inr (Some 1)"
proof -
  let ?g = "upd_range 1 (range_set ((Interval_new LEXIC)\<lparr>iv_begin := key_of True [[98]]\<rparr>) 4) two_ranges"
  obtain c where c: "map_of (mg_columns two_ranges) 5 = Some c" "mc_ranges c = [0, 1]" using two_ranges_column by auto
  have "\<not> key_empty (mr_begin (mg_store ?g 1))" "length (mc_ranges c) > 1"
    by (simp_all add: upd_range_def range_set_def key_copy_empty_iff c) (simp add: key_empty_def key_of_def)
  from failed_range_for_all_keys [OF this, of 9 7 1] show ?thesis using c(1) by blast
qed

end
