(* ===== verification/Mngr_Rangers.thy ===== *)
theory Mngr_Rangers
  imports Mngr_Order
begin

text \<open>
  How the manager gives its ranges to the rangers: src/src/cc/include/swcdb/manager/Ranger.h,
  RangersResources.h and src/src/cc/lib/swcdb/manager/Rangers.cc. The list of rangers is one of records; what is
  put in the queue of a ranger is a trace. Timers, threads of tasks and logs are left out.
\<close>

section \<open>Rangers\<close>

definition RGR_NONE :: byte where "RGR_NONE = 1"
definition RGR_AWAIT :: byte where "RGR_AWAIT = 2"
definition RGR_ACK :: byte where "RGR_ACK = 4"
definition RGR_REMOVED :: byte where "RGR_REMOVED = 8"
definition RGR_MARKED_OFFLINE :: byte where "RGR_MARKED_OFFLINE = 16"
definition RGR_SHUTTINGDOWN :: byte where "RGR_SHUTTINGDOWN = 32"

record ranger =
  rg_id :: u64
  rg_endpoints :: "endpoint list"
  rg_interm :: u64
  rg_failures :: u16
  rg_scale :: u16
  rg_state :: byte
  rg_rebalance :: byte

definition Ranger_new :: "u64 \<Rightarrow> endpoint list \<Rightarrow> ranger" where
  "Ranger_new rgrid eps = \<lparr>rg_id = rgrid, rg_endpoints = eps, rg_interm = 0, rg_failures = 0, rg_scale = 0,
     rg_state = RGR_NONE, rg_rebalance = 0\<rparr>"

definition acknowledged :: "ranger \<Rightarrow> bool" where "acknowledged r \<longleftrightarrow> rg_state r AND RGR_ACK \<noteq> 0"
definition shutting_down :: "ranger \<Rightarrow> bool" where "shutting_down r \<longleftrightarrow> rg_state r AND RGR_SHUTTINGDOWN \<noteq> 0"

definition can_rebalance :: "ranger \<Rightarrow> ranger \<times> bool" where
  "can_rebalance r = (if rg_rebalance r \<noteq> 0 then (r\<lparr>rg_rebalance := rg_rebalance r - 1\<rparr>, True) else (r, False))"

definition has_endpoint :: "endpoint list \<Rightarrow> endpoint list \<Rightarrow> bool" where
  "has_endpoint eps eps' \<longleftrightarrow> (\<exists>e \<in> set eps. e \<in> set eps')"

definition equal_endpoints :: "endpoint list \<Rightarrow> endpoint list \<Rightarrow> bool" where
  "equal_endpoints eps1 eps2 \<longleftrightarrow> length eps1 = length eps2 \<and> (\<forall>e \<in> set eps2. e \<in> set eps1)"

section \<open>The resources of rangers\<close>

record resources =
  rs_rgrid :: u64
  rs_mem :: u32
  rs_cpu :: u32
  rs_ranges :: u64
  rs_load :: u16
  rs_balance :: byte

definition resources_of :: "u64 \<Rightarrow> u32 \<Rightarrow> u32 \<Rightarrow> u64 \<Rightarrow> resources" where
  "resources_of rgrid memory cpu ranges = \<lparr>rs_rgrid = rgrid, rs_mem = memory, rs_cpu = cpu, rs_ranges = ranges,
     rs_load = 0, rs_balance = 0\<rparr>"

record resource_list =
  rl_items :: "resources list"
  rl_due :: u64
  rl_last_check :: i64

text \<open>\<open>check\<close> asks each ranger that is there; the result are the next check and the rangers asked.\<close>

definition resources_check :: "i64 \<Rightarrow> i64 \<Rightarrow> ranger list \<Rightarrow> resource_list \<Rightarrow> i64 \<times> resource_list \<times> ranger list" where
  "resources_check cfg ts rgrs l =
     (if rl_due l \<noteq> 0 then (cfg, l, [])
      else if \<not> sint (ts - rl_last_check l) < sint cfg
      then (let asked = filter (\<lambda>r. rg_state r = RGR_ACK \<or> rg_state r = RGR_MARKED_OFFLINE) rgrs
        in (cfg, l\<lparr>rl_last_check := ts, rl_due := of_nat (length asked)\<rparr>, asked))
      else (cfg - (ts - rl_last_check l), l, []))"

definition add_and_more :: "u64 \<Rightarrow> bool \<Rightarrow> u32 \<Rightarrow> u32 \<Rightarrow> u64 \<Rightarrow> resource_list \<Rightarrow> resource_list \<times> bool" where
  "add_and_more rgrid failed memory cpu ranges l =
     (let l = (if \<not> failed \<and> rl_due l \<noteq> 0 then l\<lparr>rl_items := rl_items l @ [resources_of rgrid memory cpu ranges]\<rparr> else l)
      in if rl_due l \<noteq> 0 then (l\<lparr>rl_due := rl_due l - 1\<rparr>, rl_due l - 1 \<noteq> 0) else (l, True))"

text \<open>
  \<open>evaluate\<close>: how free each ranger is, from 1 to the largest number of 16 bits, and how many ranges those that are
  below half of the best are to give up. Memory and processor are multiplied in 32 bits.
\<close>

definition largest :: "u64 list \<Rightarrow> u64" where "largest xs = fold (\<lambda>x m. if m < x then x else m) xs 1"

definition load_of :: "u64 \<Rightarrow> u64 \<Rightarrow> u64 \<Rightarrow> resources \<Rightarrow> u16" where
  "load_of max_mem max_cpu max_ranges r =
     (let ranges_scale = (rs_ranges r * 100) div max_ranges;
          load = (ucast (rs_mem r * 100 * 32767) div max_mem + ucast (rs_cpu r * 100 * 32767) div max_cpu)
            div (if ranges_scale \<noteq> 0 then ranges_scale else 1)
      in if load > 65535 then 65535 else if load \<noteq> 0 then ucast load else 1)"

definition scaled :: "u16 \<Rightarrow> resources \<Rightarrow> resources" where
  "scaled mx r = r\<lparr>rs_load := ucast ((ucast (rs_load r) * 65535 :: u64) div ucast mx)\<rparr>"

definition largest_load :: "u16 \<Rightarrow> resources list \<Rightarrow> u16" where
  "largest_load m rs = fold (\<lambda>r m. if m < rs_load r then rs_load r else m) rs m"

fun balance_loop :: "u16 \<Rightarrow> byte \<Rightarrow> resources list \<Rightarrow> resources list" where
  "balance_loop mx n [] = []"
| "balance_loop mx n (r # rs) =
     (let (r, n) = (if rs_ranges r \<noteq> 0 \<and> rs_load r < mx
        then (let chk = mx div rs_load r; b = (if ucast n < chk then n else ucast chk)
          in if b \<noteq> 0 then (r\<lparr>rs_balance := b\<rparr>, n - b) else (r, n))
        else (r, n))
      in if n = 0 then r # rs else r # balance_loop mx n rs)"

definition evaluate :: "byte \<Rightarrow> resources list \<Rightarrow> resources list" where
  "evaluate rebalance_max rs =
     (let max_mem = largest (map (\<lambda>r. ucast (rs_mem r)) rs);
          max_cpu = largest (map (\<lambda>r. ucast (rs_cpu r)) rs);
          max_ranges = largest (map rs_ranges rs);
          total = sum_list (map rs_ranges rs);
          rs = map (\<lambda>r. r\<lparr>rs_load := load_of max_mem max_cpu max_ranges r\<rparr>) rs;
          rs = map (scaled (largest_load 1 rs)) rs;
          mx = largest_load 0 rs div 2
      in if rebalance_max = 0 then rs
         else (let rs = sort_key rs_load rs
           in if of_nat (length rs) * 4 < total \<and> mx \<noteq> 0 then balance_loop mx rebalance_max rs else rs))"

text \<open>\<open>changes\<close>: what a ranger takes over from its resources.\<close>

definition take_over :: "resources \<Rightarrow> ranger \<Rightarrow> ranger \<times> bool" where
  "take_over res r =
     (let (r, balance) = (if rs_balance res \<noteq> 0 \<and> rg_state r = RGR_ACK then (r\<lparr>rg_rebalance := rs_balance res\<rparr>, rs_balance res)
        else if rg_rebalance r \<noteq> 0 then (r\<lparr>rg_rebalance := 0\<rparr>, rg_rebalance r) else (r, 0));
          chg = (balance \<noteq> 0 \<or> rg_scale r \<noteq> rs_load res)
      in ((if chg then r\<lparr>rg_scale := rs_load res\<rparr> else r)\<lparr>rg_interm := 0\<rparr>, chg))"

fun take_over_first :: "resources \<Rightarrow> ranger list \<Rightarrow> ranger list \<times> u64 list" where
  "take_over_first res [] = ([], [])"
| "take_over_first res (r # rs) =
     (if rg_id r = rs_rgrid res then (let (r, chg) = take_over res r in (r # rs, if chg then [rg_id r] else []))
      else (let (rs, changed) = take_over_first res rs in (r # rs, changed)))"

fun resources_changes :: "resources list \<Rightarrow> ranger list \<Rightarrow> ranger list \<times> u64 list" where
  "resources_changes [] rgrs = (rgrs, [])"
| "resources_changes (res # ress) rgrs = (let (rgrs, ch) = take_over_first res rgrs; (rgrs, chs) = resources_changes ress rgrs
     in (rgrs, ch @ chs))"

section \<open>A ranger for a range\<close>

text \<open>The first pass: rangers that failed too often are marked and lose their ranges; the ranger that had the range last
  is taken at once; else the ranges under way are counted. The result tells the place of a ranger, or the sum and
  the number.\<close>

fun first_pass :: "u16 \<Rightarrow> endpoint list \<Rightarrow> nat \<Rightarrow> u64 \<Rightarrow> u64 \<Rightarrow> ranger list \<Rightarrow> mngr \<Rightarrow> ranger list \<times> mngr \<times> (nat + u64 \<times> u64)" where
  "first_pass lim eps i tot n [] g = ([], g, Inr (tot, n))"
| "first_pass lim eps i tot n (r # rs) g =
     (if rg_state r = RGR_MARKED_OFFLINE
      then (let (rs, g, res) = first_pass lim eps (Suc i) tot n rs g in (r # rs, g, res))
      else if uint lim \<le> sint (rg_failures r)
      then (let (rs, g, res) = first_pass lim eps (Suc i) tot n rs (columns_rgr_unassigned (rg_id r) g)
        in (r\<lparr>rg_state := RGR_MARKED_OFFLINE\<rparr> # rs, g, res))
      else if acknowledged r
      then (if eps \<noteq> [] \<and> \<not> shutting_down r \<and> has_endpoint (rg_endpoints r) eps then (r # rs, g, Inl i)
        else (let (rs, g, res) = first_pass lim eps (Suc i) (tot + rg_interm r) (n + 1) rs g in (r # rs, g, res)))
      else (let (rs, g, res) = first_pass lim eps (Suc i) tot n rs g in (r # rs, g, res)))"

fun second_pass :: "u64 \<Rightarrow> bool \<Rightarrow> nat \<Rightarrow> u16 \<Rightarrow> u64 \<Rightarrow> nat option \<Rightarrow> ranger list \<Rightarrow> nat option" where
  "second_pass avg last_one i best interm found [] = found"
| "second_pass avg last_one i best interm found (r # rs) =
     (if acknowledged r \<and> rg_interm r \<le> avg \<and> rg_interm r \<le> interm \<and> best \<le> rg_scale r \<and> (\<not> shutting_down r \<or> last_one)
      then second_pass avg last_one (Suc i) (rg_scale r) (rg_interm r) (Some i) rs
      else second_pass avg last_one (Suc i) best interm found rs)"

definition next_rgr :: "(u64 \<Rightarrow> u64 \<Rightarrow> endpoint list) \<Rightarrow> bool \<Rightarrow> u16 \<Rightarrow> nat \<Rightarrow> ranger list \<Rightarrow> mngr \<Rightarrow> ranger list \<times> mngr \<times> nat option" where
  "next_rgr load stopping lim a rgrs g =
     (let (g, eps) = get_last_rgr load a g in
      if stopping then (rgrs, g, None)
      else (case first_pass lim eps 0 0 0 rgrs g of
          (rgrs, g, Inl i) \<Rightarrow> (rgrs, g, Some i)
        | (rgrs, g, Inr (tot, n)) \<Rightarrow>
            if n = 0 then (rgrs, g, None)
            else (rgrs, g, second_pass (tot div n) (n = 1 \<and> \<not> is_data (mr_cid (mg_store g a))) 0 0 (- 1) None rgrs)))"

section \<open>Assigning\<close>

text \<open>
  \<open>assign_ranges_run\<close>: range by range, until none is left, none can be given yet, there is no ranger, or enough
  requests are under way. A range whose column or schema is not known is tried again, and again. What was asked of
  the rangers is the trace. \<open>ts\<close> is the time, \<open>known\<close> tells of the schemas, \<open>due\<close> is the limit of requests.
\<close>

datatype run_end = No_rangers | Waiting_columns | All_given | No_ranger_fits | Limit_reached

record rangers =
  rs_rangers :: "ranger list"
  rs_assignments :: u32
  rs_asked :: "(u64 \<times> nat) list"

record run_world =
  rw_pick :: "nat set \<Rightarrow> nat"
  rw_last :: "u64 \<Rightarrow> u64 \<Rightarrow> endpoint list"
  rw_known :: "u64 \<Rightarrow> bool"
  rw_run :: bool
  rw_stopping :: bool
  rw_failures :: u16
  rw_due :: u32
  rw_ts :: i64

definition queue_range :: "i64 \<Rightarrow> nat \<Rightarrow> nat \<Rightarrow> rangers \<Rightarrow> mngr \<Rightarrow> rangers \<times> mngr" where
  "queue_range ts a i s g = (let r = rs_rangers s ! i in
     (s\<lparr>rs_rangers := (rs_rangers s)[i := r\<lparr>rg_interm := rg_interm r + 1\<rparr>], rs_assignments := rs_assignments s + 1,
        rs_asked := rs_asked s @ [(rg_id r, a)]\<rparr>, set_state_queued ts (rg_id r) a g))"

fun assign_run :: "nat \<Rightarrow> run_world \<Rightarrow> rangers \<Rightarrow> mngr \<Rightarrow> (run_end \<times> rangers \<times> mngr) option" where
  "assign_run 0 w s g = None"
| "assign_run (Suc fuel) w s g =
     (if rs_rangers s = [] \<or> \<not> rw_run w then Some (No_rangers, s, g)
      else (case get_next_unassigned (rw_pick w) g of
          (waiting, None) \<Rightarrow> Some (if waiting then Waiting_columns else All_given, s, g)
        | (waiting, Some a) \<Rightarrow>
            (case next_rgr (rw_last w) (rw_stopping w) (rw_failures w) a (rs_rangers s) g of
               (rgrs, g, None) \<Rightarrow> Some (No_ranger_fits, s\<lparr>rs_rangers := rgrs\<rparr>, g)
             | (rgrs, g, Some i) \<Rightarrow>
                 let s = s\<lparr>rs_rangers := rgrs\<rparr>; cid = mr_cid (mg_store g a) in
                 if \<not> rw_known w cid \<or> map_of (mg_columns g) cid = None then assign_run fuel w s g
                 else (let (s, g) = queue_range (rw_ts w) a i s g in
                   if \<not> sint (rs_assignments s) < sint (rw_due w) then Some (Limit_reached, s, g)
                   else assign_run fuel w s g))))"

text \<open>\<open>assign_ranges\<close> begins a run only with room for requests.\<close>

definition assign_ranges :: "nat \<Rightarrow> bool \<Rightarrow> run_world \<Rightarrow> rangers \<Rightarrow> mngr \<Rightarrow> (run_end \<times> rangers \<times> mngr) option" where
  "assign_ranges fuel ready w s g = (if \<not> ready \<or> \<not> sint (rs_assignments s) < sint (rw_due w) then Some (Limit_reached, s, g)
     else assign_run fuel w s g)"

section \<open>The list of rangers\<close>

definition rgr_get :: "u64 \<Rightarrow> ranger list \<Rightarrow> ranger option" where
  "rgr_get rgrid rgrs = find (\<lambda>r. rg_id r = rgrid) rgrs"

definition rgr_endpoints :: "u64 \<Rightarrow> ranger list \<Rightarrow> endpoint list" where
  "rgr_endpoints rgrid rgrs = (case rgr_get rgrid rgrs of Some r \<Rightarrow> if acknowledged r then rg_endpoints r else [] | None \<Rightarrow> [])"

fun rgr_ack_id :: "u64 \<Rightarrow> endpoint list \<Rightarrow> ranger list \<Rightarrow> ranger list \<times> bool \<times> bool" where
  "rgr_ack_id rgrid eps [] = ([], False, False)"
| "rgr_ack_id rgrid eps (r # rs) =
     (if has_endpoint (rg_endpoints r) eps \<and> rgrid = rg_id r
      then (if acknowledged r then (r # rs, True, False) else (r\<lparr>rg_state := RGR_ACK\<rparr> # rs, True, True))
      else (let (rs, ack, new) = rgr_ack_id rgrid eps rs in (r # rs, ack, new)))"

text \<open>An id for a new ranger: the one wished for, or the smallest from 1 that is free.\<close>

function free_id :: "u64 list \<Rightarrow> u64 \<Rightarrow> u64 option" where
  "free_id ids i = (if i + 1 \<notin> set ids then Some (i + 1) else if i + 1 = 0 then None else free_id ids (i + 1))"
  by pat_completeness auto
termination
proof (relation "measure (\<lambda>(ids, i :: u64). 2 ^ 64 - unat i)")
  fix ids :: "u64 list" and i :: u64
  assume "i + 1 \<noteq> 0"
  then have "unat (i + 1) = unat i + 1" using unatSuc [of i] by (auto simp: add.commute)
  moreover have "unat i < 2 ^ 64" using unsigned_less [of i, where ?'a = nat] by simp
  ultimately show "((ids, i + 1), (ids, i)) \<in> measure (\<lambda>(ids, i :: u64). 2 ^ 64 - unat i)" by simp
qed simp

declare free_id.simps [simp del]

end
