(* ===== verification/Mngr_Assign.thy ===== *)
theory Mngr_Assign
  imports Mngr_Rangers
begin

text \<open>
  The resources of the rangers stay in bounds; a ranger is found for each range, and a run gives all ranges that
  wait to rangers.
\<close>

section \<open>Loads\<close>

lemma largest_step: "fold (\<lambda>x m. if m < x then x else m) xs (m :: u64) \<ge> m"
  by (induction xs arbitrary: m) (auto intro: order_trans less_imp_le simp: not_less)

lemma largest_load_Cons: "largest_load m (x # rs) = largest_load (if m < rs_load x then rs_load x else m) rs"
  by (simp add: largest_load_def)

lemma largest_load_ge: "m \<le> largest_load m rs"
proof (induction rs arbitrary: m)
  case (Cons r rs)
  have "m \<le> (if m < rs_load r then rs_load r else m)" by (simp add: less_imp_le)
  then show ?case unfolding largest_load_Cons by (rule order_trans [OF _ Cons.IH])
qed (simp add: largest_load_def)

lemma largest_load_all: "r \<in> set rs \<Longrightarrow> rs_load r \<le> largest_load m rs"
proof (induction rs arbitrary: m)
  case (Cons x rs)
  show ?case
  proof (cases "r = x")
    case True
    have "rs_load x \<le> (if m < rs_load x then rs_load x else m)" by (simp add: not_less)
    then show ?thesis unfolding largest_load_Cons True by (rule order_trans [OF _ largest_load_ge])
  next
    case False
    then have "r \<in> set rs" using Cons.prems by simp
    then show ?thesis unfolding largest_load_Cons by (rule Cons.IH)
  qed
qed simp

lemma largest_load_there: "largest_load m rs = m \<or> (\<exists>r \<in> set rs. largest_load m rs = rs_load r)"
proof (induction rs arbitrary: m)
  case (Cons x rs)
  show ?case using Cons [of "if m < rs_load x then rs_load x else m"] unfolding largest_load_Cons by (auto split: if_splits)
qed (simp add: largest_load_def)

lemma unat_to_16:
  fixes x :: u64
  assumes "unat x < 2 ^ 16"
  shows "unat (ucast x :: u16) = unat x"
  using assms by (simp add: unsigned_ucast_eq take_bit_nat_eq_self)

lemma load_of_pos: "load_of max_mem max_cpu max_ranges r \<noteq> 0"
proof -
  have "(ucast x :: u16) \<noteq> 0" if "\<not> 65535 < x" "x \<noteq> 0" for x :: u64
  proof
    assume z: "(ucast x :: u16) = 0"
    have "unat x < 2 ^ 16" using that(1) by (simp add: word_less_nat_alt)
    then have "unat x = unat (0 :: u16)" using unat_to_16 [of x] unfolding z by simp
    then show False using that(2) by (simp add: unat_eq_zero)
  qed
  then show ?thesis by (auto simp: load_of_def Let_def)
qed

text \<open>Scaling to the largest load.\<close>

lemma scaled_load:
  assumes "rs_load r \<noteq> 0" and "rs_load r \<le> mx"
  shows "rs_load (scaled mx r) \<noteq> 0" and "rs_load r = mx \<Longrightarrow> rs_load (scaled mx r) = 65535"
proof -
  let ?l = "rs_load r" and ?x = "(ucast (rs_load r) * 65535 :: u64) div ucast mx"
  have lt: "unat ?l < 2 ^ 16" "unat mx < 2 ^ 16" using unsigned_less [of ?l, where ?'a = nat] unsigned_less [of mx, where ?'a = nat] by simp_all
  have up: "unat (ucast ?l :: u64) = unat ?l" "unat (ucast mx :: u64) = unat mx" by (simp_all add: unat_ucast_up)
  have "unat (ucast ?l :: u64) * unat (65535 :: u64) < 2 ^ LENGTH(64)" unfolding up using lt(1) by simp
  then have "unat (ucast ?l * 65535 :: u64) = unat (ucast ?l :: u64) * unat (65535 :: u64)" by (rule iffD1 [OF unat_mult_lem])
  then have "unat (ucast ?l * 65535 :: u64) = unat ?l * 65535" unfolding up by simp
  then have x: "unat ?x = unat ?l * 65535 div unat mx" by (simp add: unat_div up)
  have pos: "0 < unat ?l" "unat ?l \<le> unat mx" using assms by (simp_all add: unat_gt_0 word_le_nat_alt)
  have "unat ?l * 65535 div unat mx \<le> unat mx * 65535 div unat mx" by (rule div_le_mono) (use pos in simp)
  also have "\<dots> = 65535" using pos by simp
  finally have small: "unat ?x < 2 ^ 16" unfolding x by simp
  have "unat (rs_load (scaled mx r)) = unat ?l * 65535 div unat mx"
    using unat_to_16 [OF small] x by (simp add: scaled_def)
  note u = this
  have "unat mx \<le> unat ?l * 65535" using pos lt(2) by (auto intro: le_trans [of _ "1 * 65535"])
  then have "unat ?l * 65535 div unat mx \<noteq> 0" using pos by (simp add: div_eq_0_iff)
  then show "rs_load (scaled mx r) \<noteq> 0" using u by (metis unat_0)
  show "rs_load (scaled mx r) = 65535" if "?l = mx"
  proof -
    have "unat (rs_load (scaled mx r)) = unat (65535 :: u16)" using u that pos by simp
    then show ?thesis using word_unat_eq_iff by blast
  qed
qed

section \<open>Rebalancing\<close>

definition given_up :: "resources list \<Rightarrow> nat" where
  "given_up rs = sum_list (map (\<lambda>r. unat (rs_balance r)) rs)"

lemma balance_loop_same: "map rs_rgrid (balance_loop mx n rs) = map rs_rgrid rs" "map rs_load (balance_loop mx n rs) = map rs_load rs"
  by (induction mx n rs rule: balance_loop.induct) (auto simp: Let_def split: if_splits prod.splits)

lemma balance_loop_bound:
  assumes "\<forall>r \<in> set rs. rs_balance r = 0"
  shows "given_up (balance_loop mx n rs) \<le> unat n \<and>
    (\<forall>r \<in> set (balance_loop mx n rs). rs_balance r \<noteq> 0 \<longrightarrow> rs_load r < mx \<and> rs_ranges r \<noteq> 0)"
  using assms
proof (induction rs arbitrary: n)
  case (Cons r rs)
  let ?b = "if ucast n < mx div rs_load r then n else ucast (mx div rs_load r)"
  define r' n' where "r' = (if rs_ranges r \<noteq> 0 \<and> rs_load r < mx \<and> ?b \<noteq> 0 then r\<lparr>rs_balance := ?b\<rparr> else r)"
    and "n' = (if rs_ranges r \<noteq> 0 \<and> rs_load r < mx \<and> ?b \<noteq> 0 then n - ?b else n)"
  have eq: "balance_loop mx n (r # rs) = (if n' = 0 then r' # rs else r' # balance_loop mx n' rs)"
    by (cases "rs_ranges r \<noteq> 0 \<and> rs_load r < mx"; cases "?b = 0") (simp_all only: balance_loop.simps r'_def n'_def Let_def if_True if_False prod.case simp_thms)
  have "(ucast (mx div rs_load r) :: byte) \<le> n" if "\<not> (ucast n :: u16) < mx div rs_load r"
  proof -
    have "unat (mx div rs_load r) \<le> unat n" using that by (simp add: word_less_nat_alt unat_ucast_up)
    moreover have "unat (ucast (mx div rs_load r) :: byte) \<le> unat (mx div rs_load r)" by (simp add: unsigned_ucast_eq)
    ultimately show ?thesis by (simp add: word_le_nat_alt)
  qed
  then have "?b \<le> n" by simp
  then have left: "unat n' + unat (rs_balance r') = unat n"
    using Cons.prems unat_sub [of ?b n] by (auto simp: n'_def r'_def word_le_nat_alt)
  have r': "rs_balance r' \<noteq> 0 \<longrightarrow> rs_load r' < mx \<and> rs_ranges r' \<noteq> 0" using Cons.prems by (simp add: r'_def)
  have rs: "\<forall>r \<in> set rs. rs_balance r = 0" using Cons.prems by simp
  then have zero: "given_up rs = 0" by (simp add: given_up_def)
  show ?case
  proof (cases "n' = 0")
    case True
    then show ?thesis using left r' rs zero unfolding eq by (auto simp: given_up_def)
  next
    case False
    have "given_up (balance_loop mx n' rs) \<le> unat n' \<and> (\<forall>r \<in> set (balance_loop mx n' rs). rs_balance r \<noteq> 0 \<longrightarrow> rs_load r < mx \<and> rs_ranges r \<noteq> 0)"
      using Cons.IH [OF rs] .
    then show ?thesis using left r' False unfolding eq by (auto simp: given_up_def)
  qed
qed (simp add: given_up_def)

text \<open>C17: What the manager makes of the resources its rangers report: each gets a load scale of at least one - nothing is
  divided by zero -, at least one the largest there is; all together give up no more ranges than the configuration
  allows, and only rangers below half of the largest scale, that have ranges, give up any.\<close>

theorem loads_in_bounds:
  assumes "\<forall>r \<in> set rs. rs_balance r = 0"
  shows "(\<forall>r \<in> set (evaluate n rs). rs_load r \<noteq> 0 \<and> (rs_balance r \<noteq> 0 \<longrightarrow> rs_load r < 32767 \<and> rs_ranges r \<noteq> 0)) \<and>
    (rs \<noteq> [] \<longrightarrow> (\<exists>r \<in> set (evaluate n rs). rs_load r = 65535)) \<and>
    sum_list (map (\<lambda>r. unat (rs_balance r)) (evaluate n rs)) \<le> unat n \<and>
    mset (map rs_rgrid (evaluate n rs)) = mset (map rs_rgrid rs)"
proof -
  define f where "f = (\<lambda>r. r\<lparr>rs_load := load_of (largest (map (\<lambda>r. ucast (rs_mem r)) rs))
    (largest (map (\<lambda>r. ucast (rs_cpu r)) rs)) (largest (map rs_ranges rs)) r\<rparr>)"
  define mx where "mx = largest_load 1 (map f rs)"
  define out where "out = map (scaled mx) (map f rs)"
  have f: "rs_load (f r) \<noteq> 0" "rs_balance (f r) = rs_balance r" "rs_rgrid (f r) = rs_rgrid r" for r
    by (simp_all add: f_def load_of_pos)
  have le: "rs_load (f r) \<le> mx" if "r \<in> set rs" for r using largest_load_all [of "f r" "map f rs" 1] that by (simp add: mx_def)
  have load: "rs_load r \<noteq> 0" if "r \<in> set out" for r using scaled_load(1) [OF f(1) le] that by (auto simp: out_def)
  have top: "\<exists>r \<in> set out. rs_load r = 65535" if ne: "rs \<noteq> []"
  proof -
    have "\<exists>r \<in> set rs. rs_load (f r) = mx"
    proof (cases "mx = 1")
      case True
      obtain r where r: "r \<in> set rs" using ne by (meson last_in_set)
      have "unat (rs_load (f r)) \<le> 1" "unat (rs_load (f r)) \<noteq> 0"
        using le [OF r] f(1) [of r] True by (simp_all add: word_le_nat_alt unat_eq_zero)
      then have "unat (rs_load (f r)) = unat (1 :: u16)" by simp
      then have "rs_load (f r) = 1" by (simp only: word_unat_eq_iff)
      then show ?thesis using r True by blast
    next
      case False
      then show ?thesis using largest_load_there [of 1 "map f rs"] by (auto simp: mx_def)
    qed
    then show ?thesis using scaled_load(2) [OF f(1) le] by (auto simp: out_def)
  qed
  have same: "\<forall>r \<in> set out. rs_balance r = 0" "map rs_rgrid out = map rs_rgrid rs"
    using assms f by (auto simp: out_def scaled_def)
  have half: "largest_load 0 out div 2 = 32767" if ne: "rs \<noteq> []"
  proof -
    obtain r where "r \<in> set out" "rs_load r = 65535" using top [OF ne] by blast
    then have "65535 \<le> largest_load 0 out" using largest_load_all by metis
    moreover have "largest_load 0 out \<le> 65535"
      using unsigned_less [of "largest_load 0 out", where ?'a = nat] by (simp add: word_le_nat_alt)
    ultimately have "largest_load 0 out = 65535" by (rule antisym [rotated])
    then show ?thesis by simp
  qed
  have ev: "evaluate n rs = (if n = 0 then out else if of_nat (length (sort_key rs_load out)) * 4 < sum_list (map rs_ranges rs) \<and>
      largest_load 0 out div 2 \<noteq> 0 then balance_loop (largest_load 0 out div 2) n (sort_key rs_load out) else sort_key rs_load out)"
    by (simp add: evaluate_def Let_def out_def mx_def f_def)
  have sorted: "\<forall>r \<in> set (sort_key rs_load out). rs_balance r = 0" "mset (map rs_rgrid (sort_key rs_load out)) = mset (map rs_rgrid rs)"
    using same by (simp_all flip: same(2))
  have zero: "sum_list (map (\<lambda>r. unat (rs_balance r)) xs) \<le> unat n" if "\<forall>r \<in> set xs. rs_balance r = 0" for xs
    using that by (induction xs) auto
  show ?thesis
  proof (cases "n \<noteq> 0 \<and> of_nat (length (sort_key rs_load out)) * 4 < sum_list (map rs_ranges rs) \<and> largest_load 0 out div 2 \<noteq> 0")
    case True
    then have e: "evaluate n rs = balance_loop (largest_load 0 out div 2) n (sort_key rs_load out)" by (simp add: ev)
    have ne: "rs \<noteq> []" using True by (auto simp: out_def)
    note b = balance_loop_bound [OF sorted(1), of "largest_load 0 out div 2" n, unfolded half [OF ne]]
      balance_loop_same [of 32767 n "sort_key rs_load out"]
    have loads: "set (map rs_load (balance_loop 32767 n (sort_key rs_load out))) = set (map rs_load out)"
      unfolding b(3) by simp
    have "\<forall>r \<in> set (balance_loop 32767 n (sort_key rs_load out)). rs_load r \<noteq> 0"
      using loads load by (auto simp: image_iff dest!: equalityD1 [THEN subsetD])
    moreover have "\<exists>r \<in> set (balance_loop 32767 n (sort_key rs_load out)). rs_load r = 65535"
      using loads top [OF ne] by (metis (no_types, lifting) image_iff list.set_map)
    moreover have "mset (map rs_rgrid (balance_loop 32767 n (sort_key rs_load out))) = mset (map rs_rgrid rs)"
      unfolding b(2) using sorted(2) .
    ultimately show ?thesis using b(1) unfolding e half [OF ne] given_up_def by blast
  next
    case False
    then consider "evaluate n rs = out" | "evaluate n rs = sort_key rs_load out" unfolding ev by argo
    then show ?thesis
    proof cases
      case 1
      then show ?thesis using load top same zero [OF same(1)] by simp
    next
      case 2
      then show ?thesis using load top same sorted zero [OF sorted(1)] by simp
    qed
  qed
qed

text \<open>Two rangers that are alike but for their memory: with more than 1310 megabytes the product leaves 32 bits, and
  the one with more memory counts as the one under more load.\<close>

lemma more_memory_more_load:
  "map (\<lambda>r. (rs_rgrid r, rs_load r)) (evaluate 0 [resources_of 1 1000 1000 10, resources_of 2 1400 1000 10]) = [(1, 65535), (2, 40664)]"
  by code_simp

section \<open>A ranger for a range\<close>

definition fit :: "u16 \<Rightarrow> ranger \<Rightarrow> bool" where
  "fit lim r \<longleftrightarrow> rg_state r = RGR_MARKED_OFFLINE \<or> sint (rg_failures r) < uint lim"

lemma offline_not_acknowledged: "rg_state r = RGR_MARKED_OFFLINE \<Longrightarrow> \<not> acknowledged r"
  by (simp add: acknowledged_def RGR_MARKED_OFFLINE_def RGR_ACK_def)

lemma first_pass_gives:
  assumes "\<forall>r \<in> set rs. fit lim r"
  shows "\<exists>res. first_pass lim eps i tot n rs g = (rs, g, res) \<and>
    (case res of Inl j \<Rightarrow> i \<le> j \<and> j < i + length rs \<and> acknowledged (rs ! (j - i)) \<and> \<not> shutting_down (rs ! (j - i)) \<and>
        has_endpoint (rg_endpoints (rs ! (j - i))) eps
      | Inr (t, m) \<Rightarrow> t = tot + sum_list (map rg_interm (filter acknowledged rs)) \<and> m = n + of_nat (length (filter acknowledged rs)))"
  using assms
proof (induction rs arbitrary: i tot n)
  case (Cons r rs)
  have fit: "fit lim r" and rs: "\<forall>r \<in> set rs. fit lim r" using Cons.prems by simp_all
  let ?go = "\<lambda>tot n. first_pass lim eps (Suc i) tot n rs g"
  have later: "case res of Inl j \<Rightarrow> i \<le> j \<and> j < i + length (r # rs) \<and> acknowledged ((r # rs) ! (j - i)) \<and> \<not> shutting_down ((r # rs) ! (j - i)) \<and>
        has_endpoint (rg_endpoints ((r # rs) ! (j - i))) eps
      | Inr (t, m) \<Rightarrow> t = tot' + sum_list (map rg_interm (filter acknowledged rs)) \<and> m = n' + of_nat (length (filter acknowledged rs))"
    if "case res of Inl j \<Rightarrow> Suc i \<le> j \<and> j < Suc i + length rs \<and> acknowledged (rs ! (j - Suc i)) \<and> \<not> shutting_down (rs ! (j - Suc i)) \<and>
        has_endpoint (rg_endpoints (rs ! (j - Suc i))) eps
      | Inr (t, m) \<Rightarrow> t = tot' + sum_list (map rg_interm (filter acknowledged rs)) \<and> m = n' + of_nat (length (filter acknowledged rs))" for res tot' n'
    using that by (auto simp: nth_Cons' split: sum.splits)
  show ?case
  proof (cases "acknowledged r")
    case True
    then have st: "rg_state r \<noteq> RGR_MARKED_OFFLINE" "\<not> uint lim \<le> sint (rg_failures r)"
      using offline_not_acknowledged fit by (auto simp: fit_def)
    show ?thesis
    proof (cases "eps \<noteq> [] \<and> \<not> shutting_down r \<and> has_endpoint (rg_endpoints r) eps")
      case True
      then show ?thesis using st \<open>acknowledged r\<close> by simp
    next
      case False
      obtain res where "?go (tot + rg_interm r) (n + 1) = (rs, g, res)" and res: "case res of Inl j \<Rightarrow> Suc i \<le> j \<and> j < Suc i + length rs \<and> acknowledged (rs ! (j - Suc i)) \<and>
          \<not> shutting_down (rs ! (j - Suc i)) \<and> has_endpoint (rg_endpoints (rs ! (j - Suc i))) eps
        | Inr (t, m) \<Rightarrow> t = tot + rg_interm r + sum_list (map rg_interm (filter acknowledged rs)) \<and> m = n + 1 + of_nat (length (filter acknowledged rs))"
        using Cons.IH [OF rs, of "Suc i" "tot + rg_interm r" "n + 1"] by blast
      then have "first_pass lim eps i tot n (r # rs) g = (r # rs, g, res)" using st \<open>acknowledged r\<close> False by auto
      then show ?thesis using later [OF res] \<open>acknowledged r\<close> by (auto simp: add.assoc split: sum.splits)
    qed
  next
    case False
    obtain res where "?go tot n = (rs, g, res)" and res: "case res of Inl j \<Rightarrow> Suc i \<le> j \<and> j < Suc i + length rs \<and> acknowledged (rs ! (j - Suc i)) \<and>
          \<not> shutting_down (rs ! (j - Suc i)) \<and> has_endpoint (rg_endpoints (rs ! (j - Suc i))) eps
        | Inr (t, m) \<Rightarrow> t = tot + sum_list (map rg_interm (filter acknowledged rs)) \<and> m = n + of_nat (length (filter acknowledged rs))"
      using Cons.IH [OF rs, of "Suc i" tot n] by blast
    then have "first_pass lim eps i tot n (r # rs) g = (r # rs, g, res)" using fit False by (auto simp: fit_def)
    then show ?thesis using later [OF res] False by (auto split: sum.splits)
  qed
qed simp

definition eligible :: "u64 \<Rightarrow> bool \<Rightarrow> ranger \<Rightarrow> bool" where
  "eligible avg last_one r \<longleftrightarrow> acknowledged r \<and> rg_interm r \<le> avg \<and> (\<not> shutting_down r \<or> last_one)"

lemma second_pass_eligible:
  "second_pass avg last_one i best interm found rs = Some j \<Longrightarrow>
    found = Some j \<or> (i \<le> j \<and> j < i + length rs \<and> eligible avg last_one (rs ! (j - i)))"
proof (induction rs arbitrary: i best interm found)
  case (Cons r rs)
  have "found = Some j \<or> (eligible avg last_one r \<and> j = i) \<or> (Suc i \<le> j \<and> j < Suc i + length rs \<and> eligible avg last_one (rs ! (j - Suc i)))"
    using Cons.prems Cons.IH [of "Suc i" "rg_scale r" "rg_interm r" "Some i"] Cons.IH [of "Suc i" best interm found]
    by (auto simp: eligible_def split: if_splits)
  then show ?case by (auto simp: nth_Cons')
qed simp

lemma second_pass_keeps: "found \<noteq> None \<Longrightarrow> second_pass avg last_one i best interm found rs \<noteq> None"
  by (induction rs arbitrary: i best interm found) auto

lemma second_pass_finds:
  assumes "r \<in> set rs" and "eligible avg last_one r"
  shows "second_pass avg last_one i 0 (- 1) None rs \<noteq> None"
  using assms
proof (induction rs arbitrary: i)
  case (Cons x rs)
  show ?case
  proof (cases "eligible avg last_one x")
    case True
    then have "second_pass avg last_one i 0 (- 1) None (x # rs) = second_pass avg last_one (Suc i) (rg_scale x) (rg_interm x) (Some i) rs"
      by (simp add: eligible_def word_order.extremum)
    then show ?thesis using second_pass_keeps by simp
  next
    case False
    then have "second_pass avg last_one i 0 (- 1) None (x # rs) = second_pass avg last_one (Suc i) 0 (- 1) None rs"
      by (auto simp: eligible_def)
    then show ?thesis using Cons False by auto
  qed
qed simp

text \<open>Some ranger has no more than the mean.\<close>

lemma unat_sum_list:
  fixes xs :: "u64 list"
  assumes "sum_list (map unat xs) < 2 ^ 64"
  shows "unat (sum_list xs) = sum_list (map unat xs)"
  using assms
proof (induction xs)
  case (Cons x xs)
  then have "unat (sum_list xs) = sum_list (map unat xs)" by simp
  then show ?case using Cons.prems by (simp add: unat_add_lem [THEN iffD1])
qed simp

lemma sum_list_at_least: "\<forall>x \<in> set xs. (c :: nat) \<le> f x \<Longrightarrow> length xs * c \<le> sum_list (map f xs)"
  by (induction xs) auto

lemma one_below_mean:
  fixes xs :: "u64 list"
  assumes "xs \<noteq> []" and "sum_list (map unat xs) < 2 ^ 64" and "length xs < 2 ^ 64"
  shows "\<exists>x \<in> set xs. x \<le> sum_list xs div of_nat (length xs)"
proof (rule ccontr)
  let ?q = "sum_list (map unat xs) div length xs"
  have "unat (sum_list xs div of_nat (length xs)) = ?q"
    using unat_sum_list [OF assms(2)] assms(3) by (simp add: unat_div)
  moreover assume "\<not> ?thesis"
  ultimately have "\<forall>x \<in> set xs. ?q + 1 \<le> unat x" by (auto simp: word_le_nat_alt not_le)
  then have "length xs * (?q + 1) \<le> sum_list (map unat xs)" by (rule sum_list_at_least)
  moreover have "sum_list (map unat xs) < length xs * (?q + 1)" using assms(1) by (simp add: dividend_less_times_div)
  ultimately show False by simp
qed

definition mean :: "ranger list \<Rightarrow> u64" where
  "mean rgrs = sum_list (map rg_interm (filter acknowledged rgrs)) div of_nat (length (filter acknowledged rgrs))"

definition under_way :: "ranger list \<Rightarrow> nat" where
  "under_way rgrs = sum_list (map (\<lambda>r. unat (rg_interm r)) rgrs)"

definition rangers_ready :: "u16 \<Rightarrow> ranger list \<Rightarrow> bool" where
  "rangers_ready lim rgrs \<longleftrightarrow> (\<forall>r \<in> set rgrs. fit lim r \<and> (acknowledged r \<longrightarrow> \<not> shutting_down r)) \<and>
     (\<exists>r \<in> set rgrs. acknowledged r) \<and> under_way rgrs < 2 ^ 64 \<and> length rgrs < 2 ^ 64"

lemma under_way_filter: "under_way (filter P rgrs) \<le> under_way rgrs"
  by (induction rgrs) (auto simp: under_way_def)

lemma next_rgr_finds:
  assumes "rangers_ready lim rgrs"
  shows "\<exists>i < length rgrs. next_rgr load False lim a rgrs g = (rgrs, fst (get_last_rgr load a g), Some i) \<and>
    acknowledged (rgrs ! i) \<and>
    (has_endpoint (rg_endpoints (rgrs ! i)) (snd (get_last_rgr load a g)) \<or> rg_interm (rgrs ! i) \<le> mean rgrs)"
proof -
  obtain g' eps where l: "get_last_rgr load a g = (g', eps)" by force
  let ?ack = "filter acknowledged rgrs"
  have fit: "\<forall>r \<in> set rgrs. fit lim r" and up: "\<And>r. r \<in> set rgrs \<Longrightarrow> acknowledged r \<Longrightarrow> \<not> shutting_down r" and ne: "?ack \<noteq> []"
    and room: "under_way ?ack < 2 ^ 64" "length ?ack < 2 ^ 64"
    using assms under_way_filter [of acknowledged rgrs] le_less_trans [OF length_filter_le [of acknowledged rgrs], of "2 ^ 64"]
    by (auto simp: rangers_ready_def filter_empty_conv)
  obtain res where f: "first_pass lim eps 0 0 0 rgrs g' = (rgrs, g', res)" and res: "case res of
      Inl j \<Rightarrow> 0 \<le> j \<and> j < 0 + length rgrs \<and> acknowledged (rgrs ! (j - 0)) \<and> \<not> shutting_down (rgrs ! (j - 0)) \<and>
        has_endpoint (rg_endpoints (rgrs ! (j - 0))) eps
    | Inr (t, m) \<Rightarrow> t = 0 + sum_list (map rg_interm ?ack) \<and> m = 0 + of_nat (length ?ack)"
    using first_pass_gives [OF fit] by blast
  show ?thesis
  proof (cases res)
    case (Inl j)
    then show ?thesis using f res l by (auto simp: next_rgr_def)
  next
    case (Inr tm)
    then have tm: "tm = (sum_list (map rg_interm ?ack), of_nat (length ?ack))" using res by (cases tm) simp
    have "(of_nat (length ?ack) :: u64) \<noteq> 0" using ne room(2) by (metis length_0_conv unat_0 unat_of_nat64)
    moreover define one where "one = ((of_nat (length ?ack) :: u64) = 1 \<and> \<not> is_data (mr_cid (mg_store g' a)))"
    ultimately have nx: "next_rgr load False lim a rgrs g = (rgrs, g', second_pass (mean rgrs) one 0 0 (- 1) None rgrs)"
      using f Inr l by (simp add: next_rgr_def tm mean_def)
    have "sum_list (map unat (map rg_interm ?ack)) < 2 ^ 64" using room(1) by (simp add: under_way_def comp_def)
    then obtain r where "r \<in> set ?ack" "rg_interm r \<le> mean rgrs"
      using one_below_mean [of "map rg_interm ?ack"] ne room(2) by (auto simp: mean_def)
    then have "r \<in> set rgrs" "eligible (mean rgrs) one r" using up by (auto simp: eligible_def)
    then obtain j where "second_pass (mean rgrs) one 0 0 (- 1) None rgrs = Some j" using second_pass_finds by blast
    with second_pass_eligible [OF this] show ?thesis using nx l by (auto simp: eligible_def)
  qed
qed

text \<open>A ranger that shuts down counts in the mean but gets nothing: beside it no other one may be found.\<close>

lemma shutting_ranger_blocks:
  "snd (snd (next_rgr (\<lambda>_ _. []) False 255 0
     [(Ranger_new 1 [])\<lparr>rg_state := RGR_ACK OR RGR_SHUTTINGDOWN\<rparr>, (Ranger_new 2 [])\<lparr>rg_state := RGR_ACK, rg_interm := 1\<rparr>] mngr_new)) = None"
  by code_simp

section \<open>A run\<close>

definition waiting :: "mngr \<Rightarrow> nat set" where "waiting g = (\<Union>n < 4. mg_need g n)"

definition run_ready :: "run_world \<Rightarrow> rangers \<Rightarrow> mngr \<Rightarrow> bool" where
  "run_ready w s g \<longleftrightarrow> rw_run w \<and> \<not> rw_stopping w \<and> (\<forall>as. as \<noteq> {} \<longrightarrow> rw_pick w as \<in> as) \<and>
     rangers_ready (rw_failures w) (rs_rangers s) \<and> under_way (rs_rangers s) + card (waiting g) < 2 ^ 64 \<and>
     (\<forall>a \<in> waiting g. rw_known w (mr_cid (mg_store g a)) \<and> map_of (mg_columns g) (mr_cid (mg_store g a)) \<noteq> None)"

lemma assign_group_less: "assign_group cid < 4" by (simp add: assign_group_def)

lemma finite_waiting: "groups_ok g \<Longrightarrow> finite (waiting g)"
  by (simp add: waiting_def groups_ok_def)

lemma last_parts:
  "mg_need (fst (get_last_rgr load a g)) = mg_need g" "mg_columns (fst (get_last_rgr load a g)) = mg_columns g"
  "mr_cid (mg_store (fst (get_last_rgr load a g)) b) = mr_cid (mg_store g b)"
  "mr_state (mg_store (fst (get_last_rgr load a g)) b) = mr_state (mg_store g b)"
  "mr_rgrid (mg_store (fst (get_last_rgr load a g)) b) = mr_rgrid (mg_store g b)"
  by (auto simp: get_last_rgr_def Let_def upd_range_def split: option.split)

lemma queued_parts:
  fixes g :: mngr and a :: nat and ts :: i64 and rgrid :: u64
  defines "g' \<equiv> set_state_queued ts rgrid a g"
  shows "mg_columns g' = mg_columns g" "mr_cid (mg_store g' b) = mr_cid (mg_store g b)"
    "mr_state (mg_store g' b) = (if b = a then Range_queued else mr_state (mg_store g b))"
    "mr_rgrid (mg_store g' b) = (if b = a then rgrid else mr_rgrid (mg_store g b))"
    "groups_ok g \<Longrightarrow> waiting g' = waiting g - {a}"
proof -
  show "mg_columns g' = mg_columns g" "mr_cid (mg_store g' b) = mr_cid (mg_store g b)"
    "mr_state (mg_store g' b) = (if b = a then Range_queued else mr_state (mg_store g b))"
    "mr_rgrid (mg_store g' b) = (if b = a then rgrid else mr_rgrid (mg_store g b))"
    by (simp_all add: g'_def set_state_queued_def upd_range_def assign_remove_def Let_def)
  assume "groups_ok g"
  then have "a \<in> mg_need g n \<longleftrightarrow> a \<in> mg_need g n \<and> n = assign_group (mr_cid (mg_store g a))" for n by (auto simp: groups_ok_def)
  then have "mg_need g' n = mg_need g n - {a}" for n
    by (auto simp: g'_def set_state_queued_def upd_range_def assign_remove_def Let_def)
  then show "waiting g' = waiting g - {a}" by (auto simp: waiting_def)
qed

lemma next_given:
  assumes "\<forall>as. as \<noteq> {} \<longrightarrow> pick as \<in> as"
  shows "case get_next_unassigned pick g of (w, Some a) \<Rightarrow> a \<in> waiting g
    | (w, None) \<Rightarrow> if w then (\<exists>n < 3. \<not> columns_done g n) else waiting g = {}"
proof -
  have four: "waiting g = mg_need g 0 \<union> mg_need g 1 \<union> mg_need g 2 \<union> mg_need g 3"
    "(\<exists>n < 3. P n) \<longleftrightarrow> P 0 \<or> P 1 \<or> P 2" for P :: "nat \<Rightarrow> bool"
    by (auto simp: waiting_def numeral_eq_Suc less_Suc_eq lessThan_Suc)
  show ?thesis
    unfolding get_next_unassigned_def preload_step four preload.simps(1) group_get_def
    using assms by (simp split: if_splits)
qed

lemma under_way_queue: "i < length rgrs \<Longrightarrow> under_way rgrs + 1 < 2 ^ 64 \<Longrightarrow>
  under_way (rgrs[i := (rgrs ! i)\<lparr>rg_interm := rg_interm (rgrs ! i) + 1\<rparr>]) = under_way rgrs + 1"
proof (induction rgrs arbitrary: i)
  case (Cons r rgrs)
  show ?case
  proof (cases i)
    case 0
    have "unat (rg_interm r) + 1 < 2 ^ 64" using Cons.prems(2) by (simp add: under_way_def)
    then have "unat (rg_interm r + 1) = unat (rg_interm r) + 1" using unat_add_lem [of "rg_interm r" 1] by simp
    then show ?thesis by (simp add: 0 under_way_def)
  next
    case (Suc j)
    then have "under_way (rgrs[j := (rgrs ! j)\<lparr>rg_interm := rg_interm (rgrs ! j) + 1\<rparr>]) = under_way rgrs + 1"
      using Cons by (simp add: under_way_def)
    then show ?thesis by (simp add: Suc under_way_def)
  qed
qed simp

text \<open>Who could be asked.\<close>

definition takers :: "rangers \<Rightarrow> u64 set" where "takers s = rg_id ` {r \<in> set (rs_rangers s). acknowledged r}"

text \<open>Giving one range.\<close>

lemma queue_keeps:
  fixes g :: mngr
  assumes ready: "run_ready w s g" "groups_ok g" and a: "a \<in> waiting g" and i: "i < length (rs_rangers s)" "acknowledged (rs_rangers s ! i)"
    and q: "queue_range ts a i (s\<lparr>rs_rangers := rs_rangers s\<rparr>) (fst (get_last_rgr load a g)) = (s', g')"
  shows "run_ready w s' g'" "groups_ok g'" "waiting g' = waiting g - {a}" "takers s' = takers s"
    "\<exists>rgrid \<in> takers s. rs_asked s' = rs_asked s @ [(rgrid, a)] \<and> mr_state (mg_store g' a) = Range_queued \<and> mr_rgrid (mg_store g' a) = rgrid"
    "b \<noteq> a \<Longrightarrow> mr_state (mg_store g' b) = mr_state (mg_store g b) \<and> mr_rgrid (mg_store g' b) = mr_rgrid (mg_store g b)"
proof -
  define r where "r = rs_rangers s ! i"
  define g1 where "g1 = fst (get_last_rgr load a g)"
  have s': "rs_rangers s' = (rs_rangers s)[i := r\<lparr>rg_interm := rg_interm r + 1\<rparr>]" "rs_asked s' = rs_asked s @ [(rg_id r, a)]"
    and g': "g' = set_state_queued ts (rg_id r) a g1"
    using q by (auto simp: queue_range_def Let_def r_def g1_def)
  have g1: "groups_ok g1" "waiting g1 = waiting g"
    using steady_last [of g load a] ready(2) by (simp_all add: steady_def g1_def waiting_def last_parts)
  show "groups_ok g'" using steady_queued [of g1] g1(1) by (simp add: steady_def g')
  show wait: "waiting g' = waiting g - {a}" using queued_parts(5) [OF g1(1)] g1(2) by (simp add: g')
  have parts: "mg_columns g' = mg_columns g" "mr_cid (mg_store g' b) = mr_cid (mg_store g b)" for b
    by (simp_all add: g' queued_parts g1_def last_parts)
  have there: "r \<in> set (rs_rangers s)" using i(1) by (simp add: r_def)
  have sub: "set (rs_rangers s') \<subseteq> insert (r\<lparr>rg_interm := rg_interm r + 1\<rparr>) (set (rs_rangers s))"
    unfolding s' by (rule set_update_subset_insert)
  have like: "acknowledged (r\<lparr>rg_interm := n\<rparr>) = acknowledged r" "shutting_down (r\<lparr>rg_interm := n\<rparr>) = shutting_down r"
    "fit lim (r\<lparr>rg_interm := n\<rparr>) = fit lim r" for n lim
    by (simp_all add: acknowledged_def shutting_down_def fit_def)
  have new: "r\<lparr>rg_interm := rg_interm r + 1\<rparr> \<in> set (rs_rangers s')" unfolding s' by (rule set_update_memI [OF i(1)])
  have card: "card (waiting g) = Suc (card (waiting g'))"
    unfolding wait using card_Suc_Diff1 [OF finite_waiting [OF ready(2)] a] by simp
  have r1: "rangers_ready (rw_failures w) (rs_rangers s)" "under_way (rs_rangers s) + card (waiting g) < 2 ^ 64"
    using ready(1) by (simp_all add: run_ready_def)
  then have uw: "under_way (rs_rangers s') = under_way (rs_rangers s) + 1"
    using under_way_queue [OF i(1)] card by (simp add: s' r_def)
  have ok: "\<forall>x \<in> set (rs_rangers s'). fit (rw_failures w) x \<and> (acknowledged x \<longrightarrow> \<not> shutting_down x)"
  proof
    fix x
    assume "x \<in> set (rs_rangers s')"
    then consider "x = r\<lparr>rg_interm := rg_interm r + 1\<rparr>" | "x \<in> set (rs_rangers s)" using sub by blast
    then show "fit (rw_failures w) x \<and> (acknowledged x \<longrightarrow> \<not> shutting_down x)"
      by cases (use r1(1) there like in \<open>auto simp: rangers_ready_def\<close>)
  qed
  have ack: "\<exists>x \<in> set (rs_rangers s'). acknowledged x" using new like(1) i(2) by (auto simp: r_def)
  have room: "under_way (rs_rangers s') + card (waiting g') < 2 ^ 64" using r1(2) card uw by simp
  have len: "length (rs_rangers s') < 2 ^ 64" using r1(1) by (simp add: s' rangers_ready_def)
  have "rangers_ready (rw_failures w) (rs_rangers s')" unfolding rangers_ready_def using ok ack len room by auto
  then show "run_ready w s' g'" using ready(1) room by (auto simp: run_ready_def parts wait)
  have "map (\<lambda>x. (rg_id x, acknowledged x)) (rs_rangers s') = map (\<lambda>x. (rg_id x, acknowledged x)) (rs_rangers s)"
    unfolding s' map_update using i(1) by (simp add: acknowledged_def r_def list_update_same_conv)
  from arg_cong [OF this, of set]
  have "(\<lambda>x. (rg_id x, acknowledged x)) ` set (rs_rangers s') = (\<lambda>x. (rg_id x, acknowledged x)) ` set (rs_rangers s)"
    by (simp only: list.set_map)
  moreover have "takers t = {n. (n, True) \<in> (\<lambda>x. (rg_id x, acknowledged x)) ` set (rs_rangers t)}" for t
    by (auto simp: takers_def)
  ultimately show "takers s' = takers s" by simp
  have "rg_id r \<in> takers s" using there i(2) by (auto simp: takers_def r_def)
  then show "\<exists>rgrid \<in> takers s. rs_asked s' = rs_asked s @ [(rgrid, a)] \<and> mr_state (mg_store g' a) = Range_queued \<and> mr_rgrid (mg_store g' a) = rgrid"
    using s'(2) by (auto simp: g' queued_parts)
  show "mr_state (mg_store g' b) = mr_state (mg_store g b) \<and> mr_rgrid (mg_store g' b) = mr_rgrid (mg_store g b)" if "b \<noteq> a"
    using that by (simp add: g' queued_parts g1_def last_parts)
qed

text \<open>What a run comes to, from its start: what was asked, and why it ended.\<close>

definition run_result :: "run_world \<Rightarrow> rangers \<Rightarrow> mngr \<Rightarrow> (u64 \<times> nat) list \<Rightarrow> run_end \<times> rangers \<times> mngr \<Rightarrow> bool" where
  "run_result w s g asked = (\<lambda>(e, s', g'). rs_asked s' = rs_asked s @ asked \<and> distinct (map snd asked) \<and>
     snd ` set asked \<subseteq> waiting g \<and> waiting g' = waiting g - snd ` set asked \<and>
     (\<forall>(rgrid, a) \<in> set asked. rgrid \<in> takers s \<and> mr_state (mg_store g' a) = Range_queued \<and> mr_rgrid (mg_store g' a) = rgrid) \<and>
     (\<forall>a. a \<notin> snd ` set asked \<longrightarrow> mr_state (mg_store g' a) = mr_state (mg_store g a)  \<and> mr_rgrid (mg_store g' a) = mr_rgrid (mg_store g a)) \<and>
     (case e of All_given \<Rightarrow> waiting g' = {} | Waiting_columns \<Rightarrow> \<exists>n < 3. \<not> columns_done g' n
      | Limit_reached \<Rightarrow> \<not> sint (rs_assignments s') < sint (rw_due w) | _ \<Rightarrow> False))"

lemma run_result_step:
  assumes "run_result w s1 g1 asked (e, s', g')" and "rs_asked s1 = rs_asked s @ [(rgrid, a)]" and "waiting g1 = waiting g - {a}"
    and "a \<in> waiting g" and "takers s1 = takers s" and "rgrid \<in> takers s"
    and "mr_state (mg_store g1 a) = Range_queued" "mr_rgrid (mg_store g1 a) = rgrid"
    and "\<And>b. b \<noteq> a \<Longrightarrow> mr_state (mg_store g1 b) = mr_state (mg_store g b) \<and> mr_rgrid (mg_store g1 b) = mr_rgrid (mg_store g b)"
  shows "run_result w s g ((rgrid, a) # asked) (e, s', g')"
proof -
  have "a \<notin> snd ` set asked" using assms(1,3) by (auto simp: run_result_def)
  then show ?thesis using assms by (auto simp: run_result_def)
qed

lemma run_ends:
  assumes "run_ready w s g" and "groups_ok g" and "card (waiting g) < fuel"
  shows "\<exists>res asked. assign_run fuel w s g = Some res \<and> run_result w s g asked res"
  using assms
proof (induction fuel arbitrary: s g)
  case (Suc fuel)
  have pick: "\<forall>as. as \<noteq> {} \<longrightarrow> rw_pick w as \<in> as" and rr: "rangers_ready (rw_failures w) (rs_rangers s)" and run: "rw_run w" "\<not> rw_stopping w"
    using Suc.prems(1) by (simp_all add: run_ready_def)
  have some: "\<not> (rs_rangers s = [] \<or> \<not> rw_run w)" using rr run by (auto simp: rangers_ready_def)
  obtain wt n where n: "get_next_unassigned (rw_pick w) g = (wt, n)" by force
  note nxt = next_given [OF pick, of g, unfolded n prod.case]
  show ?case
  proof (cases n)
    case None
    then have "assign_run (Suc fuel) w s g = Some (if wt then Waiting_columns else All_given, s, g)" using some by (simp add: n)
    moreover have "run_result w s g [] (if wt then Waiting_columns else All_given, s, g)"
      using nxt None by (auto simp: run_result_def split: if_splits)
    ultimately show ?thesis by blast
  next
    case (Some a)
    then have a: "a \<in> waiting g" using nxt by simp
    define g0 where "g0 = fst (get_last_rgr (rw_last w) a g)"
    obtain i where i: "i < length (rs_rangers s)" "next_rgr (rw_last w) (rw_stopping w) (rw_failures w) a (rs_rangers s) g = (rs_rangers s, g0, Some i)"
      "acknowledged (rs_rangers s ! i)" using next_rgr_finds [OF rr, of "rw_last w" a g] run(2) by (auto simp: g0_def)
    have known: "\<not> (\<not> rw_known w (mr_cid (mg_store g0 a)) \<or> map_of (mg_columns g0) (mr_cid (mg_store g0 a)) = None)"
      using Suc.prems(1) a by (simp add: run_ready_def g0_def last_parts)
    obtain s1 g1 where q: "queue_range (rw_ts w) a i (s\<lparr>rs_rangers := rs_rangers s\<rparr>) g0 = (s1, g1)" by force
    note k = queue_keeps [OF Suc.prems(1,2) a i(1,3) q [unfolded g0_def]]
    obtain rgrid where rg: "rgrid \<in> takers s" "rs_asked s1 = rs_asked s @ [(rgrid, a)]" "mr_state (mg_store g1 a) = Range_queued"
      "mr_rgrid (mg_store g1 a) = rgrid" using k(5) by blast
    have eq: "assign_run (Suc fuel) w s g =
        (if \<not> sint (rs_assignments s1) < sint (rw_due w) then Some (Limit_reached, s1, g1) else assign_run fuel w s1 g1)"
      using some known by (simp only: assign_run.simps if_False n Some prod.case option.case i(2) Let_def q)
    show ?thesis
    proof (cases "sint (rs_assignments s1) < sint (rw_due w)")
      case False
      then have "run_result w s1 g1 [] (Limit_reached, s1, g1)" by (simp add: run_result_def)
      from run_result_step [OF this rg(2) k(3) a k(4) rg(1,3,4) k(6)] show ?thesis using eq False by auto
    next
      case True
      have "card (waiting g1) < fuel" using Suc.prems(3) card_Suc_Diff1 [OF finite_waiting [OF Suc.prems(2)] a] by (simp add: k(3))
      from Suc.IH [OF k(1,2) this] obtain e s' g' asked where r: "assign_run fuel w s1 g1 = Some (e, s', g')"
        "run_result w s1 g1 asked (e, s', g')" by (metis prod_cases3)
      from run_result_step [OF r(2) rg(2) k(3) a k(4) rg(1,3,4) k(6)] show ?thesis using eq True r(1) by auto
    qed
  qed
qed simp

text \<open>C16: In good order giving the ranges to the rangers comes to an end, after at most as many rounds as there are ranges
  that wait. Good order (\<open>run_ready\<close>) is that the manager runs and does not stop, that there is an acknowledged
  ranger, no acknowledged one shuts down and each is offline or below the limit of failures (\<open>rangers_ready\<close>), and that
  the column and the schema of every waiting range are known. Then each range is asked for at most once, of a ranger
  that is acknowledged, and no longer waits; the run ends when nothing is left, when the columns of an earlier group
  are not in order yet, or when the limit of requests is reached, and for no other of its reasons. Out of that
  order a run may end without giving anything away (\<open>shutting_ranger_blocks\<close>) or, for a waiting range of an
  unknown schema, not at all.\<close>

theorem ranges_get_assigned:
  assumes "mngr_step\<^sup>*\<^sup>* mngr_new g" and "run_ready w s g" and "card (waiting g) < fuel"
  shows "\<exists>asked e s' g'. assign_run fuel w s g = Some (e, s', g') \<and> rs_asked s' = rs_asked s @ asked \<and> distinct (map snd asked) \<and>
    snd ` set asked \<subseteq> waiting g \<and> waiting g' = waiting g - snd ` set asked \<and>
    (\<forall>(rgrid, a) \<in> set asked. (\<exists>r \<in> set (rs_rangers s). acknowledged r \<and> rg_id r = rgrid) \<and>
      mr_state (mg_store g' a) = Range_queued \<and> mr_rgrid (mg_store g' a) = rgrid) \<and>
    (case e of All_given \<Rightarrow> waiting g' = {} | Waiting_columns \<Rightarrow> \<exists>n < 3. \<not> columns_done g' n
     | Limit_reached \<Rightarrow> \<not> sint (rs_assignments s') < sint (rw_due w) | _ \<Rightarrow> False)"
proof -
  have "groups_ok g" using reached_ok [OF assms(1)] by (simp add: mngr_ok_def)
  from run_ends [OF assms(2) this assms(3)] show ?thesis by (fastforce simp: run_result_def takers_def)
qed

section \<open>Examples\<close>

text \<open>One ranger and the two ranges of a column; three rangers that report.\<close>

definition one_ranger :: rangers where
  "one_ranger = \<lparr>rs_rangers = [(Ranger_new 7 [])\<lparr>rg_state := RGR_ACK\<rparr>], rs_assignments = 0, rs_asked = []\<rparr>"

definition usual_world :: run_world where
  "usual_world = \<lparr>rw_pick = Inf, rw_last = \<lambda>_ _. [], rw_known = \<lambda>_. True, rw_run = True, rw_stopping = False, rw_failures = 255,
     rw_due = 8, rw_ts = 0\<rparr>"

lemma two_ranges_waiting: "waiting two_ranges = {0, 1} \<and> (\<forall>a < 2. mr_cid (mg_store two_ranges a) = 5) \<and> map_of (mg_columns two_ranges) 5 \<noteq> None"
  by (auto simp: two_ranges_def is_an_initialization_def mngr_new_def put_column_def Column_new_def on_column_def col_init_def
    add_range_def Let_def assign_add_def Range_new_def waiting_def assign_group_def less_Suc_eq numeral_eq_Suc)

theorem ranges_get_assigned_witness:
  "\<exists>asked e s' g'. assign_run 3 usual_world one_ranger two_ranges = Some (e, s', g') \<and>
    snd ` set asked \<subseteq> {0, 1} \<and> rs_asked s' = asked \<and> waiting g' = {0, 1} - snd ` set asked"
proof -
  have "mngr_step mngr_new two_ranges"
    using step_initialize [of "Some [1, 2]" 5 LEXIC mngr_new] by (simp add: two_ranges_def prod_eq_iff)
  then have r: "mngr_step\<^sup>*\<^sup>* mngr_new two_ranges" by simp
  note w = two_ranges_waiting
  have "rangers_ready 255 (rs_rangers one_ranger)"
    by (simp add: one_ranger_def rangers_ready_def fit_def acknowledged_def shutting_down_def under_way_def Ranger_new_def
      RGR_ACK_def RGR_SHUTTINGDOWN_def)
  then have "run_ready usual_world one_ranger two_ranges"
    using w by (auto simp: run_ready_def usual_world_def Inf_nat_def1 one_ranger_def under_way_def Ranger_new_def)
  from ranges_get_assigned [OF r this, of 3] show ?thesis using w by (auto simp: one_ranger_def)
qed

theorem loads_in_bounds_witness:
  "sum_list (map (\<lambda>r. unat (rs_balance r)) (evaluate 5 [resources_of 1 1000 2000 90, resources_of 2 1000 2000 3, resources_of 3 10 20 40])) \<le> 5"
  using loads_in_bounds [of "[resources_of 1 1000 2000 90, resources_of 2 1000 2000 3, resources_of 3 10 20 40]" 5]
  by (simp add: resources_of_def)

end
