(* ===== verification/Pam_Max_Retries.thy ===== *)
theory Pam_Max_Retries
  imports "HOL-Library.Word"
begin

text \<open>
  The PAM module that counts login attempts in a counter column:
  src/src/c/lib/swcdb/pam/pam_swcdb_max_retries.c. Outside the repository's code are the option
  parser and \<open>g_snprintf\<close> of GLib, the Thrift client and PAM itself: they are parameters, and the
  calls the module makes to them are its trace. Pointers to characters are optional strings.
\<close>

section \<open>What the module calls\<close>

datatype arg = ArgS "string option" | ArgD int

datatype event =
    Connect "string option" "32 word"
  | Disconnect
  | Select string
  | Update string
  | Log string

datatype ('a) reply = Ok 'a | G_Error | Thrift_Exception | Unknown_Error

text \<open>\<open>g_snprintf(buffer, n, format, ...)\<close> returns a length and what the buffer's pointer then is.\<close>

type_synonym snprintf = "string option \<Rightarrow> nat \<Rightarrow> string option \<Rightarrow> arg list \<Rightarrow> int \<times> string option"

record broker =
  b_connect :: "string option \<Rightarrow> 32 word \<Rightarrow> unit reply"
  b_disconnect :: "unit reply"
  b_select :: "string \<Rightarrow> 64 word list reply"
  b_update :: "string \<Rightarrow> unit reply"

section \<open>Configuration\<close>

record swcdb_pam_cfg =
  host :: "string option"
  port :: "32 word"
  timeout :: "32 word"
  column :: "string option"
  key_format :: "string option"
  maxtries :: "32 word"

definition cfg_defaults :: swcdb_pam_cfg where
  "cfg_defaults = \<lparr>host = None, port = 18000, timeout = 30000, column = None, key_format = None,
     maxtries = 10\<rparr>"

definition swcdb_pam_read_config ::
  "(string list \<Rightarrow> swcdb_pam_cfg \<Rightarrow> swcdb_pam_cfg option) \<Rightarrow> string list \<Rightarrow> swcdb_pam_cfg option \<times> event list" where
  "swcdb_pam_read_config parse argv =
     (case parse argv cfg_defaults of
        None \<Rightarrow> (None, [Log ''cfg-parse error''])
      | Some cfg \<Rightarrow>
          if column cfg = None then (None, [Log ''cfg-missing''])
          else
            let cfg = (if host cfg = None then cfg\<lparr>host := Some ''localhost''\<rparr> else cfg);
                cfg = (if key_format cfg = None then cfg\<lparr>key_format := Some ''[%s]''\<rparr> else cfg)
            in (Some cfg, []))"

section \<open>The connection\<close>

definition swcdb_pam_connect :: "broker \<Rightarrow> swcdb_pam_cfg \<Rightarrow> bool \<times> event list" where
  "swcdb_pam_connect b cfg =
     (case b_connect b (host cfg) (port cfg) of
        Ok _ \<Rightarrow> (True, [Connect (host cfg) (port cfg)])
      | _ \<Rightarrow> (False, [Connect (host cfg) (port cfg), Log ''connect-failed'']))"

definition swcdb_pam_disconnect :: "broker \<Rightarrow> bool \<times> event list" where
  "swcdb_pam_disconnect b =
     (case b_disconnect b of
        Ok _ \<Rightarrow> (True, [Disconnect])
      | _ \<Rightarrow> (False, [Disconnect, Log ''disconnect-failed'']))"

section \<open>The attempts\<close>

text \<open>The quotes around an empty value in the statements.\<close>

definition no_value :: string where "no_value = [CHR 0x27, CHR 0x27]"

definition select_format :: string where
  "select_format = ''select where col('%s')=(cells=(key=%s limit=1))''"

definition update_format :: string where
  "update_format = ''update cell(INSERT,'%s', %s, '' @ no_value @ '', '%s%d')''"

text \<open>The statement that resets the attempts has no closing parenthesis.\<close>

definition reset_format :: string where
  "reset_format = ''update cell(INSERT,'%s', %s, '' @ no_value @ '', '=0'' @ [CHR 0x27]"

text \<open>The tries that are stored: the first counter cell, and 0 when there is none or an error.\<close>

definition stored_tries :: "broker \<Rightarrow> string \<Rightarrow> 64 word \<times> event list" where
  "stored_tries b sql =
     (case b_select b sql of
        Ok cells \<Rightarrow> (case cells of v # _ \<Rightarrow> v | [] \<Rightarrow> 0, [Select sql, Log ''query''])
      | G_Error \<Rightarrow> (0, [Select sql, Log ''select-failed''])
      | Thrift_Exception \<Rightarrow> (0, [Select sql, Log ''select-exception''])
      | Unknown_Error \<Rightarrow> (0, [Select sql, Log ''select-failed'']))"

definition store_update :: "broker \<Rightarrow> string \<Rightarrow> event list" where
  "store_update b update =
     (case b_update b update of
        Ok _ \<Rightarrow> [Update update, Log ''update'']
      | G_Error \<Rightarrow> [Update update, Log ''update-failed'']
      | Thrift_Exception \<Rightarrow> [Update update, Log ''update-exception'']
      | Unknown_Error \<Rightarrow> [Update update, Log ''update-failed''])"

definition tries_adjust :: "64 word \<Rightarrow> bool" where
  "tries_adjust tries \<longleftrightarrow> sint tries < 0"

definition tries_allowed :: "64 word \<Rightarrow> 32 word \<Rightarrow> bool" where
  "tries_allowed tries mx \<longleftrightarrow> tries = 0 \<or> \<not> tries_adjust tries \<or> sint tries \<le> sint mx"

definition swcdb_pam_confirm_state ::
  "snprintf \<Rightarrow> broker \<Rightarrow> swcdb_pam_cfg \<Rightarrow> string \<Rightarrow> bool \<times> event list" where
  "swcdb_pam_confirm_state g_snprintf b cfg pam_rhost =
     (let (connected, tr) = swcdb_pam_connect b cfg; done = snd (swcdb_pam_disconnect b) in
      if \<not> connected then (True, tr)
      else
        let (len, key) = g_snprintf None 256 (key_format cfg) [ArgS (Some pam_rhost)] in
        if len = 0 then (False, tr @ done)
        else
          let (len, sql) = g_snprintf None 1024 (Some select_format)
                [ArgS (column cfg), ArgS key] in
          if len = 0 \<or> sql = None then (True, tr @ done)
          else
            let (tries, asked) = stored_tries b (the sql);
                adj = tries_adjust tries;
                allowed = tries_allowed tries (maxtries cfg);
                (len, update) = g_snprintf None 1024 (Some update_format)
                  [ArgS (column cfg), ArgS key, ArgS (Some (if adj then ''='' else ''+'')),
                   ArgD (if adj then sint (maxtries cfg) else 1)]
            in if len = 0 \<or> update = None then (allowed, tr @ asked @ done)
               else (allowed, tr @ asked @ store_update b (the update) @ done))"

definition swcdb_pam_reduce_attempt ::
  "snprintf \<Rightarrow> broker \<Rightarrow> swcdb_pam_cfg \<Rightarrow> string \<Rightarrow> event list" where
  "swcdb_pam_reduce_attempt g_snprintf b cfg pam_rhost =
     (let (connected, tr) = swcdb_pam_connect b cfg; done = snd (swcdb_pam_disconnect b) in
      if \<not> connected then tr
      else
        let (len, key) = g_snprintf None 256 (key_format cfg) [ArgS (Some pam_rhost)] in
        if len = 0 \<or> key = None then tr @ done
        else
          let (len, update) = g_snprintf None 1024 (Some reset_format)
                [ArgS (column cfg), ArgS key] in
          if len = 0 \<or> update = None then tr @ done
          else tr @ store_update b (the update) @ done)"

section \<open>The handlers\<close>

datatype pam_result = PAM_SUCCESS | PAM_PERM_DENIED | PAM_MAXTRIES

text \<open>\<open>pam_get_item\<close>: whether it succeeds, and the remote host it gives.\<close>

definition pam_sm_authenticate ::
  "snprintf \<Rightarrow> (string list \<Rightarrow> swcdb_pam_cfg \<Rightarrow> swcdb_pam_cfg option) \<Rightarrow> broker \<Rightarrow> bool \<times> string option \<Rightarrow>
    string list \<Rightarrow> pam_result \<times> event list" where
  "pam_sm_authenticate g_snprintf parse b item argv =
     (if \<not> fst item then (PAM_PERM_DENIED, [Log ''Failed to get pam_rhost''])
      else case snd item of
          None \<Rightarrow> (PAM_PERM_DENIED, [Log ''Failed pam_rhost is NULL''])
        | Some pam_rhost \<Rightarrow>
            (case swcdb_pam_read_config parse argv of
               (None, tr) \<Rightarrow> (PAM_SUCCESS, tr)
             | (Some cfg, tr) \<Rightarrow>
                 let (allowed, ev) = swcdb_pam_confirm_state g_snprintf b cfg pam_rhost
                 in (if allowed then PAM_SUCCESS else PAM_MAXTRIES, tr @ ev)))"

definition pam_sm_setcred :: "pam_result \<times> event list" where
  "pam_sm_setcred = (PAM_SUCCESS, [Log ''pam_sm_setcred''])"

definition pam_sm_open_session ::
  "snprintf \<Rightarrow> (string list \<Rightarrow> swcdb_pam_cfg \<Rightarrow> swcdb_pam_cfg option) \<Rightarrow> broker \<Rightarrow> bool \<times> string option \<Rightarrow>
    string list \<Rightarrow> pam_result \<times> event list" where
  "pam_sm_open_session g_snprintf parse b item argv =
     (if \<not> fst item then (PAM_PERM_DENIED, [Log ''Failed to get pam_rhost''])
      else case snd item of
          None \<Rightarrow> (PAM_PERM_DENIED, [Log ''Failed pam_rhost is NULL''])
        | Some pam_rhost \<Rightarrow>
            (case swcdb_pam_read_config parse argv of
               (None, tr) \<Rightarrow> (PAM_SUCCESS, tr)
             | (Some cfg, tr) \<Rightarrow> (PAM_SUCCESS, tr @ swcdb_pam_reduce_attempt g_snprintf b cfg pam_rhost)))"

definition pam_sm_close_session :: "pam_result \<times> event list" where
  "pam_sm_close_session = (PAM_SUCCESS, [])"

section \<open>What it does\<close>

definition is_query :: "event \<Rightarrow> bool" where
  "is_query e \<longleftrightarrow> (case e of Select _ \<Rightarrow> True | Update _ \<Rightarrow> True | _ \<Rightarrow> False)"

lemma connection_asks_nothing:
  "swcdb_pam_connect b cfg = (ok, tr) \<Longrightarrow> \<not> list_ex is_query tr"
  "\<not> list_ex is_query (snd (swcdb_pam_disconnect b))"
  by (auto simp: swcdb_pam_connect_def swcdb_pam_disconnect_def is_query_def split: reply.splits)

lemma tries_never_refused: "0 \<le> sint mx \<Longrightarrow> tries_allowed tries mx"
  by (simp add: tries_allowed_def tries_adjust_def)

lemma confirm_state_allows:
  assumes "0 \<le> sint (maxtries cfg)" "fst (g_snprintf None 256 (key_format cfg) [ArgS (Some rhost)]) \<noteq> 0"
  shows "fst (swcdb_pam_confirm_state g_snprintf b cfg rhost)"
  using assms by (auto simp: swcdb_pam_confirm_state_def tries_never_refused Let_def split: prod.splits)

text \<open>C38: With a limit of zero or more the module never refuses: once the remote host is known, and
  the key's text is not empty, authentication succeeds, whatever the broker answers, so also for
  every number of stored tries.\<close>

theorem pam_limit_never_refuses:
  assumes "\<And>argv cfg cfg'. parse argv cfg = Some cfg' \<Longrightarrow> 0 \<le> sint (maxtries cfg')"
    and "\<And>fmt. fst (g_snprintf None 256 fmt [ArgS (Some rhost)]) \<noteq> 0"
  shows "fst (pam_sm_authenticate g_snprintf parse b (True, Some rhost) argv) = PAM_SUCCESS"
proof (cases "swcdb_pam_read_config parse argv")
  case (Pair r tr)
  show ?thesis
  proof (cases r)
    case None
    then show ?thesis using Pair by (simp add: pam_sm_authenticate_def)
  next
    case (Some cfg)
    then obtain cfg0 where "parse argv cfg_defaults = Some cfg0" "maxtries cfg = maxtries cfg0"
      using Pair by (auto simp: swcdb_pam_read_config_def Let_def split: option.splits if_splits)
    then have "0 \<le> sint (maxtries cfg)" using assms(1) by simp
    then have "fst (swcdb_pam_confirm_state g_snprintf b cfg rhost)"
      using confirm_state_allows assms(2) by blast
    then show ?thesis using Pair Some by (auto simp: pam_sm_authenticate_def Let_def split: prod.splits)
  qed
qed

text \<open>The texts of the key and the statements are printed to null pointers, which no call can
  change as pointers are passed by value: the module connects and disconnects and never reads or
  writes a counter, neither for an attempt nor for a login.\<close>

lemma pam_never_asks:
  assumes null: "\<And>n fmt args. snd (g_snprintf None n fmt args) = None"
  shows "\<not> list_ex is_query (snd (swcdb_pam_confirm_state g_snprintf b cfg rhost)) \<and>
    \<not> list_ex is_query (swcdb_pam_reduce_attempt g_snprintf b cfg rhost)"
proof -
  obtain ok tr where c: "swcdb_pam_connect b cfg = (ok, tr)" by fastforce
  note q = connection_asks_nothing(1) [OF c] connection_asks_nothing(2) [of b]
  obtain l1 where g1: "g_snprintf None 256 (key_format cfg) [ArgS (Some rhost)] = (l1, None)"
    using null [of 256 "key_format cfg" "[ArgS (Some rhost)]"] by (metis prod.collapse)
  obtain l2 where g2: "g_snprintf None 1024 (Some select_format)
      [ArgS (column cfg), ArgS None] = (l2, None)"
    using null by (metis prod.collapse)
  show ?thesis
    using q by (simp add: swcdb_pam_confirm_state_def swcdb_pam_reduce_attempt_def c g1 g2 Let_def)
qed

definition glib_null :: snprintf where
  "glib_null buf n fmt args = (-1, buf)"

definition counting_broker :: "64 word \<Rightarrow> broker" where
  "counting_broker tries = \<lparr>b_connect = \<lambda>_ _. Ok (), b_disconnect = Ok (), b_select = \<lambda>_. Ok [tries],
     b_update = \<lambda>_. Ok ()\<rparr>"

theorem pam_limit_never_refuses_witness:
  "fst (pam_sm_authenticate glib_null (\<lambda>_ cfg. Some (cfg\<lparr>column := Some ''tries'', maxtries := 3\<rparr>))
    (counting_broker 1000) (True, Some ''10.0.0.1'') []) = PAM_SUCCESS"
  by (rule pam_limit_never_refuses) (auto simp: glib_null_def)

lemma pam_never_asks_witness:
  "\<not> list_ex is_query (snd (swcdb_pam_confirm_state glib_null (counting_broker 1000)
      (cfg_defaults\<lparr>column := Some ''tries''\<rparr>) ''10.0.0.1'')) \<and>
    \<not> list_ex is_query (swcdb_pam_reduce_attempt glib_null (counting_broker 1000)
      (cfg_defaults\<lparr>column := Some ''tries''\<rparr>) ''10.0.0.1'')"
  by (rule pam_never_asks) (simp add: glib_null_def)

end
