(* ===== verification/Core_Concurrency.thy ===== *)
theory Core_Concurrency
  imports "HOL-Library.Word" "HOL-Library.Multiset"
begin

text \<open>
  The objects threads share, as what one thread does to them while it holds their mutex:
  src/src/cc/include/swcdb/core/Semaphore.h with its Semaphore.cc, QueueSafe.h, QueueSafeStated.h and
  QueuePointer.h, and the atomic CompletionCounter.h and StateRunning.h. A wait is an operation that
  is not enabled until its predicate holds. Step relations say how threads use a semaphore and a
  stated queue, and the theorems are about all reachable states.
\<close>

section \<open>The semaphore\<close>

record semaphore =
  s_sz :: "64 word"
  s_count :: "64 word"

definition Semaphore_new :: "64 word \<Rightarrow> 64 word \<Rightarrow> semaphore" where
  "Semaphore_new sz pre_acquire = \<lparr>s_sz = sz, s_count = pre_acquire\<rparr>"

definition available :: "semaphore \<Rightarrow> 64 word" where
  "available s = s_sz s - s_count s"

definition has_pending :: "semaphore \<Rightarrow> bool" where
  "has_pending s \<longleftrightarrow> s_count s \<noteq> 0"

definition wait_until_under :: "64 word \<Rightarrow> semaphore \<Rightarrow> semaphore option" where
  "wait_until_under sz s = (if s_count s < sz then Some s else None)"

definition wait_until_under_and_acquire :: "64 word \<Rightarrow> semaphore \<Rightarrow> semaphore option" where
  "wait_until_under_and_acquire sz s = (if s_count s < sz then Some (s\<lparr>s_count := s_count s + 1\<rparr>) else None)"

definition acquire :: "semaphore \<Rightarrow> semaphore option" where
  "acquire s = (if s_count s < s_sz s then Some (s\<lparr>s_count := s_count s + 1\<rparr>) else None)"

definition release :: "semaphore \<Rightarrow> semaphore" where
  "release s = s\<lparr>s_count := s_count s - 1\<rparr>"

definition wait_available :: "semaphore \<Rightarrow> 64 word option" where
  "wait_available s = (if s_count s < s_sz s then Some (s_sz s - s_count s) else None)"

definition wait_all :: "semaphore \<Rightarrow> semaphore option" where
  "wait_all s = (if s_count s = 0 then Some s else None)"

text \<open>Threads acquire, wait and release what they hold; the second component counts what is held.\<close>

inductive sem_step :: "semaphore \<times> nat \<Rightarrow> semaphore \<times> nat \<Rightarrow> bool" where
  sem_acquire: "acquire s = Some s' \<Longrightarrow> sem_step (s, h) (s', Suc h)"
| sem_under: "n \<le> s_sz s \<Longrightarrow> wait_until_under_and_acquire n s = Some s' \<Longrightarrow> sem_step (s, h) (s', Suc h)"
| sem_release: "sem_step (s, Suc h) (release s, h)"

inductive_cases sem_stepE: "sem_step (s, h) (s', h')"

definition sem_inv :: "64 word \<Rightarrow> semaphore \<times> nat \<Rightarrow> bool" where
  "sem_inv sz = (\<lambda>(s, h). s_sz s = sz \<and> unat (s_count s) = h \<and> h \<le> unat sz)"

lemma unat_Suc_below: "(a :: 64 word) < b \<Longrightarrow> unat (a + 1) = Suc (unat a) \<and> unat (a + 1) \<le> unat b"
proof -
  assume "a < b"
  then have l: "Suc (unat a) \<le> unat b" by (simp add: word_less_nat_alt Suc_le_eq)
  then have "Suc (unat a) < 2 ^ 64" using unsigned_less [of b, where ?'a = nat] by simp
  then have "unat (a + 1) = Suc (unat a)" by (simp add: unat_word_ariths take_bit_nat_eq_self)
  then show ?thesis using l by simp
qed

lemma sem_step_keeps: "sem_step x y \<Longrightarrow> sem_inv sz x \<Longrightarrow> sem_inv sz y"
proof (induction rule: sem_step.induct)
  case (sem_acquire s s' h)
  then show ?case using unat_Suc_below [of "s_count s" "s_sz s"]
    by (auto simp: sem_inv_def acquire_def split: if_splits)
next
  case (sem_under n s s' h)
  then have "s_count s < n" "s_count s < s_sz s"
    by (auto simp: wait_until_under_and_acquire_def split: if_splits)
  then show ?case using unat_Suc_below [of "s_count s" "s_sz s"] sem_under
    by (auto simp: sem_inv_def wait_until_under_and_acquire_def split: if_splits)
next
  case (sem_release s h)
  then have "unat (s_count s - 1) = h" by (simp add: sem_inv_def) (metis Suc_neq_Zero diff_Suc_1 unat_0 unat_minus_one)
  then show ?case using sem_release by (simp add: sem_inv_def release_def)
qed

text \<open>C27: In every state threads can reach, the semaphore counts what is held, never more than its
  size: \<open>available\<close> does not wrap, an \<open>acquire\<close> is enabled exactly while less than the size is
  held, and \<open>wait_all\<close> passes exactly when all was released.\<close>

theorem semaphore_counts_held:
  assumes "pre \<le> sz" and "sem_step\<^sup>*\<^sup>* (Semaphore_new sz pre, unat pre) (s, h)"
  shows "unat (s_count s) = h \<and> h \<le> unat sz \<and> unat (available s) = unat sz - h \<and>
    (acquire s \<noteq> None \<longleftrightarrow> h < unat sz) \<and> (wait_all s \<noteq> None \<longleftrightarrow> h = 0) \<and> (has_pending s \<longleftrightarrow> 0 < h)"
proof -
  have "sem_inv sz (Semaphore_new sz pre, unat pre)"
    using assms(1) by (simp add: sem_inv_def Semaphore_new_def word_le_nat_alt)
  with assms(2) have "sem_inv sz (s, h)" by (induction rule: rtranclp_induct) (auto intro: sem_step_keeps)
  then show ?thesis
    by (auto simp: sem_inv_def available_def acquire_def wait_all_def has_pending_def word_less_nat_alt
        unat_sub word_le_nat_alt unat_eq_zero unat_gt_0)
qed

theorem semaphore_counts_held_witness:
  "available (release (release (Semaphore_new 3 2))) = 3"
proof -
  have "sem_step (Semaphore_new 3 2, Suc (Suc 0)) (release (Semaphore_new 3 2), Suc 0)"
    "sem_step (release (Semaphore_new 3 2), Suc 0) (release (release (Semaphore_new 3 2)), 0)"
    by (rule sem_release)+
  then have "sem_step\<^sup>*\<^sup>* (Semaphore_new 3 2, Suc (Suc 0)) (release (release (Semaphore_new 3 2)), 0)"
    by (meson rtranclp.rtrancl_refl rtranclp.rtrancl_into_rtrancl)
  then have "sem_step\<^sup>*\<^sup>* (Semaphore_new 3 2, unat (2 :: 64 word)) (release (release (Semaphore_new 3 2)), 0)"
    by (simp add: eval_nat_numeral(3) numeral_2_eq_2 [symmetric])
  from semaphore_counts_held [OF _ this] show ?thesis by (simp add: word_unat_eq_iff)
qed

section \<open>Queues\<close>

text \<open>\<open>QueueSafe\<close>: a list.\<close>

definition qs_push :: "'a list \<Rightarrow> 'a \<Rightarrow> 'a list" where "qs_push q x = q @ [x]"

definition qs_push_and_is_1st :: "'a list \<Rightarrow> 'a \<Rightarrow> 'a list \<times> bool" where
  "qs_push_and_is_1st q x = (q @ [x], q = [])"

definition qs_empty :: "'a list \<Rightarrow> bool" where "qs_empty q \<longleftrightarrow> q = []"

definition qs_front :: "'a list \<Rightarrow> 'a" where "qs_front q = hd q"

definition qs_pop_and_more :: "'a list \<Rightarrow> 'a list \<times> bool" where
  "qs_pop_and_more q = (tl q, tl q \<noteq> [])"

definition qs_pop :: "'a list \<Rightarrow> 'a list \<times> 'a option" where
  "qs_pop q = (case q of [] \<Rightarrow> (q, None) | x # xs \<Rightarrow> (xs, Some x))"

text \<open>\<open>QueuePointer\<close>: the nodes are addresses, and \<open>_other\<close> of a node is a field of the store. A raw
  pointer that was moved from keeps its value, so \<open>pop\<close> leaves the link of the node as it was.\<close>

record 'p pqueue =
  q_front :: "'p option"
  q_back :: "'p option"
  other :: "'p \<Rightarrow> 'p option"

definition pq_push :: "'p pqueue \<Rightarrow> 'p \<Rightarrow> 'p pqueue" where
  "pq_push q p =
     (let q = (case q_back q of
                 Some b \<Rightarrow> q\<lparr>other := (other q)(b := Some p)\<rparr>
               | None \<Rightarrow> q\<lparr>q_front := Some p\<rparr>)
      in q\<lparr>q_back := Some p\<rparr>)"

definition pq_push_and_is_1st :: "'p pqueue \<Rightarrow> 'p \<Rightarrow> 'p pqueue \<times> bool" where
  "pq_push_and_is_1st q p = (pq_push q p, q_front q = None)"

definition pq_empty :: "'p pqueue \<Rightarrow> bool" where "pq_empty q \<longleftrightarrow> q_front q = None"

definition pq_pop_and_more :: "'p pqueue \<Rightarrow> ('p pqueue \<times> bool) option" where
  "pq_pop_and_more q = (case q_front q of
       None \<Rightarrow> None
     | Some p \<Rightarrow> (let q = q\<lparr>q_front := other q p\<rparr>; next = q_front q
                 in Some (if next = None then q\<lparr>q_back := None\<rparr> else q, next \<noteq> None)))"

definition pq_pop :: "'p pqueue \<Rightarrow> 'p pqueue \<times> 'p option" where
  "pq_pop q = (case q_front q of
       None \<Rightarrow> (q, None)
     | Some p \<Rightarrow> (let q = q\<lparr>q_front := other q p\<rparr>
                 in (if q_front q = None then q\<lparr>q_back := None\<rparr> else q, Some p)))"

text \<open>The chain of the nodes from the front to the back.\<close>

fun chain :: "('p \<Rightarrow> 'p option) \<Rightarrow> 'p option \<Rightarrow> 'p list \<Rightarrow> bool" where
  "chain nxt at [] \<longleftrightarrow> at = None"
| "chain nxt at (p # ps) \<longleftrightarrow> at = Some p \<and> chain nxt (nxt p) ps"

definition pq_rep :: "'p pqueue \<Rightarrow> 'p list \<Rightarrow> bool" where
  "pq_rep q ps \<longleftrightarrow> distinct ps \<and> chain (other q) (q_front q) ps \<and>
     q_back q = (if ps = [] then None else Some (last ps))"

lemma chain_unique: "chain nxt at ps \<Longrightarrow> chain nxt at qs \<Longrightarrow> ps = qs"
  by (induction ps arbitrary: at qs) (case_tac qs; auto)+

lemma chain_frame: "b \<notin> set ps \<Longrightarrow> chain (nxt(b := v)) at ps = chain nxt at ps"
  by (induction ps arbitrary: at) auto

lemma chain_link:
  "chain nxt at (ps @ [b]) \<Longrightarrow> distinct (ps @ [b]) \<Longrightarrow> p \<notin> set (ps @ [b]) \<Longrightarrow> nxt p = None \<Longrightarrow>
    chain (nxt(b := Some p)) at (ps @ [b, p])"
  by (induction ps arbitrary: at) auto

lemma pq_push_rep:
  assumes "pq_rep q ps" "p \<notin> set ps" "other q p = None"
  shows "pq_rep (pq_push q p) (ps @ [p])"
proof (cases ps rule: rev_cases)
  case Nil
  then show ?thesis using assms by (simp add: pq_rep_def pq_push_def)
next
  case (snoc us b)
  then show ?thesis using assms chain_link [of "other q" "q_front q" us b p]
    by (auto simp: pq_rep_def pq_push_def)
qed

lemma pq_pop_rep:
  "pq_rep q (p # ps) \<Longrightarrow> pq_rep (fst (pq_pop q)) ps \<and> snd (pq_pop q) = Some p \<and>
    other (fst (pq_pop q)) = other q"
  by (cases ps) (auto simp: pq_rep_def pq_pop_def Let_def)

lemma pq_front_rep: "pq_rep q ps \<Longrightarrow> q_front q = None \<longleftrightarrow> ps = []"
  by (cases ps) (auto simp: pq_rep_def)

text \<open>The interface of both: a first-in first-out queue, with the items that may be pushed.\<close>

locale fifo =
  fixes rep :: "'q \<Rightarrow> 'a list \<Rightarrow> bool" and free :: "'q \<Rightarrow> 'a \<Rightarrow> bool"
    and push1 :: "'q \<Rightarrow> 'a \<Rightarrow> 'q \<times> bool" and pop :: "'q \<Rightarrow> 'q \<times> 'a option"
  assumes push_rep: "rep q xs \<Longrightarrow> x \<notin> set xs \<Longrightarrow> free q x \<Longrightarrow> rep (fst (push1 q x)) (xs @ [x])"
    and push_first: "rep q xs \<Longrightarrow> snd (push1 q x) \<longleftrightarrow> xs = []"
    and pop_Nil: "rep q [] \<Longrightarrow> pop q = (q, None)"
    and pop_Cons: "rep q (x # xs) \<Longrightarrow> rep (fst (pop q)) xs \<and> snd (pop q) = Some x"

text \<open>The loops that empty a queue: \<open>while(q.pop(&ptr))\<close>.\<close>

fun drain :: "nat \<Rightarrow> ('q \<Rightarrow> 'q \<times> 'a option) \<Rightarrow> 'q \<Rightarrow> ('q \<times> 'a list) option" where
  "drain 0 pop q = None"
| "drain (Suc fuel) pop q =
     (case pop q of
        (q, None) \<Rightarrow> Some (q, [])
      | (q, Some x) \<Rightarrow> map_option (\<lambda>(q, xs). (q, x # xs)) (drain fuel pop q))"

context fifo
begin

lemma drain_all: "rep q xs \<Longrightarrow> length xs < fuel \<Longrightarrow> \<exists>q'. drain fuel pop q = Some (q', xs) \<and> rep q' []"
proof (induction xs arbitrary: q fuel)
  case Nil
  then show ?case using pop_Nil by (cases fuel) auto
next
  case (Cons x xs)
  obtain f where f: "fuel = Suc f" using Cons.prems(2) by (cases fuel) auto
  obtain q1 where p: "pop q = (q1, Some x)" "rep q1 xs" using pop_Cons [OF Cons.prems(1)] by (metis prod.collapse)
  obtain q' where "drain f pop q1 = Some (q', xs)" "rep q' []" using Cons.IH [OF p(2)] Cons.prems(2) f by auto
  then show ?case using p f by auto
qed

end

interpretation safe: fifo "\<lambda>q xs. q = xs" "\<lambda>_ _. True" qs_push_and_is_1st qs_pop
  by unfold_locales (auto simp: qs_push_and_is_1st_def qs_pop_def)

interpretation ptr: fifo pq_rep "\<lambda>q p. other q p = None" pq_push_and_is_1st pq_pop
  by unfold_locales
    (auto simp: pq_push_and_is_1st_def pq_push_rep pq_front_rep pq_pop_rep, simp_all add: pq_rep_def pq_pop_def)

text \<open>C28: The pointer queue is a first-in first-out queue as long as a node is pushed with no link and
  not twice: a push appends and tells whether the queue was empty, a pop takes the oldest, and the
  loop that empties the queue gives all nodes in their order and ends.\<close>

theorem pointer_queue_is_fifo:
  assumes rep: "pq_rep q ps" and p: "p \<notin> set ps" "other q p = None"
  shows "(case pq_push_and_is_1st q p of (q', first) \<Rightarrow> pq_rep q' (ps @ [p]) \<and> (first \<longleftrightarrow> ps = []) \<and>
      (\<exists>q''. drain (length ps + 2) pq_pop q' = Some (q'', ps @ [p]) \<and> pq_rep q'' [])) \<and>
    (\<forall>x xs. ps = x # xs \<longrightarrow> pq_rep (fst (pq_pop q)) xs \<and> snd (pq_pop q) = Some x)"
proof -
  obtain q' first where r: "pq_push_and_is_1st q p = (q', first)" using prod.exhaust by blast
  have q': "pq_rep q' (ps @ [p])" "first \<longleftrightarrow> ps = []"
    using ptr.push_rep [OF rep p] ptr.push_first [OF rep, of p] r by simp_all
  have "\<exists>q''. drain (length ps + 2) pq_pop q' = Some (q'', ps @ [p]) \<and> pq_rep q'' []"
    by (rule ptr.drain_all [OF q'(1)]) simp
  moreover have "pq_rep (fst (pq_pop q)) xs \<and> snd (pq_pop q) = Some x" if "ps = x # xs" for x xs
    using ptr.pop_Cons [of q x xs] rep that by simp
  ultimately show ?thesis using q' unfolding r prod.case by blast
qed

theorem pointer_queue_is_fifo_witness:
  "\<exists>q''. drain 3 pq_pop (pq_push \<lparr>q_front = Some 7, q_back = Some 7, other = \<lambda>_. None\<rparr> (8 :: nat)) =
    Some (q'', [7, 8]) \<and> pq_rep q'' []"
proof -
  define q where "q = \<lparr>q_front = Some 7, q_back = Some 7, other = \<lambda>_. None :: nat option\<rparr>"
  have "pq_rep q [7]" "8 \<notin> set [7 :: nat]" "other q 8 = None" by (simp_all add: pq_rep_def q_def)
  from conjunct1 [OF pointer_queue_is_fifo [OF this]]
  have "\<exists>q''. drain (length [7 :: nat] + 2) pq_pop (pq_push q 8) = Some (q'', [7] @ [8]) \<and> pq_rep q'' []"
    unfolding pq_push_and_is_1st_def prod.case by blast
  then show ?thesis unfolding q_def by (simp add: numeral_3_eq_3)
qed

text \<open>With the link it was popped with, a node brings the ones behind it into the next queue; the
  callers reset \<open>_other\<close> first.\<close>

lemma stale_link_brings_others:
  "let q = pq_push (pq_push \<lparr>q_front = None, q_back = None, other = \<lambda>_. None\<rparr> (1 :: nat)) 2;
       (q, node) = pq_pop q;
       q2 = pq_push (q\<lparr>q_front := None, q_back := None\<rparr>) (the node)
   in snd (pq_pop (fst (pq_pop q2))) = Some 2"
  by (simp add: pq_push_def pq_pop_def)

section \<open>The stated queue\<close>

text \<open>
  \<open>QueueSafeStated\<close>: while it is active the items wait; who activates it works on the item and asks
  \<open>deactivating\<close> for the next one, until there is none and the queue is inactive again.
\<close>

record 'a stated =
  st_items :: "'a list"
  st_active :: bool

definition stated_new :: "'a stated" where "stated_new = \<lparr>st_items = [], st_active = False\<rparr>"

definition st_push :: "'a stated \<Rightarrow> 'a \<Rightarrow> 'a stated" where
  "st_push q x = q\<lparr>st_items := st_items q @ [x]\<rparr>"

definition st_front :: "'a stated \<Rightarrow> 'a" where "st_front q = hd (st_items q)"

definition st_empty :: "'a stated \<Rightarrow> bool" where "st_empty q \<longleftrightarrow> st_items q = []"

definition st_size :: "'a stated \<Rightarrow> nat" where "st_size q = length (st_items q)"

definition st_is_active :: "'a stated \<Rightarrow> bool" where "st_is_active q = st_active q"

definition st_activating :: "'a stated \<Rightarrow> 'a stated \<times> bool" where
  "st_activating q = (if st_active q \<or> st_items q = [] then (q, False) else (q\<lparr>st_active := True\<rparr>, True))"

definition st_deactivating :: "'a stated \<Rightarrow> 'a stated \<times> bool" where
  "st_deactivating q =
     (let q = q\<lparr>st_items := tl (st_items q)\<rparr>;
          q = (if st_items q = [] then q\<lparr>st_active := False\<rparr> else q)
      in (q, \<not> st_active q))"

definition st_deactivate :: "'a stated \<Rightarrow> 'a stated" where
  "st_deactivate q = q\<lparr>st_active := False\<rparr>"

definition st_activating_with :: "'a stated \<Rightarrow> 'a \<Rightarrow> 'a stated \<times> bool" where
  "st_activating_with q x =
     (if st_active q then (q\<lparr>st_items := st_items q @ [x]\<rparr>, False) else (q\<lparr>st_active := True\<rparr>, True))"

definition st_deactivating_to :: "'a stated \<Rightarrow> 'a stated \<times> 'a option \<times> bool" where
  "st_deactivating_to q =
     (case st_items q of
        [] \<Rightarrow> (q\<lparr>st_active := False\<rparr>, None, True)
      | x # xs \<Rightarrow> (q\<lparr>st_items := xs\<rparr>, Some x, \<not> st_active q))"

text \<open>
  How the connections, the columns and the cell stores use it: \<open>if(q.activating(item)) work(item)\<close>,
  and at the end of a work \<open>if(!q.deactivating(item)) work(item)\<close>. Any number of threads submit;
  \<open>working\<close> are the items being worked on, \<open>submitted\<close> and \<open>finished\<close> the history.
\<close>

record 'a use =
  queue :: "'a stated"
  working :: "'a list"
  submitted :: "'a list"
  finished :: "'a list"

definition use_start :: "'a use" where
  "use_start = \<lparr>queue = stated_new, working = [], submitted = [], finished = []\<rparr>"

inductive use_step :: "'a use \<Rightarrow> 'a use \<Rightarrow> bool" where
  use_submit: "st_activating_with (queue u) x = (q, starts) \<Longrightarrow>
    use_step u (u\<lparr>queue := q, working := (if starts then working u @ [x] else working u),
      submitted := submitted u @ [x]\<rparr>)"
| use_finish: "working u = xs @ x # ys \<Longrightarrow> st_deactivating_to (queue u) = (q, item, stop) \<Longrightarrow>
    use_step u (u\<lparr>queue := q, working := xs @ ys @ (if stop then [] else [the item]),
      finished := finished u @ [x]\<rparr>)"

inductive_simps use_step_simps: "use_step u v"

definition use_inv :: "'a use \<Rightarrow> bool" where
  "use_inv u \<longleftrightarrow> length (working u) \<le> 1 \<and> (st_active (queue u) \<longleftrightarrow> working u \<noteq> []) \<and>
     (st_items (queue u) \<noteq> [] \<longrightarrow> st_active (queue u)) \<and>
     submitted u = finished u @ working u @ st_items (queue u)"

lemma use_step_keeps: "use_step u v \<Longrightarrow> use_inv u \<Longrightarrow> use_inv v"
proof (induction rule: use_step.induct)
  case (use_submit u x q starts)
  then show ?case by (auto simp: use_inv_def st_activating_with_def split: if_splits)
next
  case (use_finish u xs x ys q item stop)
  then have w: "xs = []" "ys = []" by (auto simp: use_inv_def)
  show ?case
    using use_finish w by (cases "st_items (queue u)") (auto simp: use_inv_def st_deactivating_to_def)
qed

text \<open>C26: Under any interleaving of submitting and finishing threads at most one item is worked on, the
  items are finished in the order they were submitted, none is lost or worked on twice, and when
  nothing is being worked on everything submitted is finished.\<close>

theorem stated_queue_serializes:
  assumes "use_step\<^sup>*\<^sup>* use_start u"
  shows "length (working u) \<le> 1 \<and> submitted u = finished u @ working u @ st_items (queue u) \<and>
    (st_is_active (queue u) \<longleftrightarrow> working u \<noteq> []) \<and> (working u = [] \<longrightarrow> finished u = submitted u)"
proof -
  have "use_inv use_start" by (simp add: use_inv_def use_start_def stated_new_def)
  with assms have "use_inv u" by (induction rule: rtranclp_induct) (auto intro: use_step_keeps)
  then show ?thesis by (auto simp: use_inv_def st_is_active_def)
qed

theorem stated_queue_serializes_witness:
  "\<exists>u. use_step\<^sup>*\<^sup>* use_start u \<and> working u = [1 :: nat] \<and> submitted u = [1, 2] \<and> length (working u) \<le> 1"
proof -
  let ?a = "\<lparr>queue = \<lparr>st_items = [], st_active = True\<rparr>, working = [1 :: nat], submitted = [1], finished = []\<rparr>"
  let ?b = "\<lparr>queue = \<lparr>st_items = [2], st_active = True\<rparr>, working = [1 :: nat], submitted = [1, 2], finished = []\<rparr>"
  have "use_step use_start ?a" "use_step ?a ?b"
    by (auto simp: use_step_simps st_activating_with_def use_start_def stated_new_def)
  then have "use_step\<^sup>*\<^sup>* use_start ?b" by (meson rtranclp.rtrancl_refl rtranclp.rtrancl_into_rtrancl)
  with stated_queue_serializes [OF this] show ?thesis by (intro exI [of _ ?b]) simp
qed

section \<open>Atomics\<close>

text \<open>\<open>CompletionCounter\<close> at its default width; each operation gives the new count and its result.\<close>

definition cc_increment :: "32 word \<Rightarrow> 32 word \<Rightarrow> 32 word" where "cc_increment c v = c + v"

definition cc_is_last :: "32 word \<Rightarrow> 32 word \<times> bool" where "cc_is_last c = (c - 1, c = 1)"

definition cc_count :: "32 word \<Rightarrow> 32 word" where "cc_count c = c"

definition cc_increment_and_count :: "32 word \<Rightarrow> 32 word \<times> 32 word" where
  "cc_increment_and_count c = (c + 1, c + 1)"

definition cc_decrement_and_count :: "32 word \<Rightarrow> 32 word \<times> 32 word" where
  "cc_decrement_and_count c = (c - 1, c - 1)"

text \<open>\<open>StateRunning\<close>: the exchange is the weak one, which may fail on the expected value; then
  \<open>spurious\<close> holds and nothing is stored.\<close>

definition sr_running :: "bool \<Rightarrow> bool \<Rightarrow> bool \<times> bool" where
  "sr_running spurious st = (if \<not> st \<and> \<not> spurious then (True, False) else (st, True))"

definition sr_stop :: "bool \<Rightarrow> bool" where "sr_stop st = False"

text \<open>Of \<open>n\<close> threads that count down from \<open>n\<close>, in any order, exactly the last is told so.\<close>

fun count_down :: "nat \<Rightarrow> 32 word \<Rightarrow> bool list" where
  "count_down 0 c = []"
| "count_down (Suc n) c = snd (cc_is_last c) # count_down n (fst (cc_is_last c))"

lemma count_down_last:
  "0 < n \<Longrightarrow> n < 2 ^ 32 \<Longrightarrow> count_down n (of_nat n) = replicate (n - 1) False @ [True]"
proof (induction n)
  case (Suc n)
  have c: "(of_nat (Suc n) :: 32 word) - 1 = of_nat n" by simp
  have "(of_nat (Suc n) :: 32 word) = of_nat 1 \<longleftrightarrow> Suc n = 1"
    using Suc.prems by (simp add: word_of_nat_eq_iff take_bit_nat_eq_self del: of_nat_Suc)
  then have "(of_nat (Suc n) :: 32 word) = 1 \<longleftrightarrow> n = 0" by simp
  then show ?case
    using Suc c by (cases n) (simp_all add: cc_is_last_def del: of_nat_Suc)
qed simp

text \<open>A weak exchange that fails tells a caller that nothing runs that something does.\<close>

lemma weak_exchange_lies: "sr_running True False = (False, True)"
  by (simp add: sr_running_def)

end
