(* ===== verification/Spec2Isabelle.thy ===== *)
theory Spec2Isabelle
  imports Mutable_Versions Mutable_Segments Query_Select Range_Scan Mngr_Assign Pam_Max_Retries Core_Concurrency
begin

text \<open>
  SWC-DB is a wide-column database in C++ (src/src/cc) with a PAM module in C (src/src/c). A table
  cell has a key, which is a list of byte-string fractions, a flag (insert or one of the deletes), a
  value, a timestamp and a revision. The rangers keep cells in sorted containers, write them out as
  blocks with an interval that says what is inside, and exchange them in a binary format. This
  development models that data layer, from the integer encodings up to the container and its
  blocks and to the scans that answer a query from a container, the queues and semaphores the
  daemons are built on, and the PAM module.

  \<^bold>\<open>Conventions.\<close> Integers have the width of the code (\<open>u24\<close>, \<open>u32\<close>, \<open>u64\<close> and \<open>i64\<close> are words, a
  signed comparison is on \<open>sint\<close>). A pointer to bytes is the list of the bytes that can be read
  from it. A throw, and a read past a block, is an \<open>err\<close> on the left of a sum (\<open>res\<close>); a decoder
  goes from a \<open>reader\<close> (bytes and remaining count) to a value and a reader. A loop that need not
  end is a partial function into options. The clock, the compression libraries, RE2, the processor's
  long double operations, GLib, the Thrift client and PAM are arguments. C++ objects are records passed and returned; template
  parameters are arguments.

  \<^bold>\<open>Theories, bottom up.\<close>

  \<^item> \<open>Prelude\<close>: words, results, decoders (\<open>dbind\<close>), little-endian bytes, and the interface \<open>codec\<close>: the
    announced length is the written one, and decoding inverts encoding. \<open>codec_pos\<close> adds that
    nothing is empty, which makes a block of values readable to its end.
  \<^item> \<open>Serialization\<close>: src/src/cc/include/swcdb/core/Serialization.h. Varints of 24, 32 and 64 bits,
    tagged and fixed integers, byte strings; the codecs are interpretations of the interface.
  \<^item> \<open>Comparators\<close>: core/Comparators.h and Comparators_basic.h. The conditions on byte strings and
    integers, and the interface \<open>comp_order\<close> of a three-way comparison that is a total preorder.
  \<^item> \<open>Cell_Key\<close>: db/Cells/CellKey.h, CellKey.cc, CellKeyVec.h. The encoded key and its vector form;
    \<open>key_of\<close> is the key of a list of fractions, and every operation is one on that list.
  \<^item> \<open>Key_Comparator\<close>: db/Cells/KeyComparator.h. The four key sequences, comparison in full, up to a
    number of fractions and with a break condition, and the alignment of boxes; each sequence is an
    interpretation of \<open>comp_order\<close>.
  \<^item> \<open>Cells_Cell\<close>: db/Cells/Cell.h, Cell.cc and core/Encoder.cc. The cell, its setters, counters,
    value encoders and its format.
  \<^item> \<open>Cells_Mutable\<close>: db/Cells/Mutable.h and Mutable.cc. The container as a sorted list with counters
    of bytes and cells: search, every way to add (deletes, unfinalized cells, one version, several
    versions, counters), removal of overhead, configuration, finalizing, reading, writing,
    splitting. \<open>Mutable_Edits\<close> gives all ways to add one contract (the interface \<open>adder\<close>, six
    interpretations), \<open>Mutable_Container\<close> what follows for the container, \<open>Mutable_Versions\<close> what
    becomes of the versions and counters of a key.
  \<^item> \<open>Vectors_Vector\<close>: core/VectorsVector.h, the two-level vector the container is really kept in. The
    interface \<open>cursor\<close> is an iterator on a list; the vector's iterators interpret it, so a loop over
    the segments is a recursion over the list. \<open>Mutable_Segments\<close> uses it for the loop that removes
    overhead revisions: this is what justifies the list in \<open>Cells_Mutable\<close>.
  \<^item> \<open>Cells_Interval\<close>: db/Cells/Interval.h, Interval.cc, SpecsTimestamp.h, SpecsFlags.h. Intervals of
    keys and times with their aligned box; \<open>Mutable_Interval\<close>: a container writes a block and its
    interval.
  \<^item> \<open>Specs_Key\<close>: db/Cells/SpecsKey.h and SpecsKeyIntervals.h with their sources, the conditions on
    keys. \<open>Serial_Fields\<close>: db/Cells/CellValueSerialField.h and CellValueSerialFields.h, values made of
    typed fields; \<open>Specs_Serial\<close>: db/Cells/SpecsValueSerialFields.h, the conditions on such fields;
    \<open>Specs_Value\<close>: db/Cells/SpecsValue.h and SpecsValues.h, the conditions on values of every kind of
    column.
  \<^item> \<open>Specs_Interval\<close>: db/Cells/SpecsInterval.h with its source, SpecsUpdateOp.h,
    SpecsIntervalUpdate.h. What a scan asks for, its format, its matching of a cell and the range of
    keys its conditions leave; \<open>Specs_Range\<close>: what beginning, end and completed range mean on the
    fractions of keys.
  \<^item> \<open>Mutable_Scan\<close>: db/Cells/ReqScan.h, the scans of Mutable.cc, db/Cells/Result.h, and
    ranger/callbacks/RangeQuerySelect.h. The interface \<open>receiver\<close> is what takes the cells of a scan; the
    select and the test receiver interpret it.
  \<^item> \<open>Query_Select\<close>: core/comm/Serializable.h, db/Protocol/Rgr/params/RangeQuerySelect.h, the response in
    ranger/callbacks/RangeQuerySelect.h, and the client: BaseSingleColumn.cc and Scanner::rgr_selected. A
    select in as many requests as it takes, from the encoded request to the cells at the client.
  \<^item> \<open>Range_Blocks\<close>: ranger/db/RangeBlock.h and RangeBlocks.h with their sources. The blocks a range keeps its
    cells in: making them from the blocks of cell stores, taking logged cells, splitting, loading from
    encoded blocks and from the log, releasing, and scanning from block to block. The pointers
    \<open>next\<close> and \<open>prev\<close> and the index are one list. \<open>Range_Chain\<close>: what the blocks are to each other
    (\<open>chain_ok\<close>), kept by every step (\<open>blocks_step\<close>); the interface \<open>narrowing\<close> is the search by halving
    steps, interpreted on the blocks. \<open>Range_Scan\<close>: the interface \<open>limited_receiver\<close>, and scans over
    the blocks against the scan of one container.
  \<^item> \<open>Mngr_Ranges\<close>: manager/db/Range.h, Column.h and Columns.h with their sources. The ranges a manager gives to
    rangers, in a store, known to their column and to the group they wait in. \<open>Mngr_Order\<close>: what every step
    (\<open>column_step\<close>, \<open>mngr_step\<close>) keeps of them (\<open>mngr_ok\<close>), in which order they are given out, and which range
    is found for a key. \<open>Mngr_Rangers\<close>: manager/Ranger.h, RangersResources.h and Rangers.cc, the loads of
    rangers, the choice of one, and the run that assigns ranges; \<open>Mngr_Assign\<close>: loads in bounds, a
    ranger for each range, and the end of the run.
  \<^item> \<open>Core_Concurrency\<close>: core/Semaphore.h, QueueSafe.h, QueueSafeStated.h, QueuePointer.h,
    CompletionCounter.h, StateRunning.h. Operations under a mutex are atomic steps; step relations
    say how threads use them. The interface \<open>fifo\<close> is interpreted on the list queue and on the
    linked queue of raw pointers.
  \<^item> \<open>Pam_Max_Retries\<close>: src/src/c/lib/swcdb/pam/pam_swcdb_max_retries.c, with the trace of its calls.

  \<^bold>\<open>What is shown.\<close> Formats: every encoder writes its announced length and its decoder gives the value
  back and reads no further, and decoders stay inside their input. Keys: operations are list
  operations as long as the 32-bit size holds (beyond it adding is undefined, and inserting from the third place on is
  wrong), comparisons are total orders and agree with the fractions. Container: adding keeps it
  sorted, its counters exact and other keys untouched; with one version the latest revision wins in
  any order of arrival; no key exceeds its versions; finalizing leaves one sum for each key of a counter column; the search ends and
  passes nothing it should not; writing, reloading, scanning and splitting keep the cells; what
  a block's interval says holds for every cell of the block. Ranges: each key has exactly one block
  whatever happens to the blocks, a logged cell finds it, and a scan over the blocks, with waits for
  blocks that are still to be loaded, answers like the scan of one container. What is shown of scans - this, the answer of
  one container and the select in several requests - is for columns of one version in the sequences \<open>LEXIC\<close> and
  \<open>VOLUME\<close>; \<open>fc_end_stops_early\<close> and \<open>resume_loses_version\<close> show that it fails outside of that. Conditions on lists are
  characterised one by one. Manager: no range is forgotten,
  ranges are given out in the order of their groups, giving them ends and asks for each once where rangers and schemas
  are in order, and the loads of rangers stay in bounds. Threads: a stated queue serializes and
  loses nothing, a semaphore counts what is held. Where the code does not do what it is to do, the
  theorem states what it does on the input that shows it.

  \<^bold>\<open>Bounds and fuel.\<close> \<open>fits\<close> bounds a key to the widths of its counters (24-bit number and lengths of
  fractions, 32-bit size). Container theorems ask for fewer cells than \<open>2 ^ 64\<close> where sizes are
  compared. \<open>get_search\<close> has no fuel: that it returns is proved, for schemas with at least one
  version, and that it does not for none. \<open>sweep\<close> and \<open>drain\<close> have fuel; one more than the number of
  items is proved to be enough. \<open>add_raw_loop\<close> reads while bytes remain, with the number of bytes as
  fuel, as every cell has at least one; so does \<open>load_loop\<close>. \<open>split_on\<close> has the number of cells of the
  block, of which each split leaves fewer. \<open>narrow\<close> has none: its termination is proved. \<open>assign_run\<close> has
  fuel; more than the number of ranges that wait is proved to be enough where their columns are known, and
  where one is not the code does not end either.

  \<^bold>\<open>Not modelled.\<close> Printing and parsing of text; memory management (buffers, arenas, capacities); the updates of
  serial fields; the lists of scan specifications by column; adding and freeing between two keys; the commit log and the cell stores behind the blocks of a
  range, its updates within scans, read-ahead and memory; the communication layer; the handlers of the manager's and the
  ranger's requests, the exchange between managers and the filesystem broker, which are glue around asio, the file
  systems and what is modelled;
  generated Thrift code, shell and SQL parser.
\<close>

end
